(* ===== verification/Prelude.thy ===== *)
theory Prelude
  imports Main "HOL-Library.Word"
begin

text \<open>
  Shared ground of the development: the machine types of kernel/types.h, the limits of
  kernel/param.h, the effect type in which the kernel code is written (a state monad whose
  computations may panic or switch to the scheduler), a weakest-precondition calculus for it,
  and generic lemmas on lists and words.
\<close>

unbundle bit_operations_syntax

section \<open>Machine types\<close>

type_synonym byte = "8 word"
type_synonym u16 = "16 word"
type_synonym u32 = "32 word"
type_synonym u64 = "64 word"

text \<open>Collections: facts that compute weakest preconditions, and facts that split results.\<close>

named_theorems wp_simps "weakest preconditions of kernel operations"
named_theorems lock_simps "lock bookkeeping of the kernel thread"

section \<open>Kernel limits (kernel/param.h)\<close>

definition NPROC :: nat where "NPROC = 64"
definition NCPU :: nat where "NCPU = 8"
definition NOFILE :: nat where "NOFILE = 16"
definition NFILE :: nat where "NFILE = 100"
definition NINODE :: nat where "NINODE = 50"
definition NDEV :: nat where "NDEV = 10"
definition ROOTDEV :: u32 where "ROOTDEV = 1"
definition MAXARG :: nat where "MAXARG = 32"
definition MAXOPBLOCKS :: nat where "MAXOPBLOCKS = 10"
definition LOGSIZE :: nat where "LOGSIZE = MAXOPBLOCKS * 3"
definition NBUF :: nat where "NBUF = MAXOPBLOCKS * 3"
definition FSSIZE :: nat where "FSSIZE = 2000"
definition MAXPATH :: nat where "MAXPATH = 128"
definition USERSTACK :: nat where "USERSTACK = 1"

lemmas param_defs = NPROC_def NCPU_def NOFILE_def NFILE_def NINODE_def NDEV_def ROOTDEV_def
  MAXARG_def MAXOPBLOCKS_def LOGSIZE_def NBUF_def FSSIZE_def MAXPATH_def USERSTACK_def

section \<open>Results of kernel code\<close>

text \<open>
  A kernel computation runs on the state as one kernel thread sees it. It returns a value
  (\<open>Ok\<close>), stops the machine (\<open>Panic\<close>, \<open>panic()\<close> in kernel/printf.c never returns), or
  hands the CPU to the scheduler inside \<open>sched()\<close> (\<open>Swtch\<close>, with the state at that point).
  What the C code does after it is scheduled again is written as a computation of its own.
\<close>

datatype ('a, 's) result = Ok 'a 's | Panic string | Swtch 's

type_synonym ('s, 'a) kmon = "'s \<Rightarrow> ('a, 's) result"

abbreviation ret :: "'a \<Rightarrow> ('s, 'a) kmon" where
  "ret \<equiv> Ok"

definition bnd :: "('s, 'a) kmon \<Rightarrow> ('a \<Rightarrow> ('s, 'b) kmon) \<Rightarrow> ('s, 'b) kmon" where
  "bnd m f = (\<lambda>s. case m s of Ok a s' \<Rightarrow> f a s' | Panic e \<Rightarrow> Panic e | Swtch s' \<Rightarrow> Swtch s')"

definition panic :: "string \<Rightarrow> ('s, 'a) kmon" where
  "panic e = (\<lambda>s. Panic e)"

abbreviation swtch :: "('s, 'a) kmon" where
  "swtch \<equiv> Swtch"

definition gets :: "('s \<Rightarrow> 'a) \<Rightarrow> ('s, 'a) kmon" where
  "gets f = (\<lambda>s. Ok (f s) s)"

definition modify :: "('s \<Rightarrow> 's) \<Rightarrow> ('s, unit) kmon" where
  "modify f = (\<lambda>s. Ok () (f s))"

definition panic_if :: "bool \<Rightarrow> string \<Rightarrow> ('s, unit) kmon" where
  "panic_if b e = (if b then panic e else ret ())"

definition whenM :: "bool \<Rightarrow> ('s, unit) kmon \<Rightarrow> ('s, unit) kmon" where
  "whenM b m = (if b then m else ret ())"

text \<open>Statements run one after the other.\<close>

fun seqM :: "('s, unit) kmon list \<Rightarrow> ('s, unit) kmon" where
  "seqM [] = ret ()"
| "seqM (m # ms) = bnd m (\<lambda>_. seqM ms)"

text \<open>Statements before a \<open>return\<close>.\<close>

definition seq_ret :: "('s, unit) kmon list \<Rightarrow> 'a \<Rightarrow> ('s, 'a) kmon" where
  "seq_ret ms a = bnd (seqM ms) (\<lambda>_. ret a)"

text \<open>A \<open>for\<close> loop over the elements of a table, in order.\<close>

fun forM :: "'a list \<Rightarrow> ('a \<Rightarrow> ('s, unit) kmon) \<Rightarrow> ('s, unit) kmon" where
  "forM [] f = ret ()"
| "forM (x # xs) f = bnd (f x) (\<lambda>_. forM xs f)"

text \<open>A \<open>for\<close> loop that a \<open>return\<close> in its body ends: the first \<open>Some\<close> is the value.\<close>

fun findM :: "'a list \<Rightarrow> ('a \<Rightarrow> ('s, 'b option) kmon) \<Rightarrow> ('s, 'b option) kmon" where
  "findM [] f = ret None"
| "findM (x # xs) f =
     bnd (f x) (\<lambda>r. case r of Some y \<Rightarrow> ret (Some y) | None \<Rightarrow> findM xs f)"

section \<open>Weakest preconditions\<close>

text \<open>
  \<open>wp m Q s\<close>: from \<open>s\<close> the computation returns, neither panics nor switches away, and
  its value and final state satisfy \<open>Q\<close>. \<open>wlp m Q s\<close> is the same with panicking and
  switching allowed.
\<close>

definition wp :: "('s, 'a) kmon \<Rightarrow> ('a \<Rightarrow> 's \<Rightarrow> bool) \<Rightarrow> 's \<Rightarrow> bool" where
  "wp m Q s = (case m s of Ok a s' \<Rightarrow> Q a s' | Panic e \<Rightarrow> False | Swtch s' \<Rightarrow> False)"

definition wlp :: "('s, 'a) kmon \<Rightarrow> ('a \<Rightarrow> 's \<Rightarrow> bool) \<Rightarrow> 's \<Rightarrow> bool" where
  "wlp m Q s = (case m s of Ok a s' \<Rightarrow> Q a s' | Panic e \<Rightarrow> True | Swtch s' \<Rightarrow> True)"

lemma bnd_assoc: "bnd (bnd m f) g = bnd m (\<lambda>x. bnd (f x) g)"
  by (rule ext) (simp add: bnd_def split: result.splits)

lemma bnd_ret [simp]: "bnd (ret a) f = f a"
  by (simp add: bnd_def)

lemma ret_bnd [simp]: "bnd m ret = m"
  by (rule ext) (simp add: bnd_def split: result.splits)

lemma bnd_ret_right: "bnd m (\<lambda>_. ret ()) = m"
  by (rule ext) (simp add: bnd_def split: result.split)

lemma forM_snoc: "forM (xs @ [x]) f = bnd (forM xs f) (\<lambda>_. f x)"
  by (induction xs) (simp_all add: bnd_assoc bnd_ret_right)

lemma bnd_panic [simp]: "bnd (panic e) f = panic e"
  by (simp add: bnd_def panic_def)

lemma bnd_Ok: "m s = Ok a s' \<Longrightarrow> bnd m f s = f a s'"
  by (simp add: bnd_def)

lemma bnd_Panic: "m s = Panic e \<Longrightarrow> bnd m f s = Panic e"
  by (simp add: bnd_def)

lemma bnd_eq_Ok:
  "bnd m f s = Ok b s'' \<longleftrightarrow> (\<exists>a s'. m s = Ok a s' \<and> f a s' = Ok b s'')"
  by (auto simp: bnd_def split: result.splits)

lemma run_simps [simp]:
  "panic e s = Panic e"
  "gets f s = Ok (f s) s"
  "modify g s = Ok () (g s)"
  by (simp_all add: panic_def gets_def modify_def)

lemma bnd_run [simp]:
  "bnd (gets f) k s = k (f s) s"
  "bnd (modify g) k2 s = k2 () (g s)"
  "bnd swtch k3 s = Swtch s"
  by (simp_all add: bnd_def)

lemma panic_if_simps [simp]:
  "panic_if True e = panic e" "panic_if False e = ret ()"
  by (simp_all add: panic_if_def)

lemma whenM_simps [simp]:
  "whenM True m = m" "whenM False m = ret ()"
  by (simp_all add: whenM_def)

lemma wp_prim [wp_simps]:
  "wp (ret a) Q s = Q a s"
  "wp (panic e) Q s = False"
  "wp swtch Q s = False"
  "wp (gets f) Q s = Q (f s) s"
  "wp (modify g) Q' s = Q' () (g s)"
  by (simp_all add: wp_def)

lemma wp_bnd [wp_simps]: "wp (bnd m f) Q s = wp m (\<lambda>a. wp (f a) Q) s"
  by (simp add: wp_def bnd_def split: result.splits)

lemma wp_panic_if [wp_simps]: "wp (panic_if b e) Q s = (\<not> b \<and> Q () s)"
  by (simp add: panic_if_def wp_simps)

lemma wp_whenM [wp_simps]: "wp (whenM b m) Q s = (if b then wp m Q s else Q () s)"
  by (simp add: whenM_def wp_simps)

lemma wp_if [wp_simps]: "wp (if b then m1 else m2) Q s = (if b then wp m1 Q s else wp m2 Q s)"
  by simp

lemma wp_seqM [wp_simps]:
  "wp (seqM []) Q s = Q () s"
  "wp (seqM (m # ms)) Q s = wp m (\<lambda>_. wp (seqM ms) Q) s"
  by (simp_all add: wp_simps)

lemma wp_seq_ret [wp_simps]: "wp (seq_ret ms a) Q s = wp (seqM ms) (\<lambda>_. Q a) s"
  by (simp add: seq_ret_def wp_def bnd_def split: result.splits)

lemma wp_mono: "wp m Q s \<Longrightarrow> (\<And>a s'. Q a s' \<Longrightarrow> Q' a s') \<Longrightarrow> wp m Q' s"
  by (auto simp: wp_def split: result.splits)

lemma wp_Ok: "wp m Q s \<longleftrightarrow> (\<exists>a s'. m s = Ok a s' \<and> Q a s')"
  by (auto simp: wp_def split: result.splits)

lemma wp_eq_Ok: "m s = Ok a s' \<Longrightarrow> wp m Q s = Q a s'"
  by (simp add: wp_def)

lemma wlp_prim [wp_simps]:
  "wlp (ret a) Q s = Q a s"
  "wlp (panic e) Q s = True"
  "wlp swtch Q s = True"
  "wlp (gets f) Q s = Q (f s) s"
  "wlp (modify g) Q' s = Q' () (g s)"
  by (simp_all add: wlp_def)

lemma wlp_bnd [wp_simps]: "wlp (bnd m f) Q s = wlp m (\<lambda>a. wlp (f a) Q) s"
  by (simp add: wlp_def bnd_def split: result.splits)

lemma wlp_panic_if [wp_simps]: "wlp (panic_if b e) Q s = (b \<or> Q () s)"
  by (simp add: panic_if_def wp_simps)

lemma wlp_whenM [wp_simps]: "wlp (whenM b m) Q s = (if b then wlp m Q s else Q () s)"
  by (simp add: whenM_def wp_simps)

lemma wlp_seqM [wp_simps]:
  "wlp (seqM []) Q s = Q () s"
  "wlp (seqM (m # ms)) Q s = wlp m (\<lambda>_. wlp (seqM ms) Q) s"
  by (simp_all add: wp_simps)

lemma wlp_mono: "wlp m Q s \<Longrightarrow> (\<And>a s'. Q a s' \<Longrightarrow> Q' a s') \<Longrightarrow> wlp m Q' s"
  by (auto simp: wlp_def split: result.splits)

lemma wlp_OkD: "wlp m Q s \<Longrightarrow> m s = Ok a s' \<Longrightarrow> Q a s'"
  by (simp add: wlp_def)

lemma wlp_OkI: "(\<And>a s'. m s = Ok a s' \<Longrightarrow> Q a s') \<Longrightarrow> wlp m Q s"
  by (simp add: wlp_def split: result.splits)

text \<open>An invariant kept by the body of a loop is kept by the loop.\<close>

lemma wlp_forM:
  assumes "\<And>x s. x \<in> set xs \<Longrightarrow> I s \<Longrightarrow> wlp (f x) (\<lambda>_. I) s" and "I s"
  shows "wlp (forM xs f) (\<lambda>_. I) s"
  using assms
proof (induction xs arbitrary: s)
  case Nil
  then show ?case by (simp add: wp_simps)
next
  case (Cons x xs)
  have "wlp (f x) (\<lambda>_. I) s" using Cons.prems by simp
  then show ?case
    by (simp add: wp_simps) (rule wlp_mono, assumption, rule Cons.IH, auto intro: Cons.prems)
qed

lemma wp_forM:
  assumes "\<And>x s. x \<in> set xs \<Longrightarrow> I s \<Longrightarrow> wp (f x) (\<lambda>_. I) s" and "I s"
  shows "wp (forM xs f) (\<lambda>_. I) s"
  using assms
proof (induction xs arbitrary: s)
  case Nil
  then show ?case by (simp add: wp_simps)
next
  case (Cons x xs)
  have "wp (f x) (\<lambda>_. I) s" using Cons.prems by simp
  then show ?case
    by (simp add: wp_simps) (rule wp_mono, assumption, rule Cons.IH, auto intro: Cons.prems)
qed

section \<open>Lists\<close>

lemma nth_list_update_if:
  "(xs[i := x]) ! j = (if i = j \<and> j < length xs then x else xs ! j)"
  by (cases "i < length xs") (auto simp: nth_list_update list_update_beyond)

text \<open>The first index of a table whose entry satisfies a test, as the kernel's scans find it.\<close>

definition first_idx :: "('a \<Rightarrow> bool) \<Rightarrow> 'a list \<Rightarrow> nat option" where
  "first_idx P xs = find (\<lambda>i. P (xs ! i)) [0..<length xs]"

lemma first_idx_Some:
  "first_idx P xs = Some i \<longleftrightarrow> i < length xs \<and> P (xs ! i) \<and> (\<forall>j < i. \<not> P (xs ! j))"
  by (auto simp: first_idx_def find_Some_iff)

lemma first_idx_None: "first_idx P xs = None \<longleftrightarrow> (\<forall>x \<in> set xs. \<not> P x)"
  by (auto simp: first_idx_def find_None_iff all_set_conv_all_nth)

section \<open>Words\<close>

lemma unat_add_small:
  "unat (a :: 'a::len word) + unat b < 2 ^ LENGTH('a) \<Longrightarrow> unat (a + b) = unat a + unat b"
  by (simp add: unat_word_ariths)

lemma unat_sub_le: "b \<le> a \<Longrightarrow> unat (a - b :: 'a::len word) = unat a - unat b"
  by (simp add: unat_sub)

lemma unat_of_nat_small: "n < 2 ^ LENGTH('a::len) \<Longrightarrow> unat (of_nat n :: 'a word) = n"
  by (simp add: unat_of_nat)

lemma unat_bound: "unat (x :: 'a::len word) < 2 ^ LENGTH('a)"
  by (rule unsigned_less)

lemma word_of_unat: "of_nat (unat (x :: 'a::len word)) = x"
  by simp

lemma unat_eq_iff_of_nat:
  "n < 2 ^ LENGTH('a::len) \<Longrightarrow> unat (x :: 'a word) = n \<longleftrightarrow> x = of_nat n"
  by (metis word_of_unat unat_of_nat_small)

text \<open>Sign extension of 32-bit values.\<close>

lemma int_unat: "int (unat (x :: 'a::len word)) = uint x"
  by simp

lemma sint_u32_neg:
  assumes "2 ^ 31 \<le> unat (x :: u32)"
  shows "sint x = uint x - 2 ^ 32"
proof -
  have "int (2 ^ 31) \<le> int (unat x)" using assms by (simp only: of_nat_le_iff)
  then have b: "2 ^ 31 \<le> uint x" "uint x < 2 ^ 32"
    using uint_lt2p [of x] unfolding int_unat by simp_all
  have "signed_take_bit 31 (uint x) = signed_take_bit 31 (uint x - 2 ^ 32)"
    unfolding signed_take_bit_eq_iff_take_bit_eq by (simp add: take_bit_eq_mod)
  also have "\<dots> = uint x - 2 ^ 32" using b by (intro signed_take_bit_int_eq_self) auto
  finally show ?thesis by (simp add: sint_uint)
qed

lemma sint_u32_pos:
  assumes "unat (x :: u32) < 2 ^ 31"
  shows "sint x = uint x"
proof -
  have "int (unat x) < int (2 ^ 31)" using assms by (simp only: of_nat_less_iff)
  then have "uint x < 2 ^ 31" unfolding int_unat by simp
  moreover have "- (2 ^ 31) \<le> uint x" using uint_ge_0 [of x] by (rule order_trans [rotated]) simp
  ultimately show ?thesis by (simp add: sint_uint signed_take_bit_int_eq_self)
qed

lemma unat_scast_pos:
  assumes "unat (x :: u32) < 2 ^ 31"
  shows "unat (scast x :: u64) = unat x"
proof -
  have "uint x < 2 ^ 32" using uint_lt2p [of x] by simp
  then have "uint x mod 2 ^ 64 = uint x" using uint_ge_0 [of x] by (intro mod_pos_pos_trivial) auto
  then have "int (unat (scast x :: u64)) = int (unat x)"
    unfolding int_unat scast_eq sint_u32_pos [OF assms] uint_word_of_int by simp
  then show ?thesis by (simp only: of_nat_eq_iff)
qed

lemma unat_scast_neg:
  assumes "2 ^ 31 \<le> unat (x :: u32)"
  shows "unat (scast x :: u64) = 2 ^ 64 - 2 ^ 32 + unat x"
proof -
  have "uint x < 2 ^ 32" using uint_lt2p [of x] by simp
  then have "(uint x - 2 ^ 32) mod 2 ^ 64 = uint x - 2 ^ 32 + 2 ^ 64"
    using uint_ge_0 [of x] by (subst mod_add_self2 [symmetric], intro mod_pos_pos_trivial) auto
  then have "int (unat (scast x :: u64)) = int (2 ^ 64 - 2 ^ 32 + unat x)"
    unfolding of_nat_add int_unat scast_eq sint_u32_neg [OF assms] uint_word_of_int by simp
  then show ?thesis by (simp only: of_nat_eq_iff)
qed

lemma ucast_scast_u32 [simp]: "ucast (scast (x :: u32) :: u64) = x"
  by (rule bit_word_eqI) (simp add: bit_simps)

lemma sint_scast_u32: "sint (scast (x :: u32) :: u64) = sint x"
proof -
  have "- (2 ^ 63) \<le> sint x" "sint x < 2 ^ 63"
    using order_trans [OF _ sint_ge [of x], of "- (2 ^ 63)"] less_trans [OF sint_lt [of x], of "2 ^ 63"] by simp_all
  then have "signed_take_bit 63 (sint x) = sint x" by (intro signed_take_bit_int_eq_self)
  then show ?thesis by (simp add: signed_scast_eq)
qed

end
