(* ===== verification/Spinlock.thy ===== *)
theory Spinlock
  imports Prelude
begin

text \<open>
  kernel/spinlock.c, with the interrupt-enable bit of kernel/riscv.h and the per-CPU fields
  \<open>noff\<close> and \<open>intena\<close> of kernel/proc.h.

  The first part models several CPUs: every instruction of \<open>acquire\<close> and \<open>release\<close> that
  other CPUs can observe (the atomic swap, the write of \<open>lk->cpu\<close>, the atomic release) is a
  step of its own, and the steps of the CPUs interleave freely. The second part is the view one
  kernel thread has of the locks, the list of locks it holds; all other kernel components are
  written over that view, and the last section shows that the view is what the CPUs do.
\<close>

section \<open>Locks of the kernel\<close>

text \<open>The spin locks of the kernel, each named after the object that contains it.\<close>

datatype slid = BufLock nat | InodeLock nat

datatype lock =
    KmemLock | BcacheLock | LogLock | ItableLock | FtableLock | PidLock | WaitLock
  | TicksLock | ConsLock | UartTxLock | PrLock | VdiskLock
  | ProcLock nat | PipeLock u64 | SleepLk slid

section \<open>CPUs\<close>

definition SSTATUS_SPP :: u64 where "SSTATUS_SPP = push_bit 8 1"
definition SSTATUS_SPIE :: u64 where "SSTATUS_SPIE = push_bit 5 1"
definition SSTATUS_SIE :: u64 where "SSTATUS_SIE = push_bit 1 1"

record cpu =
  noff :: int
  intena :: bool
  sstatus :: u64

record spinlock =
  locked :: bool
  lcpu :: "nat option"

text \<open>Where a CPU is in the lock code: elsewhere, spinning for a lock, past the successful
  swap, or past the clearing of \<open>lk->cpu\<close> in \<open>release\<close>.\<close>

datatype lpc = Run | Spin lock | Got lock | Rel lock

record mp =
  cpus :: "nat \<Rightarrow> cpu"
  locks :: "lock \<Rightarrow> spinlock"
  lpcs :: "nat \<Rightarrow> lpc"
  owned :: "nat \<Rightarrow> lock list"

definition upd_cpu :: "nat \<Rightarrow> (cpu \<Rightarrow> cpu) \<Rightarrow> mp \<Rightarrow> mp" where
  "upd_cpu c f \<sigma> = \<sigma>\<lparr>cpus := (cpus \<sigma>)(c := f (cpus \<sigma> c))\<rparr>"

definition intr_on :: "nat \<Rightarrow> (mp, unit) kmon" where
  "intr_on c = modify (upd_cpu c (\<lambda>x. x\<lparr>sstatus := sstatus x OR SSTATUS_SIE\<rparr>))"

definition intr_off :: "nat \<Rightarrow> (mp, unit) kmon" where
  "intr_off c = modify (upd_cpu c (\<lambda>x. x\<lparr>sstatus := sstatus x AND NOT SSTATUS_SIE\<rparr>))"

definition intr_get :: "nat \<Rightarrow> mp \<Rightarrow> bool" where
  "intr_get c \<sigma> = (sstatus (cpus \<sigma> c) AND SSTATUS_SIE \<noteq> 0)"

definition push_off :: "nat \<Rightarrow> (mp, unit) kmon" where
  "push_off c =
     bnd (gets (intr_get c)) (\<lambda>old.
     bnd (intr_off c) (\<lambda>_.
     bnd (gets (\<lambda>\<sigma>. noff (cpus \<sigma> c))) (\<lambda>n.
     bnd (whenM (n = 0) (modify (upd_cpu c (\<lambda>x. x\<lparr>intena := old\<rparr>)))) (\<lambda>_.
     modify (upd_cpu c (\<lambda>x. x\<lparr>noff := noff x + 1\<rparr>))))))"

definition pop_off :: "nat \<Rightarrow> (mp, unit) kmon" where
  "pop_off c =
     bnd (gets (intr_get c)) (\<lambda>on.
     bnd (panic_if on ''pop_off - interruptible'') (\<lambda>_.
     bnd (gets (\<lambda>\<sigma>. noff (cpus \<sigma> c))) (\<lambda>n.
     bnd (panic_if (n < 1) ''pop_off'') (\<lambda>_.
     bnd (modify (upd_cpu c (\<lambda>x. x\<lparr>noff := noff x - 1\<rparr>))) (\<lambda>_.
     bnd (gets (\<lambda>\<sigma>. noff (cpus \<sigma> c) = 0 \<and> intena (cpus \<sigma> c))) (\<lambda>b.
     whenM b (intr_on c)))))))"

section \<open>Spin locks\<close>

definition initlock :: "lock \<Rightarrow> (mp, unit) kmon" where
  "initlock l = modify (\<lambda>\<sigma>. \<sigma>\<lparr>locks := (locks \<sigma>)(l := \<lparr>locked = False, lcpu = None\<rparr>)\<rparr>)"

definition holding :: "nat \<Rightarrow> lock \<Rightarrow> mp \<Rightarrow> bool" where
  "holding c l \<sigma> = (locked (locks \<sigma> l) \<and> lcpu (locks \<sigma> l) = Some c)"

text \<open>\<open>acquire\<close> up to the spin loop.\<close>

definition acquire_enter :: "nat \<Rightarrow> lock \<Rightarrow> (mp, unit) kmon" where
  "acquire_enter c l =
     bnd (push_off c) (\<lambda>_.
     bnd (gets (holding c l)) (\<lambda>h.
     panic_if h ''acquire''))"

text \<open>One \<open>__sync_lock_test_and_set\<close>: the old value, and the lock word set.\<close>

definition test_and_set :: "lock \<Rightarrow> (mp, bool) kmon" where
  "test_and_set l =
     bnd (gets (\<lambda>\<sigma>. locked (locks \<sigma> l))) (\<lambda>old.
     bnd (modify (\<lambda>\<sigma>. \<sigma>\<lparr>locks := (locks \<sigma>)(l := (locks \<sigma> l)\<lparr>locked := True\<rparr>)\<rparr>)) (\<lambda>_.
     ret old))"

definition set_lcpu :: "lock \<Rightarrow> nat option \<Rightarrow> (mp, unit) kmon" where
  "set_lcpu l w = modify (\<lambda>\<sigma>. \<sigma>\<lparr>locks := (locks \<sigma>)(l := (locks \<sigma> l)\<lparr>lcpu := w\<rparr>)\<rparr>)"

text \<open>\<open>release\<close> up to the clearing of \<open>lk->cpu\<close>, and the rest of it.\<close>

definition release_enter :: "nat \<Rightarrow> lock \<Rightarrow> (mp, unit) kmon" where
  "release_enter c l =
     bnd (gets (holding c l)) (\<lambda>h.
     bnd (panic_if (\<not> h) ''release'') (\<lambda>_.
     set_lcpu l None))"

definition release_finish :: "nat \<Rightarrow> lock \<Rightarrow> (mp, unit) kmon" where
  "release_finish c l =
     bnd (modify (\<lambda>\<sigma>. \<sigma>\<lparr>locks := (locks \<sigma>)(l := (locks \<sigma> l)\<lparr>locked := False\<rparr>)\<rparr>)) (\<lambda>_.
     pop_off c)"

definition goto :: "nat \<Rightarrow> lpc \<Rightarrow> mp \<Rightarrow> mp" where
  "goto c p \<sigma> = \<sigma>\<lparr>lpcs := (lpcs \<sigma>)(c := p)\<rparr>"

definition own :: "nat \<Rightarrow> lock list \<Rightarrow> mp \<Rightarrow> mp" where
  "own c ls \<sigma> = \<sigma>\<lparr>owned := (owned \<sigma>)(c := ls)\<rparr>"

text \<open>
  One step of one CPU. \<open>owned\<close> records which critical sections a CPU is in: a lock is owned
  from the return of \<open>acquire\<close> to the call of \<open>release\<close>.
\<close>

inductive mp_step :: "mp \<Rightarrow> mp \<Rightarrow> bool" where
  acq: "lpcs \<sigma> c = Run \<Longrightarrow> acquire_enter c l \<sigma> = Ok () \<sigma>' \<Longrightarrow>
      mp_step \<sigma> (goto c (Spin l) \<sigma>')"
| spin: "lpcs \<sigma> c = Spin l \<Longrightarrow> test_and_set l \<sigma> = Ok True \<sigma>' \<Longrightarrow> mp_step \<sigma> \<sigma>'"
| take: "lpcs \<sigma> c = Spin l \<Longrightarrow> test_and_set l \<sigma> = Ok False \<sigma>' \<Longrightarrow>
      mp_step \<sigma> (goto c (Got l) \<sigma>')"
| got: "lpcs \<sigma> c = Got l \<Longrightarrow> set_lcpu l (Some c) \<sigma> = Ok () \<sigma>' \<Longrightarrow>
      mp_step \<sigma> (own c (l # owned \<sigma>' c) (goto c Run \<sigma>'))"
| rel: "lpcs \<sigma> c = Run \<Longrightarrow> release_enter c l \<sigma> = Ok () \<sigma>' \<Longrightarrow>
      mp_step \<sigma> (own c (remove1 l (owned \<sigma>' c)) (goto c (Rel l) \<sigma>'))"
| rel2: "lpcs \<sigma> c = Rel l \<Longrightarrow> release_finish c l \<sigma> = Ok () \<sigma>' \<Longrightarrow>
      mp_step \<sigma> (goto c Run \<sigma>')"

definition mp_init :: "(nat \<Rightarrow> bool) \<Rightarrow> mp" where
  "mp_init ints = \<lparr>cpus = (\<lambda>c. \<lparr>noff = 0, intena = False,
       sstatus = (if ints c then SSTATUS_SIE else 0)\<rparr>),
     locks = (\<lambda>_. \<lparr>locked = False, lcpu = None\<rparr>), lpcs = (\<lambda>_. Run), owned = (\<lambda>_. [])\<rparr>"

inductive mp_reach :: "mp \<Rightarrow> bool" where
  init: "mp_reach (mp_init ints)"
| step: "mp_reach \<sigma> \<Longrightarrow> mp_step \<sigma> \<sigma>' \<Longrightarrow> mp_reach \<sigma>'"

section \<open>The invariant of the lock protocol\<close>

text \<open>A CPU has the lock word of \<open>l\<close>: it owns the lock, or is inside \<open>acquire\<close> after the
  swap, or inside \<open>release\<close> before the atomic store.\<close>

definition has_word :: "mp \<Rightarrow> nat \<Rightarrow> lock \<Rightarrow> bool" where
  "has_word \<sigma> c l = (l \<in> set (owned \<sigma> c) \<or> lpcs \<sigma> c = Got l \<or> lpcs \<sigma> c = Rel l)"

definition word_inv :: "mp \<Rightarrow> bool" where
  "word_inv \<sigma> \<longleftrightarrow> (\<exists>h. \<forall>l. (locked (locks \<sigma> l) \<longleftrightarrow> h l \<noteq> None) \<and> (\<forall>c. has_word \<sigma> c l \<longleftrightarrow> h l = Some c))"

definition own_inv :: "mp \<Rightarrow> bool" where
  "own_inv \<sigma> \<longleftrightarrow> (\<forall>c. distinct (owned \<sigma> c) \<and>
     (\<forall>l. (lcpu (locks \<sigma> l) = Some c \<longleftrightarrow> l \<in> set (owned \<sigma> c)) \<and>
          (lpcs \<sigma> c \<in> {Got l, Rel l, Spin l} \<longrightarrow> l \<notin> set (owned \<sigma> c))))"

definition irq_inv :: "mp \<Rightarrow> bool" where
  "irq_inv \<sigma> \<longleftrightarrow> (\<forall>c.
     noff (cpus \<sigma> c) = int (length (owned \<sigma> c)) + (if lpcs \<sigma> c = Run then 0 else 1) \<and>
     (noff (cpus \<sigma> c) \<noteq> 0 \<longrightarrow> \<not> intr_get c \<sigma>))"

definition mp_inv :: "mp \<Rightarrow> bool" where
  "mp_inv \<sigma> \<longleftrightarrow> word_inv \<sigma> \<and> own_inv \<sigma> \<and> irq_inv \<sigma>"

lemma sie_bits:
  "(x OR SSTATUS_SIE) AND SSTATUS_SIE \<noteq> (0 :: u64)"
  "(x AND NOT SSTATUS_SIE) AND SSTATUS_SIE = (0 :: u64)"
proof -
  have "bit ((x OR SSTATUS_SIE) AND SSTATUS_SIE) 1"
    by (simp add: SSTATUS_SIE_def bit_simps)
  then show "(x OR SSTATUS_SIE) AND SSTATUS_SIE \<noteq> 0" by force
  show "(x AND NOT SSTATUS_SIE) AND SSTATUS_SIE = 0"
    by (rule bit_eqI) (simp add: bit_simps)
qed

lemma sie_nonzero [simp]: "SSTATUS_SIE \<noteq> 0"
  by (simp add: SSTATUS_SIE_def)

lemma push_off_run:
  "push_off c \<sigma> = Ok () (upd_cpu c (\<lambda>x. x\<lparr>sstatus := sstatus x AND NOT SSTATUS_SIE,
     intena := (if noff x = 0 then intr_get c \<sigma> else intena x), noff := noff x + 1\<rparr>) \<sigma>)"
  by (simp add: push_off_def intr_off_def upd_cpu_def whenM_def)

lemma pop_off_run:
  "\<not> intr_get c \<sigma> \<Longrightarrow> 1 \<le> noff (cpus \<sigma> c) \<Longrightarrow>
   pop_off c \<sigma> = Ok () (upd_cpu c (\<lambda>x. x\<lparr>noff := noff x - 1,
     sstatus := (if noff x = 1 \<and> intena x then sstatus x OR SSTATUS_SIE else sstatus x)\<rparr>) \<sigma>)"
  by (simp add: pop_off_def intr_on_def upd_cpu_def whenM_def)

lemma pop_off_OkD:
  "pop_off c \<sigma> = Ok u \<sigma>' \<Longrightarrow> \<not> intr_get c \<sigma> \<and> 1 \<le> noff (cpus \<sigma> c)"
  by (auto simp: pop_off_def bnd_eq_Ok panic_if_def split: if_splits)

lemma pop_off_owned: "pop_off c \<sigma> = Ok u \<sigma>' \<Longrightarrow> owned \<sigma>' = owned \<sigma>"
  using pop_off_OkD [of c \<sigma> u \<sigma>'] pop_off_run [of c \<sigma>] by (auto simp: upd_cpu_def)

lemmas step_defs = acquire_enter_def test_and_set_def set_lcpu_def release_enter_def
  release_finish_def goto_def own_def holding_def upd_cpu_def

text \<open>The state each step leaves.\<close>

lemma acquire_enter_OkD:
  "acquire_enter c l \<sigma> = Ok u \<sigma>' \<Longrightarrow> \<not> holding c l \<sigma> \<and> push_off c \<sigma> = Ok () \<sigma>'"
  by (auto simp: acquire_enter_def bnd_eq_Ok push_off_run panic_if_def holding_def upd_cpu_def
      split: if_splits)

lemma test_and_set_OkD:
  "test_and_set l \<sigma> = Ok b \<sigma>' \<Longrightarrow>
   b = locked (locks \<sigma> l) \<and> \<sigma>' = \<sigma>\<lparr>locks := (locks \<sigma>)(l := (locks \<sigma> l)\<lparr>locked := True\<rparr>)\<rparr>"
  by (auto simp: test_and_set_def)

lemma release_enter_OkD:
  "release_enter c l \<sigma> = Ok u \<sigma>' \<Longrightarrow>
   holding c l \<sigma> \<and> \<sigma>' = \<sigma>\<lparr>locks := (locks \<sigma>)(l := (locks \<sigma> l)\<lparr>lcpu := None\<rparr>)\<rparr>"
  by (auto simp: release_enter_def set_lcpu_def panic_if_def split: if_splits)

lemma release_finish_OkD:
  assumes "release_finish c l \<sigma> = Ok u \<sigma>'"
  shows "\<not> intr_get c \<sigma>" "1 \<le> noff (cpus \<sigma> c)"
    "pop_off c (\<sigma>\<lparr>locks := (locks \<sigma>)(l := (locks \<sigma> l)\<lparr>locked := False\<rparr>)\<rparr>) = Ok () \<sigma>'"
  using assms pop_off_OkD [of c "\<sigma>\<lparr>locks := (locks \<sigma>)(l := (locks \<sigma> l)\<lparr>locked := False\<rparr>)\<rparr>"]
  by (auto simp: release_finish_def intr_get_def)

lemma word_inv_free:
  "word_inv \<sigma> \<Longrightarrow> \<not> locked (locks \<sigma> l) \<Longrightarrow> \<not> has_word \<sigma> c l"
  by (auto simp: word_inv_def)

lemma word_inv_unique:
  "word_inv \<sigma> \<Longrightarrow> has_word \<sigma> c l \<Longrightarrow> has_word \<sigma> d l \<Longrightarrow> c = d"
  unfolding word_inv_def by (metis option.inject)

lemma word_inv_same:
  assumes "word_inv \<sigma>" "\<And>l. locked (locks \<sigma>' l) = locked (locks \<sigma> l)"
    "\<And>c l. has_word \<sigma>' c l = has_word \<sigma> c l"
  shows "word_inv \<sigma>'"
  using assms by (simp add: word_inv_def)

lemma word_inv_upd:
  assumes "word_inv \<sigma>"
    "\<And>l'. locked (locks \<sigma>' l') = (if l' = l then w \<noteq> None else locked (locks \<sigma> l'))"
    "\<And>c l'. has_word \<sigma>' c l' = (if l' = l then w = Some c else has_word \<sigma> c l')"
  shows "word_inv \<sigma>'"
proof -
  from assms(1) obtain h where
    "\<forall>l. (locked (locks \<sigma> l) \<longleftrightarrow> h l \<noteq> None) \<and> (\<forall>c. has_word \<sigma> c l \<longleftrightarrow> h l = Some c)"
    by (auto simp: word_inv_def)
  then have "\<forall>k. (locked (locks \<sigma>' k) \<longleftrightarrow> (h(l := w)) k \<noteq> None) \<and>
      (\<forall>c. has_word \<sigma>' c k \<longleftrightarrow> (h(l := w)) k = Some c)"
    using assms(2,3) by simp
  then show ?thesis unfolding word_inv_def by blast
qed

lemma mp_inv_acq:
  assumes "mp_inv \<sigma>" "lpcs \<sigma> c = Run" "acquire_enter c l \<sigma> = Ok () \<sigma>'"
  shows "mp_inv (goto c (Spin l) \<sigma>')"
proof -
  have nh: "\<not> holding c l \<sigma>" and s': "\<sigma>' = upd_cpu c (\<lambda>x. x\<lparr>sstatus := sstatus x AND NOT SSTATUS_SIE,
     intena := (if noff x = 0 then intr_get c \<sigma> else intena x), noff := noff x + 1\<rparr>) \<sigma>"
    using acquire_enter_OkD [OF assms(3)] by (auto simp: push_off_run)
  have "l \<notin> set (owned \<sigma> c)"
    using assms(1) nh by (auto simp: mp_inv_def own_inv_def word_inv_def holding_def has_word_def)
  then have "own_inv (goto c (Spin l) \<sigma>')"
    using assms(1,2) by (auto simp: mp_inv_def own_inv_def s' upd_cpu_def goto_def)
  moreover have "word_inv (goto c (Spin l) \<sigma>')"
    by (rule word_inv_same [of \<sigma>]) (use assms(1,2) in \<open>auto simp: mp_inv_def s' upd_cpu_def goto_def has_word_def\<close>)
  moreover have "irq_inv (goto c (Spin l) \<sigma>')"
    using assms(1,2) by (auto simp: mp_inv_def irq_inv_def s' upd_cpu_def goto_def intr_get_def sie_bits)
  ultimately show ?thesis by (simp add: mp_inv_def)
qed

lemma mp_inv_take:
  assumes "mp_inv \<sigma>" "lpcs \<sigma> c = Spin l" "test_and_set l \<sigma> = Ok False \<sigma>'"
  shows "mp_inv (goto c (Got l) \<sigma>')"
proof -
  note s' = test_and_set_OkD [OF assms(3)]
  have free: "\<And>d. \<not> has_word \<sigma> d l"
    using assms(1) s' by (simp add: mp_inv_def word_inv_free)
  have "word_inv (goto c (Got l) \<sigma>')"
    by (rule word_inv_upd [of \<sigma> _ l "Some c"])
      (use assms(1,2) s' free in \<open>auto simp: mp_inv_def goto_def has_word_def\<close>)
  moreover have "own_inv (goto c (Got l) \<sigma>')" "irq_inv (goto c (Got l) \<sigma>')"
    using assms(1,2) s' by (auto simp: mp_inv_def own_inv_def irq_inv_def goto_def intr_get_def)
  ultimately show ?thesis by (simp add: mp_inv_def)
qed

lemma mp_inv_got:
  assumes "mp_inv \<sigma>" "lpcs \<sigma> c = Got l" "set_lcpu l (Some c) \<sigma> = Ok () \<sigma>'"
  shows "mp_inv (own c (l # owned \<sigma>' c) (goto c Run \<sigma>'))" (is "mp_inv ?s")
proof -
  have s': "\<sigma>' = \<sigma>\<lparr>locks := (locks \<sigma>)(l := (locks \<sigma> l)\<lparr>lcpu := Some c\<rparr>)\<rparr>"
    using assms(3) by (auto simp: set_lcpu_def)
  have uniq: "\<And>d. has_word \<sigma> d l \<Longrightarrow> d = c"
    using assms(1,2) word_inv_unique by (auto simp: mp_inv_def has_word_def)
  have "word_inv ?s"
    by (rule word_inv_same [of \<sigma>])
      (use assms(1,2) in \<open>auto simp: mp_inv_def s' goto_def own_def has_word_def\<close>)
  moreover have "own_inv ?s"
    using assms(1,2) uniq by (auto simp: mp_inv_def own_inv_def s' goto_def own_def has_word_def)
  moreover have "irq_inv ?s"
    using assms(1,2) by (auto simp: mp_inv_def irq_inv_def s' goto_def own_def intr_get_def)
  ultimately show ?thesis by (simp add: mp_inv_def)
qed

lemma mp_inv_rel:
  assumes "mp_inv \<sigma>" "lpcs \<sigma> c = Run" "release_enter c l \<sigma> = Ok () \<sigma>'"
  shows "mp_inv (own c (remove1 l (owned \<sigma>' c)) (goto c (Rel l) \<sigma>'))" (is "mp_inv ?s")
proof -
  note s' = release_enter_OkD [OF assms(3)]
  have mem: "l \<in> set (owned \<sigma> c)" and dist: "distinct (owned \<sigma> c)"
    using assms(1) s' by (auto simp: mp_inv_def own_inv_def holding_def)
  have uniq: "\<And>d. has_word \<sigma> d l \<Longrightarrow> d = c"
    using assms(1) mem word_inv_unique by (auto simp: mp_inv_def has_word_def)
  have len: "int (length (owned \<sigma> c)) = int (length (owned \<sigma> c) - Suc 0) + 1"
    using mem by (cases "owned \<sigma> c") auto
  have "word_inv ?s"
    by (rule word_inv_same [of \<sigma>])
      (use assms(1,2) s' mem dist in \<open>auto simp: mp_inv_def goto_def own_def has_word_def\<close>)
  moreover have "own_inv ?s"
    using assms(1,2) s' uniq dist
    by (auto simp: mp_inv_def own_inv_def goto_def own_def has_word_def)
  moreover have "irq_inv ?s"
    using assms(1,2) s' mem len [symmetric]
    by (auto simp: mp_inv_def irq_inv_def goto_def own_def intr_get_def length_remove1)
  ultimately show ?thesis by (simp add: mp_inv_def)
qed

lemma mp_inv_rel2:
  assumes "mp_inv \<sigma>" "lpcs \<sigma> c = Rel l" "release_finish c l \<sigma> = Ok () \<sigma>'"
  shows "mp_inv (goto c Run \<sigma>')"
proof -
  let ?f = "\<lambda>x. x\<lparr>noff := noff x - 1,
     sstatus := (if noff x = 1 \<and> intena x then sstatus x OR SSTATUS_SIE else sstatus x)\<rparr>"
  have s': "\<sigma>' = upd_cpu c ?f (\<sigma>\<lparr>locks := (locks \<sigma>)(l := (locks \<sigma> l)\<lparr>locked := False\<rparr>)\<rparr>)"
    using release_finish_OkD [OF assms(3)]
    by (subst (asm) pop_off_run) (auto simp: intr_get_def)
  have notown: "l \<notin> set (owned \<sigma> c)" "\<And>d. d \<noteq> c \<Longrightarrow> \<not> has_word \<sigma> d l"
    using assms(1,2) word_inv_unique by (auto simp: mp_inv_def own_inv_def has_word_def)
  have "word_inv (goto c Run \<sigma>')"
    by (rule word_inv_upd [of \<sigma> _ l None])
      (use assms(1,2) notown in \<open>auto simp: mp_inv_def s' upd_cpu_def goto_def has_word_def\<close>)
  moreover have "own_inv (goto c Run \<sigma>')"
    using assms(1,2) by (auto simp: mp_inv_def own_inv_def s' upd_cpu_def goto_def)
  moreover have "irq_inv (goto c Run \<sigma>')"
    using assms(1,2) release_finish_OkD(1) [OF assms(3)]
    by (auto simp: mp_inv_def irq_inv_def s' upd_cpu_def goto_def intr_get_def)
  ultimately show ?thesis by (simp add: mp_inv_def)
qed

lemma mp_step_inv: "mp_step \<sigma> \<sigma>' \<Longrightarrow> mp_inv \<sigma> \<Longrightarrow> mp_inv \<sigma>'"
proof (induction rule: mp_step.induct)
  case (spin \<sigma> c l \<sigma>')
  then have "\<sigma>' = \<sigma>" by (cases "locks \<sigma> l") (auto dest!: test_and_set_OkD intro!: mp.equality)
  with spin show ?case by simp
qed (auto intro: mp_inv_acq mp_inv_take mp_inv_got mp_inv_rel mp_inv_rel2)

lemma mp_inv_init: "mp_inv (mp_init ints)"
  by (auto simp: mp_inv_def word_inv_def own_inv_def irq_inv_def mp_init_def has_word_def intro: exI [of _ "\<lambda>_. None"])

lemma mp_reach_inv: "mp_reach \<sigma> \<Longrightarrow> mp_inv \<sigma>"
  by (induction rule: mp_reach.induct) (auto intro: mp_inv_init mp_step_inv)

section \<open>Mutual exclusion\<close>

lemma holding_owned:
  assumes "mp_reach \<sigma>"
  shows "holding c l \<sigma> \<longleftrightarrow> l \<in> set (owned \<sigma> c)"
  using mp_reach_inv [OF assms]
  by (auto simp: mp_inv_def own_inv_def word_inv_def has_word_def holding_def)

lemma noff_owned:
  "mp_reach \<sigma> \<Longrightarrow> lpcs \<sigma> c = Run \<Longrightarrow> noff (cpus \<sigma> c) = int (length (owned \<sigma> c))"
  using mp_reach_inv [of \<sigma>] by (simp add: mp_inv_def irq_inv_def)

text \<open>
  C2. In every state that any interleaving of CPUs reaches: two CPUs are never in critical
  sections of the same lock, a CPU in a critical section has interrupts off, and \<open>holding\<close>
  answers exactly whether the asking CPU is in the critical section of the lock.
\<close>

theorem spinlock_mutual_exclusion:
  assumes "mp_reach \<sigma>"
  shows "(l \<in> set (owned \<sigma> c) \<longrightarrow> l \<in> set (owned \<sigma> d) \<longrightarrow> c = d) \<and>
    (owned \<sigma> c \<noteq> [] \<longrightarrow> \<not> intr_get c \<sigma>) \<and>
    (holding c l \<sigma> \<longleftrightarrow> l \<in> set (owned \<sigma> c))"
  using mp_reach_inv [OF assms] holding_owned [OF assms, of c l] word_inv_unique [of \<sigma> c l d]
  by (auto simp: mp_inv_def has_word_def irq_inv_def)

text \<open>CPU 0 takes the allocator's lock: a reachable state with an owner.\<close>

definition mp_example :: mp where
  "mp_example = (case seqM [acquire_enter 0 KmemLock, modify (goto 0 (Spin KmemLock)),
       bnd (test_and_set KmemLock) (\<lambda>_. ret ()), modify (goto 0 (Got KmemLock)),
       set_lcpu KmemLock (Some 0), modify (\<lambda>\<sigma>. own 0 (KmemLock # owned \<sigma> 0) (goto 0 Run \<sigma>))]
     (mp_init (\<lambda>_. True)) of Ok _ \<sigma> \<Rightarrow> \<sigma> | _ \<Rightarrow> mp_init (\<lambda>_. True))"

lemma mp_example_reach:
  "mp_reach mp_example \<and> owned mp_example 0 = [KmemLock] \<and> lpcs mp_example 0 = Run"
proof -
  obtain \<sigma>1 where 1: "acquire_enter 0 KmemLock (mp_init (\<lambda>_. True)) = Ok () \<sigma>1"
    by (simp add: acquire_enter_def push_off_run bnd_def holding_def upd_cpu_def mp_init_def)
  have r1: "mp_reach (goto 0 (Spin KmemLock) \<sigma>1)"
    by (rule mp_reach.step [OF mp_reach.init], rule mp_step.acq [OF _ 1]) (simp add: mp_init_def)
  obtain \<sigma>2 where 2: "test_and_set KmemLock (goto 0 (Spin KmemLock) \<sigma>1) = Ok False \<sigma>2"
    using acquire_enter_OkD [OF 1]
    by (auto simp: test_and_set_def goto_def push_off_run upd_cpu_def mp_init_def)
  have r2: "mp_reach (goto 0 (Got KmemLock) \<sigma>2)"
    by (rule mp_reach.step [OF r1], rule mp_step.take [OF _ 2]) (simp add: goto_def)
  obtain \<sigma>3 where 3: "set_lcpu KmemLock (Some 0) (goto 0 (Got KmemLock) \<sigma>2) = Ok () \<sigma>3"
    by (simp add: set_lcpu_def)
  have r3: "mp_reach (own 0 (KmemLock # owned \<sigma>3 0) (goto 0 Run \<sigma>3))"
    by (rule mp_reach.step [OF r2], rule mp_step.got [OF _ 3]) (simp add: goto_def)
  have eq: "mp_example = own 0 (KmemLock # owned \<sigma>3 0) (goto 0 Run \<sigma>3)"
    using 1 2 3 by (simp add: mp_example_def bnd_def)
  have "owned \<sigma>3 0 = []"
    using acquire_enter_OkD [OF 1] test_and_set_OkD [OF 2] 3
    by (auto simp: push_off_run set_lcpu_def goto_def upd_cpu_def mp_init_def)
  then show ?thesis unfolding eq using r3 by (simp add: own_def goto_def)
qed

theorem spinlock_mutual_exclusion_witness:
  "mp_reach mp_example \<and> KmemLock \<in> set (owned mp_example 0) \<and>
   \<not> intr_get 0 mp_example \<and> holding 0 KmemLock mp_example"
  using mp_example_reach
    spinlock_mutual_exclusion [OF mp_example_reach [THEN conjunct1], of KmemLock 0 0]
  by simp

section \<open>Nesting of interrupt disabling\<close>

lemma upd_cpu_same [simp]: "cpus (upd_cpu c f \<sigma>) c = f (cpus \<sigma> c)"
  by (simp add: upd_cpu_def)

lemma push_off_nest:
  "0 < n \<Longrightarrow> 0 \<le> noff (cpus \<sigma> c) \<Longrightarrow>
   \<exists>\<sigma>'. seqM (replicate n (push_off c)) \<sigma> = Ok () \<sigma>' \<and>
     noff (cpus \<sigma>' c) = noff (cpus \<sigma> c) + int n \<and> \<not> intr_get c \<sigma>' \<and>
     intena (cpus \<sigma>' c) = (if noff (cpus \<sigma> c) = 0 then intr_get c \<sigma> else intena (cpus \<sigma> c))"
proof (induction n arbitrary: \<sigma>)
  case (Suc n)
  let ?t = "upd_cpu c (\<lambda>x. x\<lparr>sstatus := sstatus x AND NOT SSTATUS_SIE,
     intena := (if noff x = 0 then intr_get c \<sigma> else intena x), noff := noff x + 1\<rparr>) \<sigma>"
  show ?case
  proof (cases n)
    case 0
    then show ?thesis by (simp add: push_off_run bnd_def intr_get_def sie_bits)
  next
    case (Suc m)
    then show ?thesis using Suc.IH [of ?t] Suc.prems
      by (auto simp: push_off_run bnd_def)
  qed
qed simp

lemma seqM_append: "seqM (xs @ ys) = bnd (seqM xs) (\<lambda>_. seqM ys)"
  by (induction xs) (simp_all add: bnd_assoc)

lemma pop_off_nest:
  "int n \<le> noff (cpus \<sigma> c) \<Longrightarrow> \<not> intr_get c \<sigma> \<Longrightarrow>
   \<exists>\<sigma>'. seqM (replicate n (pop_off c)) \<sigma> = Ok () \<sigma>' \<and>
     noff (cpus \<sigma>' c) = noff (cpus \<sigma> c) - int n \<and>
     intr_get c \<sigma>' = (0 < n \<and> noff (cpus \<sigma> c) = int n \<and> intena (cpus \<sigma> c))"
proof (induction n arbitrary: \<sigma>)
  case (Suc n)
  let ?t = "upd_cpu c (\<lambda>x. x\<lparr>noff := noff x - 1,
     sstatus := (if noff x = 1 \<and> intena x then sstatus x OR SSTATUS_SIE else sstatus x)\<rparr>) \<sigma>"
  have pop: "pop_off c \<sigma> = Ok () ?t" using Suc.prems by (intro pop_off_run) auto
  show ?case
  proof (cases n)
    case 0
    then show ?thesis using pop Suc.prems by (auto simp: bnd_def intr_get_def sie_bits)
  next
    case (Suc m)
    have "\<not> intr_get c ?t" using Suc.prems Suc by (auto simp: intr_get_def)
    then show ?thesis using Suc.IH [of ?t] Suc.prems pop Suc by (auto simp: bnd_def)
  qed
qed simp

text \<open>
  C21. \<open>push_off\<close> and \<open>pop_off\<close> are matched: any number of \<open>push_off\<close>s keeps
  interrupts off, and as many \<open>pop_off\<close>s then succeed, bring \<open>noff\<close> back to its value and
  the interrupt-enable bit back to what it was before the first of them.
\<close>

theorem push_pop_off_restores:
  assumes "0 \<le> noff (cpus \<sigma> c)" "noff (cpus \<sigma> c) = 0 \<or> \<not> intr_get c \<sigma>" "0 < n"
  shows "\<exists>\<sigma>1 \<sigma>2. seqM (replicate n (push_off c)) \<sigma> = Ok () \<sigma>1 \<and> \<not> intr_get c \<sigma>1 \<and>
     seqM (replicate n (pop_off c)) \<sigma>1 = Ok () \<sigma>2 \<and>
     noff (cpus \<sigma>2 c) = noff (cpus \<sigma> c) \<and> intr_get c \<sigma>2 = intr_get c \<sigma>"
proof -
  obtain \<sigma>1 where 1: "seqM (replicate n (push_off c)) \<sigma> = Ok () \<sigma>1"
    "noff (cpus \<sigma>1 c) = noff (cpus \<sigma> c) + int n" "\<not> intr_get c \<sigma>1"
    "intena (cpus \<sigma>1 c) = (if noff (cpus \<sigma> c) = 0 then intr_get c \<sigma> else intena (cpus \<sigma> c))"
    using push_off_nest [OF assms(3,1)] by blast
  obtain \<sigma>2 where "seqM (replicate n (pop_off c)) \<sigma>1 = Ok () \<sigma>2"
    "noff (cpus \<sigma>2 c) = noff (cpus \<sigma>1 c) - int n"
    "intr_get c \<sigma>2 = (0 < n \<and> noff (cpus \<sigma>1 c) = int n \<and> intena (cpus \<sigma>1 c))"
    using pop_off_nest [of n \<sigma>1 c] 1 assms(1) by auto
  with 1 assms show ?thesis by auto
qed

theorem push_pop_off_restores_witness:
  "\<exists>\<sigma>1 \<sigma>2. seqM (replicate 2 (push_off 0)) (mp_init (\<lambda>_. True)) = Ok () \<sigma>1 \<and>
     \<not> intr_get 0 \<sigma>1 \<and> seqM (replicate 2 (pop_off 0)) \<sigma>1 = Ok () \<sigma>2 \<and> intr_get 0 \<sigma>2"
  using push_pop_off_restores [of "mp_init (\<lambda>_. True)" 0 2]
  by (auto simp: mp_init_def intr_get_def)

section \<open>The locks one kernel thread holds\<close>

text \<open>
  All other components see the locks through \<open>held\<close>, the locks the running thread holds, the
  most recent first. Its length is \<open>noff\<close>. Waiting for another CPU is not visible to the
  thread: its \<open>acquire\<close> describes the state at the moment the lock is taken.
\<close>

record kthread =
  held :: "lock list"

definition acquire :: "lock \<Rightarrow> ('z kthread_scheme, unit) kmon" where
  "acquire l =
     bnd (gets held) (\<lambda>h.
     bnd (panic_if (l \<in> set h) ''acquire'') (\<lambda>_.
     modify (\<lambda>s. s\<lparr>held := l # held s\<rparr>)))"

definition release :: "lock \<Rightarrow> ('z kthread_scheme, unit) kmon" where
  "release l =
     bnd (gets held) (\<lambda>h.
     bnd (panic_if (l \<notin> set h) ''release'') (\<lambda>_.
     modify (\<lambda>s. s\<lparr>held := remove1 l (held s)\<rparr>)))"

lemma acquire_run:
  "acquire l s = (if l \<in> set (held s) then Panic ''acquire'' else Ok () (s\<lparr>held := l # held s\<rparr>))"
  by (simp add: acquire_def)

lemma release_run:
  "release l s =
     (if l \<in> set (held s) then Ok () (s\<lparr>held := remove1 l (held s)\<rparr>) else Panic ''release'')"
  by (simp add: release_def)

lemma wp_acquire [wp_simps]:
  "wp (acquire l) Q s = (l \<notin> set (held s) \<and> Q () (s\<lparr>held := l # held s\<rparr>))"
  by (simp add: wp_def acquire_run)

lemma wp_release [wp_simps]:
  "wp (release l) Q s = (l \<in> set (held s) \<and> Q () (s\<lparr>held := remove1 l (held s)\<rparr>))"
  by (simp add: wp_def release_run)

lemma wlp_acquire [wp_simps]:
  "wlp (acquire l) Q s = (l \<in> set (held s) \<or> Q () (s\<lparr>held := l # held s\<rparr>))"
  by (simp add: wlp_def acquire_run)

lemma wlp_release [wp_simps]:
  "wlp (release l) Q s = (l \<notin> set (held s) \<or> Q () (s\<lparr>held := remove1 l (held s)\<rparr>))"
  by (simp add: wlp_def release_run)

definition thread_view :: "nat \<Rightarrow> mp \<Rightarrow> kthread" where
  "thread_view c \<sigma> = \<lparr>held = owned \<sigma> c\<rparr>"

text \<open>
  C18. The thread view is what the CPUs do: from every reachable state, each step of the machine
  leaves the view of CPU \<open>c\<close> as it is, or is one \<open>acquire\<close> or one \<open>release\<close> on it; a CPU
  outside the lock code enters \<open>acquire\<close> without panic exactly if the view's \<open>acquire\<close> does
  not panic, likewise for \<open>release\<close>; and the length of the view is \<open>noff\<close>.
\<close>

theorem thread_view_simulates:
  assumes "mp_reach \<sigma>"
  shows "(\<forall>\<sigma>'. mp_step \<sigma> \<sigma>' \<longrightarrow>
      thread_view c \<sigma>' = thread_view c \<sigma> \<or>
      (\<exists>l. acquire l (thread_view c \<sigma>) = Ok () (thread_view c \<sigma>')) \<or>
      (\<exists>l. release l (thread_view c \<sigma>) = Ok () (thread_view c \<sigma>'))) \<and>
    (lpcs \<sigma> c = Run \<longrightarrow>
      ((\<exists>\<sigma>'. acquire_enter c l \<sigma> = Ok () \<sigma>') \<longleftrightarrow> (\<exists>t. acquire l (thread_view c \<sigma>) = Ok () t)) \<and>
      ((\<exists>\<sigma>'. release_enter c l \<sigma> = Ok () \<sigma>') \<longleftrightarrow> (\<exists>t. release l (thread_view c \<sigma>) = Ok () t)) \<and>
      noff (cpus \<sigma> c) = int (length (held (thread_view c \<sigma>))))"
proof (intro conjI allI impI)
  fix \<sigma>' assume "mp_step \<sigma> \<sigma>'"
  then show "thread_view c \<sigma>' = thread_view c \<sigma> \<or>
      (\<exists>l. acquire l (thread_view c \<sigma>) = Ok () (thread_view c \<sigma>')) \<or>
      (\<exists>l. release l (thread_view c \<sigma>) = Ok () (thread_view c \<sigma>'))"
    using assms
  proof (induction rule: mp_step.induct)
    case (got \<sigma> d l \<sigma>')
    have "l \<notin> set (owned \<sigma> d)"
      using mp_reach_inv [OF got.prems] got.hyps(1) by (auto simp: mp_inv_def own_inv_def)
    then show ?case using got.hyps(2)
      by (cases "d = c") (auto simp: set_lcpu_def thread_view_def own_def goto_def acquire_run)
  next
    case (rel \<sigma> d l \<sigma>')
    then have "l \<in> set (owned \<sigma> d)"
      using holding_owned [OF rel.prems] release_enter_OkD by blast
    then show ?case using release_enter_OkD [OF rel.hyps(2)]
      by (cases "d = c") (auto simp: thread_view_def own_def goto_def release_run)
  qed (auto dest!: acquire_enter_OkD test_and_set_OkD release_finish_OkD(3) pop_off_owned
        simp: push_off_run thread_view_def goto_def upd_cpu_def)
next
  assume run: "lpcs \<sigma> c = Run"
  show "(\<exists>\<sigma>'. acquire_enter c l \<sigma> = Ok () \<sigma>') \<longleftrightarrow> (\<exists>t. acquire l (thread_view c \<sigma>) = Ok () t)"
    using holding_owned [OF assms, of c l]
    by (simp add: acquire_enter_def push_off_run bnd_def acquire_run thread_view_def holding_def
        upd_cpu_def panic_if_def)
  show "(\<exists>\<sigma>'. release_enter c l \<sigma> = Ok () \<sigma>') \<longleftrightarrow> (\<exists>t. release l (thread_view c \<sigma>) = Ok () t)"
    using holding_owned [OF assms, of c l]
    by (simp add: release_enter_def release_run thread_view_def set_lcpu_def panic_if_def)
  show "noff (cpus \<sigma> c) = int (length (held (thread_view c \<sigma>)))"
    using noff_owned [OF assms run] by (simp add: thread_view_def)
qed

theorem thread_view_simulates_witness:
  "mp_reach mp_example \<and> acquire BcacheLock (thread_view 0 mp_example) = Ok () \<lparr>held = [BcacheLock, KmemLock]\<rparr> \<and>
   noff (cpus mp_example 0) = int (length (held (thread_view 0 mp_example)))"
  using thread_view_simulates [OF mp_example_reach [THEN conjunct1], of 0 BcacheLock]
    mp_example_reach
  by (auto simp: acquire_run thread_view_def)

section \<open>Interface: critical sections\<close>

text \<open>What a component relies on when it brackets a computation with a lock.\<close>

locale lock_ops =
  fixes acq :: "lock \<Rightarrow> ('s, unit) kmon"
    and rel :: "lock \<Rightarrow> ('s, unit) kmon"
    and held_by :: "'s \<Rightarrow> lock list"
    and set_held :: "lock list \<Rightarrow> 's \<Rightarrow> 's"
  assumes wp_acq: "wp (acq l) Q s \<longleftrightarrow> l \<notin> set (held_by s) \<and> Q () (set_held (l # held_by s) s)"
    and wp_rel: "wp (rel l) Q s \<longleftrightarrow> l \<in> set (held_by s) \<and> Q () (set_held (remove1 l (held_by s)) s)"
    and held_set: "held_by (set_held h s) = h"
    and set_set: "set_held h (set_held h' s) = set_held h s"
    and set_same: "set_held (held_by s) s = s"
begin

definition critical :: "lock \<Rightarrow> ('s, 'a) kmon \<Rightarrow> ('s, 'a) kmon" where
  "critical l m = bnd (acq l) (\<lambda>_. bnd m (\<lambda>x. bnd (rel l) (\<lambda>_. ret x)))"

lemma wp_critical:
  assumes "l \<notin> set (held_by s)"
    and "wp m (\<lambda>x t. held_by t = l # held_by s \<and> Q x (set_held (held_by s) t))
      (set_held (l # held_by s) s)"
  shows "wp (critical l m) Q s"
  unfolding critical_def wp_bnd wp_acq
  using assms(1)
  by (auto simp: wp_rel wp_bnd wp_prim intro!: wp_mono [OF assms(2)])

lemma critical_balanced:
  assumes "wp m (\<lambda>x t. held_by t = l # held_by s) (set_held (l # held_by s) s)"
    "l \<notin> set (held_by s)"
  shows "wp (critical l m) (\<lambda>_ t. held_by t = held_by s) s"
  by (rule wp_critical [OF assms(2)]) (rule wp_mono [OF assms(1)], simp add: held_set)

lemma critical_panics: "l \<in> set (held_by s) \<Longrightarrow> \<not> wp (critical l m) Q s"
  by (simp add: critical_def wp_bnd wp_acq)

end

interpretation kl: lock_ops acquire release held "\<lambda>h s. s\<lparr>held := h\<rparr>"
  by unfold_locales (auto simp: wp_acquire wp_release)

end
