(* ===== verification/Memory.thy ===== *)
theory Memory
  imports Prelude
begin

text \<open>
  Physical memory as the kernel addresses it, byte by byte, and the byte routines of
  kernel/string.c that work on it: \<open>memset\<close>, \<open>memcmp\<close>, \<open>memmove\<close>, \<open>memcpy\<close>, and
  \<open>memmove\<close> and \<open>memcmp\<close> of user/ulib.c. The loops are the code's; the lemmas give their
  closed forms, which the other components use. 64-bit little-endian loads and stores, as the
  page-table code and the free list do them, come last.
\<close>

type_synonym mem = "u64 \<Rightarrow> byte"

section \<open>Byte loops of kernel/string.c\<close>

text \<open>\<open>for(i = 0; i < n; i++) cdst[i] = c\<close>\<close>

definition memset :: "mem \<Rightarrow> u64 \<Rightarrow> byte \<Rightarrow> nat \<Rightarrow> mem" where
  "memset m dst c n = fold (\<lambda>i m. m(dst + of_nat i := c)) [0..<n] m"

fun memcmp :: "mem \<Rightarrow> u64 \<Rightarrow> u64 \<Rightarrow> nat \<Rightarrow> int" where
  "memcmp m s1 s2 0 = 0"
| "memcmp m s1 s2 (Suc n) =
     (if m s1 \<noteq> m s2 then int (unat (m s1)) - int (unat (m s2))
      else memcmp m (s1 + 1) (s2 + 1) n)"

text \<open>\<open>while(n-- > 0) *d++ = *s++\<close> and \<open>while(n-- > 0) *--d = *--s\<close>\<close>

fun copy_up :: "mem \<Rightarrow> u64 \<Rightarrow> u64 \<Rightarrow> nat \<Rightarrow> mem" where
  "copy_up m d s 0 = m"
| "copy_up m d s (Suc n) = copy_up (m(d := m s)) (d + 1) (s + 1) n"

fun copy_down :: "mem \<Rightarrow> u64 \<Rightarrow> u64 \<Rightarrow> nat \<Rightarrow> mem" where
  "copy_down m d s 0 = m"
| "copy_down m d s (Suc n) = copy_down (m(d - 1 := m (s - 1))) (d - 1) (s - 1) n"

definition memmove :: "mem \<Rightarrow> u64 \<Rightarrow> u64 \<Rightarrow> nat \<Rightarrow> mem" where
  "memmove m dst src n =
     (if n = 0 then m
      else if src < dst \<and> src + of_nat n > dst
      then copy_down m (dst + of_nat n) (src + of_nat n) n
      else copy_up m dst src n)"

definition memcpy :: "mem \<Rightarrow> u64 \<Rightarrow> u64 \<Rightarrow> nat \<Rightarrow> mem" where
  "memcpy m dst src n = memmove m dst src n"

text \<open>\<open>memmove\<close> and \<open>memcmp\<close> of user/ulib.c; \<open>memmove\<close> there takes a 32-bit \<open>int\<close> as the count.\<close>

definition umemmove :: "mem \<Rightarrow> u64 \<Rightarrow> u64 \<Rightarrow> u32 \<Rightarrow> mem" where
  "umemmove m vdst vsrc n =
     (if vsrc > vdst then copy_up m vdst vsrc (nat (sint n))
      else copy_down m (vdst + scast n) (vsrc + scast n) (nat (sint n)))"

fun umemcmp :: "mem \<Rightarrow> u64 \<Rightarrow> u64 \<Rightarrow> nat \<Rightarrow> int" where
  "umemcmp m p1 p2 0 = 0"
| "umemcmp m p1 p2 (Suc n) =
     (if m p1 \<noteq> m p2 then int (unat (m p1)) - int (unat (m p2))
      else umemcmp m (p1 + 1) (p2 + 1) n)"

section \<open>Closed forms\<close>

text \<open>\<open>in_range x a n\<close>: the address is one of the \<open>n\<close> bytes from \<open>a\<close> on.\<close>

definition in_range :: "u64 \<Rightarrow> u64 \<Rightarrow> nat \<Rightarrow> bool" where
  "in_range x a n = (unat (x - a) < n)"

definition mem_copy :: "mem \<Rightarrow> u64 \<Rightarrow> u64 \<Rightarrow> nat \<Rightarrow> mem" where
  "mem_copy m dst src n = (\<lambda>x. if in_range x dst n then m (src + (x - dst)) else m x)"

lemma unat_of_nat_u64: "i < 2 ^ 64 \<Longrightarrow> unat (of_nat i :: u64) = i"
  by (simp add: unat_of_nat)

lemma in_range_Suc:
  assumes "n < 2 ^ 64"
  shows "in_range x a (Suc n) \<longleftrightarrow> in_range x a n \<or> x = a + of_nat n"
proof -
  have "unat (x - a) = n \<longleftrightarrow> x - a = of_nat n"
    by (rule unat_eq_iff_of_nat) (use assms in simp)
  also have "\<dots> \<longleftrightarrow> x = a + of_nat n"
    by (simp only: diff_eq_eq add.commute)
  finally show ?thesis unfolding in_range_def less_Suc_eq by blast
qed

lemma all_less_Suc_split: "(\<forall>i < Suc n. P i) \<longleftrightarrow> P 0 \<and> (\<forall>i < n. P (Suc i))"
  using less_Suc_eq_0_disj by auto

lemma memset_eq:
  "n \<le> 2 ^ 64 \<Longrightarrow> memset m dst c n = (\<lambda>x. if in_range x dst n then c else m x)"
proof (induction n)
  case 0
  then show ?case by (simp add: memset_def in_range_def)
next
  case (Suc n)
  then have "memset m dst c (Suc n) = (memset m dst c n)(dst + of_nat n := c)"
    by (simp add: memset_def)
  also have "\<dots> = (\<lambda>x. if in_range x dst (Suc n) then c else m x)"
    using Suc in_range_Suc [of n] by (auto simp: fun_eq_iff)
  finally show ?case .
qed

lemma sub_step:
  assumes "x \<noteq> (a :: u64)"
  shows "unat (x - a) = Suc (unat (x - (a + 1)))"
proof -
  have "x - a \<noteq> 0" using assms by simp
  then have "unat (x - a - 1) = unat (x - a) - 1" by (metis unat_minus_one)
  moreover have "unat (x - a) > 0" using \<open>x - a \<noteq> 0\<close> by (simp add: unat_gt_0)
  ultimately show ?thesis by (simp add: diff_diff_add)
qed

lemma in_range_step: "in_range x a (Suc n) \<longleftrightarrow> x = a \<or> in_range x (a + 1) n" if "n < 2 ^ 64"
  by (cases "x = a") (auto simp: in_range_def sub_step)

text \<open>Copying upwards is right when the source does not start inside the part of the
  destination that is written before it is read.\<close>

lemma copy_up_eq:
  assumes "n < 2 ^ 64" "\<And>i. i < n \<Longrightarrow> \<forall>j < i. s + of_nat i \<noteq> d + of_nat j"
    "unat d + n \<le> 2 ^ 64"
  shows "copy_up m d s n = mem_copy m d s n"
  using assms
proof (induction n arbitrary: m d s)
  case 0
  then show ?case by (simp add: mem_copy_def in_range_def)
next
  case (Suc n)
  have nd: "\<And>i. i < n \<Longrightarrow> \<forall>j < i. (s + 1) + of_nat i \<noteq> (d + 1) + of_nat j"
  proof (intro allI impI)
    fix i j assume "i < n" "j < i"
    then show "(s + 1) + of_nat i \<noteq> (d + 1) + of_nat j"
      using Suc.prems(2) [of "Suc i"] by (auto simp: algebra_simps dest: spec [of _ "Suc j"])
  qed
  have sd: "\<And>i. i < n \<Longrightarrow> (s + 1) + of_nat i \<noteq> d"
  proof -
    fix i assume "i < n"
    then show "(s + 1) + of_nat i \<noteq> d"
      using Suc.prems(2) [of "Suc i"] by (auto simp: algebra_simps dest: spec [of _ 0])
  qed
  have "copy_up m d s (Suc n) = mem_copy (m(d := m s)) (d + 1) (s + 1) n" (is "_ = ?R")
  proof (cases "n = 0")
    case True
    then show ?thesis by (auto simp: mem_copy_def in_range_def)
  next
    case False
    have "unat (d + 1) = unat d + 1"
      using Suc.prems(3) False by (intro unat_add_small [THEN trans]) auto
    then show ?thesis using Suc.IH [OF _ nd] Suc.prems by simp
  qed
  also have "?R = mem_copy m d s (Suc n)"
  proof
    fix x
    show "?R x = mem_copy m d s (Suc n) x"
    proof (cases "in_range x (d + 1) n")
      case True
      have src: "s + 1 + (x - (d + 1)) = s + (x - d)" by simp
      have "s + (x - d) \<noteq> d"
      proof -
        obtain i where i: "i < n" "x - (d + 1) = of_nat i"
          using True by (metis in_range_def word_of_unat)
        then show ?thesis using sd [of i] src by (metis add.assoc)
      qed
      then show ?thesis using True Suc.prems(1) src
        by (simp add: mem_copy_def in_range_step)
    next
      case False
      then show ?thesis using Suc.prems(1)
        by (auto simp: mem_copy_def in_range_step)
    qed
  qed
  finally show ?case .
qed

lemma copy_down_eq:
  assumes "n < 2 ^ 64" "\<And>i j. i < j \<Longrightarrow> j < n \<Longrightarrow> s + of_nat i \<noteq> d + of_nat j"
  shows "copy_down m (d + of_nat n) (s + of_nat n) n = mem_copy m d s n"
  using assms
proof (induction n arbitrary: m)
  case 0
  then show ?case by (simp add: mem_copy_def in_range_def)
next
  case (Suc n)
  let ?m = "m(d + of_nat n := m (s + of_nat n))"
  have "copy_down m (d + of_nat (Suc n)) (s + of_nat (Suc n)) (Suc n) =
      copy_down ?m (d + of_nat n) (s + of_nat n) n"
    by (simp add: algebra_simps)
  also have "\<dots> = mem_copy ?m d s n"
    by (rule Suc.IH) (use Suc.prems in auto)
  also have "\<dots> = mem_copy m d s (Suc n)"
  proof
    fix x
    show "mem_copy ?m d s n x = mem_copy m d s (Suc n) x"
    proof (cases "in_range x d n")
      case True
      then obtain i where i: "i < n" "x - d = of_nat i" by (metis in_range_def word_of_unat)
      then have "s + (x - d) \<noteq> d + of_nat n" using Suc.prems(2) [of i n] by simp
      then show ?thesis using True Suc.prems(1) by (simp add: mem_copy_def in_range_Suc)
    next
      case False
      then show ?thesis using Suc.prems(1) by (auto simp: mem_copy_def in_range_Suc)
    qed
  qed
  finally show ?case .
qed

lemma of_nat_u64_less:
  "unat a + i < 2 ^ 64 \<Longrightarrow> unat (a + of_nat i :: u64) = unat a + i"
  by (simp add: unat_word_ariths unat_of_nat)

lemma memmove_eq:
  assumes "unat dst + n < 2 ^ 64" "unat src + n < 2 ^ 64"
  shows "memmove m dst src n = mem_copy m dst src n"
proof -
  have addr: "\<And>i. i \<le> n \<Longrightarrow> unat (src + of_nat i) = unat src + i \<and> unat (dst + of_nat i) = unat dst + i"
    using assms by (auto intro!: of_nat_u64_less)
  consider "n = 0" | "0 < n" "src < dst \<and> src + of_nat n > dst"
    | "0 < n" "\<not> (src < dst \<and> src + of_nat n > dst)" by blast
  then show ?thesis
  proof cases
    case 1
    then show ?thesis by (simp add: memmove_def mem_copy_def in_range_def)
  next
    case 2
    have "copy_down m (dst + of_nat n) (src + of_nat n) n = mem_copy m dst src n"
    proof (rule copy_down_eq)
      fix i j assume "i < j" "j < n"
      then have "unat (src + of_nat i) < unat (dst + of_nat j)"
        using addr [of i] addr [of j] 2(2) by (auto simp: word_less_nat_alt)
      then show "src + of_nat i \<noteq> dst + of_nat j" by auto
    qed (use assms in simp)
    then show ?thesis using 2 by (simp add: memmove_def)
  next
    case 3
    have "copy_up m dst src n = mem_copy m dst src n"
    proof (rule copy_up_eq)
      fix i assume i: "i < n"
      show "\<forall>j < i. src + of_nat i \<noteq> dst + of_nat j"
      proof (intro allI impI)
        fix j assume "j < i"
        then have "unat (src + of_nat i) \<noteq> unat (dst + of_nat j)"
          using addr [of i] addr [of j] addr [of n] 3(2) i by (auto simp: word_less_nat_alt)
        then show "src + of_nat i \<noteq> dst + of_nat j" by auto
      qed
    qed (use assms in simp_all)
    then show ?thesis using 3 by (auto simp: memmove_def)
  qed
qed

lemma umemmove_eq:
  assumes k: "unat k < 2 ^ 31" and n: "n = unat k" and "unat dst + n < 2 ^ 64" "unat src + n < 2 ^ 64"
  shows "umemmove m dst src k = mem_copy m dst src n"
proof -
  have sn: "nat (sint k) = n" using k n by (simp add: sint_u32_pos)
  have ofn: "scast k = (of_nat n :: u64)"
    unfolding n unat_scast_pos [OF k, symmetric] by simp
  have addr: "\<And>i. i \<le> n \<Longrightarrow> unat (src + of_nat i) = unat src + i \<and> unat (dst + of_nat i) = unat dst + i"
    using assms by (auto intro!: of_nat_u64_less)
  show ?thesis
  proof (cases "src > dst")
    case True
    have "copy_up m dst src n = mem_copy m dst src n"
    proof (rule copy_up_eq)
      fix i assume i: "i < n"
      show "\<forall>j < i. src + of_nat i \<noteq> dst + of_nat j"
      proof (intro allI impI)
        fix j assume "j < i"
        then have "unat (src + of_nat i) \<noteq> unat (dst + of_nat j)"
          using addr [of i] addr [of j] True i by (auto simp: word_less_nat_alt)
        then show "src + of_nat i \<noteq> dst + of_nat j" by auto
      qed
    qed (use assms in simp_all)
    then show ?thesis using True by (simp add: umemmove_def sn)
  next
    case False
    have "copy_down m (dst + of_nat n) (src + of_nat n) n = mem_copy m dst src n"
    proof (rule copy_down_eq)
      fix i j assume "i < j" "j < n"
      then have "unat (src + of_nat i) < unat (dst + of_nat j)"
        using addr [of i] addr [of j] False by (auto simp: word_less_nat_alt)
      then show "src + of_nat i \<noteq> dst + of_nat j" by auto
    qed (use assms in simp)
    then show ?thesis using False ofn by (simp add: umemmove_def sn)
  qed
qed

lemma umemmove_negative:
  assumes "2 ^ 31 \<le> unat k"
  shows "umemmove m dst src k = m"
proof -
  have "int (unat k) < 2 ^ 32" using uint_lt2p [of k] by simp
  then have "nat (sint k) = 0" by (simp add: sint_u32_neg [OF assms])
  then show ?thesis by (simp add: umemmove_def)
qed

lemma memcmp_zero:
  "memcmp m a b n = 0 \<longleftrightarrow> (\<forall>i < n. m (a + of_nat i) = m (b + of_nat i))"
proof (induction n arbitrary: a b)
  case (Suc n)
  have split: "(\<forall>i < Suc n. m (a + of_nat i) = m (b + of_nat i)) \<longleftrightarrow>
      m a = m b \<and> (\<forall>i < n. m (a + 1 + of_nat i) = m (b + 1 + of_nat i))"
    by (auto simp: all_less_Suc_split algebra_simps)
  have "m a \<noteq> m b \<Longrightarrow> uint (m a) \<noteq> uint (m b)" by (auto dest: word_uint_eqI)
  then show ?case unfolding split using Suc.IH [of "a + 1" "b + 1"] by simp
qed simp

section \<open>Little-endian values\<close>

text \<open>Integers in memory and on disk, least significant byte first.\<close>

primrec le_bytes :: "nat \<Rightarrow> nat \<Rightarrow> byte list" where
  "le_bytes 0 n = []"
| "le_bytes (Suc k) n = of_nat n # le_bytes k (n div 256)"

primrec le_val :: "byte list \<Rightarrow> nat" where
  "le_val [] = 0"
| "le_val (b # bs) = unat b + 256 * le_val bs"

definition to_le :: "'a::len word \<Rightarrow> byte list" where
  "to_le w = le_bytes (LENGTH('a) div 8) (unat w)"

definition of_le :: "byte list \<Rightarrow> 'a::len word" where
  "of_le bs = of_nat (le_val bs)"

lemma length_le_bytes [simp]: "length (le_bytes k n) = k"
  by (induction k arbitrary: n) simp_all

lemma le_val_bytes: "le_val (le_bytes k n) = n mod 256 ^ k"
proof (induction k arbitrary: n)
  case (Suc k)
  have "n mod (256 * 256 ^ k) = 256 * (n div 256 mod 256 ^ k) + n mod 256"
    by (rule mod_mult2_eq)
  then show ?case by (simp add: Suc unat_of_nat)
qed simp

lemma le_bytes_val: "length bs = k \<Longrightarrow> le_bytes k (le_val bs) = bs"
proof (induction bs arbitrary: k)
  case (Cons b bs)
  have b: "unat b < 256" using unat_bound [of b] by simp
  then have "(unat b + 256 * le_val bs) div 256 = le_val bs" by simp
  moreover have "of_nat (unat b + 256 * le_val bs) = b"
    using b by (simp only: word_unat_eq_iff unat_of_nat) simp
  ultimately show ?case using Cons by auto
qed simp

lemma le_val_less: "le_val bs < 256 ^ length bs"
proof (induction bs)
  case (Cons b bs)
  have "unat b < 256" using unat_bound [of b] by simp
  then have "unat b + 256 * le_val bs < 256 * (le_val bs + 1)" by simp
  also have "\<dots> \<le> 256 * 256 ^ length bs" using Cons by (intro mult_le_mono2) simp
  finally show ?case by simp
qed simp

lemma of_le_to_le [simp]:
  "of_le (to_le w16) = (w16 :: u16)" "of_le (to_le w32) = (w32 :: u32)" "of_le (to_le w64) = (w64 :: u64)"
  using unat_bound [of w16] unat_bound [of w32] unat_bound [of w64]
  by (simp_all add: of_le_def to_le_def le_val_bytes)

lemma length_to_le [simp]:
  "length (to_le (w16 :: u16)) = 2" "length (to_le (w32 :: u32)) = 4" "length (to_le (w64 :: u64)) = 8"
  by (simp_all add: to_le_def)

lemma to_le_of_le:
  "length bs = 2 \<Longrightarrow> to_le (of_le bs :: u16) = bs"
  "length bs = 4 \<Longrightarrow> to_le (of_le bs :: u32) = bs"
  "length bs = 8 \<Longrightarrow> to_le (of_le bs :: u64) = bs"
  using le_val_less [of bs] by (simp_all add: of_le_def to_le_def unat_of_nat le_bytes_val)

section \<open>Loads and stores\<close>

definition load_bytes :: "mem \<Rightarrow> u64 \<Rightarrow> nat \<Rightarrow> byte list" where
  "load_bytes m a n = map (\<lambda>i. m (a + of_nat i)) [0..<n]"

definition store_bytes :: "mem \<Rightarrow> u64 \<Rightarrow> byte list \<Rightarrow> mem" where
  "store_bytes m a bs = (\<lambda>x. if in_range x a (length bs) then bs ! unat (x - a) else m x)"

definition load64 :: "mem \<Rightarrow> u64 \<Rightarrow> u64" where
  "load64 m a = of_le (load_bytes m a 8)"

definition store64 :: "mem \<Rightarrow> u64 \<Rightarrow> u64 \<Rightarrow> mem" where
  "store64 m a v = store_bytes m a (to_le v)"

lemma length_load_bytes [simp]: "length (load_bytes m a n) = n"
  by (simp add: load_bytes_def)

lemma nth_load_bytes [simp]: "i < n \<Longrightarrow> load_bytes m a n ! i = m (a + of_nat i)"
  by (simp add: load_bytes_def)

lemma load_store_bytes:
  "length bs \<le> 2 ^ 64 \<Longrightarrow> load_bytes (store_bytes m a bs) a (length bs) = bs"
  by (rule nth_equalityI) (simp_all add: store_bytes_def in_range_def unat_of_nat)

lemma load_bytes_cong:
  "(\<And>i. i < n \<Longrightarrow> m (a + of_nat i) = m' (a + of_nat i)) \<Longrightarrow> load_bytes m a n = load_bytes m' a n"
  by (simp add: load_bytes_def)

lemma load_store64_same [simp]: "load64 (store64 m a v) a = v"
  using load_store_bytes [of "to_le v" m a] by (simp add: load64_def store64_def)

lemma store64_outside: "\<not> in_range x a 8 \<Longrightarrow> store64 m a v x = m x"
  by (simp add: store64_def store_bytes_def)

lemma load64_cong:
  "(\<And>x. in_range x a 8 \<Longrightarrow> m x = m' x) \<Longrightarrow> load64 m a = load64 m' a"
  unfolding load64_def
  by (rule arg_cong [of _ _ of_le], rule load_bytes_cong) (simp add: in_range_def unat_of_nat)

text \<open>Aligned slots of the same size do not overlap.\<close>

definition aligned :: "nat \<Rightarrow> u64 \<Rightarrow> bool" where
  "aligned k a = (unat a mod k = 0)"

lemma aligned_dvd: "aligned k a \<longleftrightarrow> k dvd unat a"
  by (simp add: aligned_def mod_eq_0_iff_dvd)

lemma aligned_mult: "aligned k a \<Longrightarrow> \<exists>q. unat a = k * q"
  by (simp add: aligned_def mod_eq_0_iff_dvd dvd_def)

lemma in_range_unat:
  assumes "in_range x a n" "unat a + n \<le> 2 ^ 64"
  shows "unat a \<le> unat x" "unat x < unat a + n"
proof -
  have "unat x = unat (a + (x - a))" by simp
  also have "\<dots> = unat a + unat (x - a)"
    using assms by (intro unat_add_small) (auto simp: in_range_def)
  finally show "unat a \<le> unat x" "unat x < unat a + n"
    using assms by (auto simp: in_range_def)
qed

lemma in_rangeI: "unat a \<le> unat x \<Longrightarrow> unat x < unat a + n \<Longrightarrow> in_range x a n"
  by (simp add: in_range_def unat_sub_le word_le_nat_alt)

lemma aligned_bound:
  assumes "aligned k a" "k dvd 2 ^ 64"
  shows "unat a + k \<le> 2 ^ 64"
proof -
  obtain q r where q: "unat a = k * q" and r: "2 ^ 64 = k * r"
    using aligned_mult [OF assms(1)] dvdE [OF assms(2)] by metis
  have "unat a < 2 ^ 64" using unat_bound [of a] by simp
  then have "k * q < k * r" using q r by simp
  then have "q < r" by simp
  then have "k * (q + 1) \<le> k * r" by (intro mult_le_mono2) simp
  then show ?thesis using q r by simp
qed

lemma aligned_disjoint:
  assumes "aligned k a" "aligned k b" "k dvd 2 ^ 64" "a \<noteq> b" "in_range x a k"
  shows "\<not> in_range x b k"
proof
  assume "in_range x b k"
  note ba = in_range_unat [OF assms(5) aligned_bound [OF assms(1,3)]]
    and bb = in_range_unat [OF this aligned_bound [OF assms(2,3)]]
  obtain q r where qr: "unat a = k * q" "unat b = k * r"
    using aligned_mult [OF assms(1)] aligned_mult [OF assms(2)] by blast
  have "k * q < k * (r + 1)" "k * r < k * (q + 1)" using ba bb qr by simp_all
  then have "q < r + 1" "r < q + 1" by (simp_all only: mult_less_cancel1)
  then have "unat a = unat b" using qr by simp
  then show False using assms(4) by (simp add: word_unat_eq_iff)
qed

lemma load_store64_other:
  assumes "aligned 8 a" "aligned 8 b" "a \<noteq> b"
  shows "load64 (store64 m a v) b = load64 m b"
  by (rule load64_cong, rule store64_outside) (use aligned_disjoint [OF assms(2,1)] assms in auto)

lemma aligned_unat_add:
  "aligned 4096 p \<Longrightarrow> i < 4096 \<Longrightarrow> unat (p + of_nat i) = unat p + i"
  using aligned_bound [of 4096 p] by (intro of_nat_u64_less) simp

lemma aligned_slot: "aligned 4096 p \<Longrightarrow> i < 512 \<Longrightarrow> aligned 8 (p + of_nat (8 * i))"
proof -
  assume a: "aligned 4096 p" and i: "i < 512"
  then have "unat (p + of_nat (8 * i)) = unat p + 8 * i" by (intro aligned_unat_add) auto
  moreover have "8 dvd unat p" using a dvd_trans [of 8 4096 "unat p"] by (simp add: aligned_dvd)
  ultimately show ?thesis by (simp add: aligned_dvd)
qed

lemma in_range_sub:
  assumes "aligned 4096 p" "i + n \<le> 4096" "in_range x (p + of_nat i) n"
  shows "in_range x p 4096"
proof (cases "n = 0")
  case False
  have u: "unat (p + of_nat i) = unat p + i"
    using assms(1,2) False by (intro aligned_unat_add) auto
  have "unat p + 4096 \<le> 2 ^ 64" using aligned_bound [OF assms(1)] by simp
  then have "unat (p + of_nat i) \<le> unat x" "unat x < unat (p + of_nat i) + n"
    using in_range_unat [OF assms(3)] u assms(2) by simp_all
  then show ?thesis using u assms(2) by (intro in_rangeI) simp_all
qed (use assms in \<open>simp add: in_range_def\<close>)

text \<open>A change confined to one page does not show in another.\<close>

lemma load64_other_page:
  assumes "aligned 4096 p" "aligned 4096 q" "p \<noteq> q" "i < 512"
    "\<And>x. \<not> in_range x p 4096 \<Longrightarrow> m' x = m x"
  shows "load64 m' (q + of_nat (8 * i)) = load64 m (q + of_nat (8 * i))"
proof (rule load64_cong, rule assms(5))
  fix x assume "in_range x (q + of_nat (8 * i)) 8"
  then have "in_range x q 4096" using in_range_sub [of q "8 * i" 8 x] assms(2,4) by simp
  then show "\<not> in_range x p 4096" using aligned_disjoint [of 4096 q p x] assms(1-3) by simp
qed

section \<open>Properties\<close>

text \<open>
  C22. \<open>memmove\<close> of the kernel copies correctly however source and destination overlap: afterwards the
  destination holds the \<open>n\<close> bytes the source held before, and every other byte is unchanged. The count
  is a \<open>uint\<close> there. The one of the user library agrees for counts that fit its \<open>int\<close>; larger ones are
  negative to it and it copies nothing.
\<close>

theorem memmove_copies:
  assumes "n < 2 ^ 32" "unat dst + n < 2 ^ 64" "unat src + n < 2 ^ 64"
  shows "(\<forall>i < n. memmove m dst src n (dst + of_nat i) = m (src + of_nat i)) \<and>
    (\<forall>x. \<not> in_range x dst n \<longrightarrow> memmove m dst src n x = m x) \<and>
    umemmove m dst src (of_nat n) = (if n < 2 ^ 31 then memmove m dst src n else m)"
proof -
  have u: "unat (of_nat n :: u32) = n" using assms(1) by (simp add: unat_of_nat)
  have "umemmove m dst src (of_nat n) = (if n < 2 ^ 31 then memmove m dst src n else m)"
    using umemmove_eq [of "of_nat n" n dst src] umemmove_negative [of "of_nat n"] assms(2,3) u
    by (simp add: memmove_eq)
  then show ?thesis
    using assms by (simp add: memmove_eq mem_copy_def in_range_def unat_of_nat)
qed

theorem memmove_copies_witness:
  "memmove (\<lambda>x. ucast x) 101 100 3 102 = (101 :: byte) \<and> memmove (\<lambda>x. ucast x) 101 100 3 104 = (104 :: byte) \<and>
   umemmove (\<lambda>x. ucast x) 101 100 3 = memmove (\<lambda>x. ucast x) 101 100 3 \<and>
   umemmove (\<lambda>x. ucast x) 101 100 0x80000000 = (\<lambda>x. ucast x)"
  using memmove_copies [where n = 3 and dst = 101 and src = 100 and m = "\<lambda>x. ucast x"]
    memmove_copies [where n = "0x80000000" and dst = 101 and src = 100 and m = "\<lambda>x. ucast x"]
  by (auto simp: in_range_def dest: spec [of _ 1] spec [of _ 104])

end
