(* ===== verification/Kalloc.thy ===== *)
theory Kalloc
  imports Spinlock Memory
begin

text \<open>
  The physical page allocator, kernel/kalloc.c. The free list is threaded through the free
  pages themselves, so it lives in the model's memory: \<open>freelist\<close> is the address of the first
  free page and the first eight bytes of a free page hold the address of the next. The lemmas
  show that the code implements a stack of distinct pages, and an interface locale states what
  the users of the allocator rely on.
\<close>

section \<open>Pages (kernel/riscv.h, kernel/memlayout.h)\<close>

definition PGSIZE :: u64 where "PGSIZE = 4096"
definition KERNBASE :: u64 where "KERNBASE = 0x80000000"
definition PHYSTOP :: u64 where "PHYSTOP = KERNBASE + 128 * 1024 * 1024"

definition PGROUNDUP :: "u64 \<Rightarrow> u64" where
  "PGROUNDUP sz = (sz + PGSIZE - 1) AND NOT (PGSIZE - 1)"

definition PGROUNDDOWN :: "u64 \<Rightarrow> u64" where
  "PGROUNDDOWN a = a AND NOT (PGSIZE - 1)"

section \<open>The allocator\<close>

text \<open>
  \<open>phys\<close> is physical memory, \<open>freelist\<close> is \<open>kmem.freelist\<close>, \<open>kend\<close> the linker symbol
  \<open>end\<close>, the first address after the kernel.
\<close>

record kmem = kthread +
  phys :: mem
  freelist :: u64
  kend :: u64

definition kfree :: "u64 \<Rightarrow> ('z kmem_scheme, unit) kmon" where
  "kfree pa =
     bnd (gets kend) (\<lambda>kernel_end.
     bnd (panic_if (pa mod PGSIZE \<noteq> 0 \<or> pa < kernel_end \<or> pa \<ge> PHYSTOP) ''kfree'') (\<lambda>_.
     seqM
      [modify (\<lambda>s. s\<lparr>phys := memset (phys s) pa 1 (unat PGSIZE)\<rparr>),
       acquire KmemLock,
       modify (\<lambda>s. s\<lparr>phys := store64 (phys s) pa (freelist s)\<rparr>),
       modify (\<lambda>s. s\<lparr>freelist := pa\<rparr>),
       release KmemLock]))"

definition kalloc :: "('z kmem_scheme, u64) kmon" where
  "kalloc =
     bnd (acquire KmemLock) (\<lambda>_.
     bnd (gets freelist) (\<lambda>r.
     bnd (whenM (r \<noteq> 0) (modify (\<lambda>s. s\<lparr>freelist := load64 (phys s) r\<rparr>))) (\<lambda>_.
     bnd (release KmemLock) (\<lambda>_.
     bnd (whenM (r \<noteq> 0) (modify (\<lambda>s. s\<lparr>phys := memset (phys s) r 5 (unat PGSIZE)\<rparr>))) (\<lambda>_.
     ret r)))))"

text \<open>
  \<open>for(; p + PGSIZE <= pa_end; p += PGSIZE) kfree(p)\<close>. The sum is a C pointer and does not
  wrap, hence the comparison in \<open>nat\<close>.
\<close>

function freerange_from :: "u64 \<Rightarrow> u64 \<Rightarrow> ('z kmem_scheme, unit) kmon" where
  "freerange_from p pa_end =
     (if unat p + unat PGSIZE \<le> unat pa_end
      then bnd (kfree p) (\<lambda>_. freerange_from (p + PGSIZE) pa_end)
      else ret ())"
  by pat_completeness auto
termination
proof (relation "measure (\<lambda>(p, pa_end). unat pa_end - unat p)")
  fix p pa_end :: u64
  assume a: "unat p + unat PGSIZE \<le> unat pa_end"
  then have "unat (p + PGSIZE) = unat p + unat PGSIZE"
    using unat_bound [of pa_end] by (intro unat_add_small) simp
  then show "((p + PGSIZE, pa_end), (p, pa_end)) \<in> measure (\<lambda>(p, pa_end). unat pa_end - unat p)"
    using a by (simp add: PGSIZE_def)
qed simp

declare freerange_from.simps [simp del]

definition freerange :: "u64 \<Rightarrow> u64 \<Rightarrow> ('z kmem_scheme, unit) kmon" where
  "freerange pa_start pa_end = freerange_from (PGROUNDUP pa_start) pa_end"

text \<open>
  \<open>initlock\<close> makes \<open>kmem.lock\<close> free, which a thread sees only as not holding it; the rest of
  \<open>kinit\<close> is the call of \<open>freerange\<close>.
\<close>

definition kinit :: "('z kmem_scheme, unit) kmon" where
  "kinit = bnd (gets kend) (\<lambda>kernel_end. freerange kernel_end PHYSTOP)"

section \<open>The free list as a list of pages\<close>

definition page_ok :: "u64 \<Rightarrow> u64 \<Rightarrow> bool" where
  "page_ok e p = (aligned 4096 p \<and> e \<le> p \<and> p < PHYSTOP)"

fun free_path :: "mem \<Rightarrow> u64 \<Rightarrow> u64 list \<Rightarrow> bool" where
  "free_path m a [] = (a = 0)"
| "free_path m a (p # ps) = (a = p \<and> p \<noteq> 0 \<and> free_path m (load64 m p) ps)"

definition kmem_list :: "'z kmem_scheme \<Rightarrow> u64 list \<Rightarrow> bool" where
  "kmem_list s ps =
     (free_path (phys s) (freelist s) ps \<and> distinct ps \<and>
      (\<forall>p \<in> set ps. page_ok (kend s) p) \<and> 0 < kend s)"

lemma PGSIZE_nat [simp]: "unat PGSIZE = 4096"
  by (simp add: PGSIZE_def)

lemma mod_PGSIZE: "pa mod PGSIZE = 0 \<longleftrightarrow> aligned 4096 pa"
  by (simp add: aligned_def PGSIZE_def word_unat_eq_iff unat_mod_distrib)

lemma page_ok_iff:
  "page_ok e pa \<longleftrightarrow> \<not> (pa mod PGSIZE \<noteq> 0 \<or> pa < e \<or> pa \<ge> PHYSTOP)"
  by (auto simp: page_ok_def mod_PGSIZE not_le not_less)

lemma memset_page: "memset m p c 4096 x = (if in_range x p 4096 then c else m x)"
  by (simp add: memset_eq)

lemma free_path_cong:
  assumes "free_path m a ps" "\<And>q. q \<in> set ps \<Longrightarrow> load64 m' q = load64 m q"
  shows "free_path m' a ps"
  using assms by (induction ps arbitrary: a) auto

lemma free_path_other_page:
  assumes "free_path m a ps" "\<forall>q \<in> set ps. aligned 4096 q" "aligned 4096 p" "p \<notin> set ps"
    "\<And>x. \<not> in_range x p 4096 \<Longrightarrow> m' x = m x"
  shows "free_path m' a ps"
proof (rule free_path_cong [OF assms(1)])
  fix q assume q: "q \<in> set ps"
  then have "p \<noteq> q" "aligned 4096 q" using assms(2,4) by auto
  then show "load64 m' q = load64 m q"
    using load64_other_page [of p q 0 m' m] assms(3,5) by simp
qed

lemma kalloc_run:
  "KmemLock \<notin> set (held s) \<Longrightarrow>
   kalloc s =
     (if freelist s = 0 then Ok 0 s
      else Ok (freelist s)
        (s\<lparr>phys := memset (phys s) (freelist s) 5 4096,
           freelist := load64 (phys s) (freelist s)\<rparr>))"
  by (simp add: kalloc_def acquire_run release_run bnd_def whenM_def)

lemma kfree_run:
  "KmemLock \<notin> set (held s) \<Longrightarrow>
   kfree pa s =
     (if page_ok (kend s) pa
      then Ok () (s\<lparr>phys := store64 (memset (phys s) pa 1 4096) pa (freelist s), freelist := pa\<rparr>)
      else Panic ''kfree'')"
  by (simp add: kfree_def acquire_run release_run bnd_def panic_if_def page_ok_iff)

lemma kalloc_empty:
  "kmem_list s [] \<Longrightarrow> KmemLock \<notin> set (held s) \<Longrightarrow> kalloc s = Ok 0 s"
  by (simp add: kalloc_run kmem_list_def)

lemma kalloc_Cons:
  assumes "kmem_list s (p # ps)" "KmemLock \<notin> set (held s)"
  shows "kalloc s = Ok p (s\<lparr>phys := memset (phys s) p 5 4096, freelist := load64 (phys s) p\<rparr>)"
    "kmem_list (s\<lparr>phys := memset (phys s) p 5 4096, freelist := load64 (phys s) p\<rparr>) ps"
proof -
  have f: "freelist s = p" "p \<noteq> 0" "free_path (phys s) (load64 (phys s) p) ps"
    and d: "p \<notin> set ps" "distinct ps" "\<forall>q \<in> set (p # ps). page_ok (kend s) q" "0 < kend s"
    using assms(1) by (auto simp: kmem_list_def)
  show "kalloc s = Ok p (s\<lparr>phys := memset (phys s) p 5 4096, freelist := load64 (phys s) p\<rparr>)"
    using assms(2) f by (simp add: kalloc_run)
  have "free_path (memset (phys s) p 5 4096) (load64 (phys s) p) ps"
    by (rule free_path_other_page [OF f(3), of p])
      (use d in \<open>auto simp: page_ok_def memset_page\<close>)
  then show "kmem_list (s\<lparr>phys := memset (phys s) p 5 4096, freelist := load64 (phys s) p\<rparr>) ps"
    using d by (simp add: kmem_list_def)
qed

lemma store64_outside_page:
  "aligned 4096 p \<Longrightarrow> \<not> in_range x p 4096 \<Longrightarrow> store64 m p v x = m x"
  using in_range_sub [of p 0 8 x] by (intro store64_outside) auto

lemma kfree_Cons:
  assumes "kmem_list s ps" "page_ok (kend s) p" "p \<notin> set ps"
  shows "kmem_list (s\<lparr>phys := store64 (memset (phys s) p 1 4096) p (freelist s), freelist := p\<rparr>)
    (p # ps)"
proof -
  have a: "aligned 4096 p" "p \<noteq> 0"
    using assms by (auto simp: page_ok_def kmem_list_def)
  have "free_path (store64 (memset (phys s) p 1 4096) p (freelist s)) (freelist s) ps"
    by (rule free_path_other_page [of "phys s" _ _ p])
      (use assms a in \<open>auto simp: kmem_list_def page_ok_def memset_page store64_outside_page\<close>)
  then show ?thesis using assms a by (simp add: kmem_list_def)
qed

section \<open>Rounding to pages\<close>

lemma round_down_word: "(x :: u64) AND NOT (mask 12) = push_bit 12 (drop_bit 12 x)"
  by (rule bit_word_eqI) (auto simp: bit_simps)

lemma unat_PGROUNDDOWN: "unat (PGROUNDDOWN x) = unat x div 4096 * 4096"
proof -
  have "unat x div 4096 * 4096 < 2 ^ 64" using unat_bound [of x] by simp
  moreover have "PGROUNDDOWN x = push_bit 12 (drop_bit 12 x)"
    unfolding round_down_word [symmetric] by (simp add: PGROUNDDOWN_def PGSIZE_def mask_eq_exp_minus_1)
  ultimately show ?thesis
    by (simp only: unsigned_push_bit_eq unsigned_drop_bit_eq)
      (simp add: push_bit_eq_mult drop_bit_eq_div take_bit_nat_eq_self)
qed

lemma PGROUNDUP_down: "PGROUNDUP x = PGROUNDDOWN (x + 4095)"
  by (simp add: PGROUNDUP_def PGROUNDDOWN_def PGSIZE_def algebra_simps)

lemma aligned_PGROUNDDOWN [simp]: "aligned 4096 (PGROUNDDOWN x)"
  by (simp add: aligned_def unat_PGROUNDDOWN)

lemma aligned_PGROUNDUP [simp]: "aligned 4096 (PGROUNDUP x)"
  by (simp add: PGROUNDUP_down)

lemma unat_PGROUNDUP:
  "unat x + 4095 < 2 ^ 64 \<Longrightarrow> unat (PGROUNDUP x) = (unat x + 4095) div 4096 * 4096"
  using unat_add_small [of x 4095] by (simp add: PGROUNDUP_down unat_PGROUNDDOWN)

lemma PGROUNDUP_ge: "unat x + 4095 < 2 ^ 64 \<Longrightarrow> x \<le> PGROUNDUP x"
  by (simp add: word_le_nat_alt unat_PGROUNDUP)

section \<open>Freeing a range\<close>

text \<open>The pages of \<open>[p, pa_end)\<close>, the last one first, as \<open>freerange\<close> pushes them.\<close>

definition range_pages :: "u64 \<Rightarrow> u64 \<Rightarrow> u64 list" where
  "range_pages p pa_end =
     rev (map (\<lambda>i. p + of_nat (4096 * i)) [0..<(unat pa_end - unat p) div 4096])"

lemma range_pages_rec:
  assumes "unat p + 4096 \<le> unat pa_end"
  shows "range_pages p pa_end = range_pages (p + 4096) pa_end @ [p]"
proof -
  have "unat p + 4096 < 2 ^ 64" using le_less_trans [OF assms unat_bound] by simp
  then have u: "unat (p + 4096) = unat p + 4096" using unat_add_small [of p 4096] by simp
  have n: "(unat pa_end - unat p) div 4096 = Suc ((unat pa_end - (unat p + 4096)) div 4096)"
    using assms by simp
  show ?thesis
    unfolding range_pages_def u n upt_conv_Cons [OF zero_less_Suc] map_Suc_upt [symmetric]
    by (simp add: algebra_simps comp_def)
qed

lemma range_pages_Nil: "\<not> unat p + 4096 \<le> unat pa_end \<Longrightarrow> range_pages p pa_end = []"
  by (simp add: range_pages_def)

lemma aligned_next:
  assumes "aligned 4096 p" "unat p + 4096 \<le> unat (pa_end :: u64)"
  shows "aligned 4096 (p + 4096)" "unat (p + 4096) = unat p + 4096"
proof -
  have "unat p + 4096 < 2 ^ 64" using le_less_trans [OF assms(2) unat_bound] by simp
  then show u: "unat (p + 4096) = unat p + 4096" using unat_add_small [of p 4096] by simp
  show "aligned 4096 (p + 4096)" using assms(1) by (simp add: aligned_def u)
qed

lemma range_pages_set:
  assumes "e \<le> PHYSTOP"
  shows "set (range_pages (PGROUNDUP e) PHYSTOP) = {p. page_ok e p}"
proof (intro set_eqI iffI)
  have b: "unat e + 4095 < 2 ^ 64"
    using assms by (simp add: word_le_nat_alt PHYSTOP_def KERNBASE_def)
  define r where "r = (unat e + 4095) div 4096"
  have r: "unat (PGROUNDUP e) = r * 4096" using unat_PGROUNDUP [OF b] r_def by simp
  have P: "unat PHYSTOP = 0x88000 * 4096" by (simp add: PHYSTOP_def KERNBASE_def)
  have re: "unat e \<le> r * 4096" "r * 4096 < unat e + 4096" by (simp_all add: r_def)
  have n: "(unat PHYSTOP - unat (PGROUNDUP e)) div 4096 = 0x88000 - r" unfolding P r by simp
  {
    fix p assume "p \<in> set (range_pages (PGROUNDUP e) PHYSTOP)"
    then obtain i where i: "i < 0x88000 - r" "p = PGROUNDUP e + of_nat (4096 * i)"
      by (auto simp: range_pages_def n)
    have "unat p = (r + i) * 4096"
      using i(1) r unfolding i(2) by (subst of_nat_u64_less) auto
    then show "p \<in> {p. page_ok e p}"
      using i(1) re P by (simp add: page_ok_def aligned_def word_le_nat_alt word_less_nat_alt)
  next
    fix p assume "p \<in> {p. page_ok e p}"
    then obtain q where q: "unat p = 4096 * q" "unat e \<le> 4096 * q" "q < 0x88000"
      using P by (auto simp: page_ok_def word_le_nat_alt word_less_nat_alt dest!: aligned_mult)
    then have rq: "r \<le> q" using re by simp
    have "unat (PGROUNDUP e + of_nat (4096 * (q - r))) = unat p"
      using q rq r by (subst of_nat_u64_less) auto
    then have "p = PGROUNDUP e + of_nat (4096 * (q - r))" by (simp add: word_unat_eq_iff)
    moreover have "q - r < 0x88000 - r" using q rq by simp
    ultimately show "p \<in> set (range_pages (PGROUNDUP e) PHYSTOP)"
      unfolding range_pages_def n set_rev set_map set_upt
      by (intro image_eqI [where x = "q - r"]) simp_all
  }
qed

lemma freerange_from_ok:
  assumes "kmem_list s ps" "KmemLock \<notin> set (held s)" "aligned 4096 p" "kend s \<le> p"
    "pa_end \<le> PHYSTOP" "\<forall>q \<in> set ps. q < p"
  shows "\<exists>s'. freerange_from p pa_end s = Ok () s' \<and>
    kmem_list s' (range_pages p pa_end @ ps) \<and> held s' = held s \<and> kend s' = kend s"
  using assms
proof (induction p pa_end arbitrary: s ps rule: freerange_from.induct)
  case (1 p pa_end)
  show ?case
  proof (cases "unat p + 4096 \<le> unat pa_end")
    case False
    then show ?thesis
      using "1.prems" by (simp add: freerange_from.simps [of p] range_pages_Nil)
  next
    case True
    note nxt = aligned_next [OF "1.prems"(3) True]
    have ok: "page_ok (kend s) p"
      using "1.prems" True by (simp add: page_ok_def word_less_nat_alt word_le_nat_alt)
    let ?s = "s\<lparr>phys := store64 (memset (phys s) p 1 4096) p (freelist s), freelist := p\<rparr>"
    have k: "kmem_list ?s (p # ps)"
      using "1.prems" ok by (intro kfree_Cons) auto
    have "\<exists>s'. freerange_from (p + PGSIZE) pa_end ?s = Ok () s' \<and>
      kmem_list s' (range_pages (p + PGSIZE) pa_end @ p # ps) \<and> held s' = held ?s \<and>
      kend s' = kend ?s"
      by (rule "1.IH" [OF _ k])
        (use True "1.prems" nxt in
          \<open>auto simp: PGSIZE_def word_less_nat_alt word_le_nat_alt less_trans\<close>)
    then show ?thesis
      using True ok "1.prems"(2)
      by (simp add: freerange_from.simps [of p] range_pages_rec kfree_run bnd_def PGSIZE_def)
  qed
qed

section \<open>Interface: a page allocator\<close>

text \<open>
  What the rest of the kernel relies on. \<open>frees s F\<close> says that \<open>F\<close> is the set of free pages;
  a page in use is one outside \<open>F\<close>. The derived lemmas say that allocating or freeing one page
  leaves every other page in use as it is.
\<close>

locale page_alloc =
  fixes alloc :: "('s, u64) kmon"
    and free :: "u64 \<Rightarrow> ('s, unit) kmon"
    and frees :: "'s \<Rightarrow> u64 set \<Rightarrow> bool"
    and memory :: "'s \<Rightarrow> mem"
    and valid :: "'s \<Rightarrow> u64 \<Rightarrow> bool"
  assumes alloc_law: "frees s F \<Longrightarrow>
      wp alloc (\<lambda>p t. if F = {} then p = 0 \<and> t = s
        else p \<in> F \<and> frees t (F - {p}) \<and> valid t = valid s \<and>
          (\<forall>x. \<not> in_range x p 4096 \<longrightarrow> memory t x = memory s x)) s"
    and free_law: "frees s F \<Longrightarrow> valid s p \<Longrightarrow> p \<notin> F \<Longrightarrow>
      wp (free p) (\<lambda>_ t. frees t (insert p F) \<and> valid t = valid s \<and>
        (\<forall>x. \<not> in_range x p 4096 \<longrightarrow> memory t x = memory s x)) s"
    and valid_free: "frees s F \<Longrightarrow> p \<in> F \<Longrightarrow> valid s p"
    and valid_aligned: "valid s p \<Longrightarrow> aligned 4096 p"
begin

lemma alloc_keeps_used:
  assumes "frees s F" "aligned 4096 q" "q \<notin> F"
  shows "wp alloc (\<lambda>p t. p \<noteq> 0 \<longrightarrow> p \<noteq> q \<and> (\<forall>x. in_range x q 4096 \<longrightarrow> memory t x = memory s x)) s"
proof (rule wp_mono [OF alloc_law [OF assms(1)]], intro impI, goal_cases)
  case (1 p t)
  then have p: "p \<in> F" "\<And>x. \<not> in_range x p 4096 \<Longrightarrow> memory t x = memory s x"
    by (auto split: if_splits)
  then have "aligned 4096 p" "p \<noteq> q" using valid_aligned valid_free assms by blast+
  then have "in_range x q 4096 \<Longrightarrow> \<not> in_range x p 4096" for x
    using aligned_disjoint [of 4096 q p x] assms(2) by simp
  with p \<open>p \<noteq> q\<close> show ?case by blast
qed

lemma free_keeps_used:
  assumes "frees s F" "valid s p" "p \<notin> F" "aligned 4096 q" "q \<noteq> p"
  shows "wp (free p) (\<lambda>_ t. \<forall>x. in_range x q 4096 \<longrightarrow> memory t x = memory s x) s"
proof (rule wp_mono [OF free_law [OF assms(1-3)]], intro allI impI)
  fix t x
  assume t: "frees t (insert p F) \<and> valid t = valid s \<and>
    (\<forall>x. \<not> in_range x p 4096 \<longrightarrow> memory t x = memory s x)" and x: "in_range x q 4096"
  have "\<not> in_range x p 4096"
    using aligned_disjoint [of 4096 q p x] valid_aligned [OF assms(2)] assms(4,5) x by simp
  with t show "memory t x = memory s x" by blast
qed

lemma alloc_free:
  assumes "frees s F" "F \<noteq> {}"
  shows "wp (bnd alloc free) (\<lambda>_ t. frees t F) s"
  unfolding wp_bnd
proof (rule wp_mono [OF alloc_law [OF assms(1)]], goal_cases)
  case (1 p t)
  then have p: "p \<in> F" "frees t (F - {p})" "valid t = valid s" using assms(2) by auto
  then have "valid t p" using valid_free [OF assms(1)] by simp
  from free_law [OF p(2) this] show ?case
    using p(1) by (auto elim!: wp_mono simp: insert_absorb)
qed

end

definition free_pages :: "'z kmem_scheme \<Rightarrow> u64 set \<Rightarrow> bool" where
  "free_pages s F = (\<exists>ps. kmem_list s ps \<and> set ps = F \<and> KmemLock \<notin> set (held s))"

lemma kalloc_free_pages:
  assumes "free_pages s F"
  shows "wp kalloc (\<lambda>p t. if F = {} then p = 0 \<and> t = s
      else p \<in> F \<and> free_pages t (F - {p}) \<and> page_ok (kend t) = page_ok (kend s) \<and>
        (\<forall>x. \<not> in_range x p 4096 \<longrightarrow> phys t x = phys s x)) s"
proof -
  obtain ps where ps: "kmem_list s ps" "set ps = F" and l: "KmemLock \<notin> set (held s)"
    using assms by (auto simp: free_pages_def)
  show ?thesis
  proof (cases ps)
    case Nil
    then have "kalloc s = Ok 0 s" "F = {}" using kalloc_empty ps l by auto
    then show ?thesis by (simp add: wp_eq_Ok)
  next
    case (Cons p qs)
    note k = kalloc_Cons [OF ps(1) [unfolded Cons] l]
    have "p \<notin> set qs" using ps(1) Cons by (simp add: kmem_list_def)
    then have "set qs = F - {p}" "p \<in> F" using ps(2) Cons by auto
    then show ?thesis
      unfolding wp_eq_Ok [where m = kalloc, OF k(1)] using k(2) l by (auto simp: free_pages_def memset_page)
  qed
qed

lemma kfree_free_pages:
  assumes "free_pages s F" "page_ok (kend s) p" "p \<notin> F"
  shows "wp (kfree p) (\<lambda>_ t. free_pages t (insert p F) \<and> page_ok (kend t) = page_ok (kend s) \<and>
      (\<forall>x. \<not> in_range x p 4096 \<longrightarrow> phys t x = phys s x)) s"
proof -
  obtain ps where ps: "kmem_list s ps" "set ps = F" and l: "KmemLock \<notin> set (held s)"
    using assms by (auto simp: free_pages_def)
  let ?t = "s\<lparr>phys := store64 (memset (phys s) p 1 4096) p (freelist s), freelist := p\<rparr>"
  have k: "kfree p s = Ok () ?t" using assms(2) l by (simp add: kfree_run)
  have "kmem_list ?t (p # ps)" using kfree_Cons [OF ps(1) assms(2)] assms(3) ps(2) by simp
  then have "free_pages ?t (insert p F)"
    using ps(2) l unfolding free_pages_def by (intro exI [of _ "p # ps"]) simp
  moreover have "aligned 4096 p" using assms(2) by (simp add: page_ok_def)
  ultimately show ?thesis
    unfolding wp_eq_Ok [where m = "kfree p", OF k] by (simp add: memset_page store64_outside_page)
qed

interpretation ka: page_alloc kalloc kfree free_pages phys "\<lambda>s. page_ok (kend s)"
proof unfold_locales
  fix s :: "'a kmem_scheme" and F p
  assume "free_pages s F" "p \<in> F"
  then show "page_ok (kend s) p" by (auto simp: free_pages_def kmem_list_def)
qed (simp_all add: kalloc_free_pages kfree_free_pages page_ok_def del: if_split)

section \<open>Properties\<close>

text \<open>
  C5. The allocator implements a stack of distinct free pages. While the free list holds the
  pages \<open>ps\<close>, \<open>kalloc\<close> returns 0 and changes nothing when \<open>ps\<close> is empty; otherwise it
  returns the first page, filled with 5, and keeps the others. \<open>kfree\<close> of a page that is not
  free pushes it. Neither touches memory outside the one page or the rest of the state;
  \<open>kfree\<close> of anything but an aligned page between the kernel's end and \<open>PHYSTOP\<close> panics, and
  so does any call while the thread holds \<open>kmem.lock\<close>.
\<close>

theorem kalloc_kfree_stack:
  fixes s :: "'z kmem_scheme"
  assumes "kmem_list s ps"
  shows "(KmemLock \<notin> set (held s) \<longrightarrow>
      (case ps of
        [] \<Rightarrow> kalloc s = Ok 0 s
      | p # ps' \<Rightarrow> (\<exists>m f. kalloc s = Ok p (s\<lparr>phys := m, freelist := f\<rparr>) \<and>
          kmem_list (s\<lparr>phys := m, freelist := f\<rparr>) ps' \<and> p \<notin> set ps' \<and> page_ok (kend s) p \<and>
          (\<forall>x. m x = (if in_range x p 4096 then 5 else phys s x)))) \<and>
      (page_ok (kend s) pa \<and> pa \<notin> set ps \<longrightarrow>
        (\<exists>m. kfree pa s = Ok () (s\<lparr>phys := m, freelist := pa\<rparr>) \<and>
          kmem_list (s\<lparr>phys := m, freelist := pa\<rparr>) (pa # ps) \<and>
          (\<forall>x. \<not> in_range x pa 4096 \<longrightarrow> m x = phys s x)))) \<and>
    (\<not> page_ok (kend s) pa \<longrightarrow> kfree pa s = Panic ''kfree'') \<and>
    (KmemLock \<in> set (held s) \<and> page_ok (kend s) pa \<longrightarrow>
      kalloc s = Panic ''acquire'' \<and> kfree pa s = Panic ''acquire'')"
proof (intro conjI impI)
  assume l: "KmemLock \<notin> set (held s)"
  show "case ps of
        [] \<Rightarrow> kalloc s = Ok 0 s
      | p # ps' \<Rightarrow> (\<exists>m f. kalloc s = Ok p (s\<lparr>phys := m, freelist := f\<rparr>) \<and>
          kmem_list (s\<lparr>phys := m, freelist := f\<rparr>) ps' \<and> p \<notin> set ps' \<and> page_ok (kend s) p \<and>
          (\<forall>x. m x = (if in_range x p 4096 then 5 else phys s x)))"
  proof (cases ps)
    case (Cons p ps')
    note k = kalloc_Cons [OF assms [unfolded Cons] l]
    have "p \<notin> set ps'" "page_ok (kend s) p" using assms Cons by (auto simp: kmem_list_def)
    then show ?thesis
      unfolding Cons list.case
      by (intro exI [of _ "memset (phys s) p 5 4096"] exI [of _ "load64 (phys s) p"] conjI k)
        (simp_all add: memset_page)
  qed (use assms l kalloc_empty in auto)
  assume "page_ok (kend s) pa \<and> pa \<notin> set ps"
  then show "\<exists>m. kfree pa s = Ok () (s\<lparr>phys := m, freelist := pa\<rparr>) \<and>
          kmem_list (s\<lparr>phys := m, freelist := pa\<rparr>) (pa # ps) \<and>
          (\<forall>x. \<not> in_range x pa 4096 \<longrightarrow> m x = phys s x)"
    using kfree_Cons [OF assms, of pa]
    by (auto simp: kfree_run [OF l] page_ok_def memset_page store64_outside_page)
qed (simp_all add: kfree_def kalloc_def page_ok_iff acquire_run bnd_def panic_if_def)

text \<open>A machine with two free pages, the first one linked to the second.\<close>

definition kmem_example :: kmem where
  "kmem_example =
     \<lparr>held = [], phys = store64 (store64 (\<lambda>_. 0) 0x80010000 0) 0x80020000 0x80010000,
      freelist = 0x80020000, kend = 0x80008000\<rparr>"

lemma kmem_example_list: "kmem_list kmem_example [0x80020000, 0x80010000]"
  by (simp add: kmem_list_def kmem_example_def page_ok_def aligned_def PHYSTOP_def KERNBASE_def
      load_store64_other word_less_nat_alt word_le_nat_alt)

theorem kalloc_kfree_stack_witness:
  "\<exists>m f. kalloc kmem_example = Ok 0x80020000 (kmem_example\<lparr>phys := m, freelist := f\<rparr>) \<and>
    kmem_list (kmem_example\<lparr>phys := m, freelist := f\<rparr>) [0x80010000]"
proof -
  have "KmemLock \<notin> set (held kmem_example)" by (simp add: kmem_example_def)
  then show ?thesis using kalloc_kfree_stack [OF kmem_example_list] unfolding list.case by blast
qed

text \<open>
  C19. \<open>kinit\<close>, started with an empty free list, frees exactly the whole pages between the end
  of the kernel and \<open>PHYSTOP\<close>: it returns, the free list holds all of them, each once, and
  no panic is reached.
\<close>

theorem kinit_frees_all:
  fixes s :: "'z kmem_scheme"
  assumes "freelist s = 0" "0 < kend s" "kend s \<le> PHYSTOP" "KmemLock \<notin> set (held s)"
  shows "\<exists>s' ps. kinit s = Ok () s' \<and> kmem_list s' ps \<and> held s' = held s \<and>
    set ps = {p. page_ok (kend s) p} \<and> length ps = (unat PHYSTOP - unat (PGROUNDUP (kend s))) div 4096"
proof -
  have b: "unat (kend s) + 4095 < 2 ^ 64"
    using assms(3) by (simp add: word_le_nat_alt PHYSTOP_def KERNBASE_def)
  obtain s' where s': "kinit s = Ok () s'" "kmem_list s' (range_pages (PGROUNDUP (kend s)) PHYSTOP)"
    "held s' = held s"
    using freerange_from_ok [of s "[]" "PGROUNDUP (kend s)" PHYSTOP] assms PGROUNDUP_ge [OF b]
    by (auto simp: kinit_def freerange_def kmem_list_def)
  have "set (range_pages (PGROUNDUP (kend s)) PHYSTOP) = {p. page_ok (kend s) p}"
    by (rule range_pages_set [OF assms(3)])
  then show ?thesis using s' by (auto simp: range_pages_def)
qed

theorem kinit_frees_all_witness:
  "\<exists>s' ps. kinit (kmem_example\<lparr>freelist := 0\<rparr>) = Ok () s' \<and> kmem_list s' ps \<and> length ps = 32760"
proof -
  have h: "freelist (kmem_example\<lparr>freelist := 0\<rparr>) = 0" "0 < kend (kmem_example\<lparr>freelist := 0\<rparr>)"
    "kend (kmem_example\<lparr>freelist := 0\<rparr>) \<le> PHYSTOP"
    "KmemLock \<notin> set (held (kmem_example\<lparr>freelist := 0\<rparr>))"
    by (simp_all add: kmem_example_def PHYSTOP_def KERNBASE_def)
  have n: "(unat PHYSTOP - unat (PGROUNDUP (kend (kmem_example\<lparr>freelist := 0\<rparr>)))) div 4096 = 32760"
    by (simp add: kmem_example_def PHYSTOP_def KERNBASE_def unat_PGROUNDUP)
  show ?thesis using kinit_frees_all [OF h] unfolding n by blast
qed

end
