(* ===== verification/Vm.thy ===== *)
theory Vm
  imports Kalloc
begin

text \<open>
  Sv39 page tables, kernel/vm.c, over the physical memory of the allocator: the tables are
  512-entry arrays of 64-bit words in allocated pages. Buffers of the kernel that are copied to
  and from user memory are byte lists. The lemmas give the meaning of a page table as a function
  from virtual pages to entries and what the operations do to it.
\<close>

section \<open>Page-table entries (kernel/riscv.h)\<close>

definition PTE_V :: u64 where "PTE_V = 1"
definition PTE_R :: u64 where "PTE_R = 2"
definition PTE_W :: u64 where "PTE_W = 4"
definition PTE_X :: u64 where "PTE_X = 8"
definition PTE_U :: u64 where "PTE_U = 16"

definition PA2PTE :: "u64 \<Rightarrow> u64" where "PA2PTE pa = push_bit 10 (drop_bit 12 pa)"
definition PTE2PA :: "u64 \<Rightarrow> u64" where "PTE2PA pte = push_bit 12 (drop_bit 10 pte)"
definition PTE_FLAGS :: "u64 \<Rightarrow> u64" where "PTE_FLAGS pte = pte AND 0x3FF"

definition PXSHIFT :: "nat \<Rightarrow> nat" where "PXSHIFT level = 12 + 9 * level"
definition PX :: "nat \<Rightarrow> u64 \<Rightarrow> u64" where "PX level va = drop_bit (PXSHIFT level) va AND 0x1FF"

definition MAXVA :: u64 where "MAXVA = push_bit (9 + 9 + 9 + 12 - 1) 1"
definition TRAMPOLINE :: u64 where "TRAMPOLINE = MAXVA - PGSIZE"
definition TRAPFRAME :: u64 where "TRAPFRAME = TRAMPOLINE - PGSIZE"
definition KSTACK :: "nat \<Rightarrow> u64" where "KSTACK p = TRAMPOLINE - of_nat (p + 1) * 2 * PGSIZE"
definition UART0 :: u64 where "UART0 = 0x10000000"
definition VIRTIO0 :: u64 where "VIRTIO0 = 0x10001000"
definition PLIC :: u64 where "PLIC = 0x0c000000"

definition SATP_SV39 :: u64 where "SATP_SV39 = push_bit 60 8"
definition MAKE_SATP :: "u64 \<Rightarrow> u64" where "MAKE_SATP pagetable = SATP_SV39 OR drop_bit 12 pagetable"

section \<open>Operations\<close>

text \<open>
  \<open>etext\<close> and \<open>trampoline\<close> are addresses the linker script sets; \<open>satp\<close> is the register.
\<close>

record vm = kmem +
  kernel_pagetable :: u64
  etext :: u64
  trampoline :: u64
  satp :: u64

text \<open>A store through a null pointer traps in the kernel, which \<open>kerneltrap()\<close> answers by a panic.\<close>

definition deref :: "u64 \<Rightarrow> ('s, unit) kmon" where
  "deref p = panic_if (p = 0) ''kerneltrap''"

text \<open>The loop of \<open>walk\<close>, with \<open>level\<close> counting down to 0.\<close>

fun walk_from :: "nat \<Rightarrow> u64 \<Rightarrow> u64 \<Rightarrow> bool \<Rightarrow> ('z kmem_scheme, u64) kmon" where
  "walk_from 0 pagetable va alloc = ret (pagetable + 8 * PX 0 va)"
| "walk_from (Suc l) pagetable va alloc =
     (let pte = pagetable + 8 * PX (Suc l) va in
      bnd (gets (\<lambda>s. load64 (phys s) pte)) (\<lambda>e.
      if e AND PTE_V \<noteq> 0 then walk_from l (PTE2PA e) va alloc
      else if \<not> alloc then ret 0
      else bnd kalloc (\<lambda>pg.
        if pg = 0 then ret 0
        else
          bnd (modify (\<lambda>s. s\<lparr>phys := memset (phys s) pg 0 (unat PGSIZE)\<rparr>)) (\<lambda>_.
          bnd (modify (\<lambda>s. s\<lparr>phys := store64 (phys s) pte (PA2PTE pg OR PTE_V)\<rparr>)) (\<lambda>_.
          walk_from l pg va alloc)))))"

definition walk :: "u64 \<Rightarrow> u64 \<Rightarrow> bool \<Rightarrow> ('z kmem_scheme, u64) kmon" where
  "walk pagetable va alloc =
     bnd (panic_if (va \<ge> MAXVA) ''walk'') (\<lambda>_. walk_from 2 pagetable va alloc)"

definition walkaddr :: "u64 \<Rightarrow> u64 \<Rightarrow> ('z kmem_scheme, u64) kmon" where
  "walkaddr pagetable va =
     (if va \<ge> MAXVA then ret 0
      else
        bnd (walk pagetable va False) (\<lambda>pte.
        if pte = 0 then ret 0
        else
          bnd (gets (\<lambda>s. load64 (phys s) pte)) (\<lambda>e.
          if e AND PTE_V = 0 then ret 0
          else if e AND PTE_U = 0 then ret 0
          else ret (PTE2PA e))))"

text \<open>
  The \<open>for(;;)\<close> loop of \<open>mappages\<close>. Its first argument is the number of pages after the
  current one: \<open>a == last\<close> holds when it is 0, since both addresses are page aligned.
\<close>

fun mappages_loop :: "nat \<Rightarrow> u64 \<Rightarrow> u64 \<Rightarrow> u64 \<Rightarrow> u64 \<Rightarrow> ('z kmem_scheme, int) kmon" where
  "mappages_loop n pagetable a pa perm =
     bnd (walk pagetable a True) (\<lambda>pte.
     if pte = 0 then ret (-1)
     else
       bnd (gets (\<lambda>s. load64 (phys s) pte)) (\<lambda>e.
       bnd (panic_if (e AND PTE_V \<noteq> 0) ''mappages: remap'') (\<lambda>_.
       bnd (modify (\<lambda>s. s\<lparr>phys := store64 (phys s) pte (PA2PTE pa OR perm OR PTE_V)\<rparr>)) (\<lambda>_.
       (case n of
         0 \<Rightarrow> ret 0
       | Suc k \<Rightarrow> mappages_loop k pagetable (a + PGSIZE) (pa + PGSIZE) perm)))))"

definition mappages :: "u64 \<Rightarrow> u64 \<Rightarrow> u64 \<Rightarrow> u64 \<Rightarrow> u64 \<Rightarrow> ('z kmem_scheme, int) kmon" where
  "mappages pagetable va sz pa perm =
     bnd (panic_if (va mod PGSIZE \<noteq> 0) ''mappages: va not aligned'') (\<lambda>_.
     bnd (panic_if (sz mod PGSIZE \<noteq> 0) ''mappages: size not aligned'') (\<lambda>_.
     bnd (panic_if (sz = 0) ''mappages: size'') (\<lambda>_.
     let last = va + sz - PGSIZE in
     mappages_loop (unat (last - va) div unat PGSIZE) pagetable va pa perm)))"

definition kvmmap :: "u64 \<Rightarrow> u64 \<Rightarrow> u64 \<Rightarrow> u64 \<Rightarrow> u64 \<Rightarrow> ('z kmem_scheme, unit) kmon" where
  "kvmmap kpgtbl va pa sz perm =
     bnd (mappages kpgtbl va sz pa perm) (\<lambda>r. panic_if (r \<noteq> 0) ''kvmmap'')"

text \<open>kernel/proc.c: a page for every process's kernel stack, mapped below the trampoline.\<close>

definition proc_mapstacks :: "u64 \<Rightarrow> ('z kmem_scheme, unit) kmon" where
  "proc_mapstacks kpgtbl =
     forM [0..<NPROC] (\<lambda>i.
       bnd kalloc (\<lambda>pa.
       bnd (panic_if (pa = 0) ''kalloc'') (\<lambda>_.
       kvmmap kpgtbl (KSTACK i) pa PGSIZE (PTE_R OR PTE_W))))"

definition kvmmake :: "('z vm_scheme, u64) kmon" where
  "kvmmake =
     bnd kalloc (\<lambda>kpgtbl.
     bnd (deref kpgtbl) (\<lambda>_.
     bnd (modify (\<lambda>s. s\<lparr>phys := memset (phys s) kpgtbl 0 (unat PGSIZE)\<rparr>)) (\<lambda>_.
     bnd (gets etext) (\<lambda>et.
     bnd (gets trampoline) (\<lambda>tr.
     bnd (seqM
      [kvmmap kpgtbl UART0 UART0 PGSIZE (PTE_R OR PTE_W),
       kvmmap kpgtbl VIRTIO0 VIRTIO0 PGSIZE (PTE_R OR PTE_W),
       kvmmap kpgtbl PLIC PLIC 0x4000000 (PTE_R OR PTE_W),
       kvmmap kpgtbl KERNBASE KERNBASE (et - KERNBASE) (PTE_R OR PTE_X),
       kvmmap kpgtbl et et (PHYSTOP - et) (PTE_R OR PTE_W),
       kvmmap kpgtbl TRAMPOLINE tr PGSIZE (PTE_R OR PTE_X),
       proc_mapstacks kpgtbl]) (\<lambda>_.
     ret kpgtbl))))))"

definition kvminit :: "('z vm_scheme, unit) kmon" where
  "kvminit = bnd kvmmake (\<lambda>pt. modify (\<lambda>s. s\<lparr>kernel_pagetable := pt\<rparr>))"

definition kvminithart :: "('z vm_scheme, unit) kmon" where
  "kvminithart = modify (\<lambda>s. s\<lparr>satp := MAKE_SATP (kernel_pagetable s)\<rparr>)"

text \<open>
  The values of the loop variable in \<open>for(a = start; a < stop; a += PGSIZE)\<close>. The loops below
  call \<open>walk\<close> on each, which stops the kernel at \<open>MAXVA\<close>, long before \<open>a\<close> could wrap.
\<close>

definition page_addrs :: "u64 \<Rightarrow> u64 \<Rightarrow> u64 list" where
  "page_addrs start stop =
     map (\<lambda>i. start + of_nat (4096 * i)) [0..<(unat stop - unat start + 4095) div 4096]"

definition uvmunmap :: "u64 \<Rightarrow> u64 \<Rightarrow> u64 \<Rightarrow> bool \<Rightarrow> ('z kmem_scheme, unit) kmon" where
  "uvmunmap pagetable va npages do_free =
     bnd (panic_if (va mod PGSIZE \<noteq> 0) ''uvmunmap: not aligned'') (\<lambda>_.
     forM (page_addrs va (va + npages * PGSIZE)) (\<lambda>a.
       bnd (walk pagetable a False) (\<lambda>pte.
       bnd (panic_if (pte = 0) ''uvmunmap: walk'') (\<lambda>_.
       bnd (gets (\<lambda>s. load64 (phys s) pte)) (\<lambda>e.
       bnd (panic_if (e AND PTE_V = 0) ''uvmunmap: not mapped'') (\<lambda>_.
       bnd (panic_if (PTE_FLAGS e = PTE_V) ''uvmunmap: not a leaf'') (\<lambda>_.
       bnd (whenM do_free (kfree (PTE2PA e))) (\<lambda>_.
       modify (\<lambda>s. s\<lparr>phys := store64 (phys s) pte 0\<rparr>)))))))))"

definition uvmcreate :: "('z kmem_scheme, u64) kmon" where
  "uvmcreate =
     bnd kalloc (\<lambda>pagetable.
     if pagetable = 0 then ret 0
     else
       bnd (modify (\<lambda>s. s\<lparr>phys := memset (phys s) pagetable 0 (unat PGSIZE)\<rparr>)) (\<lambda>_.
       ret pagetable))"

definition uvmfirst :: "u64 \<Rightarrow> byte list \<Rightarrow> ('z kmem_scheme, unit) kmon" where
  "uvmfirst pagetable src =
     bnd (panic_if (length src \<ge> unat PGSIZE) ''uvmfirst: more than a page'') (\<lambda>_.
     bnd kalloc (\<lambda>mem.
     bnd (deref mem) (\<lambda>_.
     bnd (modify (\<lambda>s. s\<lparr>phys := memset (phys s) mem 0 (unat PGSIZE)\<rparr>)) (\<lambda>_.
     bnd (mappages pagetable 0 PGSIZE mem (PTE_W OR PTE_R OR PTE_X OR PTE_U)) (\<lambda>_.
     modify (\<lambda>s. s\<lparr>phys := store_bytes (phys s) mem src\<rparr>))))))"

definition uvmdealloc :: "u64 \<Rightarrow> u64 \<Rightarrow> u64 \<Rightarrow> ('z kmem_scheme, u64) kmon" where
  "uvmdealloc pagetable oldsz newsz =
     (if newsz \<ge> oldsz then ret oldsz
      else
        bnd (whenM (PGROUNDUP newsz < PGROUNDUP oldsz)
          (let npages = (PGROUNDUP oldsz - PGROUNDUP newsz) div PGSIZE in
           uvmunmap pagetable (PGROUNDUP newsz) (scast (ucast npages :: u32)) True)) (\<lambda>_.
        ret newsz))"

fun uvmalloc_loop ::
  "u64 list \<Rightarrow> u64 \<Rightarrow> u64 \<Rightarrow> u64 \<Rightarrow> u64 \<Rightarrow> ('z kmem_scheme, u64) kmon" where
  "uvmalloc_loop [] pagetable oldsz newsz xperm = ret newsz"
| "uvmalloc_loop (a # as) pagetable oldsz newsz xperm =
     bnd kalloc (\<lambda>mem.
     if mem = 0 then bnd (uvmdealloc pagetable a oldsz) (\<lambda>_. ret 0)
     else
       bnd (modify (\<lambda>s. s\<lparr>phys := memset (phys s) mem 0 (unat PGSIZE)\<rparr>)) (\<lambda>_.
       bnd (mappages pagetable a PGSIZE mem (PTE_R OR PTE_U OR xperm)) (\<lambda>r.
       if r \<noteq> 0 then
         bnd (kfree mem) (\<lambda>_. bnd (uvmdealloc pagetable a oldsz) (\<lambda>_. ret 0))
       else uvmalloc_loop as pagetable oldsz newsz xperm)))"

definition uvmalloc :: "u64 \<Rightarrow> u64 \<Rightarrow> u64 \<Rightarrow> u64 \<Rightarrow> ('z kmem_scheme, u64) kmon" where
  "uvmalloc pagetable oldsz newsz xperm =
     (if newsz < oldsz then ret oldsz
      else
        let oldsz = PGROUNDUP oldsz in
        uvmalloc_loop (page_addrs oldsz newsz) pagetable oldsz newsz xperm)"

text \<open>
  \<open>freewalk\<close> recurses as deep as the tables in memory go. The depth is an argument here: a page
  table has three levels, and a recursion without end runs the kernel stack into its guard page.
\<close>

fun freewalk :: "nat \<Rightarrow> u64 \<Rightarrow> ('z kmem_scheme, unit) kmon" where
  "freewalk 0 pagetable = panic ''kerneltrap''"
| "freewalk (Suc d) pagetable =
     bnd (forM [0..<512] (\<lambda>i.
       bnd (gets (\<lambda>s. load64 (phys s) (pagetable + of_nat (8 * i)))) (\<lambda>pte.
       if pte AND PTE_V \<noteq> 0 \<and> pte AND (PTE_R OR PTE_W OR PTE_X) = 0 then
         bnd (freewalk d (PTE2PA pte)) (\<lambda>_.
         modify (\<lambda>s. s\<lparr>phys := store64 (phys s) (pagetable + of_nat (8 * i)) 0\<rparr>))
       else panic_if (pte AND PTE_V \<noteq> 0) ''freewalk: leaf''))) (\<lambda>_.
     kfree pagetable)"

definition uvmfree :: "u64 \<Rightarrow> u64 \<Rightarrow> ('z kmem_scheme, unit) kmon" where
  "uvmfree pagetable sz =
     bnd (whenM (sz > 0) (uvmunmap pagetable 0 (PGROUNDUP sz div PGSIZE) True)) (\<lambda>_.
     freewalk 3 pagetable)"

fun uvmcopy_loop :: "u64 list \<Rightarrow> u64 \<Rightarrow> u64 \<Rightarrow> ('z kmem_scheme, int) kmon" where
  "uvmcopy_loop [] old new = ret 0"
| "uvmcopy_loop (i # is') old new =
     bnd (walk old i False) (\<lambda>pte.
     bnd (panic_if (pte = 0) ''uvmcopy: pte should exist'') (\<lambda>_.
     bnd (gets (\<lambda>s. load64 (phys s) pte)) (\<lambda>e.
     bnd (panic_if (e AND PTE_V = 0) ''uvmcopy: page not present'') (\<lambda>_.
     bnd kalloc (\<lambda>mem.
     if mem = 0 then bnd (uvmunmap new 0 (i div PGSIZE) True) (\<lambda>_. ret (-1))
     else
       bnd (modify (\<lambda>s. s\<lparr>phys := memmove (phys s) mem (PTE2PA e) (unat PGSIZE)\<rparr>)) (\<lambda>_.
       bnd (mappages new i PGSIZE mem (PTE_FLAGS e)) (\<lambda>r.
       if r \<noteq> 0 then
         bnd (kfree mem) (\<lambda>_.
         bnd (uvmunmap new 0 (i div PGSIZE) True) (\<lambda>_. ret (-1)))
       else uvmcopy_loop is' old new)))))))"

definition uvmcopy :: "u64 \<Rightarrow> u64 \<Rightarrow> u64 \<Rightarrow> ('z kmem_scheme, int) kmon" where
  "uvmcopy old new sz = uvmcopy_loop (page_addrs 0 sz) old new"

definition uvmclear :: "u64 \<Rightarrow> u64 \<Rightarrow> ('z kmem_scheme, unit) kmon" where
  "uvmclear pagetable va =
     bnd (walk pagetable va False) (\<lambda>pte.
     bnd (panic_if (pte = 0) ''uvmclear'') (\<lambda>_.
     modify (\<lambda>s. s\<lparr>phys := store64 (phys s) pte (load64 (phys s) pte AND NOT PTE_U)\<rparr>)))"

section \<open>Copies between kernel and user memory\<close>

text \<open>Bytes from an address to the end of its page.\<close>

definition page_rest :: "u64 \<Rightarrow> nat" where
  "page_rest va = unat (PGSIZE - (va - PGROUNDDOWN va))"

lemma page_rest_eq: "page_rest va = 4096 - unat va mod 4096"
proof -
  have "PGROUNDDOWN va \<le> va" by (simp add: word_le_nat_alt unat_PGROUNDDOWN)
  then have u: "unat (va - PGROUNDDOWN va) = unat va mod 4096"
    by (simp add: unat_sub_le unat_PGROUNDDOWN minus_div_mult_eq_mod)
  then have "va - PGROUNDDOWN va \<le> PGSIZE" by (simp add: word_le_nat_alt PGSIZE_def)
  then show ?thesis by (simp add: page_rest_def unat_sub_le u)
qed

lemma page_rest_bounds: "0 < page_rest va" "page_rest va \<le> 4096"
  by (simp_all add: page_rest_eq)

text \<open>\<open>copyout\<close>: the source is the list of the \<open>len\<close> bytes still to copy.\<close>

function copyout :: "u64 \<Rightarrow> u64 \<Rightarrow> byte list \<Rightarrow> ('z kmem_scheme, int) kmon" where
  "copyout pagetable dstva src =
     (if src = [] then ret 0
      else
        let va0 = PGROUNDDOWN dstva in
        if va0 \<ge> MAXVA then ret (-1)
        else
          bnd (walk pagetable va0 False) (\<lambda>pte.
          bnd (gets (\<lambda>s. load64 (phys s) pte)) (\<lambda>e.
          if pte = 0 \<or> e AND PTE_V = 0 \<or> e AND PTE_U = 0 \<or> e AND PTE_W = 0 then ret (-1)
          else
            let pa0 = PTE2PA e; n = min (page_rest dstva) (length src) in
            bnd (modify (\<lambda>s. s\<lparr>phys := store_bytes (phys s) (pa0 + (dstva - va0)) (take n src)\<rparr>))
              (\<lambda>_. copyout pagetable (va0 + PGSIZE) (drop n src)))))"
  by pat_completeness auto
termination
  by (relation "measure (\<lambda>(_, _, src). length src)") (auto simp: page_rest_bounds)

text \<open>
  \<open>copyin\<close> returns its result and the bytes written to \<open>dst\<close>; an error may come after the
  first pages were copied.
\<close>

function copyin :: "u64 \<Rightarrow> u64 \<Rightarrow> nat \<Rightarrow> ('z kmem_scheme, int \<times> byte list) kmon" where
  "copyin pagetable srcva len =
     (if len = 0 then ret (0, [])
      else
        let va0 = PGROUNDDOWN srcva in
        bnd (walkaddr pagetable va0) (\<lambda>pa0.
        if pa0 = 0 then ret (-1, [])
        else
          let n = min (page_rest srcva) len in
          bnd (gets (\<lambda>s. load_bytes (phys s) (pa0 + (srcva - va0)) n)) (\<lambda>bs.
          bnd (copyin pagetable (va0 + PGSIZE) (len - n)) (\<lambda>(r, rest). ret (r, bs @ rest)))))"
  by pat_completeness auto
termination
  by (relation "measure (\<lambda>(_, _, len). len)") (auto simp: page_rest_bounds)

text \<open>
  The inner loop of \<open>copyinstr\<close> over the bytes of one page: the bytes written to \<open>dst\<close> and
  whether the terminating NUL was among them.
\<close>

fun copyinstr_page :: "byte list \<Rightarrow> byte list \<times> bool" where
  "copyinstr_page [] = ([], False)"
| "copyinstr_page (b # bs) =
     (if b = 0 then ([0], True) else let (ds, got) = copyinstr_page bs in (b # ds, got))"

function copyinstr :: "u64 \<Rightarrow> u64 \<Rightarrow> nat \<Rightarrow> ('z kmem_scheme, int \<times> byte list) kmon" where
  "copyinstr pagetable srcva mx =
     (if mx = 0 then ret (-1, [])
      else
        let va0 = PGROUNDDOWN srcva in
        bnd (walkaddr pagetable va0) (\<lambda>pa0.
        if pa0 = 0 then ret (-1, [])
        else
          let n = min (page_rest srcva) mx in
          bnd (gets (\<lambda>s. load_bytes (phys s) (pa0 + (srcva - va0)) n)) (\<lambda>bs.
          case copyinstr_page bs of (ds, got_null) \<Rightarrow>
          if got_null then ret (0, ds)
          else bnd (copyinstr pagetable (va0 + PGSIZE) (mx - n)) (\<lambda>(r, rest). ret (r, ds @ rest)))))"
  by pat_completeness auto
termination
  by (relation "measure (\<lambda>(_, _, mx). mx)") (auto simp: page_rest_bounds)

declare copyout.simps [simp del] copyin.simps [simp del] copyinstr.simps [simp del]
  mappages_loop.simps [simp del]

end
