(* ===== verification/Pagetable.thy ===== *)
theory Pagetable
  imports Vm
begin

text \<open>
  The meaning of page tables in memory. \<open>leaf m 2 root va\<close> is the last-level table that the walk
  for \<open>va\<close> reaches, \<open>pte_in m 2 root va\<close> the entry it finds (0 when a table is missing), and
  \<open>pset\<close> the pages the tables occupy. \<open>pwf\<close> says that they form a tree, no page being used
  twice. The lemmas show that \<open>walk\<close> computes this lookup, that allocating tables changes no
  entry, and that storing an entry changes only the entries of its own page.
\<close>

section \<open>Entries and tables\<close>

abbreviation pvalid :: "u64 \<Rightarrow> bool" where
  "pvalid e \<equiv> e AND PTE_V \<noteq> 0"

definition slot :: "mem \<Rightarrow> u64 \<Rightarrow> nat \<Rightarrow> u64" where
  "slot m p i = load64 m (p + of_nat (8 * i))"

definition pxn :: "nat \<Rightarrow> u64 \<Rightarrow> nat" where
  "pxn l va = unat (PX l va)"

fun leaf :: "mem \<Rightarrow> nat \<Rightarrow> u64 \<Rightarrow> u64 \<Rightarrow> u64 option" where
  "leaf m 0 p va = Some p"
| "leaf m (Suc l) p va =
     (let e = slot m p (pxn (Suc l) va) in if pvalid e then leaf m l (PTE2PA e) va else None)"

definition pte_in :: "mem \<Rightarrow> nat \<Rightarrow> u64 \<Rightarrow> u64 \<Rightarrow> u64" where
  "pte_in m l p va = (case leaf m l p va of None \<Rightarrow> 0 | Some q \<Rightarrow> slot m q (pxn 0 va))"

fun pset :: "mem \<Rightarrow> nat \<Rightarrow> u64 \<Rightarrow> u64 set" where
  "pset m 0 p = {p}"
| "pset m (Suc l) p =
     {p} \<union> (\<Union>i \<in> {i. i < 512 \<and> pvalid (slot m p i)}. pset m l (PTE2PA (slot m p i)))"

fun pwf :: "mem \<Rightarrow> nat \<Rightarrow> u64 \<Rightarrow> bool" where
  "pwf m 0 p = True"
| "pwf m (Suc l) p =
     (\<forall>i < 512. pvalid (slot m p i) \<longrightarrow>
        pwf m l (PTE2PA (slot m p i)) \<and> p \<notin> pset m l (PTE2PA (slot m p i)) \<and>
        (\<forall>j < 512. j \<noteq> i \<longrightarrow> pvalid (slot m p j) \<longrightarrow>
           pset m l (PTE2PA (slot m p i)) \<inter> pset m l (PTE2PA (slot m p j)) = {}))"

lemma pxn_less [simp]: "pxn l va < 512"
proof -
  have "PX l va \<le> 0x1FF" unfolding PX_def by (rule word_and_le1)
  then show ?thesis by (simp add: pxn_def word_le_nat_alt)
qed

lemma slot_addr: "p + 8 * PX l va = p + of_nat (8 * pxn l va)"
  by (simp add: pxn_def)

lemma slot_self [simp]: "p \<in> pset m l p"
  by (cases l) simp_all

lemma pvalid_zero [simp]: "(0 :: u64) AND PTE_V = 0"
  by (simp add: PTE_V_def)

lemma PTE_V_nonzero [simp]: "PTE_V \<noteq> 0"
  by (simp add: PTE_V_def)

lemma pvalid_or [simp]: "(e OR PTE_V) AND PTE_V \<noteq> 0"
proof -
  have "bit ((e OR PTE_V) AND PTE_V) 0" by (simp add: PTE_V_def bit_simps)
  then show ?thesis by auto
qed

lemma aligned_bits: "aligned 4096 c \<longleftrightarrow> (\<forall>n < 12. \<not> bit c n)"
proof -
  have "aligned 4096 c \<longleftrightarrow> take_bit 12 c = 0"
    unfolding aligned_def word_unat_eq_iff unsigned_take_bit_eq by (simp add: take_bit_eq_mod)
  also have "\<dots> \<longleftrightarrow> (\<forall>n < 12. \<not> bit c n)"
    by (auto simp: bit_eq_iff bit_simps)
  finally show ?thesis .
qed

lemma aligned_PTE2PA [simp]: "aligned 4096 (PTE2PA e)"
  by (simp add: aligned_bits PTE2PA_def bit_simps)

lemma PTE2PA_PA2PTE: "aligned 4096 c \<Longrightarrow> f < 1024 \<Longrightarrow> PTE2PA (PA2PTE c OR f) = c"
proof (rule bit_word_eqI)
  fix n assume a: "aligned 4096 c" "f < 1024" and n: "n < LENGTH(64)"
  have f: "\<not> bit f k" if "10 \<le> k" for k
  proof -
    have "unat f < 2 ^ 10" using a(2) by (simp add: word_less_nat_alt)
    then have "take_bit 10 (unat f) = unat f" by (rule take_bit_nat_eq_self)
    then have "take_bit 10 f = f" unfolding word_unat_eq_iff unsigned_take_bit_eq .
    then show ?thesis using that by (metis bit_take_bit_iff leD)
  qed
  show "bit (PTE2PA (PA2PTE c OR f)) n = bit c n"
    using a(1) n f by (cases "n < 12") (auto simp: PTE2PA_def PA2PTE_def bit_simps aligned_bits)
qed

section \<open>Dependence on memory\<close>

definition same_pages :: "mem \<Rightarrow> mem \<Rightarrow> u64 set \<Rightarrow> bool" where
  "same_pages m m' S = (\<forall>q \<in> S. \<forall>i < 512. slot m' q i = slot m q i)"

lemma same_pages_mono: "same_pages m m' T \<Longrightarrow> S \<subseteq> T \<Longrightarrow> same_pages m m' S"
  by (auto simp: same_pages_def)

lemma leaf_in_pset: "leaf m l p va = Some q \<Longrightarrow> q \<in> pset m l p"
proof (induction l arbitrary: p)
  case (Suc l)
  then have "pvalid (slot m p (pxn (Suc l) va))"
    "q \<in> pset m l (PTE2PA (slot m p (pxn (Suc l) va)))"
    by (auto simp: Let_def split: if_splits)
  then show ?case
    unfolding pset.simps by (intro UnI2 UN_I [of "pxn (Suc l) va"]) simp_all
qed simp

lemma tables_cong:
  assumes "same_pages m m' (pset m l p)"
  shows "pset m' l p = pset m l p \<and> pwf m' l p = pwf m l p \<and> leaf m' l p = leaf m l p"
  using assms
proof (induction l arbitrary: p)
  case (Suc l)
  have s: "slot m' p i = slot m p i" if "i < 512" for i
    using Suc.prems that by (auto simp: same_pages_def)
  have c: "pset m' l (PTE2PA (slot m p i)) = pset m l (PTE2PA (slot m p i)) \<and>
    pwf m' l (PTE2PA (slot m p i)) = pwf m l (PTE2PA (slot m p i)) \<and>
    leaf m' l (PTE2PA (slot m p i)) = leaf m l (PTE2PA (slot m p i))"
    if "i < 512" "pvalid (slot m p i)" for i
    by (rule Suc.IH, rule same_pages_mono [OF Suc.prems]) (use that in auto)
  have "pset m' (Suc l) p = pset m (Suc l) p"
    using s c by auto
  moreover have "pwf m' (Suc l) p = pwf m (Suc l) p"
    using s c by auto
  moreover have "leaf m' (Suc l) p va = leaf m (Suc l) p va" for va
    using s [of "pxn (Suc l) va"] c [of "pxn (Suc l) va"] by (simp add: Let_def)
  ultimately show ?case by auto
qed (simp add: fun_eq_iff)

lemma pte_in_cong:
  assumes "same_pages m m' (pset m l p)"
  shows "pte_in m' l p va = pte_in m l p va"
proof -
  have "leaf m' l p va = leaf m l p va" using tables_cong [OF assms] by simp
  then show ?thesis
    using assms leaf_in_pset [of m l p va]
    by (auto simp: pte_in_def same_pages_def split: option.splits)
qed

text \<open>A write to an entry of the last-level table leaves the tables as they are.\<close>

lemma tables_leaf_store:
  assumes "pwf m l p" "leaf m l p va = Some q"
    and "\<And>q' i. q' \<in> pset m l p \<Longrightarrow> i < 512 \<Longrightarrow> q' \<noteq> q \<Longrightarrow> slot m' q' i = slot m q' i"
  shows "pset m' l p = pset m l p \<and> pwf m' l p \<and> leaf m' l p = leaf m l p"
  using assms
proof (induction l arbitrary: p)
  case (Suc l)
  let ?c = "\<lambda>i. PTE2PA (slot m p i)"
  define k where "k = pxn (Suc l) va"
  have k: "k < 512" "pvalid (slot m p k)" "leaf m l (?c k) va = Some q"
    using Suc.prems(2) by (auto simp: k_def Let_def split: if_splits)
  have w: "pwf m l (?c i)" "p \<notin> pset m l (?c i)"
    "\<And>j. j < 512 \<Longrightarrow> j \<noteq> i \<Longrightarrow> pvalid (slot m p j) \<Longrightarrow> pset m l (?c i) \<inter> pset m l (?c j) = {}"
    if "i < 512" "pvalid (slot m p i)" for i
    using Suc.prems(1) that by auto
  have q: "q \<in> pset m l (?c k)" using leaf_in_pset k(3) by blast
  then have "p \<noteq> q" using w(2) k by blast
  then have s: "slot m' p i = slot m p i" if "i < 512" for i
    using Suc.prems(3) [of p i] that by simp
  have c: "pset m' l (?c i) = pset m l (?c i) \<and> pwf m' l (?c i) \<and> leaf m' l (?c i) = leaf m l (?c i)"
    if i: "i < 512" "pvalid (slot m p i)" for i
  proof (cases "i = k")
    case True
    show ?thesis
      unfolding True by (rule Suc.IH [OF w(1) k(3)]) (use k Suc.prems(3) in auto)
  next
    case False
    then have "q \<notin> pset m l (?c i)" using w(3) [OF i, of k] k q by auto
    then have "same_pages m m' (pset m l (?c i))"
      unfolding same_pages_def using i by (intro ballI allI impI Suc.prems(3)) auto
    from tables_cong [OF this] show ?thesis using w(1) [OF i] by simp
  qed
  have "pset m' (Suc l) p = pset m (Suc l) p"
    using s c by auto
  moreover have "pwf m' (Suc l) p"
    using s c w by simp
  moreover have "leaf m' (Suc l) p x = leaf m (Suc l) p x" for x
    using s [of "pxn (Suc l) x"] c [of "pxn (Suc l) x"] by (simp add: Let_def)
  ultimately show ?case by auto
qed (simp add: fun_eq_iff)

text \<open>Two addresses that reach the same last-level table agree on the indices above.\<close>

lemma leaf_inj:
  assumes "pwf m l p" "leaf m l p va = Some q" "leaf m l p va' = Some q" "0 < k" "k \<le> l"
  shows "pxn k va = pxn k va'"
  using assms
proof (induction l arbitrary: p)
  case (Suc l)
  let ?i = "pxn (Suc l) va" and ?j = "pxn (Suc l) va'"
  have v: "pvalid (slot m p ?i)" "leaf m l (PTE2PA (slot m p ?i)) va = Some q"
    "pvalid (slot m p ?j)" "leaf m l (PTE2PA (slot m p ?j)) va' = Some q"
    using Suc.prems(2,3) by (auto simp: Let_def split: if_splits)
  then have "q \<in> pset m l (PTE2PA (slot m p ?i)) \<inter> pset m l (PTE2PA (slot m p ?j))"
    using leaf_in_pset by blast
  then have ij: "?i = ?j" using Suc.prems(1) v by (metis empty_iff pxn_less pwf.simps(2))
  show ?case
  proof (cases "k = Suc l")
    case False
    then show ?thesis
      using Suc.IH [of "PTE2PA (slot m p ?i)"] Suc.prems v ij by simp
  qed (use ij in simp)
qed simp

section \<open>Lookup without allocation\<close>

lemma walk_from_False:
  "walk_from l p va False s =
     Ok (case leaf (phys s) l p va of None \<Rightarrow> 0 | Some q \<Rightarrow> q + 8 * PX 0 va) s"
proof (induction l arbitrary: p)
  case (Suc l)
  then show ?case by (simp add: Let_def slot_def slot_addr)
qed simp

section \<open>Lookup with allocation\<close>

text \<open>
  Replacing the child table at one index, or adding one, with everything else in place.
\<close>

lemma child_update:
  assumes w: "pwf m (Suc l) p" and i: "i < 512"
    and si: "pvalid (slot m' p i)" "pwf m' l (PTE2PA (slot m' p i))"
      "p \<notin> pset m' l (PTE2PA (slot m' p i))"
    and sj: "\<And>j. j < 512 \<Longrightarrow> j \<noteq> i \<Longrightarrow> slot m' p j = slot m p j"
    and oj: "\<And>j. j < 512 \<Longrightarrow> j \<noteq> i \<Longrightarrow> pvalid (slot m p j) \<Longrightarrow>
      same_pages m m' (pset m l (PTE2PA (slot m p j))) \<and>
      pset m' l (PTE2PA (slot m' p i)) \<inter> pset m l (PTE2PA (slot m p j)) = {}"
  shows "pwf m' (Suc l) p"
    "pset m' (Suc l) p = {p} \<union> pset m' l (PTE2PA (slot m' p i)) \<union>
      (\<Union>j \<in> {j. j < 512 \<and> j \<noteq> i \<and> pvalid (slot m p j)}. pset m l (PTE2PA (slot m p j)))"
    "pte_in m' (Suc l) p va =
      (if pxn (Suc l) va = i then pte_in m' l (PTE2PA (slot m' p i)) va else pte_in m (Suc l) p va)"
proof -
  have o: "pset m' l (PTE2PA (slot m p j)) = pset m l (PTE2PA (slot m p j))"
    "pwf m' l (PTE2PA (slot m p j))" "p \<notin> pset m l (PTE2PA (slot m p j))"
    "pte_in m' l (PTE2PA (slot m p j)) x = pte_in m l (PTE2PA (slot m p j)) x"
    if "j < 512" "j \<noteq> i" "pvalid (slot m p j)" for j x
    using tables_cong [OF conjunct1 [OF oj [OF that]]] pte_in_cong [OF conjunct1 [OF oj [OF that]]]
      w that by auto
  have dj: "pset m l (PTE2PA (slot m p j)) \<inter> pset m l (PTE2PA (slot m p k)) = {}"
    if "j < 512" "k < 512" "j \<noteq> k" "pvalid (slot m p j)" "pvalid (slot m p k)" for j k
    using w that by simp
  show "pwf m' (Suc l) p"
    unfolding pwf.simps
  proof (intro allI impI conjI)
    fix j assume j: "j < 512" "pvalid (slot m' p j)"
    show "pwf m' l (PTE2PA (slot m' p j))" "p \<notin> pset m' l (PTE2PA (slot m' p j))"
      using j si o sj [of j] by (cases "j = i"; auto)+
    fix k assume k: "k < 512" "k \<noteq> j" "pvalid (slot m' p k)"
    show "pset m' l (PTE2PA (slot m' p j)) \<inter> pset m' l (PTE2PA (slot m' p k)) = {}"
      using j k sj [of j] sj [of k] o(1) [of j] o(1) [of k] oj [of j] oj [of k] dj [of j k]
      by (cases "j = i"; cases "k = i"; simp add: Int_commute)
  qed
  show "pset m' (Suc l) p = {p} \<union> pset m' l (PTE2PA (slot m' p i)) \<union>
      (\<Union>j \<in> {j. j < 512 \<and> j \<noteq> i \<and> pvalid (slot m p j)}. pset m l (PTE2PA (slot m p j)))"
  proof -
    have "{j. j < 512 \<and> pvalid (slot m' p j)} =
        insert i {j. j < 512 \<and> j \<noteq> i \<and> pvalid (slot m p j)}"
      using i si sj by auto
    moreover have "(\<Union>j \<in> {j. j < 512 \<and> j \<noteq> i \<and> pvalid (slot m p j)}. pset m' l (PTE2PA (slot m' p j)))
       = (\<Union>j \<in> {j. j < 512 \<and> j \<noteq> i \<and> pvalid (slot m p j)}. pset m l (PTE2PA (slot m p j)))"
      using sj o(1) by (intro SUP_cong) auto
    ultimately show ?thesis by auto
  qed
  have unfold: "pte_in x (Suc l) p va =
      (if pvalid (slot x p (pxn (Suc l) va)) then pte_in x l (PTE2PA (slot x p (pxn (Suc l) va))) va
       else 0)" for x
    by (simp add: pte_in_def Let_def)
  show "pte_in m' (Suc l) p va =
      (if pxn (Suc l) va = i then pte_in m' l (PTE2PA (slot m' p i)) va else pte_in m (Suc l) p va)"
    using si(1) sj [of "pxn (Suc l) va"] o(4) [of "pxn (Suc l) va" va] by (simp add: unfold)
qed

lemma frame_same_pages:
  assumes "\<And>x. (\<forall>q \<in> T. \<not> in_range x q 4096) \<Longrightarrow> m' x = m x"
    and "\<forall>q \<in> S \<union> T. aligned 4096 q" "S \<inter> T = {}"
  shows "same_pages m m' S"
  unfolding same_pages_def
proof (intro ballI allI impI)
  fix q i assume q: "q \<in> S" and i: "i < (512::nat)"
  have "m' x = m x" if "in_range x (q + of_nat (8 * i)) 8" for x
  proof (rule assms(1), intro ballI)
    fix r assume r: "r \<in> T"
    have "in_range x q 4096" using in_range_sub [of q "8 * i" 8 x] that i assms(2) q by simp
    moreover have "q \<noteq> r" "aligned 4096 q" "aligned 4096 r" using q r assms(2,3) by auto
    ultimately show "\<not> in_range x r 4096" using aligned_disjoint [of 4096 q r x] by simp
  qed
  then show "slot m' q i = slot m q i" unfolding slot_def by (intro load64_cong) blast
qed

lemma zero_table:
  assumes "\<And>i. i < 512 \<Longrightarrow> slot m p i = 0"
  shows "pset m l p = {p}" "pwf m l p" "pte_in m l p va = 0"
proof -
  show "pset m l p = {p}" "pwf m l p"
    using assms by (cases l; simp)+
  show "pte_in m l p va = 0"
    using assms by (cases l) (simp_all add: pte_in_def)
qed

text \<open>The states in which the tables of a root may be walked and extended.\<close>

definition tables_ok :: "'z kmem_scheme \<Rightarrow> u64 set \<Rightarrow> nat \<Rightarrow> u64 \<Rightarrow> bool" where
  "tables_ok s F l p =
     (free_pages s F \<and> pwf (phys s) l p \<and> pset (phys s) l p \<inter> F = {} \<and>
      (\<forall>q \<in> pset (phys s) l p. page_ok (kend s) q))"

text \<open>The tables took the pages \<open>F - F'\<close> and nothing else changed.\<close>

definition tables_grow ::
  "'z kmem_scheme \<Rightarrow> u64 set \<Rightarrow> nat \<Rightarrow> u64 \<Rightarrow> 'z kmem_scheme \<Rightarrow> u64 set \<Rightarrow> bool" where
  "tables_grow s F l p t F' =
     (F' \<subseteq> F \<and> tables_ok t F' l p \<and> pset (phys t) l p = pset (phys s) l p \<union> (F - F') \<and>
      (\<forall>va. pte_in (phys t) l p va = pte_in (phys s) l p va) \<and>
      (\<forall>x. (\<forall>q \<in> pset (phys s) l p \<union> F. \<not> in_range x q 4096) \<longrightarrow> phys t x = phys s x) \<and>
      t = s\<lparr>phys := phys t, freelist := freelist t\<rparr>)"

lemma kalloc_page:
  assumes "free_pages s F"
  obtains "F = {}" "kalloc s = Ok 0 s"
  | pg m f where "kalloc s = Ok pg (s\<lparr>phys := m, freelist := f\<rparr>)" "pg \<in> F" "pg \<noteq> 0"
    "page_ok (kend s) pg" "free_pages (s\<lparr>phys := m, freelist := f\<rparr>) (F - {pg})"
    "\<forall>x. \<not> in_range x pg 4096 \<longrightarrow> m x = phys s x"
proof -
  obtain ps where ps: "kmem_list s ps" "set ps = F" and l: "KmemLock \<notin> set (held s)"
    using assms by (auto simp: free_pages_def)
  show thesis
  proof (cases ps)
    case Nil
    then show thesis using that(1) kalloc_empty ps l by auto
  next
    case (Cons p qs)
    note k = kalloc_Cons [OF ps(1) [unfolded Cons] l]
    have p: "p \<notin> set qs" "p \<noteq> 0" "page_ok (kend s) p" using ps(1) Cons by (auto simp: kmem_list_def)
    then have "set qs = F - {p}" "p \<in> F" using ps(2) Cons by auto
    then show thesis using that(2) [OF k(1)] k(2) p l by (auto simp: free_pages_def memset_page)
  qed
qed

lemma free_pages_cong:
  assumes "free_pages s F" "\<And>q. q \<in> F \<Longrightarrow> slot m q 0 = slot (phys s) q 0"
  shows "free_pages (s\<lparr>phys := m\<rparr>) F"
proof -
  obtain ps where ps: "kmem_list s ps" "set ps = F" "KmemLock \<notin> set (held s)"
    using assms(1) unfolding free_pages_def by blast
  have "free_path m (freelist s) ps"
    by (rule free_path_cong [of "phys s"])
      (use ps(1,2) assms(2) in \<open>simp_all add: kmem_list_def slot_def\<close>)
  then have "kmem_list (s\<lparr>phys := m\<rparr>) ps" using ps(1) by (simp add: kmem_list_def)
  then show ?thesis unfolding free_pages_def using ps(2,3) by (intro exI [of _ ps]) simp
qed

lemma free_pages_ok: "free_pages s F \<Longrightarrow> q \<in> F \<Longrightarrow> page_ok (kend s) q"
  by (auto simp: free_pages_def kmem_list_def)

lemma slot_store_same: "i < 512 \<Longrightarrow> slot (store64 m (p + of_nat (8 * i)) v) p i = v"
  by (simp add: slot_def)

lemma slot_store_other:
  assumes "aligned 4096 p" "aligned 4096 q" "i < 512" "j < 512" "(p, i) \<noteq> (q, j)"
  shows "slot (store64 m (p + of_nat (8 * i)) v) q j = slot m q j"
  unfolding slot_def
proof (rule load_store64_other)
  show "aligned 8 (p + of_nat (8 * i))" "aligned 8 (q + of_nat (8 * j))"
    using assms by (auto intro!: aligned_slot simp del: of_nat_mult)
  have pi: "in_range (p + of_nat (8 * i)) p 4096" "unat (p + of_nat (8 * i)) = unat p + 8 * i"
    using assms by (simp_all add: in_range_def unat_of_nat_u64 aligned_unat_add del: of_nat_mult)
  have qj: "in_range (q + of_nat (8 * j)) q 4096" "unat (q + of_nat (8 * j)) = unat q + 8 * j"
    using assms by (simp_all add: in_range_def unat_of_nat_u64 aligned_unat_add del: of_nat_mult)
  show "p + of_nat (8 * i) \<noteq> q + of_nat (8 * j)"
  proof
    assume e: "p + of_nat (8 * i) = q + of_nat (8 * j)"
    then have "p = q" using aligned_disjoint [of 4096 p q] assms(1,2) pi(1) qj(1) by fastforce
    then show False using e pi(2) qj(2) assms(5) by simp
  qed
qed

lemma slot_zero_page: "aligned 4096 p \<Longrightarrow> i < 512 \<Longrightarrow> slot (memset m p 0 4096) p i = 0"
proof -
  assume a: "aligned 4096 p" "i < 512"
  have "load_bytes (memset m p 0 4096) (p + of_nat (8 * i)) 8 = replicate 8 0"
  proof (rule nth_equalityI)
    fix k assume k: "k < length (load_bytes (memset m p 0 4096) (p + of_nat (8 * i)) 8)"
    then have "in_range (p + of_nat (8 * i) + of_nat k) p 4096"
      using a by (intro in_range_sub [of p "8 * i" 8]) (auto simp: in_range_def unat_of_nat_u64)
    then show "load_bytes (memset m p 0 4096) (p + of_nat (8 * i)) 8 ! k = replicate 8 0 ! k"
      using k by (simp add: memset_page)
  qed simp
  then show ?thesis by (simp add: slot_def load64_def of_le_def numeral_eq_Suc)
qed

text \<open>The pages of the child table at an index, none when there is no child.\<close>

definition child_pages :: "mem \<Rightarrow> nat \<Rightarrow> u64 \<Rightarrow> nat \<Rightarrow> u64 set" where
  "child_pages m l p i = (if pvalid (slot m p i) then pset m l (PTE2PA (slot m p i)) else {})"

lemma pset_children: "pset m (Suc l) p = {p} \<union> (\<Union>i < 512. child_pages m l p i)"
  by (auto simp: child_pages_def split: if_splits)

lemma pset_child_split:
  "i < 512 \<Longrightarrow> pset m (Suc l) p = {p} \<union> child_pages m l p i \<union>
    (\<Union>j \<in> {j. j < 512 \<and> j \<noteq> i \<and> pvalid (slot m p j)}. pset m l (PTE2PA (slot m p j)))"
  by (auto simp: child_pages_def)

lemma pte_in_Suc: "pte_in m (Suc l) p va =
    (let e = slot m p (pxn (Suc l) va) in if pvalid e then pte_in m l (PTE2PA e) va else 0)"
  by (simp add: pte_in_def Let_def)

lemma grow_child:
  assumes ok: "tables_ok s F (Suc l) p"
    and i: "i < 512"
    and s1: "s1 = s\<lparr>phys := phys s1, freelist := freelist s1\<rparr>"
    and sj: "\<forall>j < 512. j \<noteq> i \<longrightarrow> slot (phys s1) p j = slot (phys s) p j"
    and vi: "pvalid (slot (phys s1) p i)"
    and F1: "F1 \<subseteq> F"
    and fr: "\<forall>x. (\<forall>q \<in> {p} \<union> (F - F1). \<not> in_range x q 4096) \<longrightarrow> phys s1 x = phys s x"
    and ps: "pset (phys s1) l (PTE2PA (slot (phys s1) p i)) = child_pages (phys s) l p i \<union> (F - F1)"
    and pe: "\<forall>va. pxn (Suc l) va = i \<longrightarrow>
      pte_in (phys s1) l (PTE2PA (slot (phys s1) p i)) va = pte_in (phys s) (Suc l) p va"
    and gr: "tables_grow s1 F1 l (PTE2PA (slot (phys s1) p i)) t F'"
  shows "tables_grow s F (Suc l) p t F'" "slot (phys t) p i = slot (phys s1) p i"
proof -
  let ?m = "phys s" and ?m1 = "phys s1" and ?m' = "phys t" and ?C = "child_pages (phys s) l p i"
  let ?c = "PTE2PA (slot ?m1 p i)"
  have w: "pwf ?m (Suc l) p" "pset ?m (Suc l) p \<inter> F = {}" "\<forall>q \<in> pset ?m (Suc l) p. page_ok (kend s) q"
    and freeF: "\<forall>q \<in> F. page_ok (kend s) q"
    using ok free_pages_ok unfolding tables_ok_def by blast+
  have Csub: "?C \<subseteq> pset ?m (Suc l) p" and pC: "p \<notin> ?C"
    using w(1) i by (auto simp: child_pages_def)
  have pF: "p \<notin> F" using w(2) by auto
  have al: "\<forall>q \<in> pset ?m (Suc l) p \<union> F. aligned 4096 q"
    using w(3) freeF by (auto simp: page_ok_def)
  have g: "F' \<subseteq> F1" "tables_ok t F' l ?c" "pset ?m' l ?c = pset ?m1 l ?c \<union> (F1 - F')"
    "\<And>va. pte_in ?m' l ?c va = pte_in ?m1 l ?c va"
    "\<And>x. \<forall>q \<in> pset ?m1 l ?c \<union> F1. \<not> in_range x q 4096 \<Longrightarrow> ?m' x = ?m1 x"
    "t = s1\<lparr>phys := phys t, freelist := freelist t\<rparr>"
    using gr by (auto simp: tables_grow_def)
  have cov: "pset ?m1 l ?c \<union> F1 = ?C \<union> F" using ps F1 by auto
  have frm: "?m' x = ?m x" if "\<forall>q \<in> {p} \<union> ?C \<union> F. \<not> in_range x q 4096" for x
    using fr g(5) [of x] cov that by auto
  have alp: "aligned 4096 p" and alCF: "\<forall>q \<in> ?C \<union> F. aligned 4096 q" using al Csub by auto
  have "same_pages ?m1 ?m' {p}"
    by (rule frame_same_pages [of "?C \<union> F"]) (use g(5) cov alp alCF pC pF in auto)
  then have sp: "slot ?m' p j = slot ?m1 p j" if "j < 512" for j
    using that by (simp add: same_pages_def)
  then show "slot ?m' p i = slot ?m1 p i" using i by simp
  have pc': "pset ?m' l ?c = ?C \<union> (F - F')" using g(1,3) ps F1 by auto
  have oj: "same_pages ?m ?m' (pset ?m l (PTE2PA (slot ?m p j))) \<and>
      pset ?m' l ?c \<inter> pset ?m l (PTE2PA (slot ?m p j)) = {}"
    if j: "j < 512" "j \<noteq> i" "pvalid (slot ?m p j)" for j
  proof -
    let ?S = "pset ?m l (PTE2PA (slot ?m p j))"
    have S: "?S \<subseteq> pset ?m (Suc l) p" using j by auto
    have d: "?S \<inter> ?C = {}" using w(1) j i by (auto simp: child_pages_def)
    have dF: "?S \<inter> F = {}" using S w(2) by blast
    have "p \<notin> ?S" using w(1) j by simp
    then have "same_pages ?m ?m' ?S"
      using frm S d dF al alp alCF by (intro frame_same_pages [of "{p} \<union> ?C \<union> F"]) auto
    then show ?thesis using d dF pc' by blast
  qed
  have c: "pvalid (slot ?m' p i)" "pwf ?m' l (PTE2PA (slot ?m' p i))"
    "p \<notin> pset ?m' l (PTE2PA (slot ?m' p i))"
    using vi sp [OF i] g(2) pc' pC pF by (auto simp: tables_ok_def)
  note cu = child_update [OF w(1) i c, unfolded sp [OF i]]
  have sj': "slot ?m' p j = slot ?m p j" if "j < 512" "j \<noteq> i" for j
    using sp sj that by simp
  have wf': "pwf ?m' (Suc l) p" by (rule cu(1) [OF sj' oj])
  have ps': "pset ?m' (Suc l) p = pset ?m (Suc l) p \<union> (F - F')"
  proof -
    let ?U = "\<Union>j \<in> {j. j < 512 \<and> j \<noteq> i \<and> pvalid (slot ?m p j)}. pset ?m l (PTE2PA (slot ?m p j))"
    have "pset ?m' (Suc l) p = {p} \<union> pset ?m' l ?c \<union> ?U" by (rule cu(2) [OF sj' oj])
    also have "\<dots> = ({p} \<union> ?C \<union> ?U) \<union> (F - F')" unfolding pc' by (simp only: Un_ac)
    also have "{p} \<union> ?C \<union> ?U = pset ?m (Suc l) p" by (rule pset_child_split [OF i, symmetric])
    finally show ?thesis .
  qed
  have pt': "pte_in ?m' (Suc l) p va = pte_in ?m (Suc l) p va" for va
    using cu(3) [OF sj' oj, of va] g(4) [of va] pe by simp
  have fp: "free_pages t F'" using g(2) by (simp add: tables_ok_def)
  have st: "t = s\<lparr>phys := phys t, freelist := freelist t\<rparr>"
    by (subst g(6), subst s1) simp
  have ke: "kend t = kend s" by (subst st) simp
  have "tables_ok t F' (Suc l) p"
    unfolding tables_ok_def ps' ke using fp wf' w(2,3) freeF g(1) F1 by blast
  moreover have "?m' x = ?m x" if "\<forall>q \<in> pset ?m (Suc l) p \<union> F. \<not> in_range x q 4096" for x
    using frm [of x] that Csub by auto
  ultimately show "tables_grow s F (Suc l) p t F'"
    unfolding tables_grow_def using g(1) F1 ps' pt' st by blast
qed

lemma phys_freelist: "s\<lparr>freelist := f, phys := m\<rparr> = s\<lparr>phys := m, freelist := f\<rparr>"
  by simp

lemma tables_grow_refl: "tables_ok s F l p \<Longrightarrow> tables_grow s F l p s F"
  by (auto simp: tables_grow_def)

lemma slot_nonnull:
  assumes "page_ok e q" "0 < e" "i < 512"
  shows "q + of_nat (8 * i) \<noteq> 0"
proof -
  have "unat (q + of_nat (8 * i)) = unat q + 8 * i"
    using assms by (intro aligned_unat_add) (auto simp: page_ok_def)
  moreover have "0 < unat q" using assms(1,2) by (auto simp: page_ok_def word_le_nat_alt word_less_nat_alt)
  ultimately show ?thesis by (metis add_is_0 less_numeral_extra(3) unsigned_0)
qed

text \<open>The state after \<open>walk\<close> links a zeroed page \<open>pg\<close> at index \<open>i\<close> of \<open>p\<close>.\<close>

lemma link_zero_page:
  assumes ok: "tables_ok s F (Suc l) p" and i: "i < 512" "\<not> pvalid (slot (phys s) p i)"
    and pg: "pg \<in> F" "page_ok (kend s) pg" "free_pages (s\<lparr>phys := m, freelist := f\<rparr>) (F - {pg})"
      "\<forall>x. \<not> in_range x pg 4096 \<longrightarrow> m x = phys s x"
    and s1: "s1 = s\<lparr>phys := store64 (memset m pg 0 4096) (p + of_nat (8 * i)) (PA2PTE pg OR PTE_V),
      freelist := f\<rparr>"
  shows "slot (phys s1) p i = PA2PTE pg OR PTE_V" "PTE2PA (PA2PTE pg OR PTE_V) = pg"
    "\<forall>j < 512. j \<noteq> i \<longrightarrow> slot (phys s1) p j = slot (phys s) p j"
    "\<forall>x. (\<forall>q \<in> {p} \<union> (F - (F - {pg})). \<not> in_range x q 4096) \<longrightarrow> phys s1 x = phys s x"
    "pset (phys s1) l pg = {pg}" "pte_in (phys s1) l pg va = 0"
    "tables_ok s1 (F - {pg}) l pg"
proof -
  have pF: "p \<notin> F" and pok: "page_ok (kend s) p"
    using ok slot_self [of p "phys s" "Suc l"] unfolding tables_ok_def by blast+
  then have ne: "p \<noteq> pg" and al: "aligned 4096 p" "aligned 4096 pg" using pg by (auto simp: page_ok_def)
  let ?m2 = "memset m pg 0 4096"
  show s: "slot (phys s1) p i = PA2PTE pg OR PTE_V" using i s1 by (simp add: slot_def)
  show "PTE2PA (PA2PTE pg OR PTE_V) = pg"
    by (rule PTE2PA_PA2PTE) (use al in \<open>simp_all add: PTE_V_def\<close>)
  have m2: "?m2 x = phys s x" if "\<not> in_range x pg 4096" for x
    using that pg(4) by (simp add: memset_page)
  show "\<forall>j < 512. j \<noteq> i \<longrightarrow> slot (phys s1) p j = slot (phys s) p j"
  proof (intro allI impI)
    fix j assume j: "j < (512 :: nat)" "j \<noteq> i"
    have "slot (phys s1) p j = slot ?m2 p j"
      using slot_store_other [of p p i j] al i j s1 by (simp del: of_nat_mult)
    also have "\<dots> = slot (phys s) p j"
      unfolding slot_def using j(1) ne al m2 by (intro load64_other_page [of pg p]) auto
    finally show "slot (phys s1) p j = slot (phys s) p j" .
  qed
  show "\<forall>x. (\<forall>q \<in> {p} \<union> (F - (F - {pg})). \<not> in_range x q 4096) \<longrightarrow> phys s1 x = phys s x"
  proof (intro allI impI)
    fix x assume x: "\<forall>q \<in> {p} \<union> (F - (F - {pg})). \<not> in_range x q 4096"
    then have "\<not> in_range x p 4096" "\<not> in_range x pg 4096" using pg(1) by auto
    then have "\<not> in_range x (p + of_nat (8 * i)) 8" using in_range_sub [of p "8 * i" 8 x] i al by auto
    then show "phys s1 x = phys s x" using m2 \<open>\<not> in_range x pg 4096\<close> s1 by (simp add: store64_outside del: of_nat_mult)
  qed
  have z: "slot (phys s1) pg j = 0" if "j < 512" for j
    using slot_store_other [of p pg i j ?m2] slot_zero_page [of pg j m] al i that ne s1
    by (simp del: of_nat_mult)
  show ps: "pset (phys s1) l pg = {pg}" and "pte_in (phys s1) l pg va = 0"
    using zero_table z by auto
  have "free_pages (s\<lparr>phys := m, freelist := f\<rparr>\<lparr>phys := phys s1\<rparr>) (F - {pg})"
  proof (rule free_pages_cong [OF pg(3)])
    fix q assume q: "q \<in> F - {pg}"
    then have qa: "aligned 4096 q" "q \<noteq> p" "q \<noteq> pg"
      using free_pages_ok [OF pg(3) q] pF by (auto simp: page_ok_def)
    then show "slot (phys s1) q 0 = slot (phys (s\<lparr>phys := m, freelist := f\<rparr>)) q 0"
      using slot_store_other [of p q i 0 ?m2] al i s1 load64_other_page [of pg q 0 ?m2 m]
      by (simp add: memset_page slot_def del: of_nat_mult)
  qed
  moreover have "s\<lparr>phys := m, freelist := f\<rparr>\<lparr>phys := phys s1\<rparr> = s1" using s1 by simp
  ultimately have "free_pages s1 (F - {pg})" by simp
  then show "tables_ok s1 (F - {pg}) l pg"
    using ps zero_table(2) [of "phys s1" pg l] z pg(2) s1 by (auto simp: tables_ok_def)
qed

lemma walk_from_alloc:
  assumes "tables_ok s F l p"
  shows "\<exists>a t F'. walk_from l p va True s = Ok a t \<and> tables_grow s F l p t F' \<and>
    (a = 0 \<and> F' = {} \<or> a \<noteq> 0 \<and> (\<exists>q. leaf (phys t) l p va = Some q \<and> a = q + 8 * PX 0 va))"
  using assms
proof (induction l arbitrary: s F p)
  case 0
  have "page_ok (kend s) p" "0 < kend s"
    using "0.prems" by (auto simp: tables_ok_def free_pages_def kmem_list_def)
  then have "p + 8 * PX 0 va \<noteq> 0" unfolding slot_addr by (intro slot_nonnull) auto
  then show ?case using tables_grow_refl [OF "0.prems"] by auto
next
  case (Suc l)
  define i where "i = pxn (Suc l) va"
  let ?e = "slot (phys s) p i"
  have i: "i < 512" by (simp add: i_def)
  have le: "load64 (phys s) (p + 8 * PX (Suc l) va) = ?e" by (simp add: i_def slot_def slot_addr)
  show ?case
  proof (cases "pvalid ?e")
    case True
    have ok: "tables_ok s F l (PTE2PA ?e)"
      using Suc.prems True i by (auto simp: tables_ok_def)
    then obtain a t F' where a: "walk_from l (PTE2PA ?e) va True s = Ok a t"
      "tables_grow s F l (PTE2PA ?e) t F'"
      "a = 0 \<and> F' = {} \<or> a \<noteq> 0 \<and> (\<exists>q. leaf (phys t) l (PTE2PA ?e) va = Some q \<and> a = q + 8 * PX 0 va)"
      using Suc.IH by blast
    have "tables_grow s F (Suc l) p t F'" "slot (phys t) p i = ?e"
      by (rule grow_child [OF Suc.prems i _ _ True _ _ _ _ a(2)];
          use True in \<open>simp add: child_pages_def pte_in_Suc\<close>)+
    moreover have "walk_from (Suc l) p va True s = Ok a t" using a(1) True by (simp add: le Let_def)
    ultimately show ?thesis using a(3) True by (auto simp: i_def)
  next
    case False
    have fp: "free_pages s F" using Suc.prems by (simp add: tables_ok_def)
    show ?thesis
    proof (rule kalloc_page [OF fp])
      assume "F = {}" "kalloc s = Ok 0 s"
      then show ?thesis
        using tables_grow_refl [OF Suc.prems] False by (auto simp: le bnd_def Let_def)
    next
      fix pg m f
      assume k: "kalloc s = Ok pg (s\<lparr>phys := m, freelist := f\<rparr>)" "pg \<in> F" "pg \<noteq> 0"
        "page_ok (kend s) pg" "free_pages (s\<lparr>phys := m, freelist := f\<rparr>) (F - {pg})"
        "\<forall>x. \<not> in_range x pg 4096 \<longrightarrow> m x = phys s x"
      define s1 where "s1 = s\<lparr>phys := store64 (memset m pg 0 4096) (p + of_nat (8 * i)) (PA2PTE pg OR PTE_V),
        freelist := f\<rparr>"
      note z = link_zero_page [OF Suc.prems i False k(2,4,5,6) s1_def]
      obtain a t F' where a: "walk_from l pg va True s1 = Ok a t"
        "tables_grow s1 (F - {pg}) l pg t F'"
        "a = 0 \<and> F' = {} \<or> a \<noteq> 0 \<and> (\<exists>q. leaf (phys t) l pg va = Some q \<and> a = q + 8 * PX 0 va)"
        using Suc.IH [OF z(7)] by blast
      have "walk_from (Suc l) p va True s = walk_from l pg va True s1"
        using False k(1,3) by (simp add: le bnd_def s1_def Let_def phys_freelist)
          (simp add: slot_addr i_def)
      moreover have "tables_grow s F (Suc l) p t F'" "slot (phys t) p i = slot (phys s1) p i"
      proof -
        have e: "s1 = s\<lparr>phys := phys s1, freelist := freelist s1\<rparr>" "pvalid (slot (phys s1) p i)"
          "F - {pg} \<subseteq> F" "tables_grow s1 (F - {pg}) l (PTE2PA (slot (phys s1) p i)) t F'"
          "pset (phys s1) l (PTE2PA (slot (phys s1) p i)) =
            child_pages (phys s) l p i \<union> (F - (F - {pg}))"
          subgoal by (simp add: s1_def)
          subgoal unfolding z(1) by (rule pvalid_or)
          subgoal by blast
          subgoal unfolding z(1,2) by (rule a(2))
          subgoal unfolding z(1,2,5) using False k(2) by (auto simp: child_pages_def)
          done
        have "\<forall>x. pxn (Suc l) x = i \<longrightarrow>
          pte_in (phys s1) l (PTE2PA (slot (phys s1) p i)) x = pte_in (phys s) (Suc l) p x"
          unfolding z(1,2,6) using False by (simp add: pte_in_Suc)
        from grow_child [OF Suc.prems i e(1) z(3) e(2,3) z(4) e(5) this e(4)]
        show "tables_grow s F (Suc l) p t F'" "slot (phys t) p i = slot (phys s1) p i" by auto
      qed
      moreover from this have "leaf (phys t) (Suc l) p va = leaf (phys t) l pg va"
        using z(1,2) by (simp add: i_def)
      ultimately show ?thesis using a(1,3) by (metis (no_types, lifting))
    qed
  qed
qed

section \<open>Virtual pages\<close>

lemma unat_MAXVA: "unat MAXVA = 2 ^ 38"
  by (simp add: MAXVA_def)

lemma pxn_div: "pxn l va = unat va div 2 ^ (12 + 9 * l) mod 512"
proof -
  have m: "(0x1FF :: u64) = mask 9" by (simp add: mask_eq_exp_minus_1)
  have "unat va mod 2 ^ 64 = unat va" using unat_bound [of va] by (intro mod_less) simp
  then show ?thesis
    unfolding pxn_def PX_def PXSHIFT_def m take_bit_eq_mask [symmetric] unsigned_take_bit_eq
      unsigned_drop_bit_eq
    by (simp add: take_bit_eq_mod drop_bit_eq_div)
qed

lemma vpn_split:
  assumes "va < MAXVA"
  shows "unat va div 4096 = pxn 0 va + 512 * (pxn 1 va + 512 * pxn 2 va)"
proof -
  have b: "unat va < 2 ^ 38" using assms unat_MAXVA by (simp add: word_less_nat_alt)
  have "pxn 0 va = unat va div 4096 mod 512" by (simp add: pxn_div)
  moreover have "pxn 1 va = unat va div 4096 div 512 mod 512"
    by (simp add: pxn_div div_mult2_eq [symmetric])
  moreover have "pxn 2 va = unat va div 4096 div 512 div 512"
    using b by (simp add: pxn_div div_mult2_eq [symmetric])
  ultimately show ?thesis by (metis add.commute mult.commute div_mult_mod_eq)
qed

lemma same_indices:
  assumes "va < MAXVA" "va' < MAXVA"
  shows "(\<forall>k \<le> 2. pxn k va = pxn k va') \<longleftrightarrow> unat va div 4096 = unat va' div 4096"
proof
  assume "\<forall>k \<le> 2. pxn k va = pxn k va'"
  then show "unat va div 4096 = unat va' div 4096"
    using vpn_split [OF assms(1)] vpn_split [OF assms(2)] by simp
next
  assume e: "unat va div 4096 = unat va' div 4096"
  have "pxn k va = unat va div 4096 div 2 ^ (9 * k) mod 512" for k va
    by (simp add: pxn_div div_mult2_eq power_add)
  then show "\<forall>k \<le> 2. pxn k va = pxn k va'" using e by simp
qed

lemma all_le_2: "(\<forall>k \<le> 2. P k) \<longleftrightarrow> P 0 \<and> P 1 \<and> P (2 :: nat)"
  by (auto simp: le_Suc_eq numeral_2_eq_2)

text \<open>Storing an entry changes the entry of its own page and no other.\<close>

lemma store_leaf:
  assumes ok: "tables_ok s F 2 root" and va: "va < MAXVA"
    and lf: "leaf (phys s) 2 root va = Some q"
    and t: "t = s\<lparr>phys := store64 (phys s) (q + 8 * PX 0 va) e\<rparr>"
  shows "tables_ok t F 2 root" "pset (phys t) 2 root = pset (phys s) 2 root"
    "\<forall>va' < MAXVA. pte_in (phys t) 2 root va' =
      (if unat va' div 4096 = unat va div 4096 then e else pte_in (phys s) 2 root va')"
    "\<forall>x. (\<forall>p \<in> pset (phys s) 2 root. \<not> in_range x p 4096) \<longrightarrow> phys t x = phys s x"
    "leaf (phys t) 2 root = leaf (phys s) 2 root"
proof -
  let ?m = "phys s" and ?m' = "phys t"
  have w: "pwf ?m 2 root" "pset ?m 2 root \<inter> F = {}" "\<forall>p \<in> pset ?m 2 root. aligned 4096 p"
    "free_pages s F"
    using ok by (auto simp: tables_ok_def page_ok_def)
  have q: "q \<in> pset ?m 2 root" by (rule leaf_in_pset [OF lf])
  have m': "?m' = store64 ?m (q + of_nat (8 * pxn 0 va)) e" using t by (simp add: pxn_def)
  have al: "aligned 4096 q" using q w(3) by blast
  have so: "slot ?m' p i = slot ?m p i"
    if "aligned 4096 p" "i < 512" "(q, pxn 0 va) \<noteq> (p, i)" for p i
    unfolding m' using that al by (intro slot_store_other) auto
  have tb: "pset ?m' 2 root = pset ?m 2 root \<and> pwf ?m' 2 root \<and> leaf ?m' 2 root = leaf ?m 2 root"
    by (rule tables_leaf_store [OF w(1) lf]) (use so w(3) in auto)
  then show "pset ?m' 2 root = pset ?m 2 root" "leaf ?m' 2 root = leaf ?m 2 root" by simp_all
  have "free_pages (s\<lparr>phys := ?m'\<rparr>) F"
  proof (rule free_pages_cong [OF w(4)])
    fix p assume p: "p \<in> F"
    then have "aligned 4096 p" "p \<noteq> q" using free_pages_ok [OF w(4) p] q w(2) by (auto simp: page_ok_def)
    then show "slot ?m' p 0 = slot ?m p 0" by (intro so) auto
  qed
  moreover have "s\<lparr>phys := ?m'\<rparr> = t" using t by simp
  ultimately have "free_pages t F" by simp
  then show "tables_ok t F 2 root"
    using tb ok t by (auto simp: tables_ok_def)
  show "\<forall>x. (\<forall>p \<in> pset ?m 2 root. \<not> in_range x p 4096) \<longrightarrow> ?m' x = ?m x"
  proof (intro allI impI)
    fix x assume "\<forall>p \<in> pset ?m 2 root. \<not> in_range x p 4096"
    then have "\<not> in_range x q 4096" using q by blast
    then have "\<not> in_range x (q + of_nat (8 * pxn 0 va)) 8"
      using in_range_sub [of q "8 * pxn 0 va" 8 x] al pxn_less [of 0 va] by auto
    then show "?m' x = ?m x" unfolding m' by (rule store64_outside)
  qed
  show "\<forall>va' < MAXVA. pte_in ?m' 2 root va' =
      (if unat va' div 4096 = unat va div 4096 then e else pte_in ?m 2 root va')"
  proof (intro allI impI)
    fix va' assume va': "va' < MAXVA"
    have lm: "leaf ?m' 2 root va' = leaf ?m 2 root va'" using tb by simp
    show "pte_in ?m' 2 root va' =
      (if unat va' div 4096 = unat va div 4096 then e else pte_in ?m 2 root va')"
    proof (cases "unat va' div 4096 = unat va div 4096")
      case True
      then have k: "\<forall>k \<le> 2. pxn k va' = pxn k va" using same_indices [OF va' va] by simp
      then have "leaf ?m 2 root va' = leaf ?m 2 root va"
        unfolding all_le_2 by (simp add: numeral_2_eq_2 Let_def)
      then show ?thesis
        using True k lm lf slot_store_same [of "pxn 0 va" ?m q e] by (simp add: pte_in_def m')
    next
      case False
      then have k: "\<not> (pxn 0 va' = pxn 0 va \<and> pxn 1 va' = pxn 1 va \<and> pxn 2 va' = pxn 2 va)"
        using same_indices [OF va' va] unfolding all_le_2 by simp
      have "slot ?m' p (pxn 0 va') = slot ?m p (pxn 0 va')" if p: "leaf ?m 2 root va' = Some p" for p
      proof (rule so)
        show "aligned 4096 p" using leaf_in_pset [OF p] w(3) by blast
        show "(q, pxn 0 va) \<noteq> (p, pxn 0 va')"
          using leaf_inj [OF w(1) p, of va 1] leaf_inj [OF w(1) p, of va 2] lf k by auto
      qed simp
      then show ?thesis using False lm by (simp add: pte_in_def split: option.splits)
    qed
  qed
qed

end
