(* ===== verification/Addrspace.thy ===== *)
theory Addrspace
  imports Pagetable
begin

text \<open>
  What \<open>mappages\<close>, \<open>walkaddr\<close>, \<open>copyout\<close>, \<open>copyin\<close> and \<open>copyinstr\<close> of kernel/vm.c do to the
  address space a page table describes.
\<close>

section \<open>Mapping pages\<close>

text \<open>
  From \<open>s\<close> to \<open>t\<close> the tables under \<open>root\<close> took the free pages \<open>F - F'\<close>, and the entries are now
  those of \<open>f\<close>.
\<close>

definition remapped ::
  "'z kmem_scheme \<Rightarrow> u64 set \<Rightarrow> u64 \<Rightarrow> 'z kmem_scheme \<Rightarrow> u64 set \<Rightarrow> (u64 \<Rightarrow> u64) \<Rightarrow> bool" where
  "remapped s F root t F' f =
     (F' \<subseteq> F \<and> tables_ok t F' 2 root \<and>
      pset (phys t) 2 root = pset (phys s) 2 root \<union> (F - F') \<and>
      (\<forall>va < MAXVA. pte_in (phys t) 2 root va = f va) \<and>
      (\<forall>x. (\<forall>q \<in> pset (phys s) 2 root \<union> F. \<not> in_range x q 4096) \<longrightarrow> phys t x = phys s x) \<and>
      t = s\<lparr>phys := phys t, freelist := freelist t\<rparr>)"

lemma remapped_trans:
  assumes "remapped s F root t F' f" "remapped t F' root u F'' g"
  shows "remapped s F root u F'' g"
proof -
  have "u = s\<lparr>phys := phys u, freelist := freelist u\<rparr>"
  proof -
    have u: "u = t\<lparr>phys := phys u, freelist := freelist u\<rparr>"
      and t: "t = s\<lparr>phys := phys t, freelist := freelist t\<rparr>"
      using assms by (auto simp: remapped_def)
    show ?thesis by (subst u, subst t) simp
  qed
  moreover have "phys u x = phys s x"
    if "\<forall>q \<in> pset (phys s) 2 root \<union> F. \<not> in_range x q 4096" for x
  proof -
    have "phys t x = phys s x" using assms(1) that by (simp add: remapped_def)
    moreover have "phys u x = phys t x" using assms that unfolding remapped_def by blast
    ultimately show ?thesis by simp
  qed
  ultimately show ?thesis using assms unfolding remapped_def by blast
qed

lemma remapped_grow:
  "tables_grow s F 2 root t F' \<Longrightarrow> remapped s F root t F' (pte_in (phys s) 2 root)"
  by (auto simp: tables_grow_def remapped_def)

lemma remapped_store:
  assumes "tables_ok s F 2 root" "va < MAXVA" "leaf (phys s) 2 root va = Some q"
    "t = s\<lparr>phys := store64 (phys s) (q + 8 * PX 0 va) e\<rparr>"
  shows "remapped s F root t F
    (\<lambda>va'. if unat va' div 4096 = unat va div 4096 then e else pte_in (phys s) 2 root va')"
  using store_leaf [OF assms] assms(4) by (auto simp: remapped_def)

lemma walk_below: "va < MAXVA \<Longrightarrow> walk root va alloc s = walk_from 2 root va alloc s"
  unfolding walk_def panic_if_def by auto

text \<open>One round of the loop of \<open>mappages\<close>.\<close>

lemma map_one:
  assumes ok: "tables_ok s F 2 root" and a: "a < MAXVA"
    and nv: "\<not> pvalid (pte_in (phys s) 2 root a)"
  obtains t F' where "walk root a True s = Ok 0 t" "remapped s F root t {} (pte_in (phys s) 2 root)"
  | pte t t' F' where "walk root a True s = Ok pte t" "pte \<noteq> 0" "\<not> pvalid (load64 (phys t) pte)"
      "t' = t\<lparr>phys := store64 (phys t) pte e\<rparr>"
      "remapped s F root t' F'
        (\<lambda>va. if unat va div 4096 = unat a div 4096 then e else pte_in (phys s) 2 root va)"
proof -
  obtain p t F' where w: "walk_from 2 root a True s = Ok p t" and g: "tables_grow s F 2 root t F'"
    and r: "p = 0 \<and> F' = {} \<or> p \<noteq> 0 \<and> (\<exists>q. leaf (phys t) 2 root a = Some q \<and> p = q + 8 * PX 0 a)"
    using walk_from_alloc [OF ok] by blast
  have wk: "walk root a True s = Ok p t" using w a by (simp add: walk_below)
  note rg = remapped_grow [OF g]
  from r show thesis
  proof (elim disjE conjE exE)
    assume "p = 0" "F' = {}"
    then show thesis using that(1) wk rg by simp
  next
    fix q assume p: "p \<noteq> 0" and q: "leaf (phys t) 2 root a = Some q" "p = q + 8 * PX 0 a"
    have okt: "tables_ok t F' 2 root" using g by (simp add: tables_grow_def)
    have "load64 (phys t) p = pte_in (phys t) 2 root a" using q by (simp add: pte_in_def slot_def slot_addr)
    then have nv': "\<not> pvalid (load64 (phys t) p)" using nv g by (simp add: tables_grow_def)
    have pe: "pte_in (phys t) 2 root = pte_in (phys s) 2 root"
      using g unfolding tables_grow_def by (intro ext) blast
    let ?t = "t\<lparr>phys := store64 (phys t) p e\<rparr>"
    have "remapped t F' root ?t F'
      (\<lambda>va. if unat va div 4096 = unat a div 4096 then e else pte_in (phys t) 2 root va)"
      by (rule remapped_store [OF okt a q(1)]) (simp add: q(2))
    then have "remapped t F' root ?t F'
      (\<lambda>va. if unat va div 4096 = unat a div 4096 then e else pte_in (phys s) 2 root va)"
      unfolding pe .
    from remapped_trans [OF rg this] show thesis using that(2) wk p nv' by blast
  qed
qed

text \<open>The entries after \<open>n\<close> pages from \<open>a\<close> on were mapped to consecutive pages from \<open>pa\<close> on.\<close>

definition map_entries :: "u64 \<Rightarrow> nat \<Rightarrow> u64 \<Rightarrow> u64 \<Rightarrow> (u64 \<Rightarrow> u64) \<Rightarrow> u64 \<Rightarrow> u64" where
  "map_entries a n pa perm f va =
     (if unat a \<le> unat va \<and> unat va < unat a + 4096 * n
      then PA2PTE (pa + of_nat (4096 * ((unat va - unat a) div 4096))) OR perm OR PTE_V
      else f va)"

lemma map_entries_page:
  assumes "aligned 4096 a"
  shows "map_entries a n pa perm f va =
    (if unat a div 4096 \<le> unat va div 4096 \<and> unat va div 4096 < unat a div 4096 + n
     then PA2PTE (pa + of_nat (4096 * (unat va div 4096 - unat a div 4096))) OR perm OR PTE_V
     else f va)"
proof -
  obtain k where k: "unat a = 4096 * k" using aligned_mult [OF assms(1)] by blast
  obtain w r where w: "unat va = 4096 * w + r" "r < 4096"
    by (metis mod_less_divisor mult_div_mod_eq zero_less_numeral)
  have "(unat va - unat a) div 4096 = w - k" if "k \<le> w"
  proof -
    have "unat va - unat a = 4096 * (w - k) + r" using k w that by (simp add: diff_mult_distrib2)
    then show ?thesis using w(2) by simp
  qed
  moreover have "unat a \<le> unat va \<longleftrightarrow> k \<le> w" "unat va < unat a + 4096 * n \<longleftrightarrow> w < k + n"
    using k w by linarith+
  moreover have "unat a div 4096 = k" "unat va div 4096 = w" using k w by simp_all
  ultimately show ?thesis by (simp add: map_entries_def)
qed

lemma map_entries_0: "map_entries a 0 pa perm f = f"
  by (rule ext) (auto simp: map_entries_def)

lemma map_entries_Suc:
  assumes "aligned 4096 a" "unat a + 4096 * Suc n \<le> 2 ^ 64"
  shows "map_entries (a + 4096) n (pa + 4096) perm
      (\<lambda>va. if unat va div 4096 = unat a div 4096 then PA2PTE pa OR perm OR PTE_V else f va) va =
    map_entries a (Suc n) pa perm f va"
proof (cases n)
  case 0
  then show ?thesis unfolding map_entries_page [OF assms(1)] by (auto simp: map_entries_def)
next
  case (Suc n')
  have u: "unat (a + 4096) = unat a + 4096"
    using assms(2) Suc unat_add_small [of a 4096] by simp
  have al: "aligned 4096 (a + 4096)" using assms(1) u by (simp add: aligned_def)
  have d: "unat (a + 4096) div 4096 = Suc (unat a div 4096)" using u by simp
  let ?w = "unat va div 4096" and ?k = "unat a div 4096"
  consider "?w < ?k" | "?w = ?k" | "Suc ?k \<le> ?w" by linarith
  then show ?thesis
  proof cases
    case 3
    then have "?w - ?k = Suc (?w - Suc ?k)" by simp
    then show ?thesis
      using 3 by (simp add: map_entries_page [OF assms(1)] map_entries_page [OF al] d algebra_simps)
  qed (simp_all add: map_entries_page [OF assms(1)] map_entries_page [OF al] d)
qed

lemma mappages_loop_ok:
  assumes "tables_ok s F 2 root" "aligned 4096 a" "unat a + 4096 * Suc n \<le> unat MAXVA"
    "\<forall>va < MAXVA. unat a \<le> unat va \<and> unat va < unat a + 4096 * Suc n \<longrightarrow>
      \<not> pvalid (pte_in (phys s) 2 root va)"
  shows "\<exists>r t F' j. mappages_loop n root a pa perm s = Ok r t \<and>
    remapped s F root t F' (map_entries a j pa perm (pte_in (phys s) 2 root)) \<and>
    (r = 0 \<and> j = Suc n \<or> r = -1 \<and> j \<le> n \<and> F' = {})"
  using assms
proof (induction n arbitrary: a pa s F)
  case 0
  have a: "a < MAXVA" "\<not> pvalid (pte_in (phys s) 2 root a)"
    using "0.prems" by (auto simp: word_less_nat_alt)
  show ?case
  proof (rule map_one [OF "0.prems"(1) a, where e = "PA2PTE pa OR perm OR PTE_V"])
    fix t assume t: "walk root a True s = Ok 0 t" "remapped s F root t {} (pte_in (phys s) 2 root)"
    then have "mappages_loop 0 root a pa perm s = Ok (-1) t"
      by (simp add: mappages_loop.simps bnd_def)
    then show ?thesis
      using t(2)
      by (intro exI [of _ "-1"] exI [of _ t] exI [of _ "{}"] exI [of _ 0]) (simp add: map_entries_0)
  next
    fix pte t t' F'
    assume t: "walk root a True s = Ok pte t" "pte \<noteq> 0" "\<not> pvalid (load64 (phys t) pte)"
      "t' = t\<lparr>phys := store64 (phys t) pte (PA2PTE pa OR perm OR PTE_V)\<rparr>"
      and r: "remapped s F root t' F' (\<lambda>va. if unat va div 4096 = unat a div 4096
        then PA2PTE pa OR perm OR PTE_V else pte_in (phys s) 2 root va)"
    have "mappages_loop 0 root a pa perm s = Ok 0 t'"
      using t by (simp add: mappages_loop.simps bnd_def)
    moreover have "map_entries a (Suc 0) pa perm (pte_in (phys s) 2 root) = (\<lambda>va. if unat va div 4096 =
        unat a div 4096 then PA2PTE pa OR perm OR PTE_V else pte_in (phys s) 2 root va)"
      using "0.prems"(3) unat_MAXVA map_entries_0
      by (intro ext, subst map_entries_Suc [OF "0.prems"(2), symmetric]) simp_all
    ultimately show ?thesis using r by metis
  qed
next
  case (Suc n)
  have a: "a < MAXVA" "\<not> pvalid (pte_in (phys s) 2 root a)"
    using Suc.prems by (auto simp: word_less_nat_alt)
  show ?case
  proof (rule map_one [OF Suc.prems(1) a, where e = "PA2PTE pa OR perm OR PTE_V"])
    fix t assume t: "walk root a True s = Ok 0 t" "remapped s F root t {} (pte_in (phys s) 2 root)"
    then have "mappages_loop (Suc n) root a pa perm s = Ok (-1) t"
      by (simp add: mappages_loop.simps [of "Suc n"] bnd_def)
    then show ?thesis
      using t(2)
      by (intro exI [of _ "-1"] exI [of _ t] exI [of _ "{}"] exI [of _ 0]) (simp add: map_entries_0)
  next
    fix pte t t' F'
    assume t: "walk root a True s = Ok pte t" "pte \<noteq> 0" "\<not> pvalid (load64 (phys t) pte)"
      "t' = t\<lparr>phys := store64 (phys t) pte (PA2PTE pa OR perm OR PTE_V)\<rparr>"
      and r: "remapped s F root t' F' (\<lambda>va. if unat va div 4096 = unat a div 4096
        then PA2PTE pa OR perm OR PTE_V else pte_in (phys s) 2 root va)"
    let ?f = "\<lambda>va. if unat va div 4096 = unat a div 4096 then PA2PTE pa OR perm OR PTE_V
      else pte_in (phys s) 2 root va"
    have m: "mappages_loop (Suc n) root a pa perm s = mappages_loop n root (a + 4096) (pa + 4096) perm t'"
      using t by (simp add: mappages_loop.simps [of "Suc n"] bnd_def PGSIZE_def)
    have ta: "unat a + 4096 \<le> unat MAXVA" using Suc.prems(3) by simp
    note nx = aligned_next [OF Suc.prems(2) ta]
    have rp: "tables_ok t' F' 2 root" "\<forall>va < MAXVA. pte_in (phys t') 2 root va = ?f va"
      using r by (simp_all add: remapped_def)
    have nv: "\<forall>va < MAXVA. unat (a + 4096) \<le> unat va \<and> unat va < unat (a + 4096) + 4096 * Suc n \<longrightarrow>
        \<not> pvalid (pte_in (phys t') 2 root va)"
    proof (intro allI impI)
      fix va assume va: "va < MAXVA"
        "unat (a + 4096) \<le> unat va \<and> unat va < unat (a + 4096) + 4096 * Suc n"
      then have "unat (a + 4096) div 4096 \<le> unat va div 4096" by (intro div_le_mono) simp
      then have "unat va div 4096 \<noteq> unat a div 4096" using nx(2) by simp
      then have "?f va = pte_in (phys s) 2 root va" by simp
      then show "\<not> pvalid (pte_in (phys t') 2 root va)"
        using rp(2) va nx Suc.prems(4) by simp
    qed
    have b: "unat (a + 4096) + 4096 * Suc n \<le> unat MAXVA" using Suc.prems(3) nx by simp
    obtain rr u F'' j where u: "mappages_loop n root (a + 4096) (pa + 4096) perm t' = Ok rr u"
      "remapped t' F' root u F'' (map_entries (a + 4096) j (pa + 4096) perm (pte_in (phys t') 2 root))"
      "rr = 0 \<and> j = Suc n \<or> rr = -1 \<and> j \<le> n \<and> F'' = {}"
      using Suc.IH [OF rp(1) nx(1) b nv, of "pa + 4096"] by blast
    have jb: "unat a + 4096 * Suc j \<le> 2 ^ 64"
      using u(3) Suc.prems(3) unat_MAXVA by auto
    have "map_entries (a + 4096) j (pa + 4096) perm (pte_in (phys t') 2 root) va =
        map_entries a (Suc j) pa perm (pte_in (phys s) 2 root) va" if "va < MAXVA" for va
      using map_entries_Suc [OF Suc.prems(2) jb, of pa perm "pte_in (phys s) 2 root" va, symmetric]
        rp(2) that by (simp add: map_entries_def)
    then have "remapped t' F' root u F'' (map_entries a (Suc j) pa perm (pte_in (phys s) 2 root))"
      using u(2) by (simp add: remapped_def)
    from remapped_trans [OF r this] show ?thesis
      using u(1,3) m
      by (intro exI [of _ rr] exI [of _ u] exI [of _ F''] exI [of _ "Suc j"]) simp
  qed
qed

section \<open>Addresses within a page\<close>

lemma div_page: "r < 4096 \<Longrightarrow> (q * 4096 + r) div 4096 = (q :: nat)"
  by simp

lemma page_split: "va = PGROUNDDOWN va + of_nat (unat va mod 4096)"
proof -
  have "unat (PGROUNDDOWN va + of_nat (unat va mod 4096)) = unat (PGROUNDDOWN va) + unat va mod 4096"
    by (rule aligned_unat_add) simp_all
  then show ?thesis by (simp add: word_unat_eq_iff unat_PGROUNDDOWN div_mult_mod_eq)
qed

lemma page_add: "va + of_nat j = PGROUNDDOWN va + of_nat (unat va mod 4096 + j)"
proof -
  have "PGROUNDDOWN va + of_nat (unat va mod 4096 + j) =
      (PGROUNDDOWN va + of_nat (unat va mod 4096)) + of_nat j" by (simp add: add.assoc)
  also have "\<dots> = va + of_nat j" by (simp only: page_split [symmetric])
  finally show ?thesis by simp
qed

lemma page_next: "PGROUNDDOWN va + PGSIZE = va + of_nat (page_rest va)"
proof -
  have "va + of_nat (page_rest va) =
      PGROUNDDOWN va + of_nat (unat va mod 4096 + (4096 - unat va mod 4096))"
    unfolding page_rest_eq by (rule page_add)
  also have "unat va mod 4096 + (4096 - unat va mod 4096) = 4096" by (simp add: le_add_diff_inverse)
  finally show ?thesis by (simp add: PGSIZE_def)
qed

lemma page_chunk:
  assumes "i < page_rest va"
  shows "unat (va + of_nat i) div 4096 = unat va div 4096"
    "va + of_nat i - PGROUNDDOWN (va + of_nat i) = va - PGROUNDDOWN va + of_nat i"
proof -
  have i: "unat va mod 4096 + i < 4096" using assms by (simp add: page_rest_eq)
  have "unat (PGROUNDDOWN va + of_nat (unat va mod 4096 + i)) = unat (PGROUNDDOWN va) + (unat va mod 4096 + i)"
    using i by (intro aligned_unat_add) simp_all
  then have u: "unat (va + of_nat i) = unat va div 4096 * 4096 + (unat va mod 4096 + i)"
    unfolding page_add [of va i, symmetric] unat_PGROUNDDOWN .
  show d: "unat (va + of_nat i) div 4096 = unat va div 4096" unfolding u by (rule div_page [OF i])
  then have "PGROUNDDOWN (va + of_nat i) = PGROUNDDOWN va"
    by (simp add: word_unat_eq_iff unat_PGROUNDDOWN)
  then show "va + of_nat i - PGROUNDDOWN (va + of_nat i) = va - PGROUNDDOWN va + of_nat i" by simp
qed

lemma below_MAXVA_page: "va < MAXVA \<longleftrightarrow> unat va div 4096 < 2 ^ 26"
  by (simp add: word_less_nat_alt unat_MAXVA div_less_iff_less_mult)

lemma pte_in_same_page:
  assumes "va < MAXVA" "unat va' div 4096 = unat va div 4096"
  shows "pte_in m 2 root va' = pte_in m 2 root va"
proof -
  have "va' < MAXVA" using assms by (simp add: below_MAXVA_page)
  then have k: "\<forall>k \<le> 2. pxn k va' = pxn k va" using same_indices [OF _ assms(1)] assms(2) by simp
  then have "leaf m 2 root va' = leaf m 2 root va"
    unfolding all_le_2 by (simp add: numeral_2_eq_2 Let_def)
  moreover have "pxn 0 va' = pxn 0 va" using k by simp
  ultimately show ?thesis by (simp add: pte_in_def split: option.splits)
qed

section \<open>Reading user memory\<close>

text \<open>
  The byte a user address denotes, and the addresses the kernel may read for the user: mapped,
  user-accessible, and not backed by the page at address 0, which \<open>walkaddr\<close> uses for failure.
\<close>

definition ubyte :: "mem \<Rightarrow> u64 \<Rightarrow> u64 \<Rightarrow> byte" where
  "ubyte m root va = m (PTE2PA (pte_in m 2 root va) + (va - PGROUNDDOWN va))"

definition readable :: "mem \<Rightarrow> u64 \<Rightarrow> u64 \<Rightarrow> bool" where
  "readable m root va =
     (va < MAXVA \<and> (let e = pte_in m 2 root va in
        pvalid e \<and> e AND PTE_U \<noteq> 0 \<and> PTE2PA e \<noteq> 0))"

lemma PGROUNDDOWN_same: "unat (PGROUNDDOWN va) div 4096 = unat va div 4096"
  by (simp add: unat_PGROUNDDOWN)

lemma readable_same_page:
  "unat va' div 4096 = unat va div 4096 \<Longrightarrow> readable m root va' = readable m root va"
  using pte_in_same_page [of va va' m root]
  by (cases "va < MAXVA") (auto simp: readable_def below_MAXVA_page)

lemma walk_run:
  assumes "tables_ok s F 2 root" "va < MAXVA"
  shows "\<exists>pte. walk root va False s = Ok pte s \<and>
    (if pte = 0 then pte_in (phys s) 2 root va = 0
     else load64 (phys s) pte = pte_in (phys s) 2 root va)"
proof -
  have w: "walk root va False s =
      Ok (case leaf (phys s) 2 root va of None \<Rightarrow> 0 | Some q \<Rightarrow> q + 8 * PX 0 va) s"
    using assms(2) by (simp add: walk_below walk_from_False)
  show ?thesis
  proof (cases "leaf (phys s) 2 root va")
    case (Some q)
    have "page_ok (kend s) q" "0 < kend s"
      using assms(1) leaf_in_pset [OF Some] by (auto simp: tables_ok_def free_pages_def kmem_list_def)
    then have "q + 8 * PX 0 va \<noteq> 0" unfolding slot_addr by (intro slot_nonnull) auto
    then show ?thesis using w Some by (simp add: pte_in_def slot_def slot_addr)
  qed (use w in \<open>simp add: pte_in_def\<close>)
qed

lemma walkaddr_run:
  assumes "tables_ok s F 2 root"
  shows "walkaddr root va s =
    Ok (if readable (phys s) root va then PTE2PA (pte_in (phys s) 2 root va) else 0) s"
proof (cases "va < MAXVA")
  case True
  then obtain pte where "walk root va False s = Ok pte s"
    "if pte = 0 then pte_in (phys s) 2 root va = 0
     else load64 (phys s) pte = pte_in (phys s) 2 root va"
    using walk_run [OF assms] by blast
  then show ?thesis
    using True by (auto simp: walkaddr_def readable_def bnd_def Let_def not_le split: if_splits)
qed (auto simp: walkaddr_def readable_def)

lemma load_chunk:
  assumes "n \<le> page_rest va" "va < MAXVA"
  shows "load_bytes m (PTE2PA (pte_in m 2 root va) + (va - PGROUNDDOWN va)) n =
    map (\<lambda>i. ubyte m root (va + of_nat i)) [0..<n]"
proof (rule nth_equalityI)
  fix i assume "i < length (load_bytes m (PTE2PA (pte_in m 2 root va) + (va - PGROUNDDOWN va)) n)"
  then have i: "i < n" "i < page_rest va" using assms(1) by simp_all
  have "ubyte m root (va + of_nat i) = m (PTE2PA (pte_in m 2 root va) + (va - PGROUNDDOWN va + of_nat i))"
    unfolding ubyte_def page_chunk(2) [OF i(2)]
      pte_in_same_page [OF assms(2) page_chunk(1) [OF i(2)]] ..
  then show "load_bytes m (PTE2PA (pte_in m 2 root va) + (va - PGROUNDDOWN va)) n ! i =
      map (\<lambda>i. ubyte m root (va + of_nat i)) [0..<n] ! i"
    using i(1) by (simp add: add.assoc)
qed simp

lemma map_upt_append:
  "map f [0..<n] @ map (\<lambda>i. f (n + i)) [0..<k] = map f [0..<n + k]"
  by (induction k) simp_all

lemma copyin_spec:
  assumes "tables_ok s F 2 root"
  shows "\<exists>k \<le> n. copyin root va n s =
      Ok (if k = n then 0 else -1, map (\<lambda>i. ubyte (phys s) root (va + of_nat i)) [0..<k]) s \<and>
    (\<forall>i < k. readable (phys s) root (va + of_nat i)) \<and>
    (k < n \<longrightarrow> \<not> readable (phys s) root (va + of_nat k))"
  using assms
proof (induction root va n rule: copyin.induct)
  case (1 root va n)
  let ?m = "phys s" and ?va0 = "PGROUNDDOWN va"
  note wa = walkaddr_run [OF "1.prems", of ?va0]
  have rd: "readable ?m root ?va0 = readable ?m root va"
    by (rule readable_same_page) (simp add: PGROUNDDOWN_same)
  show ?case
  proof (cases "n = 0 \<or> \<not> readable ?m root va")
    case True
    then show ?thesis
      using wa rd by (intro exI [of _ 0]) (auto simp: copyin.simps [of root va n] bnd_def Let_def)
  next
    case False
    then have n: "0 < n" and r: "readable ?m root va" by auto
    have va: "va < MAXVA" and pa: "PTE2PA (pte_in ?m 2 root ?va0) = PTE2PA (pte_in ?m 2 root va)"
      "PTE2PA (pte_in ?m 2 root va) \<noteq> 0"
      using r pte_in_same_page [of va ?va0] by (auto simp: readable_def PGROUNDDOWN_same Let_def)
    define c where "c = min (page_rest va) n"
    have c: "c \<le> page_rest va" "c \<le> n" "0 < c" using n page_rest_bounds [of va] by (auto simp: c_def)
    have "\<exists>k \<le> n - c. copyin root (?va0 + PGSIZE) (n - c) s =
        Ok (if k = n - c then 0 else -1,
          map (\<lambda>i. ubyte ?m root (?va0 + PGSIZE + of_nat i)) [0..<k]) s \<and>
      (\<forall>i < k. readable ?m root (?va0 + PGSIZE + of_nat i)) \<and>
      (k < n - c \<longrightarrow> \<not> readable ?m root (?va0 + PGSIZE + of_nat k))"
      unfolding c_def by (rule "1.IH" [OF _ refl pa(2) refl "1.prems"]) (use n in simp)
    then obtain k where k: "k \<le> n - c" "copyin root (?va0 + PGSIZE) (n - c) s =
        Ok (if k = n - c then 0 else -1,
          map (\<lambda>i. ubyte ?m root (?va0 + PGSIZE + of_nat i)) [0..<k]) s"
      "\<forall>i < k. readable ?m root (?va0 + PGSIZE + of_nat i)"
      "k < n - c \<longrightarrow> \<not> readable ?m root (?va0 + PGSIZE + of_nat k)"
      by blast
    have nx: "?va0 + PGSIZE + of_nat i = va + of_nat (c + i)" if "c < n" for i
      using that page_next [of va] by (simp add: c_def min_def split: if_splits)
    have k0: "c < n" if "i < k" for i using that k(1) by simp
    have run: "copyin root va n s = Ok (if c + k = n then 0 else -1,
        map (\<lambda>i. ubyte ?m root (va + of_nat i)) [0..<c] @
        map (\<lambda>i. ubyte ?m root (?va0 + PGSIZE + of_nat i)) [0..<k]) s"
      using n r rd wa pa k(1,2) c(2) load_chunk [OF c(1) va, of ?m root]
      by (simp add: copyin.simps [of root va n] bnd_def Let_def c_def [symmetric]) auto
    have "map (\<lambda>i. ubyte ?m root (?va0 + PGSIZE + of_nat i)) [0..<k] =
        map (\<lambda>i. ubyte ?m root (va + of_nat (c + i))) [0..<k]"
      using nx [OF k0] by (intro map_cong refl) (simp add: add.assoc)
    note run' = run [unfolded this map_upt_append [of "\<lambda>i. ubyte ?m root (va + of_nat i)" c k]]
    have "readable ?m root (va + of_nat i)" if "i < c + k" for i
    proof (cases "i < c")
      case True
      then show ?thesis using readable_same_page [OF page_chunk(1) [of i va]] c(1) r by simp
    next
      case False
      then have ik: "i - c < k" and ic: "c + (i - c) = i" using that by simp_all
      have "readable ?m root (?va0 + PGSIZE + of_nat (i - c))" using k(3) ik by blast
      then show ?thesis unfolding nx [OF k0 [OF ik]] ic .
    qed
    moreover have "c + k < n \<longrightarrow> \<not> readable ?m root (va + of_nat (c + k))"
      using k(4) nx [of k] by (simp del: of_nat_add)
    ultimately show ?thesis using run' k(1) c(2)
      by (intro exI [of _ "c + k"]) (simp del: of_nat_add)
  qed
qed

section \<open>Writing user memory\<close>

definition user_page :: "mem \<Rightarrow> u64 \<Rightarrow> u64 \<Rightarrow> bool" where
  "user_page m root va =
     (va < MAXVA \<and> pvalid (pte_in m 2 root va) \<and> pte_in m 2 root va AND PTE_U \<noteq> 0)"

definition writable :: "mem \<Rightarrow> u64 \<Rightarrow> u64 \<Rightarrow> bool" where
  "writable m root va = (user_page m root va \<and> pte_in m 2 root va AND PTE_W \<noteq> 0)"

abbreviation upa :: "mem \<Rightarrow> u64 \<Rightarrow> u64 \<Rightarrow> u64" where
  "upa m root va \<equiv> PTE2PA (pte_in m 2 root va)"

text \<open>
  A user address space: its tables are a tree, and the pages mapped for the user are neither
  tables nor free, each being mapped once.
\<close>

definition space_ok :: "'z kmem_scheme \<Rightarrow> u64 set \<Rightarrow> u64 \<Rightarrow> bool" where
  "space_ok s F root =
     (tables_ok s F 2 root \<and>
      (\<forall>va. user_page (phys s) root va \<longrightarrow>
         page_ok (kend s) (upa (phys s) root va) \<and>
         upa (phys s) root va \<notin> pset (phys s) 2 root \<union> F) \<and>
      (\<forall>va va'. user_page (phys s) root va \<and> user_page (phys s) root va' \<and>
         upa (phys s) root va = upa (phys s) root va' \<longrightarrow> unat va div 4096 = unat va' div 4096))"

lemma user_same_page:
  "unat va' div 4096 = unat va div 4096 \<Longrightarrow> user_page m root va' = user_page m root va"
  "unat va' div 4096 = unat va div 4096 \<Longrightarrow> writable m root va' = writable m root va"
  using pte_in_same_page [of va va' m root]
  by (cases "va < MAXVA"; auto simp: user_page_def writable_def below_MAXVA_page)+

lemma page_off_less: "unat (va - PGROUNDDOWN va) < 4096"
proof -
  have "PGROUNDDOWN va \<le> va" by (simp add: word_le_nat_alt unat_PGROUNDDOWN)
  then show ?thesis by (simp add: unat_sub_le unat_PGROUNDDOWN minus_div_mult_eq_mod)
qed

lemma in_own_page: "in_range (P + (va - PGROUNDDOWN va)) P 4096"
  using page_off_less by (simp add: in_range_def)

text \<open>The effect of copying bytes to one page of the user.\<close>

lemma chunk_in_page:
  assumes "n \<le> page_rest va" "in_range x (P + (va - PGROUNDDOWN va)) n" "aligned 4096 P"
  shows "in_range x P 4096"
proof -
  have o: "va - PGROUNDDOWN va = of_nat (unat va mod 4096)"
    unfolding diff_eq_eq by (subst add.commute) (rule page_split)
  have "unat va mod 4096 + n \<le> unat va mod 4096 + page_rest va" using assms(1) by simp
  also have "\<dots> = 4096" unfolding page_rest_eq by (intro le_add_diff_inverse) simp
  finally have "unat va mod 4096 + n \<le> 4096" .
  from in_range_sub [OF assms(3) this] show ?thesis using assms(2) unfolding o .
qed

lemma ubyte_store_chunk:
  assumes ok: "space_ok s F root" and u: "user_page (phys s) root va"
    and n: "length bs \<le> page_rest va"
    and m': "m' = store_bytes (phys s) (upa (phys s) root va + (va - PGROUNDDOWN va)) bs"
    and pe: "\<And>va. pte_in m' 2 root va = pte_in (phys s) 2 root va"
    and v: "user_page (phys s) root v"
  shows "ubyte m' root v = (if in_range v va (length bs) then bs ! unat (v - va) else ubyte (phys s) root v)"
proof (cases "upa (phys s) root v = upa (phys s) root va")
  case True
  then have "unat v div 4096 = unat va div 4096" using ok u v unfolding space_ok_def by blast
  then have "PGROUNDDOWN v = PGROUNDDOWN va" by (simp add: word_unat_eq_iff unat_PGROUNDDOWN)
  then have d: "upa (phys s) root v + (v - PGROUNDDOWN v) - (upa (phys s) root va + (va - PGROUNDDOWN va))
      = v - va" using True by simp
  show ?thesis
    unfolding ubyte_def pe unfolding m' store_bytes_def in_range_def d ..
next
  case False
  have "\<not> in_range v va (length bs)"
  proof
    assume "in_range v va (length bs)"
    then have i: "unat (v - va) < page_rest va" using n by (simp add: in_range_def)
    have "unat v div 4096 = unat va div 4096" using page_chunk(1) [OF i] by simp
    then have "upa (phys s) root v = upa (phys s) root va"
      using pte_in_same_page [of va v "phys s" root] u by (simp add: user_page_def)
    then show False using False by simp
  qed
  moreover have "\<not> in_range (upa (phys s) root v + (v - PGROUNDDOWN v))
      (upa (phys s) root va + (va - PGROUNDDOWN va)) (length bs)"
    using chunk_in_page [OF n, of _ "upa (phys s) root va"]
      aligned_disjoint [of 4096 "upa (phys s) root v" "upa (phys s) root va"]
      in_own_page [of "upa (phys s) root v" v] False by auto
  ultimately show ?thesis unfolding ubyte_def pe unfolding m' store_bytes_def by simp
qed

lemma space_store_chunk:
  assumes ok: "space_ok s F root" and u: "user_page (phys s) root va"
    and n: "length bs \<le> page_rest va"
    and m': "m' = store_bytes (phys s) (upa (phys s) root va + (va - PGROUNDDOWN va)) bs"
  shows "space_ok (s\<lparr>phys := m'\<rparr>) F root"
    "pte_in m' 2 root v = pte_in (phys s) 2 root v"
    "\<not> in_range x (upa (phys s) root va) 4096 \<Longrightarrow> m' x = phys s x"
proof -
  let ?m = "phys s" and ?P = "upa (phys s) root va"
  have t: "tables_ok s F 2 root" and P: "?P \<notin> pset ?m 2 root \<union> F" using ok u by (auto simp: space_ok_def)
  have fr: "m' x = ?m x" if "\<not> in_range x ?P 4096" for x
    using chunk_in_page [OF n, of x ?P] that by (auto simp: m' store_bytes_def)
  then show "\<not> in_range x ?P 4096 \<Longrightarrow> m' x = ?m x" by blast
  have al: "\<forall>q \<in> pset ?m 2 root \<union> F. aligned 4096 q"
    using t free_pages_ok by (auto simp: tables_ok_def page_ok_def)
  have sp: "same_pages ?m m' (pset ?m 2 root \<union> F)"
    by (rule frame_same_pages [of "{?P}"]) (use fr al P in auto)
  then have sp2: "same_pages ?m m' (pset ?m 2 root)" by (rule same_pages_mono) simp
  note tc = tables_cong [OF sp2]
  show pe: "pte_in m' 2 root v = pte_in ?m 2 root v" for v by (rule pte_in_cong [OF sp2])
  have "free_pages (s\<lparr>phys := m'\<rparr>) F"
    using t sp by (intro free_pages_cong) (auto simp: tables_ok_def same_pages_def)
  then have "tables_ok (s\<lparr>phys := m'\<rparr>) F 2 root" using t tc by (simp add: tables_ok_def)
  then show "space_ok (s\<lparr>phys := m'\<rparr>) F root"
    using ok tc by (simp add: space_ok_def user_page_def pe)
qed

lemma in_range_split:
  assumes "c + k < 2 ^ 64"
  shows "in_range v va (c + k) \<longleftrightarrow> in_range v va c \<or> in_range v (va + of_nat c) k"
    and "\<not> in_range v va c \<Longrightarrow> in_range v (va + of_nat c) k \<Longrightarrow> unat (v - (va + of_nat c)) = unat (v - va) - c"
proof -
  have c: "unat (of_nat c :: u64) = c" using assms by (intro unat_of_nat_u64) simp
  have d: "v - (va + of_nat c) = (v - va) - of_nat c" by simp
  have ge: "unat (v - va - of_nat c) = unat (v - va) - c" if "c \<le> unat (v - va)"
    using that c by (subst unat_sub_le) (simp_all add: word_le_nat_alt)
  have lt: "k \<le> unat (v - va - of_nat c)" if "unat (v - va) < c"
  proof -
    define w where "w = v - va"
    have "unat (w - of_nat c) = unat w + 2 ^ 64 - c"
      using that c by (simp add: unat_sub_if' w_def [symmetric])
    then show ?thesis using assms that unfolding w_def by simp
  qed
  show "in_range v va (c + k) \<longleftrightarrow> in_range v va c \<or> in_range v (va + of_nat c) k"
    unfolding in_range_def d using ge lt by (cases "c \<le> unat (v - va)") auto
  show "\<not> in_range v va c \<Longrightarrow> in_range v (va + of_nat c) k \<Longrightarrow> unat (v - (va + of_nat c)) = unat (v - va) - c"
    unfolding in_range_def d using ge by simp
qed

lemma in_range_apart:
  assumes "c + k < 2 ^ 64" "in_range v va c"
  shows "\<not> in_range v (va + of_nat c) k"
proof -
  have c: "unat (of_nat c :: u64) = c" using assms by (intro unat_of_nat_u64) simp
  define w where "w = v - va"
  have "unat w < c" using assms(2) by (simp add: in_range_def w_def)
  then have "unat (w - of_nat c) = unat w + 2 ^ 64 - c" using c by (simp add: unat_sub_if')
  moreover have e: "v - (va + of_nat c) = w - of_nat c" by (simp add: w_def)
  ultimately show ?thesis using assms(1) unfolding in_range_def e by simp
qed

lemma below_MAXVA_length:
  assumes "\<forall>i < k. va + of_nat i < MAXVA"
  shows "k < 2 ^ 64"
proof (rule ccontr)
  assume "\<not> k < 2 ^ 64"
  moreover have "unat (MAXVA - va) < 2 ^ 64" using unat_bound [of "MAXVA - va"] by simp
  ultimately have "unat (MAXVA - va) < k" by linarith
  then have "va + of_nat (unat (MAXVA - va)) < MAXVA" using assms by blast
  then show False by simp
qed

lemma copyout_spec:
  assumes "space_ok s F root"
  shows "\<exists>k \<le> length src. \<exists>m. copyout root va src s =
      Ok (if k = length src then 0 else -1) (s\<lparr>phys := m\<rparr>) \<and>
    space_ok (s\<lparr>phys := m\<rparr>) F root \<and> (\<forall>v. pte_in m 2 root v = pte_in (phys s) 2 root v) \<and>
    (\<forall>i < k. writable (phys s) root (va + of_nat i)) \<and>
    (k < length src \<longrightarrow> \<not> writable (phys s) root (va + of_nat k)) \<and>
    (\<forall>v. user_page (phys s) root v \<longrightarrow> ubyte m root v =
      (if in_range v va k then src ! unat (v - va) else ubyte (phys s) root v)) \<and>
    (\<forall>x. (\<forall>v. user_page (phys s) root v \<longrightarrow> \<not> in_range x (upa (phys s) root v) 4096) \<longrightarrow>
      m x = phys s x)"
  using assms
proof (induction root va src arbitrary: s rule: copyout.induct)
  case (1 root va src)
  let ?m = "phys s" and ?va0 = "PGROUNDDOWN va"
  have tk: "tables_ok s F 2 root" using "1.prems" by (simp add: space_ok_def)
  have wr: "writable ?m root ?va0 = writable ?m root va"
    by (rule user_same_page) (simp add: PGROUNDDOWN_same)
  show ?case
  proof (cases "src = [] \<or> \<not> writable ?m root va")
    case True
    have "copyout root va src s = Ok (if src = [] then 0 else -1) s"
    proof (cases "src = [] \<or> ?va0 \<ge> MAXVA")
      case True
      then show ?thesis by (auto simp: copyout.simps [of root va src] Let_def)
    next
      case False
      then have "?va0 < MAXVA" by auto
      from walk_run [OF tk this] obtain pte where p: "walk root ?va0 False s = Ok pte s"
        "if pte = 0 then pte_in ?m 2 root ?va0 = 0 else load64 ?m pte = pte_in ?m 2 root ?va0"
        by blast
      have "\<not> writable ?m root ?va0" using wr True False by blast
      then show ?thesis
        using p False \<open>?va0 < MAXVA\<close>
        by (auto simp: copyout.simps [of root va src] Let_def bnd_def writable_def user_page_def
            split: if_splits)
    qed
    then show ?thesis
      using True "1.prems" by (intro exI [of _ 0] conjI exI [of _ ?m]) (auto simp: in_range_def)
  next
    case False
    then have ne: "src \<noteq> []" and w: "writable ?m root va" by auto
    then have u: "user_page ?m root va" and va: "va < MAXVA" by (auto simp: writable_def user_page_def)
    have va0: "?va0 < MAXVA" using va by (simp add: below_MAXVA_page PGROUNDDOWN_same)
    then have nle: "\<not> MAXVA \<le> ?va0" by simp
    have e: "pte_in ?m 2 root ?va0 = pte_in ?m 2 root va"
      by (rule pte_in_same_page [OF va PGROUNDDOWN_same])
    from walk_run [OF tk va0] obtain pte where p: "walk root ?va0 False s = Ok pte s"
      "pte \<noteq> 0" "load64 ?m pte = pte_in ?m 2 root va"
      using w e by (auto simp: writable_def user_page_def split: if_splits)
    define c where "c = min (page_rest va) (length src)"
    define m1 where "m1 = store_bytes ?m (upa ?m root va + (va - ?va0)) (take c src)"
    let ?s1 = "s\<lparr>phys := m1\<rparr>"
    have c: "c \<le> page_rest va" "c \<le> length src" "0 < c"
      using ne page_rest_bounds [of va] by (auto simp: c_def)
    have ln: "length (take c src) \<le> page_rest va" using c by simp
    note st = space_store_chunk [OF "1.prems" u ln m1_def]
    have ub: "ubyte m1 root v = (if in_range v va c then src ! unat (v - va) else ubyte ?m root v)"
      if "user_page ?m root v" for v
      using ubyte_store_chunk [OF "1.prems" u ln m1_def st(2) that] c(2)
      by (simp add: min_absorb2 in_range_def)
    have up: "user_page m1 root v = user_page ?m root v" "writable m1 root v = writable ?m root v" for v
      by (simp_all add: user_page_def writable_def st(2))
    have run: "copyout root va src s = copyout root (?va0 + PGSIZE) (drop c src) ?s1"
      using ne nle p w
      by (subst copyout.simps)
        (simp add: Let_def bnd_def writable_def user_page_def c_def m1_def)
    have nx: "?va0 + PGSIZE + of_nat i = va + of_nat (c + i)" if "c < length src" for i
      using that page_next [of va] by (simp add: c_def min_def split: if_splits)
    have "\<exists>k \<le> length (drop c src). \<exists>m. copyout root (?va0 + PGSIZE) (drop c src) ?s1 =
      Ok (if k = length (drop c src) then 0 else -1) (?s1\<lparr>phys := m\<rparr>) \<and>
      space_ok (?s1\<lparr>phys := m\<rparr>) F root \<and> (\<forall>v. pte_in m 2 root v = pte_in (phys ?s1) 2 root v) \<and>
      (\<forall>i < k. writable (phys ?s1) root (?va0 + PGSIZE + of_nat i)) \<and>
      (k < length (drop c src) \<longrightarrow> \<not> writable (phys ?s1) root (?va0 + PGSIZE + of_nat k)) \<and>
      (\<forall>v. user_page (phys ?s1) root v \<longrightarrow> ubyte m root v =
        (if in_range v (?va0 + PGSIZE) k then drop c src ! unat (v - (?va0 + PGSIZE))
         else ubyte (phys ?s1) root v)) \<and>
      (\<forall>x. (\<forall>v. user_page (phys ?s1) root v \<longrightarrow> \<not> in_range x (upa (phys ?s1) root v) 4096) \<longrightarrow>
        m x = phys ?s1 x)"
      unfolding c_def
      by (rule "1.IH" [OF ne refl _ _ refl refl st(1), of pte "pte_in ?m 2 root va"])
        (use nle p w in \<open>simp_all add: writable_def user_page_def\<close>)
    then obtain k m where k: "k \<le> length src - c" "copyout root (?va0 + PGSIZE) (drop c src) ?s1 =
      Ok (if k = length src - c then 0 else -1) (s\<lparr>phys := m\<rparr>)"
      "space_ok (s\<lparr>phys := m\<rparr>) F root" "\<forall>v. pte_in m 2 root v = pte_in ?m 2 root v"
      "\<forall>i < k. writable ?m root (?va0 + PGSIZE + of_nat i)"
      "k < length src - c \<longrightarrow> \<not> writable ?m root (?va0 + PGSIZE + of_nat k)"
      "\<forall>v. user_page ?m root v \<longrightarrow> ubyte m root v =
        (if in_range v (?va0 + PGSIZE) k then drop c src ! unat (v - (?va0 + PGSIZE))
         else ubyte m1 root v)"
      "\<forall>x. (\<forall>v. user_page ?m root v \<longrightarrow> \<not> in_range x (upa ?m root v) 4096) \<longrightarrow> m x = m1 x"
      by (auto simp: up st(2))
    have k0: "c < length src" if "0 < k" using that k(1) by simp
    have wi: "writable ?m root (va + of_nat i)" if "i < c + k" for i
    proof (cases "i < c")
      case True
      then show ?thesis using user_same_page(2) [OF page_chunk(1) [of i va]] c(1) w by simp
    next
      case False
      then have ik: "i - c < k" and ic: "c + (i - c) = i" using that by simp_all
      have "writable ?m root (?va0 + PGSIZE + of_nat (i - c))" using k(5) ik by blast
      then show ?thesis using nx [OF k0, of "i - c"] ik ic by (simp del: of_nat_diff)
    qed
    have len: "c + k < 2 ^ 64"
      using wi by (intro below_MAXVA_length [of _ va]) (auto simp: writable_def user_page_def)
    have "\<forall>v. user_page ?m root v \<longrightarrow> ubyte m root v =
      (if in_range v va (c + k) then src ! unat (v - va) else ubyte ?m root v)"
    proof (intro allI impI)
      fix v assume v: "user_page ?m root v"
      show "ubyte m root v = (if in_range v va (c + k) then src ! unat (v - va) else ubyte ?m root v)"
      proof (cases "k = 0")
        case True
        then show ?thesis using k(7) v ub [OF v] by (simp add: in_range_def)
      next
        case False
        then have n0: "?va0 + PGSIZE = va + of_nat c" using nx [OF k0, of 0] by simp
        have r: "in_range v va c \<Longrightarrow> \<not> in_range v (va + of_nat c) k"
          using len by (rule in_range_apart)
        have s: "\<not> in_range v va c \<Longrightarrow> in_range v (va + of_nat c) k \<Longrightarrow>
          drop c src ! unat (v - (va + of_nat c)) = src ! unat (v - va)"
          using in_range_split(2) [OF len, of v va] c(2)
          by (simp add: nth_drop in_range_def del: diff_diff_left)
        show ?thesis
          using k(7) v ub [OF v] r s unfolding n0 in_range_split(1) [OF len] by auto
      qed
    qed
    moreover have "\<forall>x. (\<forall>v. user_page ?m root v \<longrightarrow> \<not> in_range x (upa ?m root v) 4096) \<longrightarrow> m x = ?m x"
      using k(8) st(3) u by metis
    moreover have "c + k < length src \<longrightarrow> \<not> writable ?m root (va + of_nat (c + k))"
      using k(6) nx [of k] by (simp del: of_nat_add)
    moreover have "copyout root va src s = Ok (if c + k = length src then 0 else -1) (s\<lparr>phys := m\<rparr>)"
      using run k(1,2) c(2) by auto
    ultimately show ?thesis
      using k(1,3,4) wi c(2) by (intro exI [of _ "c + k"] conjI exI [of _ m]) auto
  qed
qed

section \<open>Reading a string\<close>

text \<open>
  What \<open>copyinstr\<close> computes: it stops at the first of \<open>mx\<close> bytes that is NUL or cannot be read.
\<close>

definition user_str :: "mem \<Rightarrow> u64 \<Rightarrow> u64 \<Rightarrow> nat \<Rightarrow> int \<times> byte list" where
  "user_str m root va mx =
     (case find (\<lambda>i. readable m root (va + of_nat i) \<longrightarrow> ubyte m root (va + of_nat i) = 0) [0..<mx] of
        None \<Rightarrow> (-1, map (\<lambda>i. ubyte m root (va + of_nat i)) [0..<mx])
      | Some j \<Rightarrow>
          if readable m root (va + of_nat j)
          then (0, map (\<lambda>i. ubyte m root (va + of_nat i)) [0..<j] @ [0])
          else (-1, map (\<lambda>i. ubyte m root (va + of_nat i)) [0..<j]))"

lemma find_append:
  "find P (xs @ ys) = (case find P xs of None \<Rightarrow> find P ys | Some x \<Rightarrow> Some x)"
  by (induction xs) simp_all

lemma find_shift:
  "find P [c..<c + n] = map_option (\<lambda>i. c + i) (find (\<lambda>i. P (c + i)) [0..<n])"
proof -
  have "[c..<c + n] = map (\<lambda>i. c + i) [0..<n]" by (simp add: map_add_upt add.commute)
  moreover have "find P (map (\<lambda>i. c + i) xs) = map_option (\<lambda>i. c + i) (find (\<lambda>i. P (c + i)) xs)" for xs
    by (induction xs) simp_all
  ultimately show ?thesis by simp
qed

lemma copyinstr_page_eq:
  "copyinstr_page bs = (takeWhile (\<lambda>b. b \<noteq> 0) bs @ (if 0 \<in> set bs then [0] else []), 0 \<in> set bs)"
  by (induction bs) (auto simp: Let_def split: prod.splits)

lemma copyinstr_page_find:
  "copyinstr_page (map f [0..<c]) = (case find (\<lambda>i. f i = 0) [0..<c] of
     None \<Rightarrow> (map f [0..<c], False) | Some j \<Rightarrow> (map f [0..<j] @ [0], True))"
proof (cases "find (\<lambda>i. f i = 0) [0..<c]")
  case None
  then have "\<forall>i < c. f i \<noteq> 0" by (auto simp: find_None_iff)
  then have "takeWhile (\<lambda>b. b \<noteq> 0) (map f [0..<c]) = map f [0..<c]" "0 \<notin> set (map f [0..<c])"
    by (auto simp: takeWhile_eq_all_conv)
  then show ?thesis unfolding copyinstr_page_eq None by simp
next
  case (Some j)
  then have j: "j < c" "f j = 0" "\<forall>i < j. f i \<noteq> 0" by (auto simp: find_Some_iff)
  have "takeWhile (\<lambda>b. b \<noteq> 0) (map f [0..<c]) = map f [0..<j]"
  proof -
    have "map f [0..<c] = map f [0..<j] @ map f [j..<c]"
      using j(1) upt_add_eq_append [of 0 j "c - j"] by simp
    moreover have "map f [j..<c] = f j # map f [Suc j..<c]" using j(1) by (simp add: upt_conv_Cons)
    ultimately show ?thesis using j(2,3) by (simp add: takeWhile_append)
  qed
  moreover have "0 \<in> set (map f [0..<c])" using j by force
  ultimately show ?thesis using Some by (simp add: copyinstr_page_eq)
qed

lemma copyinstr_spec:
  assumes "tables_ok s F 2 root"
  shows "copyinstr root va mx s = Ok (user_str (phys s) root va mx) s"
  using assms
proof (induction root va mx rule: copyinstr.induct)
  case (1 root va mx)
  let ?m = "phys s" and ?va0 = "PGROUNDDOWN va"
  let ?f = "\<lambda>i. ubyte ?m root (va + of_nat i)"
  let ?P = "\<lambda>i. readable ?m root (va + of_nat i) \<longrightarrow> ubyte ?m root (va + of_nat i) = 0"
  note wa = walkaddr_run [OF "1.prems", of ?va0]
  have rd: "readable ?m root ?va0 = readable ?m root va"
    by (rule readable_same_page) (simp add: PGROUNDDOWN_same)
  show ?case
  proof (cases "mx = 0 \<or> \<not> readable ?m root va")
    case True
    then have "find ?P [0..<mx] = (if mx = 0 then None else Some 0)" by (cases mx) (auto simp: upt_rec)
    then show ?thesis
      using True wa rd by (auto simp: copyinstr.simps [of root va mx] bnd_def Let_def user_str_def)
  next
    case False
    then have n: "0 < mx" and r: "readable ?m root va" by auto
    have va: "va < MAXVA" and pa: "PTE2PA (pte_in ?m 2 root ?va0) = PTE2PA (pte_in ?m 2 root va)"
      "PTE2PA (pte_in ?m 2 root va) \<noteq> 0"
      using r pte_in_same_page [of va ?va0] by (auto simp: readable_def PGROUNDDOWN_same Let_def)
    define c where "c = min (page_rest va) mx"
    have c: "c \<le> page_rest va" "c \<le> mx" "0 < c" using n page_rest_bounds [of va] by (auto simp: c_def)
    have nx: "?va0 + PGSIZE + of_nat i = va + of_nat (c + i)" if "c < mx" for i
      using that page_next [of va] by (simp add: c_def min_def split: if_splits)
    have rc: "readable ?m root (va + of_nat i)" if "i < c" for i
      using readable_same_page [OF page_chunk(1) [of i va]] c(1) r that by simp
    have fc: "find ?P [0..<c] = find (\<lambda>i. ?f i = 0) [0..<c]"
      using rc by (intro find_cong refl) auto
    have ih: "copyinstr root (?va0 + PGSIZE) (mx - c) s = Ok (user_str ?m root (?va0 + PGSIZE) (mx - c)) s"
      if "copyinstr_page (map ?f [0..<c]) = (map ?f [0..<c], False)"
      unfolding c_def
      by (rule "1.IH" [OF _ refl pa(2) refl that [symmetric, unfolded c_def] _ "1.prems"]) (use n in auto)
    have run: "copyinstr root va mx s =
      (case copyinstr_page (map ?f [0..<c]) of (ds, got) \<Rightarrow> if got then Ok (0, ds) s
       else bnd (copyinstr root (?va0 + PGSIZE) (mx - c)) (\<lambda>(r, rest). ret (r, ds @ rest)) s)"
      using n r rd wa pa load_chunk [OF c(1) va, of ?m root]
      by (simp add: copyinstr.simps [of root va mx] bnd_def Let_def c_def [symmetric] split: prod.splits)
    have sp: "find ?P [0..<mx] = (case find ?P [0..<c] of Some j \<Rightarrow> Some j
      | None \<Rightarrow> map_option (\<lambda>i. c + i) (find (\<lambda>i. ?P (c + i)) [0..<mx - c]))"
      using find_append [of ?P "[0..<c]" "[c..<mx]"] find_shift [of ?P c "mx - c"] c(2)
        upt_add_eq_append [of 0 c "mx - c"]
      by (simp split: option.splits)
    show ?thesis
    proof (cases "find ?P [0..<c]")
      case (Some j)
      then have "readable ?m root (va + of_nat j)" using rc by (auto simp: find_Some_iff)
      moreover have "find (\<lambda>i. ?f i = 0) [0..<c] = Some j" using Some fc by simp
      moreover have "find ?P [0..<mx] = Some j" using Some sp by simp
      ultimately show ?thesis by (simp add: run copyinstr_page_find user_str_def)
    next
      case None
      then have pg: "copyinstr_page (map ?f [0..<c]) = (map ?f [0..<c], False)"
        using fc unfolding copyinstr_page_find by simp
      have us: "(case user_str ?m root (?va0 + PGSIZE) (mx - c) of (r, rest) \<Rightarrow>
          (r, map ?f [0..<c] @ rest)) = user_str ?m root va mx"
      proof (cases "c < mx")
        case True
        have cm: "c + (mx - c) = mx" using True by simp
        note ma = map_upt_append [of ?f c]
        show ?thesis
          unfolding user_str_def [of _ _ "?va0 + PGSIZE"] nx [OF True]
          using None ma [of "mx - c", unfolded cm] ma
          by (simp add: user_str_def sp del: of_nat_add split: option.splits)
      qed (use c(2) None in \<open>simp add: user_str_def\<close>)
      show ?thesis
        using ih [OF pg] us by (simp add: run pg bnd_def split: prod.splits)
    qed
  qed
qed

section \<open>An address space with one page\<close>

text \<open>
  A root table, a table of each lower level and one user page, mapped at virtual page 1, with
  two more pages free. It is the input at which the theorems below are evaluated.
\<close>

definition vm_mem :: mem where
  "vm_mem =
     store64 (store64 (store64 (phys kmem_example)
       (0x80030000 + of_nat (8 * 0)) (PA2PTE 0x80031000 OR PTE_V))
       (0x80031000 + of_nat (8 * 0)) (PA2PTE 0x80032000 OR PTE_V))
       (0x80032000 + of_nat (8 * 1)) (PA2PTE 0x80033000 OR 23)"

definition vm_example :: kmem where
  "vm_example = kmem_example\<lparr>phys := vm_mem\<rparr>"

lemma load64_zero_mem: "load64 (\<lambda>_. 0) a = 0"
  by (simp add: load64_def load_bytes_def of_le_def numeral_eq_Suc)

lemma kmem_example_slot:
  assumes "aligned 4096 p" "i < 512" "p \<noteq> 0x80010000" "p \<noteq> 0x80020000"
  shows "slot (phys kmem_example) p i = 0"
  using slot_store_other [of "0x80020000" p 0 i "store64 (\<lambda>_. 0) 0x80010000 0" "0x80010000"]
    slot_store_other [of "0x80010000" p 0 i "\<lambda>_. 0" "0"] assms
  by (simp add: kmem_example_def slot_def load64_zero_mem aligned_def)

lemma vm_mem_slot:
  assumes "aligned 4096 p" "i < 512"
  shows "slot vm_mem p i =
    (if (p, i) = (0x80032000, 1) then PA2PTE 0x80033000 OR 23
     else if (p, i) = (0x80031000, 0) then PA2PTE 0x80032000 OR PTE_V
     else if (p, i) = (0x80030000, 0) then PA2PTE 0x80031000 OR PTE_V
     else slot (phys kmem_example) p i)"
proof -
  have a: "aligned 4096 (0x80030000 :: u64)" "aligned 4096 (0x80031000 :: u64)"
    "aligned 4096 (0x80032000 :: u64)" by (simp_all add: aligned_def)
  have st: "slot (store64 m (q + of_nat (8 * k)) v) p i = (if (p, i) = (q, k) then v else slot m p i)"
    if "aligned 4096 q" "k < 512" for m q k v
    using slot_store_same [of k m q v] slot_store_other [of q p k i m v] that assms by auto
  have k: "1 < (512 :: nat)" "0 < (512 :: nat)" by simp_all
  show ?thesis
    unfolding vm_mem_def st [OF a(3) k(1)] st [OF a(2) k(2)] st [OF a(1) k(2)] ..
qed

lemma vm_mem_slots:
  assumes "i < 512"
  shows "slot vm_mem 0x80030000 i = (if i = 0 then PA2PTE 0x80031000 OR PTE_V else 0)"
    "slot vm_mem 0x80031000 i = (if i = 0 then PA2PTE 0x80032000 OR PTE_V else 0)"
    "slot vm_mem 0x80032000 i = (if i = 1 then PA2PTE 0x80033000 OR 23 else 0)"
  using kmem_example_slot [of "0x80030000" i] kmem_example_slot [of "0x80031000" i]
    kmem_example_slot [of "0x80032000" i] assms
  by (simp_all add: vm_mem_slot aligned_def)

lemma vm_mem_ptes:
  "PTE2PA (PA2PTE 0x80031000 OR PTE_V) = 0x80031000" "PTE2PA (PA2PTE 0x80032000 OR PTE_V) = 0x80032000"
  "PTE2PA (PA2PTE 0x80033000 OR 23) = 0x80033000"
  by (simp_all add: PTE2PA_PA2PTE aligned_def PTE_V_def)

lemma single_child:
  assumes "\<And>i. i < 512 \<Longrightarrow> slot m p i = (if i = k then e else 0)" "k < 512" "pvalid e"
  shows "pset m (Suc l) p = insert p (pset m l (PTE2PA e))"
    "pwf m (Suc l) p \<longleftrightarrow> pwf m l (PTE2PA e) \<and> p \<notin> pset m l (PTE2PA e)"
    "leaf m (Suc l) p va = (if pxn (Suc l) va = k then leaf m l (PTE2PA e) va else None)"
proof -
  have v: "i < 512 \<and> pvalid (slot m p i) \<longleftrightarrow> i = k" for i
    using assms by (auto split: if_splits)
  have s: "slot m p k = e" using assms by simp
  show "pset m (Suc l) p = insert p (pset m l (PTE2PA e))" by (simp add: v s)
  show "pwf m (Suc l) p \<longleftrightarrow> pwf m l (PTE2PA e) \<and> p \<notin> pset m l (PTE2PA e)"
    using v s assms(2,3) unfolding pwf.simps by metis
  show "leaf m (Suc l) p va = (if pxn (Suc l) va = k then leaf m l (PTE2PA e) va else None)"
    using assms by (simp add: Let_def)
qed

lemma vm_mem_tables:
  "pset vm_mem 2 0x80030000 = {0x80030000, 0x80031000, 0x80032000}" "pwf vm_mem 2 0x80030000"
  "leaf vm_mem 2 0x80030000 va = (if pxn 2 va = 0 \<and> pxn 1 va = 0 then Some 0x80032000 else None)"
proof -
  have c1: "pvalid (PA2PTE 0x80031000 OR PTE_V)" "pvalid (PA2PTE 0x80032000 OR PTE_V)"
    by (rule pvalid_or)+
  note r = single_child [OF vm_mem_slots(1) _ c1(1), unfolded vm_mem_ptes]
    and two = numeral_2_eq_2
    and d = single_child [OF vm_mem_slots(2) _ c1(2), unfolded vm_mem_ptes]
  show "pset vm_mem 2 0x80030000 = {0x80030000, 0x80031000, 0x80032000}"
    unfolding two by (simp add: r d del: pset.simps(2))
  show "pwf vm_mem 2 0x80030000"
    unfolding two by (simp add: r d del: pset.simps(2) pwf.simps(2))
  show "leaf vm_mem 2 0x80030000 va =
      (if pxn 2 va = 0 \<and> pxn 1 va = 0 then Some 0x80032000 else None)"
    unfolding two by (simp add: r d del: leaf.simps(2))
qed

lemma vm_mem_pte:
  assumes "va < MAXVA"
  shows "pte_in vm_mem 2 0x80030000 va = (if unat va div 4096 = 1 then PA2PTE 0x80033000 OR 23 else 0)"
proof -
  have "unat va div 4096 = 1 \<longleftrightarrow> pxn 0 va = 1 \<and> pxn 1 va = 0 \<and> pxn 2 va = 0"
    using vpn_split [OF assms] by (cases "pxn 1 va"; cases "pxn 2 va"; simp)
  then show ?thesis using vm_mem_slots(3) [OF pxn_less, of 0 va] by (auto simp: pte_in_def vm_mem_tables)
qed

lemma vm_example_space: "space_ok vm_example {0x80010000, 0x80020000} 0x80030000"
proof -
  have "free_pages kmem_example {0x80010000, 0x80020000}"
    unfolding free_pages_def using kmem_example_list
    by (intro exI [of _ "[0x80020000, 0x80010000]"]) (auto simp: kmem_example_def)
  then have "free_pages vm_example {0x80010000, 0x80020000}"
    unfolding vm_example_def
    by (rule free_pages_cong) (auto simp: vm_mem_slot aligned_def)
  then have t: "tables_ok vm_example {0x80010000, 0x80020000} 2 0x80030000"
    by (auto simp: tables_ok_def vm_example_def vm_mem_tables kmem_example_def page_ok_def
        aligned_def PHYSTOP_def KERNBASE_def)
  have u: "unat va div 4096 = 1 \<and> upa vm_mem 0x80030000 va = 0x80033000"
    if "user_page vm_mem 0x80030000 va" for va
    using that vm_mem_ptes(3) by (auto simp: user_page_def vm_mem_pte split: if_splits)
  have e: "phys vm_example = vm_mem" "kend vm_example = 0x80008000"
    by (simp_all add: vm_example_def kmem_example_def)
  show ?thesis
    unfolding space_ok_def e using t u
    by (auto simp: vm_mem_tables page_ok_def aligned_def PHYSTOP_def KERNBASE_def)
qed

section \<open>Properties\<close>

text \<open>
  C6. \<open>mappages\<close> on a page-aligned range of unmapped addresses below \<open>MAXVA\<close> never panics.
  When it returns 0, the entries of exactly that range point to consecutive physical pages with
  the given permissions; when it returns -1, no free page is left and only a proper prefix of
  the range was mapped. All other entries are unchanged, the tables remain a tree of pages that
  are not free, and memory outside the tables and the pages taken from the free list is untouched.
\<close>

theorem mappages_maps:
  assumes "tables_ok s F 2 root" "va mod PGSIZE = 0" "sz mod PGSIZE = 0" "sz \<noteq> 0"
    "unat va + unat sz \<le> unat MAXVA"
    "\<forall>v < MAXVA. unat va \<le> unat v \<and> unat v < unat va + unat sz \<longrightarrow>
      \<not> pvalid (pte_in (phys s) 2 root v)"
  shows "\<exists>r t F' n. mappages root va sz pa perm s = Ok r t \<and>
    remapped s F root t F' (map_entries va n pa perm (pte_in (phys s) 2 root)) \<and>
    (r = 0 \<and> n = unat sz div 4096 \<or> r = -1 \<and> n < unat sz div 4096 \<and> F' = {})"
proof -
  obtain k where k: "unat sz = 4096 * k" using assms(3) aligned_mult by (auto simp: mod_PGSIZE)
  have "0 < unat sz" using assms(4) by (simp add: word_unat_eq_iff)
  then obtain n where n: "k = Suc n" using k by (cases k) auto
  have "va + sz - PGSIZE - va = sz - PGSIZE" by simp
  moreover have "unat (sz - PGSIZE) = 4096 * n"
    using k n by (subst unat_sub_le) (simp_all add: word_le_nat_alt)
  ultimately have m: "mappages root va sz pa perm s = mappages_loop n root va pa perm s"
    using assms(2-4) by (simp add: mappages_def Let_def)
  have al: "aligned 4096 va" using assms(2) by (simp add: mod_PGSIZE)
  show ?thesis
    using mappages_loop_ok [OF assms(1) al, of n pa perm] assms(5,6) k n unfolding m
    by (simp add: less_Suc_eq_le)
qed

theorem mappages_maps_witness:
  "\<exists>r t F' n. mappages 0x80030000 0x2000 0x1000 0x80034000 (PTE_R OR PTE_U) vm_example = Ok r t \<and>
    remapped vm_example {0x80010000, 0x80020000} 0x80030000 t F'
      (map_entries 0x2000 n 0x80034000 (PTE_R OR PTE_U) (pte_in (phys vm_example) 2 0x80030000)) \<and>
    (r = 0 \<and> n = 1 \<or> r = -1 \<and> n < 1 \<and> F' = {})"
proof -
  have t: "tables_ok vm_example {0x80010000, 0x80020000} 2 0x80030000"
    using vm_example_space by (simp add: space_ok_def)
  have h: "(0x2000 :: u64) mod PGSIZE = 0" "(0x1000 :: u64) mod PGSIZE = 0" "(0x1000 :: u64) \<noteq> 0"
    "unat (0x2000 :: u64) + unat (0x1000 :: u64) \<le> unat MAXVA"
    by (simp_all add: PGSIZE_def MAXVA_def)
  have nv: "\<forall>v < MAXVA. unat (0x2000 :: u64) \<le> unat v \<and>
      unat v < unat (0x2000 :: u64) + unat (0x1000 :: u64) \<longrightarrow>
      \<not> pvalid (pte_in (phys vm_example) 2 0x80030000 v)"
  proof (intro allI impI)
    fix v assume v: "v < MAXVA" "unat (0x2000 :: u64) \<le> unat v \<and>
      unat v < unat (0x2000 :: u64) + unat (0x1000 :: u64)"
    then have "8192 div 4096 \<le> unat v div 4096" by (intro div_le_mono) simp
    then show "\<not> pvalid (pte_in (phys vm_example) 2 0x80030000 v)"
      using v(1) by (simp add: vm_example_def vm_mem_pte)
  qed
  have "unat (0x1000 :: u64) div 4096 = 1" by simp
  with mappages_maps [OF t h nv] show ?thesis by metis
qed

text \<open>
  C4. \<open>copyout\<close> and \<open>copyin\<close> are inverse and respect the permissions. \<open>copyout\<close> returns 0
  exactly when every byte of the destination is writable by the user, otherwise -1, and copies
  the bytes up to the first page that is not. Seen through the page table, the copied bytes of
  the user change and no other byte of any user page does; the mapping and all memory outside the
  user's pages are unchanged. After a successful \<open>copyout\<close>, \<open>copyin\<close> of the same range returns
  the same bytes. Neither panics.
\<close>

theorem copyout_copyin:
  assumes "space_ok s F root"
  shows "\<exists>r m k. copyout root va src s = Ok r (s\<lparr>phys := m\<rparr>) \<and> space_ok (s\<lparr>phys := m\<rparr>) F root \<and>
    k \<le> length src \<and> r = (if k = length src then 0 else -1) \<and>
    (r = 0 \<longleftrightarrow> (\<forall>i < length src. writable (phys s) root (va + of_nat i))) \<and>
    (\<forall>v. pte_in m 2 root v = pte_in (phys s) 2 root v) \<and>
    (\<forall>v. user_page (phys s) root v \<longrightarrow> ubyte m root v =
      (if in_range v va k then src ! unat (v - va) else ubyte (phys s) root v)) \<and>
    (\<forall>x. (\<forall>v. user_page (phys s) root v \<longrightarrow> \<not> in_range x (upa (phys s) root v) 4096) \<longrightarrow>
      m x = phys s x) \<and>
    (r = 0 \<longrightarrow> copyin root va (length src) (s\<lparr>phys := m\<rparr>) = Ok (0, src) (s\<lparr>phys := m\<rparr>))"
proof -
  obtain k m where k: "k \<le> length src" "copyout root va src s =
      Ok (if k = length src then 0 else -1) (s\<lparr>phys := m\<rparr>)"
    and sp: "space_ok (s\<lparr>phys := m\<rparr>) F root" "\<forall>v. pte_in m 2 root v = pte_in (phys s) 2 root v"
    and w: "\<forall>i < k. writable (phys s) root (va + of_nat i)"
      "k < length src \<longrightarrow> \<not> writable (phys s) root (va + of_nat k)"
    and ub: "\<forall>v. user_page (phys s) root v \<longrightarrow> ubyte m root v =
      (if in_range v va k then src ! unat (v - va) else ubyte (phys s) root v)"
      "\<forall>x. (\<forall>v. user_page (phys s) root v \<longrightarrow> \<not> in_range x (upa (phys s) root v) 4096) \<longrightarrow>
      m x = phys s x"
    using copyout_spec [OF assms, of src va] by blast
  have r: "(if k = length src then 0 else -1 :: int) = 0 \<longleftrightarrow>
      (\<forall>i < length src. writable (phys s) root (va + of_nat i))"
  proof (cases "k = length src")
    case False
    then have "k < length src" using k(1) by simp
    then show ?thesis using w(2) False by auto
  qed (use w(1) in simp)
  have "copyin root va (length src) (s\<lparr>phys := m\<rparr>) = Ok (0, src) (s\<lparr>phys := m\<rparr>)"
    if kl: "k = length src"
  proof -
    have tk: "tables_ok (s\<lparr>phys := m\<rparr>) F 2 root" and ke: "0 < kend s"
      using sp(1) by (auto simp: space_ok_def tables_ok_def free_pages_def kmem_list_def)
    have up: "user_page (phys s) root (va + of_nat i)" if "i < length src" for i
      using w(1) that kl by (simp add: writable_def)
    have ok: "page_ok (kend s) (upa (phys s) root (va + of_nat i))" if "i < length src" for i
      using assms up [OF that] by (simp add: space_ok_def)
    have rd: "readable m root (va + of_nat i)" if "i < length src" for i
      using up [OF that] ok [OF that] ke sp(2) by (auto simp: readable_def user_page_def page_ok_def)
    have len: "length src < 2 ^ 64"
      using up by (intro below_MAXVA_length [of _ va]) (auto simp: user_page_def)
    have bt: "ubyte m root (va + of_nat i) = src ! i" if "i < length src" for i
      using ub(1) up [OF that] kl that len by (simp add: in_range_def unat_of_nat_u64)
    obtain j where j: "j \<le> length src" "copyin root va (length src) (s\<lparr>phys := m\<rparr>) =
        Ok (if j = length src then 0 else -1, map (\<lambda>i. ubyte m root (va + of_nat i)) [0..<j]) (s\<lparr>phys := m\<rparr>)"
      "j < length src \<longrightarrow> \<not> readable m root (va + of_nat j)"
      using copyin_spec [OF tk, of "length src" va] by auto
    have "j = length src" using j(1,3) rd le_neq_implies_less by blast
    moreover have "map (\<lambda>i. ubyte m root (va + of_nat i)) [0..<length src] = src"
      by (rule nth_equalityI) (simp_all add: bt)
    ultimately show ?thesis using j(2) by simp
  qed
  then have c: "(if k = length src then 0 else -1 :: int) = 0 \<longrightarrow>
      copyin root va (length src) (s\<lparr>phys := m\<rparr>) = Ok (0, src) (s\<lparr>phys := m\<rparr>)" by simp
  show ?thesis
    by (rule exI [of _ "if k = length src then 0 else -1"], rule exI [of _ m], rule exI [of _ k])
      (intro conjI k sp ub r c refl)
qed

theorem copyout_copyin_witness:
  "\<exists>m. copyout 0x80030000 0x1ffe [7, 8] vm_example = Ok 0 (vm_example\<lparr>phys := m\<rparr>) \<and>
    copyin 0x80030000 0x1ffe 2 (vm_example\<lparr>phys := m\<rparr>) = Ok (0, [7, 8]) (vm_example\<lparr>phys := m\<rparr>)"
proof -
  have "\<forall>i < length [7, 8 :: byte]. writable (phys vm_example) 0x80030000 (0x1ffe + of_nat i)"
  proof (intro allI impI)
    fix i assume "i < length [7, 8 :: byte]"
    then have "i = 0 \<or> i = 1" by auto
    then show "writable (phys vm_example) 0x80030000 (0x1ffe + of_nat i)"
    proof
    qed (simp_all add: writable_def user_page_def vm_example_def vm_mem_pte MAXVA_def PA2PTE_def
        PTE_V_def PTE_U_def PTE_W_def)
  qed
  with copyout_copyin [OF vm_example_space, of "0x1ffe" "[7, 8]"] show ?thesis
    unfolding list.size by (auto simp: eval_nat_numeral)
qed

text \<open>
  C20. \<open>copyinstr\<close> reads exactly the user's string: it returns 0 and the bytes up to and including
  the first NUL when that NUL is among the first \<open>mx\<close> bytes and everything before it is readable,
  and -1 otherwise. It never reads an address the user may not read, never writes more than \<open>mx\<close>
  bytes, and changes no memory.
\<close>

theorem copyinstr_reads:
  assumes "tables_ok s F 2 root"
  shows "copyinstr root va mx s = Ok (user_str (phys s) root va mx) s \<and>
    length (snd (user_str (phys s) root va mx)) \<le> mx \<and>
    (fst (user_str (phys s) root va mx) = 0 \<longleftrightarrow>
      (\<exists>j < mx. (\<forall>i \<le> j. readable (phys s) root (va + of_nat i)) \<and>
        ubyte (phys s) root (va + of_nat j) = 0))"
proof (intro conjI)
  let ?m = "phys s"
  let ?P = "\<lambda>i. readable ?m root (va + of_nat i) \<longrightarrow> ubyte ?m root (va + of_nat i) = 0"
  show "copyinstr root va mx s = Ok (user_str ?m root va mx) s" by (rule copyinstr_spec [OF assms])
  show "length (snd (user_str ?m root va mx)) \<le> mx"
    by (auto simp: user_str_def find_Some_iff split: option.splits)
  show "fst (user_str ?m root va mx) = 0 \<longleftrightarrow> (\<exists>j < mx. (\<forall>i \<le> j. readable ?m root (va + of_nat i)) \<and>
        ubyte ?m root (va + of_nat j) = 0)" (is "?l \<longleftrightarrow> ?r")
  proof (cases "find ?P [0..<mx]")
    case None
    then have "\<forall>j < mx. \<not> ?P j" by (simp add: find_None_iff)
    moreover have "\<not> ?l" unfolding user_str_def None by simp
    ultimately show ?thesis by blast
  next
    case (Some j)
    then have j: "j < mx" "?P j" "\<forall>i < j. \<not> ?P i" by (auto simp: find_Some_iff)
    have l: "?l \<longleftrightarrow> readable ?m root (va + of_nat j)" using Some by (simp add: user_str_def)
    show ?thesis
    proof
      assume ?l
      then show ?r using l j by (intro exI [of _ j]) (auto simp: le_less)
    next
      assume ?r
      then obtain k where k: "k < mx" "\<forall>i \<le> k. readable ?m root (va + of_nat i)" "?P k" by blast
      then have "j \<le> k" using j(3) by (meson not_le)
      then show ?l using k l by simp
    qed
  qed
qed

theorem copyinstr_reads_witness:
  "copyinstr 0x80030000 0x1000 8 vm_example = Ok (user_str vm_mem 0x80030000 0x1000 8) vm_example"
proof -
  have "tables_ok vm_example {0x80010000, 0x80020000} 2 0x80030000" "phys vm_example = vm_mem"
    using vm_example_space by (simp_all add: space_ok_def vm_example_def)
  then show ?thesis using copyinstr_reads by metis
qed

end
