(* ===== verification/Cstring.thy ===== *)
theory Cstring
  imports Memory
begin

text \<open>
  The string routines of kernel/string.c (\<open>strncmp\<close>, \<open>strncpy\<close>, \<open>safestrcpy\<close>,
  \<open>strlen\<close>) and of user/ulib.c (\<open>strcpy\<close>, \<open>strcmp\<close>, \<open>strchr\<close>, \<open>atoi\<close>).
  A \<open>char *\<close> that is only read is the function from offsets to bytes; an array that is
  written is the list of its bytes. Characters are unsigned, as on RISC-V.
\<close>

type_synonym cptr = "nat \<Rightarrow> byte"

text \<open>The bytes of a string in a buffer, up to its NUL; the pointer to a list of bytes.\<close>

definition cptr_of :: "byte list \<Rightarrow> cptr" where
  "cptr_of xs = (\<lambda>i. if i < length xs then xs ! i else 0)"

definition is_cstr :: "cptr \<Rightarrow> byte list \<Rightarrow> bool" where
  "is_cstr p xs \<longleftrightarrow> (\<forall>i < length xs. p i = xs ! i) \<and> p (length xs) = 0 \<and> 0 \<notin> set xs"

section \<open>kernel/string.c\<close>

text \<open>\<open>while(n > 0 && *p && *p == *q) n--, p++, q++\<close>; 0 when \<open>n\<close> ran out.\<close>

fun strncmp :: "cptr \<Rightarrow> cptr \<Rightarrow> nat \<Rightarrow> int" where
  "strncmp p q 0 = 0"
| "strncmp p q (Suc n) =
     (if p 0 \<noteq> 0 \<and> p 0 = q 0 then strncmp (\<lambda>i. p (Suc i)) (\<lambda>i. q (Suc i)) n
      else int (unat (p 0)) - int (unat (q 0)))"

text \<open>The \<open>n\<close> bytes \<open>strncpy(s, t, n)\<close> stores at \<open>s\<close>.\<close>

fun strncpy :: "cptr \<Rightarrow> nat \<Rightarrow> byte list" where
  "strncpy t 0 = []"
| "strncpy t (Suc n) =
     (if t 0 \<noteq> 0 then t 0 # strncpy (\<lambda>i. t (Suc i)) n else 0 # replicate n 0)"

text \<open>\<open>while(--n > 0 && (*s++ = *t++) != 0); *s = 0\<close>, with \<open>s\<close> at index \<open>i\<close>.\<close>

fun safestrcpy_loop :: "byte list \<Rightarrow> nat \<Rightarrow> cptr \<Rightarrow> nat \<Rightarrow> byte list" where
  "safestrcpy_loop s i t 0 = s"
| "safestrcpy_loop s i t (Suc n) =
     (if n > 0 then
        (if t 0 \<noteq> 0 then safestrcpy_loop (s[i := t 0]) (Suc i) (\<lambda>j. t (Suc j)) n
         else s[i := t 0, Suc i := 0])
      else s[i := 0])"

definition safestrcpy :: "byte list \<Rightarrow> cptr \<Rightarrow> int \<Rightarrow> byte list" where
  "safestrcpy s t n = (if n \<le> 0 then s else safestrcpy_loop s 0 t (nat n))"

text \<open>\<open>for(n = 0; s[n]; n++)\<close>: no result when there is no NUL.\<close>

partial_function (option) strlen_from :: "cptr \<Rightarrow> nat \<Rightarrow> nat option" where
  "strlen_from s n = (if s n \<noteq> 0 then strlen_from s (Suc n) else Some n)"

definition strlen :: "cptr \<Rightarrow> nat option" where
  "strlen s = strlen_from s 0"

section \<open>user/ulib.c\<close>

partial_function (option) strcmp :: "cptr \<Rightarrow> cptr \<Rightarrow> int option" where
  "strcmp p q =
     (if p 0 \<noteq> 0 \<and> p 0 = q 0 then strcmp (\<lambda>i. p (Suc i)) (\<lambda>i. q (Suc i))
      else Some (int (unat (p 0)) - int (unat (q 0))))"

text \<open>The bytes \<open>strcpy\<close> stores, the NUL included.\<close>

partial_function (option) strcpy_from :: "cptr \<Rightarrow> nat \<Rightarrow> byte list \<Rightarrow> byte list option" where
  "strcpy_from t n acc =
     (if t n \<noteq> 0 then strcpy_from t (Suc n) (acc @ [t n]) else Some (acc @ [0]))"

definition strcpy :: "cptr \<Rightarrow> byte list option" where
  "strcpy t = strcpy_from t 0 []"

text \<open>The offset \<open>strchr\<close> finds: \<open>Some (Some i)\<close>, or \<open>Some None\<close> for a null pointer.\<close>

partial_function (option) strchr_from :: "cptr \<Rightarrow> byte \<Rightarrow> nat \<Rightarrow> nat option option" where
  "strchr_from s c n =
     (if s n \<noteq> 0 then (if s n = c then Some (Some n) else strchr_from s c (Suc n))
      else Some None)"

definition strchr :: "cptr \<Rightarrow> byte \<Rightarrow> nat option option" where
  "strchr s c = strchr_from s c 0"

text \<open>
  \<open>atoi\<close> computes in \<open>int\<close>, from the left: \<open>n * 10 + *s - '0'\<close>. It has no result where the sum
  \<open>n * 10 + *s\<close> overflows, which C leaves undefined; \<open>n\<close> is never negative.
\<close>

partial_function (option) atoi_from :: "cptr \<Rightarrow> nat \<Rightarrow> int \<Rightarrow> int option" where
  "atoi_from s i n =
     (if 48 \<le> s i \<and> s i \<le> 57 then
        (if n * 10 + uint (s i) < 2 ^ 31 then atoi_from s (Suc i) (n * 10 + uint (s i) - 48) else None)
      else Some n)"

definition atoi :: "cptr \<Rightarrow> int option" where
  "atoi s = atoi_from s 0 0"

section \<open>Lemmas\<close>

lemma is_cstr_cptr_of: "0 \<notin> set xs \<Longrightarrow> is_cstr (cptr_of xs) xs"
  by (simp add: is_cstr_def cptr_of_def)

lemma is_cstr_unique:
  assumes "is_cstr p xs" "is_cstr p ys"
  shows "xs = ys"
proof -
  have "\<And>a b. is_cstr p a \<Longrightarrow> is_cstr p b \<Longrightarrow> length a \<le> length b"
    unfolding is_cstr_def by (metis linorder_not_le nth_mem)
  then have "length xs = length ys" using assms by (metis le_antisym)
  then show ?thesis using assms unfolding is_cstr_def by (metis nth_equalityI)
qed

lemma is_cstr_Cons:
  "is_cstr p (x # xs) \<longleftrightarrow> p 0 = x \<and> x \<noteq> 0 \<and> is_cstr (\<lambda>i. p (Suc i)) xs"
  by (auto simp: is_cstr_def all_less_Suc_split)

lemma is_cstr_Nil: "is_cstr p [] \<longleftrightarrow> p 0 = 0"
  by (simp add: is_cstr_def)

lemma strlen_from_eq:
  "(\<forall>i. n \<le> i \<and> i < n + k \<longrightarrow> s i \<noteq> 0) \<Longrightarrow> s (n + k) = 0 \<Longrightarrow> strlen_from s n = Some (n + k)"
proof (induction k arbitrary: n)
  case 0
  then show ?case by (simp add: strlen_from.simps)
next
  case (Suc k)
  then have "strlen_from s (Suc n) = Some (Suc n + k)" by (intro Suc.IH) auto
  moreover have "s n \<noteq> 0" using Suc.prems(1) by auto
  ultimately show ?case by (simp add: strlen_from.simps [of s n])
qed

lemma strlen_cstr: "is_cstr p xs \<Longrightarrow> strlen p = Some (length xs)"
  using strlen_from_eq [of 0 "length xs" p]
  by (auto simp: strlen_def is_cstr_def) (metis nth_mem)

lemma length_strncpy [simp]: "length (strncpy t n) = n"
  by (induction t n rule: strncpy.induct) auto

lemma strncpy_cstr:
  "is_cstr t xs \<Longrightarrow> strncpy t n = take n xs @ replicate (n - length xs) 0"
proof (induction t n arbitrary: xs rule: strncpy.induct)
  case (2 t n)
  show ?case
  proof (cases xs)
    case Nil
    then show ?thesis using 2 by (simp add: is_cstr_Nil)
  next
    case (Cons x ys)
    then have "t 0 = x" "x \<noteq> 0" "is_cstr (\<lambda>i. t (Suc i)) ys"
      using "2.prems" by (simp_all add: is_cstr_Cons)
    then show ?thesis using "2.IH" Cons by simp
  qed
qed simp

lemma strncmp_zero:
  assumes "is_cstr p xs" "is_cstr q ys"
  shows "strncmp p q n = 0 \<longleftrightarrow> take n xs = take n ys"
  using assms
proof (induction p q n arbitrary: xs ys rule: strncmp.induct)
  case (2 p q n)
  have u: "(uint (p 0) = uint (q 0)) = (p 0 = q 0)" by (metis word_uint_eqI)
  show ?case
  proof (cases "p 0 \<noteq> 0 \<and> p 0 = q 0")
    case True
    then obtain x xs' ys' where "xs = x # xs'" "ys = x # ys'"
      using "2.prems" by (cases xs; cases ys) (auto simp: is_cstr_Cons is_cstr_Nil)
    then show ?thesis using 2 True by (simp add: is_cstr_Cons)
  next
    case False
    then show ?thesis using "2.prems" u
      by (cases xs; cases ys) (auto simp: is_cstr_Cons is_cstr_Nil)
  qed
qed simp

lemma upd_split: "i < length s \<Longrightarrow> s[i := x] = take i s @ x # drop (Suc i) s"
  by (rule upd_conv_take_nth_drop)

lemma take_Suc_upd: "i < length s \<Longrightarrow> take (Suc i) (s[i := x]) = take i s @ [x]"
  by (simp add: upd_split)

lemma safestrcpy_loop_eq:
  assumes "is_cstr t xs" "0 < n" "i + n \<le> length s"
  shows "safestrcpy_loop s i t n =
    take i s @ (if length xs < n - 1 then xs @ 0 # 0 # drop (i + length xs + 2) s
                else take (n - 1) xs @ 0 # drop (i + n) s)"
  using assms
proof (induction s i t n arbitrary: xs rule: safestrcpy_loop.induct)
  case (2 s i t n)
  then have len: "i < length s" by simp
  consider (last) "n = 0" | (nul) "0 < n" "xs = []" | (more) x ys where "0 < n" "xs = x # ys"
    by (cases xs) auto
  then show ?case
  proof cases
    case last
    then show ?thesis using len by (simp add: upd_split)
  next
    case nul
    then have "s[i := 0, Suc i := 0] = take i s @ 0 # 0 # drop (i + 2) s"
      using "2.prems" by (simp add: upd_split [of "Suc i"] take_Suc_upd)
    then show ?thesis using nul "2.prems" by (simp add: is_cstr_Nil)
  next
    case more
    then have t: "t 0 = x" "x \<noteq> 0" "is_cstr (\<lambda>j. t (Suc j)) ys"
      using "2.prems" by (simp_all add: is_cstr_Cons)
    have "safestrcpy_loop (s[i := x]) (Suc i) (\<lambda>j. t (Suc j)) n = take (Suc i) (s[i := x]) @
        (if length ys < n - 1 then ys @ 0 # 0 # drop (Suc i + length ys + 2) (s[i := x])
         else take (n - 1) ys @ 0 # drop (Suc i + n) (s[i := x]))"
      using "2.IH" [of ys] more t "2.prems" by simp
    moreover have "take n (x # ys) = x # take (n - 1) ys" using more by (cases n) auto
    ultimately show ?thesis using more t len by (auto simp: take_Suc_upd)
  qed
qed simp

text \<open>
  C23. \<open>safestrcpy\<close> never writes outside the first \<open>n\<close> bytes of the destination, always leaves
  a NUL-terminated string there, and that string is the source cut to \<open>n - 1\<close> bytes.
\<close>

theorem safestrcpy_terminates:
  assumes "is_cstr t xs" "0 < n" "nat n \<le> length s"
  shows "is_cstr (cptr_of (safestrcpy s t n)) (take (nat n - 1) xs) \<and>
    length (safestrcpy s t n) = length s \<and> drop (nat n) (safestrcpy s t n) = drop (nat n) s"
proof -
  have eq: "safestrcpy s t n =
     (if length xs < nat n - 1 then xs @ 0 # 0 # drop (length xs + 2) s
      else take (nat n - 1) xs @ 0 # drop (nat n) s)"
    using safestrcpy_loop_eq [of t xs "nat n" 0 s] assms by (simp add: safestrcpy_def)
  have "0 \<notin> set xs" using assms(1) by (simp add: is_cstr_def)
  then have nz: "\<And>k. 0 \<notin> set (take k xs)" by (meson in_set_takeD)
  show ?thesis
  proof (cases "length xs < nat n - 1")
    case True
    then obtain j where "nat n = length xs + 2 + j" by (metis Suc_leI add_2_eq_Suc' diff_Suc_1 le_Suc_ex less_diff_conv add.commute plus_1_eq_Suc)
    then show ?thesis using True assms nz
      by (auto simp: eq is_cstr_def cptr_of_def nth_append add.commute)
  next
    case False
    then show ?thesis using assms nz by (auto simp: eq is_cstr_def cptr_of_def nth_append)
  qed
qed

theorem safestrcpy_terminates_witness:
  "is_cstr (cptr_of (safestrcpy [9, 9, 9, 9] (cptr_of [104, 105, 106, 107]) 3)) [104, 105]"
proof -
  have h: "is_cstr (cptr_of [104, 105, 106, 107]) [104, 105, 106, 107]"
    by (rule is_cstr_cptr_of) simp
  show ?thesis
    using safestrcpy_terminates [OF h, of 3 "[9, 9, 9, 9]"] by simp
qed

end
