(* ===== verification/Sched.thy ===== *)
theory Sched
  imports Vm Cstring
begin

text \<open>
  The process table and the part of kernel/proc.c that switches between processes: \<open>sched\<close>,
  \<open>yield\<close>, \<open>sleep\<close>, \<open>wakeup\<close>, \<open>kill\<close> and the scheduler. A computation is one kernel thread up
  to the point where it gives up the CPU; what it does when it runs again is a definition of its
  own (\<open>sleep_resume\<close>, \<open>yield_resume\<close>).
\<close>

section \<open>Data (kernel/proc.h)\<close>

datatype procstate = UNUSED | USED | SLEEPING | RUNNABLE | RUNNING | ZOMBIE

text \<open>The addresses the kernel sleeps on; \<open>NoChan\<close> is the null pointer.\<close>

datatype chan =
    NoChan | ProcChan nat | TicksChan | LogChan | SleepChan slid | PipeReadChan u64
  | PipeWriteChan u64 | ConsChan | UartChan | DiskFreeChan | DiskBufChan nat

record kcontext =
  ctx_ra :: u64
  ctx_sp :: u64
  ctx_s :: "u64 list"

record proc =
  p_state :: procstate
  p_chan :: chan
  p_killed :: bool
  p_xstate :: u32
  p_pid :: u32
  p_parent :: "nat option"
  p_kstack :: u64
  p_sz :: u64
  p_pagetable :: u64
  p_trapframe :: u64
  p_context :: kcontext
  p_ofile :: "nat option list"
  p_cwd :: "nat option"
  p_name :: "byte list"

text \<open>
  \<open>procs\<close> is the table \<open>proc[NPROC]\<close>, \<open>cur\<close> the process of this CPU (\<open>mycpu()->proc\<close>). Pointers
  to processes are indices into the table. \<open>kvar\<close> is the address of the buffer that the running
  thread has among its local variables on its kernel stack.
\<close>

record sched_st = vm +
  procs :: "proc list"
  cur :: "nat option"
  initproc :: "nat option"
  nextpid :: u32
  kvar :: u64

section \<open>Access\<close>

definition pget :: "nat \<Rightarrow> ('z sched_st_scheme, proc) kmon" where
  "pget i = gets (\<lambda>s. procs s ! i)"

definition pupd :: "nat \<Rightarrow> (proc \<Rightarrow> proc) \<Rightarrow> ('z sched_st_scheme, unit) kmon" where
  "pupd i f = modify (\<lambda>s. s\<lparr>procs := (procs s)[i := f (procs s ! i)]\<rparr>)"

text \<open>\<open>myproc()\<close> where the code uses the result as a pointer: there is a process.\<close>

definition myproc :: "('z sched_st_scheme, nat) kmon" where
  "myproc = bnd (gets cur) (\<lambda>c. case c of None \<Rightarrow> panic ''kerneltrap'' | Some p \<Rightarrow> ret p)"

definition proc_chan :: "nat option \<Rightarrow> chan" where
  "proc_chan p = (case p of None \<Rightarrow> NoChan | Some i \<Rightarrow> ProcChan i)"

section \<open>Operations (kernel/proc.c)\<close>

definition procinit :: "('z sched_st_scheme, unit) kmon" where
  "procinit =
     forM [0..<NPROC] (\<lambda>i. pupd i (\<lambda>p. p\<lparr>p_state := UNUSED, p_kstack := KSTACK i\<rparr>))"

definition allocpid :: "('z sched_st_scheme, u32) kmon" where
  "allocpid =
     bnd (acquire PidLock) (\<lambda>_.
     bnd (gets nextpid) (\<lambda>pid.
     bnd (modify (\<lambda>s. s\<lparr>nextpid := nextpid s + 1\<rparr>)) (\<lambda>_.
     bnd (release PidLock) (\<lambda>_.
     ret pid))))"

text \<open>
  \<open>sched\<close> up to \<open>swtch\<close>. \<open>noff\<close> is the number of locks held; with a lock held interrupts are
  off, so the test for \<open>sched interruptible\<close> cannot succeed after that for \<open>sched locks\<close>.
\<close>

definition sched :: "('z sched_st_scheme, unit) kmon" where
  "sched =
     bnd myproc (\<lambda>p.
     bnd (gets held) (\<lambda>h.
     bnd (panic_if (ProcLock p \<notin> set h) ''sched p->lock'') (\<lambda>_.
     bnd (panic_if (length h \<noteq> 1) ''sched locks'') (\<lambda>_.
     bnd (pget p) (\<lambda>pr.
     bnd (panic_if (p_state pr = RUNNING) ''sched running'') (\<lambda>_.
     swtch))))))"

definition yield :: "('z sched_st_scheme, unit) kmon" where
  "yield =
     bnd myproc (\<lambda>p.
     seqM [acquire (ProcLock p), pupd p (\<lambda>pr. pr\<lparr>p_state := RUNNABLE\<rparr>), sched])"

definition yield_resume :: "('z sched_st_scheme, unit) kmon" where
  "yield_resume = bnd myproc (\<lambda>p. release (ProcLock p))"

definition sleep :: "chan \<Rightarrow> lock \<Rightarrow> ('z sched_st_scheme, unit) kmon" where
  "sleep ch lk =
     bnd myproc (\<lambda>p.
     seqM
      [acquire (ProcLock p),
       release lk,
       pupd p (\<lambda>pr. pr\<lparr>p_chan := ch\<rparr>),
       pupd p (\<lambda>pr. pr\<lparr>p_state := SLEEPING\<rparr>),
       sched])"

definition sleep_resume :: "lock \<Rightarrow> ('z sched_st_scheme, unit) kmon" where
  "sleep_resume lk =
     bnd myproc (\<lambda>p.
     seqM
      [pupd p (\<lambda>pr. pr\<lparr>p_chan := NoChan\<rparr>),
       release (ProcLock p),
       acquire lk])"

definition wakeup :: "chan \<Rightarrow> ('z sched_st_scheme, unit) kmon" where
  "wakeup ch =
     bnd (gets cur) (\<lambda>me.
     forM [0..<NPROC] (\<lambda>i.
       if Some i = me then ret ()
       else seqM
        [acquire (ProcLock i),
         pupd i (\<lambda>p. if p_state p = SLEEPING \<and> p_chan p = ch then p\<lparr>p_state := RUNNABLE\<rparr> else p),
         release (ProcLock i)]))"

definition kill :: "u32 \<Rightarrow> ('z sched_st_scheme, int) kmon" where
  "kill pid =
     bnd (findM [0..<NPROC] (\<lambda>i.
       bnd (acquire (ProcLock i)) (\<lambda>_.
       bnd (pget i) (\<lambda>p.
       if p_pid p = pid then
         bnd (pupd i (\<lambda>p. p\<lparr>p_killed := True\<rparr>)) (\<lambda>_.
         bnd (whenM (p_state p = SLEEPING) (pupd i (\<lambda>p. p\<lparr>p_state := RUNNABLE\<rparr>))) (\<lambda>_.
         bnd (release (ProcLock i)) (\<lambda>_.
         ret (Some 0))))
       else bnd (release (ProcLock i)) (\<lambda>_. ret None))))) (\<lambda>r.
     case r of Some v \<Rightarrow> ret v | None \<Rightarrow> ret (-1))"

definition setkilled :: "nat \<Rightarrow> ('z sched_st_scheme, unit) kmon" where
  "setkilled p =
     seqM [acquire (ProcLock p), pupd p (\<lambda>pr. pr\<lparr>p_killed := True\<rparr>), release (ProcLock p)]"

definition killed :: "nat \<Rightarrow> ('z sched_st_scheme, bool) kmon" where
  "killed p =
     bnd (acquire (ProcLock p)) (\<lambda>_.
     bnd (pget p) (\<lambda>pr.
     bnd (release (ProcLock p)) (\<lambda>_.
     ret (p_killed pr))))"

text \<open>
  The scheduler's loop over the table from index \<open>i\<close>, up to its \<open>swtch\<close> to a runnable process
  or to the end of the table (\<open>wfi\<close>, then the loop starts again), and what it does when that
  process switches back.
\<close>

fun scheduler_scan :: "nat list \<Rightarrow> ('z sched_st_scheme, unit) kmon" where
  "scheduler_scan [] = ret ()"
| "scheduler_scan (i # is') =
     bnd (acquire (ProcLock i)) (\<lambda>_.
     bnd (pget i) (\<lambda>p.
     if p_state p = RUNNABLE then
       bnd (pupd i (\<lambda>p. p\<lparr>p_state := RUNNING\<rparr>)) (\<lambda>_.
       bnd (modify (\<lambda>s. s\<lparr>cur := Some i\<rparr>)) (\<lambda>_.
       swtch))
     else bnd (release (ProcLock i)) (\<lambda>_. scheduler_scan is')))"

definition scheduler :: "('z sched_st_scheme, unit) kmon" where
  "scheduler = bnd (modify (\<lambda>s. s\<lparr>cur := None\<rparr>)) (\<lambda>_. scheduler_scan [0..<NPROC])"

definition scheduler_resume :: "nat \<Rightarrow> ('z sched_st_scheme, unit) kmon" where
  "scheduler_resume i =
     bnd (modify (\<lambda>s. s\<lparr>cur := None\<rparr>)) (\<lambda>_.
     bnd (release (ProcLock i)) (\<lambda>_.
     scheduler_scan [Suc i..<NPROC]))"

text \<open>
  The turns of one CPU. \<open>dispatch m\<close> is the loop of \<open>scheduler\<close> from the point \<open>m\<close> on, over the end of the
  table to its start, until it switches to a process; a turn is that process and the state it gets.
  What the process does until it switches back is \<open>run\<close>, which depends on the turn.
\<close>

definition dispatch :: "('z sched_st_scheme, unit) kmon \<Rightarrow> 'z sched_st_scheme \<Rightarrow> (nat \<times> 'z sched_st_scheme) option" where
  "dispatch m s =
     (case bnd m (\<lambda>_. scheduler_scan [0..<NPROC]) s of
        Swtch u \<Rightarrow> map_option (\<lambda>i. (i, u)) (cur u)
      | _ \<Rightarrow> None)"

fun turn ::
  "(nat \<Rightarrow> nat \<Rightarrow> 'z sched_st_scheme \<Rightarrow> 'z sched_st_scheme) \<Rightarrow> ('z sched_st_scheme, unit) kmon \<Rightarrow>
   'z sched_st_scheme \<Rightarrow> nat \<Rightarrow> (nat \<times> 'z sched_st_scheme) option" where
  "turn run m s 0 = dispatch m s"
| "turn run m s (Suc n) =
     (case turn run m s n of
        None \<Rightarrow> None
      | Some (i, u) \<Rightarrow> dispatch (scheduler_resume i) (run n i u))"

definition either_copyout :: "bool \<Rightarrow> u64 \<Rightarrow> byte list \<Rightarrow> ('z sched_st_scheme, int) kmon" where
  "either_copyout user_dst dst src =
     bnd myproc (\<lambda>p.
     if user_dst then bnd (pget p) (\<lambda>pr. copyout (p_pagetable pr) dst src)
     else bnd (modify (\<lambda>s. s\<lparr>phys := store_bytes (phys s) dst src\<rparr>)) (\<lambda>_. ret 0))"

definition either_copyin :: "bool \<Rightarrow> u64 \<Rightarrow> nat \<Rightarrow> ('z sched_st_scheme, int \<times> byte list) kmon" where
  "either_copyin user_src src len =
     bnd myproc (\<lambda>p.
     if user_src then bnd (pget p) (\<lambda>pr. copyin (p_pagetable pr) src len)
     else gets (\<lambda>s. (0, load_bytes (phys s) src len)))"

section \<open>Effect of the operations\<close>

lemma bnd_case:
  "bnd m f s = (case m s of Ok a s' \<Rightarrow> f a s' | Panic e \<Rightarrow> Panic e | Swtch s' \<Rightarrow> Swtch s')"
  by (simp add: bnd_def)

definition wake_proc :: "chan \<Rightarrow> proc \<Rightarrow> proc" where
  "wake_proc ch p = (if p_state p = SLEEPING \<and> p_chan p = ch then p\<lparr>p_state := RUNNABLE\<rparr> else p)"

text \<open>What \<open>wakeup\<close> does to the process table.\<close>

definition wake_all :: "nat option \<Rightarrow> chan \<Rightarrow> proc list \<Rightarrow> proc list" where
  "wake_all me ch ps = map (\<lambda>i. if Some i = me then ps ! i else wake_proc ch (ps ! i)) [0..<length ps]"

lemma fold_update_upt:
  "n \<le> length ps \<Longrightarrow> fold (\<lambda>i ps. ps[i := g i (ps ! i)]) [0..<n] ps =
     map (\<lambda>i. if i < n then g i (ps ! i) else ps ! i) [0..<length ps]"
  by (induction n) (auto intro!: nth_equalityI simp: nth_list_update_if less_Suc_eq)

lemma wakeup_loop:
  assumes "\<forall>i \<in> set js. ProcLock i \<notin> set (held s)"
  shows "forM js (\<lambda>i. if Some i = me then ret ()
       else seqM
        [acquire (ProcLock i),
         pupd i (\<lambda>p. if p_state p = SLEEPING \<and> p_chan p = ch then p\<lparr>p_state := RUNNABLE\<rparr> else p),
         release (ProcLock i)]) s =
    Ok () (s\<lparr>procs := fold (\<lambda>i ps. ps[i := (if Some i = me then ps ! i else wake_proc ch (ps ! i))]) js (procs s)\<rparr>)"
  using assms
proof (induction js arbitrary: s)
  case (Cons j js)
  then show ?case
    by (simp add: bnd_def acquire_def release_def pupd_def wake_proc_def [symmetric])
qed simp

lemma wakeup_run:
  assumes "\<forall>i. ProcLock i \<notin> set (held s)" "length (procs s) = NPROC"
  shows "wakeup ch s = Ok () (s\<lparr>procs := wake_all (cur s) ch (procs s)\<rparr>)"
proof -
  have "wakeup ch s = Ok () (s\<lparr>procs := fold (\<lambda>i ps. ps[i := (if Some i = cur s then ps ! i else wake_proc ch (ps ! i))]) [0..<NPROC] (procs s)\<rparr>)"
    unfolding wakeup_def using wakeup_loop [of "[0..<NPROC]" s "cur s" ch] assms(1) by simp
  also have "fold (\<lambda>i ps. ps[i := (if Some i = cur s then ps ! i else wake_proc ch (ps ! i))]) [0..<NPROC] (procs s) =
      wake_all (cur s) ch (procs s)"
    using fold_update_upt [of NPROC "procs s" "\<lambda>i p. if Some i = cur s then p else wake_proc ch p"] assms(2)
    by (simp add: wake_all_def cong: if_cong)
  finally show ?thesis .
qed

lemma length_wake_all [simp]: "length (wake_all me ch ps) = length ps"
  by (simp add: wake_all_def)

lemma sleep_run:
  assumes "cur s = Some p" "held s = [lk]" "lk \<noteq> ProcLock p" "p < length (procs s)"
  shows "sleep ch lk s = Swtch (s\<lparr>held := [ProcLock p],
    procs := (procs s)[p := (procs s ! p)\<lparr>p_chan := ch, p_state := SLEEPING\<rparr>]\<rparr>)"
  using assms by (simp add: sleep_def myproc_def bnd_def acquire_def release_def pupd_def sched_def pget_def)


text \<open>Locking one process around a piece of work leaves the set of locks as it was.\<close>

lemma kill_loop:
  assumes "\<forall>i \<in> set js. ProcLock i \<notin> set (held s)" "\<forall>i \<in> set js. i < length (procs s)"
  shows "findM js (\<lambda>i.
       bnd (acquire (ProcLock i)) (\<lambda>_.
       bnd (pget i) (\<lambda>p.
       if p_pid p = pid then
         bnd (pupd i (\<lambda>p. p\<lparr>p_killed := True\<rparr>)) (\<lambda>_.
         bnd (whenM (p_state p = SLEEPING) (pupd i (\<lambda>p. p\<lparr>p_state := RUNNABLE\<rparr>))) (\<lambda>_.
         bnd (release (ProcLock i)) (\<lambda>_.
         ret (Some 0))))
       else bnd (release (ProcLock i)) (\<lambda>_. ret None)))) s =
    (case find (\<lambda>i. p_pid (procs s ! i) = pid) js of
       None \<Rightarrow> Ok None s
     | Some i \<Rightarrow> Ok (Some (0 :: int)) (s\<lparr>procs := (procs s)[i := (procs s ! i)\<lparr>p_killed := True,
         p_state := (if p_state (procs s ! i) = SLEEPING then RUNNABLE else p_state (procs s ! i))\<rparr>]\<rparr>))"
  using assms
proof (induction js)
  case (Cons j js)
  then show ?case
    by (cases "p_pid (procs s ! j) = pid"; cases "p_state (procs s ! j) = SLEEPING")
      (simp_all add: bnd_def acquire_def release_def pupd_def pget_def)
qed simp

lemma kill_run:
  assumes "\<forall>i. ProcLock i \<notin> set (held s)" "length (procs s) = NPROC"
  shows "kill pid s =
    (case first_idx (\<lambda>p. p_pid p = pid) (procs s) of
       None \<Rightarrow> Ok (-1) s
     | Some i \<Rightarrow> Ok 0 (s\<lparr>procs := (procs s)[i := (procs s ! i)\<lparr>p_killed := True,
         p_state := (if p_state (procs s ! i) = SLEEPING then RUNNABLE else p_state (procs s ! i))\<rparr>]\<rparr>))"
proof -
  have i: "\<forall>i \<in> set [0..<NPROC]. ProcLock i \<notin> set (held s)" "\<forall>i \<in> set [0..<NPROC]. i < length (procs s)"
    using assms by auto
  show ?thesis
    unfolding kill_def by (subst bnd_case, subst kill_loop [OF i])
      (use assms(2) in \<open>simp add: first_idx_def split: option.splits\<close>)
qed

lemma killed_run:
  assumes "ProcLock p \<notin> set (held s)"
  shows "killed p s = Ok (p_killed (procs s ! p)) s"
  using assms by (simp add: killed_def bnd_def acquire_def release_def pget_def)

lemma setkilled_run:
  assumes "ProcLock p \<notin> set (held s)"
  shows "setkilled p s = Ok () (s\<lparr>procs := (procs s)[p := (procs s ! p)\<lparr>p_killed := True\<rparr>]\<rparr>)"
  using assms by (simp add: setkilled_def bnd_def acquire_def release_def pupd_def)

lemma scheduler_scan_run:
  assumes "\<forall>i \<in> set js. ProcLock i \<notin> set (held s)" "\<forall>i \<in> set js. i < length (procs s)"
  shows "scheduler_scan js s =
    (case find (\<lambda>i. p_state (procs s ! i) = RUNNABLE) js of
       None \<Rightarrow> Ok () s
     | Some i \<Rightarrow> Swtch (s\<lparr>held := ProcLock i # held s, cur := Some i,
         procs := (procs s)[i := (procs s ! i)\<lparr>p_state := RUNNING\<rparr>]\<rparr>))"
  using assms
proof (induction js)
  case (Cons j js)
  then show ?case
    by (cases "p_state (procs s ! j) = RUNNABLE")
      (simp_all add: bnd_def acquire_def release_def pupd_def pget_def)
qed simp

section \<open>Turns of the scheduler\<close>

text \<open>How many entries of the table the scan at \<open>k\<close> has before it comes to \<open>p\<close>; a scan at the end starts again.\<close>

definition scan_dist :: "nat \<Rightarrow> nat \<Rightarrow> nat" where
  "scan_dist p k = (if k \<le> p then p - k else p + NPROC - k)"

lemma find_upt_Some:
  assumes "find P [a..<b] = Some i"
  shows "a \<le> i" "i < b" "P i" "a \<le> j \<Longrightarrow> j < i \<Longrightarrow> \<not> P j"
proof -
  obtain k where k: "k < b - a" "P (a + k)" "i = a + k" "\<forall>j < k. \<not> P (a + j)"
    using assms by (auto simp: find_Some_iff)
  then show "a \<le> i" "i < b" "P i" by auto
  assume "a \<le> j" "j < i"
  then show "\<not> P j" using k(4) [rule_format, of "j - a"] k(3) by simp
qed

definition run_proc :: "nat \<Rightarrow> 'z sched_st_scheme \<Rightarrow> 'z sched_st_scheme" where
  "run_proc i s = s\<lparr>held := [ProcLock i], cur := Some i, procs := (procs s)[i := (procs s ! i)\<lparr>p_state := RUNNING\<rparr>]\<rparr>"

lemma scan_turn:
  fixes s :: "'z sched_st_scheme"
  assumes "held s = []" "length (procs s) = NPROC" "p < NPROC" "p_state (procs s ! p) = RUNNABLE" "k \<le> NPROC"
  shows "\<exists>i < NPROC. dispatch (scheduler_scan [k..<NPROC]) s = Some (i, run_proc i s) \<and>
    (i \<noteq> p \<longrightarrow> scan_dist p (Suc i) < scan_dist p k)"
proof -
  let ?P = "\<lambda>i. p_state (procs s ! i) = RUNNABLE"
  have scan: "scheduler_scan [a..<NPROC] s =
      (case find ?P [a..<NPROC] of None \<Rightarrow> Ok () s | Some i \<Rightarrow> Swtch (run_proc i s))" for a
    using scheduler_scan_run [of "[a..<NPROC]" s] assms(1,2) by (simp add: run_proc_def split: option.splits)
  show ?thesis
  proof (cases "find ?P [k..<NPROC]")
    case (Some i)
    note i = find_upt_Some [OF this]
    have "\<not> (k \<le> p \<and> p < i)" using i(4) [of p] assms(4) by blast
    then have "i \<noteq> p \<Longrightarrow> scan_dist p (Suc i) < scan_dist p k"
      using i(1,2) assms(3) by (auto simp: scan_dist_def)
    then show ?thesis using Some i by (intro exI [of _ i]) (simp add: dispatch_def scan bnd_case run_proc_def)
  next
    case None
    then have k: "p < k" using assms(3,4) by (auto simp: find_None_iff)
    obtain i where i: "find ?P [0..<NPROC] = Some i"
      using assms(3,4) by (cases "find ?P [0..<NPROC]") (auto simp: find_None_iff)
    then have "\<not> p < i" "i < NPROC" using find_upt_Some(2,4) [OF i] assms(4) by blast+
    then show ?thesis
      using None i k assms(5) by (intro exI [of _ i]) (auto simp: dispatch_def scan bnd_case run_proc_def scan_dist_def)
  qed
qed

text \<open>What is assumed of a process that runs: it switches back as \<open>sched\<close> requires, and leaves \<open>p\<close> runnable.\<close>

definition waits :: "nat \<Rightarrow> nat \<Rightarrow> 'z sched_st_scheme \<Rightarrow> bool" where
  "waits p i s \<longleftrightarrow> held s = [ProcLock i] \<and> length (procs s) = NPROC \<and> p_state (procs s ! p) = RUNNABLE"

definition gives_back :: "nat \<Rightarrow> (nat \<Rightarrow> nat \<Rightarrow> 'z sched_st_scheme \<Rightarrow> 'z sched_st_scheme) \<Rightarrow> bool" where
  "gives_back p run \<longleftrightarrow>
     (\<forall>n i u. i < NPROC \<and> i \<noteq> p \<and> cur u = Some i \<and> waits p i u \<longrightarrow> waits p i (run n i u))"

lemma turn_shift: "turn run m s (Suc n) =
    (case turn run m s 0 of None \<Rightarrow> None | Some (i, u) \<Rightarrow> turn (\<lambda>n. run (Suc n)) (scheduler_resume i) (run 0 i u) n)"
  by (induction n) (auto split: option.splits prod.splits)

lemma resume_turn:
  fixes s :: "'z sched_st_scheme"
  assumes "waits p q s" "p < NPROC" "q < NPROC"
  shows "\<exists>i < NPROC. dispatch (scheduler_resume q) s = Some (i, run_proc i s) \<and>
    (i \<noteq> p \<longrightarrow> scan_dist p (Suc i) < scan_dist p (Suc q))"
proof -
  let ?s = "s\<lparr>cur := None, held := []\<rparr>"
  have "dispatch (scheduler_resume q) s = dispatch (scheduler_scan [Suc q..<NPROC]) ?s"
    using assms(1) by (simp add: dispatch_def scheduler_resume_def bnd_case release_def waits_def)
  moreover have "run_proc i ?s = run_proc i s" for i by (simp add: run_proc_def)
  ultimately show ?thesis using scan_turn [of ?s p "Suc q"] assms by (simp add: waits_def)
qed

lemma turns_reach:
  fixes s :: "'z sched_st_scheme"
  assumes "waits p q s" "p < NPROC" "q < NPROC" "gives_back p run"
  shows "\<exists>n \<le> scan_dist p (Suc q). \<exists>v. turn run (scheduler_resume q) s n = Some (p, v) \<and>
    cur v = Some p \<and> held v = [ProcLock p] \<and> length (procs v) = NPROC \<and> p_state (procs v ! p) = RUNNING \<and>
    (\<forall>k < n. \<exists>i w. turn run (scheduler_resume q) s k = Some (i, w) \<and> i \<noteq> p)"
  using assms
proof (induction "scan_dist p (Suc q)" arbitrary: q s run rule: less_induct)
  case less
  obtain i where i: "i < NPROC" "dispatch (scheduler_resume q) s = Some (i, run_proc i s)"
    "i \<noteq> p \<longrightarrow> scan_dist p (Suc i) < scan_dist p (Suc q)"
    using resume_turn [OF less.prems(1-3)] by blast
  show ?case
  proof (cases "i = p")
    case True
    then show ?thesis using i less.prems(1,2) by (intro exI [of _ 0]) (simp add: run_proc_def waits_def)
  next
    case False
    let ?v = "run 0 i (run_proc i s)"
    have "waits p i (run_proc i s)" "cur (run_proc i s) = Some i"
      using less.prems(1) False by (simp_all add: waits_def run_proc_def)
    then have w: "waits p i ?v" using less.prems(4) i(1) False by (simp add: gives_back_def)
    have "gives_back p (\<lambda>n. run (Suc n))" using less.prems(4) unfolding gives_back_def by blast
    from less.hyps [OF i(3) [rule_format, OF False] w less.prems(2) i(1) this] obtain n v where
      n: "n \<le> scan_dist p (Suc i)" "turn (\<lambda>n. run (Suc n)) (scheduler_resume i) ?v n = Some (p, v)"
      "cur v = Some p" "held v = [ProcLock p]" "length (procs v) = NPROC" "p_state (procs v ! p) = RUNNING"
      "\<forall>k < n. \<exists>j w. turn (\<lambda>n. run (Suc n)) (scheduler_resume i) ?v k = Some (j, w) \<and> j \<noteq> p"
      by blast
    have sh: "turn run (scheduler_resume q) s (Suc k) = turn (\<lambda>n. run (Suc n)) (scheduler_resume i) ?v k" for k
      unfolding turn_shift using i(2) by simp
    have "\<exists>j w. turn run (scheduler_resume q) s k = Some (j, w) \<and> j \<noteq> p" if "k < Suc n" for k
    proof (cases k)
      case 0
      then show ?thesis using i(2) False by simp
    next
      case (Suc k')
      then show ?thesis using n(7) that sh [of k'] by simp
    qed
    moreover have "Suc n \<le> scan_dist p (Suc q)" using n(1) i(3) False by simp
    ultimately show ?thesis using n(2-6) sh [of n] by (intro exI [of _ "Suc n"]) auto
  qed
qed

section \<open>A small process table\<close>

definition proc0 :: proc where
  "proc0 = \<lparr>p_state = UNUSED, p_chan = NoChan, p_killed = False, p_xstate = 0, p_pid = 0,
     p_parent = None, p_kstack = 0, p_sz = 0, p_pagetable = 0, p_trapframe = 0,
     p_context = \<lparr>ctx_ra = 0, ctx_sp = 0, ctx_s = []\<rparr>, p_ofile = replicate NOFILE None,
     p_cwd = None, p_name = replicate 16 0\<rparr>"

text \<open>Process 0 (pid 1) runs and holds the lock of the clock; process 1 (pid 2) sleeps on it.\<close>

definition sched_example :: sched_st where
  "sched_example =
     \<lparr>held = [TicksLock], phys = (\<lambda>_. 0), freelist = 0, kend = 0x80000000, kernel_pagetable = 0,
      etext = 0, trampoline = 0, satp = 0,
      procs = (replicate NPROC proc0)
        [0 := proc0\<lparr>p_state := RUNNING, p_pid := 1\<rparr>,
         1 := proc0\<lparr>p_state := SLEEPING, p_chan := TicksChan, p_pid := 2\<rparr>],
      cur = Some 0, initproc = None, nextpid = 3, kvar = 0\<rparr>"

lemma sched_example_simps [simp]:
  "held sched_example = [TicksLock]" "cur sched_example = Some 0"
  "length (procs sched_example) = NPROC"
  "procs sched_example ! 0 = proc0\<lparr>p_state := RUNNING, p_pid := 1\<rparr>"
  "procs sched_example ! Suc 0 = proc0\<lparr>p_state := SLEEPING, p_chan := TicksChan, p_pid := 2\<rparr>"
  by (simp_all add: sched_example_def NPROC_def)

section \<open>Properties\<close>

text \<open>
  C32. \<open>wakeup\<close> makes runnable exactly the processes that sleep on the channel, the calling process
  excepted, and changes nothing else; it needs no process lock to be held and returns with the
  same locks.
\<close>

theorem wakeup_wakes_exactly:
  assumes "\<forall>i. ProcLock i \<notin> set (held s)" "length (procs s) = NPROC"
  shows "\<exists>ps. wakeup ch s = Ok () (s\<lparr>procs := ps\<rparr>) \<and> length ps = NPROC \<and>
    (\<forall>i < NPROC. ps ! i =
      (if Some i \<noteq> cur s \<and> p_state (procs s ! i) = SLEEPING \<and> p_chan (procs s ! i) = ch
       then (procs s ! i)\<lparr>p_state := RUNNABLE\<rparr> else procs s ! i))"
  using wakeup_run [OF assms, of ch] assms(2) by (auto simp: wake_all_def wake_proc_def)

theorem wakeup_wakes_exactly_witness:
  "\<exists>ps. wakeup TicksChan sched_example = Ok () (sched_example\<lparr>procs := ps\<rparr>) \<and>
     p_state (ps ! 1) = RUNNABLE \<and> p_state (ps ! 0) = RUNNING"
proof -
  have "\<forall>i. ProcLock i \<notin> set (held sched_example)" "length (procs sched_example) = NPROC" by simp_all
  from wakeup_wakes_exactly [OF this, of TicksChan] obtain ps where
    "wakeup TicksChan sched_example = Ok () (sched_example\<lparr>procs := ps\<rparr>)"
    and ps: "\<forall>i < NPROC. ps ! i =
      (if Some i \<noteq> cur sched_example \<and> p_state (procs sched_example ! i) = SLEEPING \<and>
          p_chan (procs sched_example ! i) = TicksChan
       then (procs sched_example ! i)\<lparr>p_state := RUNNABLE\<rparr> else procs sched_example ! i)" by blast
  moreover have "p_state (ps ! 1) = RUNNABLE" "p_state (ps ! 0) = RUNNING"
    using ps [rule_format, of 0] ps [rule_format, of 1] by (simp_all add: NPROC_def)
  ultimately show ?thesis by blast
qed

text \<open>
  C10. A process that sleeps and is woken runs again. \<open>sleep\<close> leaves it sleeping on the channel with the
  caller's lock released and only its own process lock held. Whenever it sleeps there, a \<open>wakeup\<close> on the
  channel by another thread makes it runnable, whatever happened to the other processes in between.
  And whenever it is runnable when some process gives up the CPU, it is dispatched after fewer
  than \<open>NPROC\<close> turns of other processes, whatever those do, as long as they switch back with their lock as
  \<open>sched\<close> requires and leave it runnable; it then comes back from \<open>sleep\<close> with the caller's lock
  and no other. The turns are those of one CPU.
\<close>

theorem sleep_wakeup_resume:
  fixes s :: "'z sched_st_scheme" and run :: "nat \<Rightarrow> nat \<Rightarrow> 'z sched_st_scheme \<Rightarrow> 'z sched_st_scheme"
  assumes "cur s = Some p" "held s = [lk]" "\<forall>i. lk \<noteq> ProcLock i" "p < NPROC" "length (procs s) = NPROC"
    and "gives_back p run"
  shows "\<exists>s1. sleep ch lk s = Swtch s1 \<and> held s1 = [ProcLock p] \<and>
     p_state (procs s1 ! p) = SLEEPING \<and> p_chan (procs s1 ! p) = ch \<and>
     (\<forall>t :: 'z sched_st_scheme. p_state (procs t ! p) = SLEEPING \<and> p_chan (procs t ! p) = ch \<and> length (procs t) = NPROC \<and>
        cur t \<noteq> Some p \<and> (\<forall>i. ProcLock i \<notin> set (held t)) \<longrightarrow>
        (\<exists>t'. wakeup ch t = Ok () t' \<and> p_state (procs t' ! p) = RUNNABLE)) \<and>
     (\<forall>q u. q < NPROC \<and> held u = [ProcLock q] \<and> length (procs u) = NPROC \<and> p_state (procs u ! p) = RUNNABLE \<longrightarrow>
        (\<exists>n < NPROC. \<exists>v w. turn run (scheduler_resume q) u n = Some (p, v) \<and>
          (\<forall>k < n. \<exists>i x. turn run (scheduler_resume q) u k = Some (i, x) \<and> i \<noteq> p) \<and>
          sleep_resume lk v = Ok () w \<and> held w = [lk] \<and> p_state (procs w ! p) = RUNNING \<and>
          p_chan (procs w ! p) = NoChan))"
proof -
  let ?s1 = "s\<lparr>held := [ProcLock p],
    procs := (procs s)[p := (procs s ! p)\<lparr>p_chan := ch, p_state := SLEEPING\<rparr>]\<rparr>"
  have s1: "sleep ch lk s = Swtch ?s1" by (rule sleep_run) (use assms in auto)
  have wake: "\<exists>t'. wakeup ch t = Ok () t' \<and> p_state (procs t' ! p) = RUNNABLE"
    if "p_state (procs t ! p) = SLEEPING" "p_chan (procs t ! p) = ch" "length (procs t) = NPROC"
      "cur t \<noteq> Some p" "\<forall>i. ProcLock i \<notin> set (held t)" for t :: "'z sched_st_scheme"
    using wakeup_run [OF that(5,3), of ch] that assms(4) by (simp add: wake_all_def wake_proc_def)
  have run: "\<exists>n < NPROC. \<exists>v w. turn run (scheduler_resume q) u n = Some (p, v) \<and>
      (\<forall>k < n. \<exists>i x. turn run (scheduler_resume q) u k = Some (i, x) \<and> i \<noteq> p) \<and>
      sleep_resume lk v = Ok () w \<and> held w = [lk] \<and> p_state (procs w ! p) = RUNNING \<and> p_chan (procs w ! p) = NoChan"
    if q: "q < NPROC" and u: "held u = [ProcLock q]" "length (procs u) = NPROC" "p_state (procs u ! p) = RUNNABLE"
    for q and u :: "'z sched_st_scheme"
  proof -
    have "waits p q u" using u by (simp add: waits_def)
    from turns_reach [OF this assms(4) q assms(6)] obtain n v where
      n: "n \<le> scan_dist p (Suc q)" "turn run (scheduler_resume q) u n = Some (p, v)"
      "\<forall>k < n. \<exists>i x. turn run (scheduler_resume q) u k = Some (i, x) \<and> i \<noteq> p"
      and v: "cur v = Some p" "held v = [ProcLock p]" "length (procs v) = NPROC" "p_state (procs v ! p) = RUNNING" by blast
    let ?w = "v\<lparr>held := [lk], procs := (procs v)[p := (procs v ! p)\<lparr>p_chan := NoChan\<rparr>]\<rparr>"
    have "sleep_resume lk v = Ok () ?w"
      using v assms(3) by (simp add: sleep_resume_def myproc_def bnd_def acquire_def release_def pupd_def)
    moreover have "n < NPROC" using n(1) q assms(4) by (auto simp: scan_dist_def split: if_splits)
    ultimately show ?thesis using n v assms(4) by (intro exI [of _ n] conjI exI [of _ v] exI [of _ ?w]) simp_all
  qed
  show ?thesis using s1 wake run assms(4,5) by (intro exI [of _ ?s1]) simp
qed

text \<open>
  Process 1 (pid 2) sleeps on the clock; process 2 (pid 3) on another CPU wakes it and gives up its CPU. Process 0
  is runnable too and comes first. The processes that run yield.
\<close>

definition sleep_example :: sched_st where
  "sleep_example = sched_example\<lparr>cur := Some 1, procs := (replicate NPROC proc0)
     [0 := proc0\<lparr>p_state := RUNNABLE, p_pid := 1\<rparr>, 1 := proc0\<lparr>p_state := RUNNING, p_pid := 2\<rparr>,
      2 := proc0\<lparr>p_state := RUNNING, p_pid := 3\<rparr>]\<rparr>"

definition yields :: "nat \<Rightarrow> nat \<Rightarrow> sched_st \<Rightarrow> sched_st" where
  "yields n i u = (case bnd yield_resume (\<lambda>_. yield) u of Swtch v \<Rightarrow> v | _ \<Rightarrow> u)"

lemma yields_gives_back: "gives_back p yields"
  unfolding gives_back_def waits_def
  by (auto simp: yields_def yield_resume_def yield_def sched_def myproc_def bnd_def acquire_def release_def pupd_def pget_def)

theorem sleep_wakeup_resume_witness:
  "\<exists>s1 t' n v w. sleep TicksChan TicksLock sleep_example = Swtch s1 \<and> p_state (procs s1 ! 1) = SLEEPING \<and>
     wakeup TicksChan (s1\<lparr>cur := Some 2, held := []\<rparr>) = Ok () t' \<and> p_state (procs t' ! 1) = RUNNABLE \<and>
     turn yields (scheduler_resume 2) (t'\<lparr>held := [ProcLock 2]\<rparr>) n = Some (1, v) \<and> n < NPROC \<and>
     sleep_resume TicksLock v = Ok () w \<and> held w = [TicksLock]"
proof -
  have ex: "cur sleep_example = Some 1" "held sleep_example = [TicksLock]" "\<forall>i. TicksLock \<noteq> ProcLock i" "1 < NPROC"
    "length (procs sleep_example) = NPROC" by (simp_all add: sleep_example_def NPROC_def)
  from sleep_wakeup_resume [OF ex yields_gives_back, of TicksChan] obtain s1 where
    s1: "sleep TicksChan TicksLock sleep_example = Swtch s1" "p_state (procs s1 ! 1) = SLEEPING" "p_chan (procs s1 ! 1) = TicksChan"
    and wake: "\<forall>t :: sched_st. p_state (procs t ! 1) = SLEEPING \<and> p_chan (procs t ! 1) = TicksChan \<and> length (procs t) = NPROC \<and>
        cur t \<noteq> Some 1 \<and> (\<forall>i. ProcLock i \<notin> set (held t)) \<longrightarrow>
        (\<exists>t'. wakeup TicksChan t = Ok () t' \<and> p_state (procs t' ! 1) = RUNNABLE)"
    and run: "\<forall>q u. q < NPROC \<and> held u = [ProcLock q] \<and> length (procs u) = NPROC \<and> p_state (procs u ! 1) = RUNNABLE \<longrightarrow>
        (\<exists>n < NPROC. \<exists>v w. turn yields (scheduler_resume q) u n = Some (1, v) \<and>
          (\<forall>k < n. \<exists>i x. turn yields (scheduler_resume q) u k = Some (i, x) \<and> i \<noteq> 1) \<and>
          sleep_resume TicksLock v = Ok () w \<and> held w = [TicksLock] \<and> p_state (procs w ! 1) = RUNNING \<and>
          p_chan (procs w ! 1) = NoChan)"
    by (elim exE conjE) (rule that)
  have len: "length (procs s1) = NPROC" using s1(1) sleep_run [OF ex(1,2)] ex(3-5) by auto
  let ?t = "s1\<lparr>cur := Some 2, held := []\<rparr>"
  have t: "\<forall>i. ProcLock i \<notin> set (held ?t)" "length (procs ?t) = NPROC" using len by simp_all
  obtain t' where t': "wakeup TicksChan ?t = Ok () t'" "p_state (procs t' ! 1) = RUNNABLE"
    using wake [rule_format, of ?t] s1 len by auto
  have "length (procs t') = NPROC" using t'(1) wakeup_run [OF t, of TicksChan] len by auto
  then obtain n v w where "n < NPROC" "turn yields (scheduler_resume 2) (t'\<lparr>held := [ProcLock 2]\<rparr>) n = Some (1, v)"
    "sleep_resume TicksLock v = Ok () w" "held w = [TicksLock]"
    using run [rule_format, of 2 "t'\<lparr>held := [ProcLock 2]\<rparr>"] t'(2) by (auto simp: NPROC_def)
  then show ?thesis using s1 t' by blast
qed

text \<open>
  C33. \<open>kill\<close> marks the first process with the given pid as killed and, when it sleeps, makes it
  runnable so that it notices; it returns -1 and changes nothing when there is no such process.
\<close>

theorem kill_spec:
  assumes "\<forall>i. ProcLock i \<notin> set (held s)" "length (procs s) = NPROC"
  shows "(\<forall>i < NPROC. p_pid (procs s ! i) = pid \<and> (\<forall>j < i. p_pid (procs s ! j) \<noteq> pid) \<longrightarrow>
      kill pid s = Ok 0 (s\<lparr>procs := (procs s)[i := (procs s ! i)\<lparr>p_killed := True,
        p_state := (if p_state (procs s ! i) = SLEEPING then RUNNABLE else p_state (procs s ! i))\<rparr>]\<rparr>)) \<and>
    ((\<forall>i < NPROC. p_pid (procs s ! i) \<noteq> pid) \<longrightarrow> kill pid s = Ok (-1) s)"
proof (intro conjI allI impI)
  fix i assume "i < NPROC" "p_pid (procs s ! i) = pid \<and> (\<forall>j < i. p_pid (procs s ! j) \<noteq> pid)"
  then have "first_idx (\<lambda>p. p_pid p = pid) (procs s) = Some i"
    using assms(2) by (simp add: first_idx_Some)
  then show "kill pid s = Ok 0 (s\<lparr>procs := (procs s)[i := (procs s ! i)\<lparr>p_killed := True,
        p_state := (if p_state (procs s ! i) = SLEEPING then RUNNABLE else p_state (procs s ! i))\<rparr>]\<rparr>)"
    using kill_run [OF assms] by simp
next
  assume "\<forall>i < NPROC. p_pid (procs s ! i) \<noteq> pid"
  then have "first_idx (\<lambda>p. p_pid p = pid) (procs s) = None"
    using assms(2) by (auto simp: first_idx_None in_set_conv_nth)
  then show "kill pid s = Ok (-1) s" using kill_run [OF assms] by simp
qed


theorem kill_spec_witness:
  "kill 2 sched_example = Ok 0 (sched_example\<lparr>procs := (procs sched_example)
     [1 := (procs sched_example ! 1)\<lparr>p_killed := True, p_state := RUNNABLE\<rparr>]\<rparr>)"
proof -
  have "\<forall>i. ProcLock i \<notin> set (held sched_example)" "length (procs sched_example) = NPROC" by simp_all
  from kill_spec [OF this, of 2, THEN conjunct1, rule_format, of 1] show ?thesis
    by (simp add: NPROC_def proc0_def)
qed

end
