(* ===== verification/Sleeplock.thy ===== *)
theory Sleeplock
  imports Sched
begin

text \<open>
  Sleep locks, kernel/sleeplock.c. A process that finds the lock taken goes to sleep;
  \<open>acquiresleep_resume\<close> is what it does when it runs again, which may be to sleep once more.
\<close>

record sleeplock =
  sl_locked :: bool
  sl_pid :: u32

record sleep_st = sched_st +
  slocks :: "slid \<Rightarrow> sleeplock"

definition initsleeplock :: "slid \<Rightarrow> ('z sleep_st_scheme, unit) kmon" where
  "initsleeplock l = modify (\<lambda>s. s\<lparr>slocks := (slocks s)(l := \<lparr>sl_locked = False, sl_pid = 0\<rparr>)\<rparr>)"

text \<open>From the \<open>while\<close> on.\<close>

definition acquiresleep_loop :: "slid \<Rightarrow> ('z sleep_st_scheme, unit) kmon" where
  "acquiresleep_loop l =
     bnd (gets (\<lambda>s. sl_locked (slocks s l))) (\<lambda>locked.
     if locked then sleep (SleepChan l) (SleepLk l)
     else
       bnd myproc (\<lambda>p.
       bnd (pget p) (\<lambda>pr.
       bnd (modify (\<lambda>s. s\<lparr>slocks := (slocks s)(l := \<lparr>sl_locked = True, sl_pid = p_pid pr\<rparr>)\<rparr>)) (\<lambda>_.
       release (SleepLk l)))))"

definition acquiresleep :: "slid \<Rightarrow> ('z sleep_st_scheme, unit) kmon" where
  "acquiresleep l = bnd (acquire (SleepLk l)) (\<lambda>_. acquiresleep_loop l)"

definition acquiresleep_resume :: "slid \<Rightarrow> ('z sleep_st_scheme, unit) kmon" where
  "acquiresleep_resume l = bnd (sleep_resume (SleepLk l)) (\<lambda>_. acquiresleep_loop l)"

definition releasesleep :: "slid \<Rightarrow> ('z sleep_st_scheme, unit) kmon" where
  "releasesleep l =
     seqM
      [acquire (SleepLk l),
       modify (\<lambda>s. s\<lparr>slocks := (slocks s)(l := \<lparr>sl_locked = False, sl_pid = 0\<rparr>)\<rparr>),
       wakeup (SleepChan l),
       release (SleepLk l)]"

definition holdingsleep :: "slid \<Rightarrow> ('z sleep_st_scheme, bool) kmon" where
  "holdingsleep l =
     bnd (acquire (SleepLk l)) (\<lambda>_.
     bnd myproc (\<lambda>p.
     bnd (pget p) (\<lambda>pr.
     bnd (gets (\<lambda>s. sl_locked (slocks s l) \<and> sl_pid (slocks s l) = p_pid pr)) (\<lambda>r.
     bnd (release (SleepLk l)) (\<lambda>_.
     ret r)))))"

section \<open>Effect of the operations\<close>

lemma held_same: "held s = h \<Longrightarrow> s\<lparr>held := h\<rparr> = s"
  by (cases s) simp

lemma myproc_Ok: "myproc s = Ok p s' \<longleftrightarrow> cur s = Some p \<and> s' = s"
  by (auto simp: myproc_def split: option.splits)

lemma acquiresleep_run:
  assumes "SleepLk l \<notin> set (held s)" "cur s = Some p" "\<not> sl_locked (slocks s l)"
  shows "acquiresleep l s =
    Ok () (s\<lparr>slocks := (slocks s)(l := \<lparr>sl_locked = True, sl_pid = p_pid (procs s ! p)\<rparr>)\<rparr>)"
  using assms
  by (simp add: acquiresleep_def acquiresleep_loop_def bnd_def acquire_def release_def myproc_def pget_def)

lemma acquiresleep_sleeps:
  assumes "held s = []" "cur s = Some p" "sl_locked (slocks s l)" "p < length (procs s)"
  shows "acquiresleep l s = Swtch (s\<lparr>held := [ProcLock p],
    procs := (procs s)[p := (procs s ! p)\<lparr>p_chan := SleepChan l, p_state := SLEEPING\<rparr>]\<rparr>)"
  using assms sleep_run [of "s\<lparr>held := [SleepLk l]\<rparr>" p "SleepLk l" "SleepChan l"]
  by (simp add: acquiresleep_def acquiresleep_loop_def bnd_def acquire_def)

lemma releasesleep_run:
  assumes "SleepLk l \<notin> set (held s)" "\<forall>i. ProcLock i \<notin> set (held s)" "length (procs s) = NPROC"
  shows "releasesleep l s = Ok () (s\<lparr>slocks := (slocks s)(l := \<lparr>sl_locked = False, sl_pid = 0\<rparr>),
    procs := wake_all (cur s) (SleepChan l) (procs s)\<rparr>)"
proof -
  let ?t = "s\<lparr>held := SleepLk l # held s, slocks := (slocks s)(l := \<lparr>sl_locked = False, sl_pid = 0\<rparr>)\<rparr>"
  have "wakeup (SleepChan l) ?t = Ok () (?t\<lparr>procs := wake_all (cur ?t) (SleepChan l) (procs ?t)\<rparr>)"
    using assms by (intro wakeup_run) auto
  then show ?thesis using assms
    by (simp add: releasesleep_def bnd_def acquire_def release_def)
qed

lemma holdingsleep_run:
  assumes "SleepLk l \<notin> set (held s)" "cur s = Some p"
  shows "holdingsleep l s =
    Ok (sl_locked (slocks s l) \<and> sl_pid (slocks s l) = p_pid (procs s ! p)) s"
  using assms by (simp add: holdingsleep_def bnd_def acquire_def release_def myproc_def pget_def)

lemma sleep_not_Ok: "sleep ch lk s \<noteq> Ok () s'"
  by (auto simp: sleep_def sched_def bnd_eq_Ok panic_if_def split: if_splits)

lemma acquiresleep_resume_Ok:
  assumes "acquiresleep_resume l s = Ok () s'"
  shows "\<not> sl_locked (slocks s l)" "sl_locked (slocks s' l)"
  using assms
  by (auto simp: acquiresleep_resume_def acquiresleep_loop_def sleep_resume_def bnd_eq_Ok pupd_def
    myproc_Ok pget_def acquire_run release_run sleep_not_Ok split: if_splits)

lemma wake_all_same:
  "i < length ps \<Longrightarrow> p_pid (wake_all me ch ps ! i) = p_pid (ps ! i)"
  by (simp add: wake_all_def wake_proc_def)

section \<open>Properties\<close>

text \<open>
  C34. A sleep lock excludes: a process that calls \<open>acquiresleep\<close> while the lock is taken gives up
  the CPU, asleep on the lock; it gets the lock, with its own pid as the owner, only when it finds
  the lock free, also after it has been woken. \<open>releasesleep\<close> frees the lock and makes every
  process that sleeps on it runnable.
\<close>

theorem sleeplock_exclusion:
  assumes "held s = []" "cur s = Some p" "p < NPROC" "length (procs s) = NPROC"
  shows "(sl_locked (slocks s l) \<longrightarrow>
      (\<exists>s'. acquiresleep l s = Swtch s' \<and> slocks s' = slocks s \<and>
        p_state (procs s' ! p) = SLEEPING \<and> p_chan (procs s' ! p) = SleepChan l)) \<and>
    (\<not> sl_locked (slocks s l) \<longrightarrow>
      acquiresleep l s =
        Ok () (s\<lparr>slocks := (slocks s)(l := \<lparr>sl_locked = True, sl_pid = p_pid (procs s ! p)\<rparr>)\<rparr>)) \<and>
    (\<forall>t t'. acquiresleep_resume l t = Ok () t' \<longrightarrow> \<not> sl_locked (slocks t l) \<and> sl_locked (slocks t' l)) \<and>
    (\<exists>ps. releasesleep l s = Ok () (s\<lparr>slocks := (slocks s)(l := \<lparr>sl_locked = False, sl_pid = 0\<rparr>), procs := ps\<rparr>) \<and>
      (\<forall>i < NPROC. i \<noteq> p \<and> p_state (procs s ! i) = SLEEPING \<and> p_chan (procs s ! i) = SleepChan l \<longrightarrow>
        p_state (ps ! i) = RUNNABLE))"
proof (intro conjI impI allI)
  assume "sl_locked (slocks s l)"
  then show "\<exists>s'. acquiresleep l s = Swtch s' \<and> slocks s' = slocks s \<and>
        p_state (procs s' ! p) = SLEEPING \<and> p_chan (procs s' ! p) = SleepChan l"
    using acquiresleep_sleeps [of s p l] assms by simp
next
  assume "\<not> sl_locked (slocks s l)"
  then show "acquiresleep l s =
        Ok () (s\<lparr>slocks := (slocks s)(l := \<lparr>sl_locked = True, sl_pid = p_pid (procs s ! p)\<rparr>)\<rparr>)"
    using acquiresleep_run [of l s p] assms by simp
next
  fix t t' :: "'b sleep_st_scheme"
  assume "acquiresleep_resume l t = Ok () t'"
  then show "\<not> sl_locked (slocks t l)" by (rule acquiresleep_resume_Ok)
next
  fix t t' :: "'b sleep_st_scheme"
  assume "acquiresleep_resume l t = Ok () t'"
  then show "sl_locked (slocks t' l)" by (rule acquiresleep_resume_Ok)
next
  show "\<exists>ps. releasesleep l s = Ok () (s\<lparr>slocks := (slocks s)(l := \<lparr>sl_locked = False, sl_pid = 0\<rparr>), procs := ps\<rparr>) \<and>
      (\<forall>i < NPROC. i \<noteq> p \<and> p_state (procs s ! i) = SLEEPING \<and> p_chan (procs s ! i) = SleepChan l \<longrightarrow>
        p_state (ps ! i) = RUNNABLE)"
    using releasesleep_run [of l s] assms
    by (intro exI [of _ "wake_all (cur s) (SleepChan l) (procs s)"]) (auto simp: wake_all_def wake_proc_def)
qed


definition sleep_example :: sleep_st where
  "sleep_example = sched_st.extend (sched_example\<lparr>held := []\<rparr>)
     \<lparr>slocks = (\<lambda>_. \<lparr>sl_locked = False, sl_pid = 0\<rparr>)\<rparr>"

lemma sleep_example_simps [simp]:
  "held sleep_example = []" "cur sleep_example = Some 0" "procs sleep_example = procs sched_example"
  "slocks sleep_example = (\<lambda>_. \<lparr>sl_locked = False, sl_pid = 0\<rparr>)"
  by (simp_all add: sleep_example_def sched_st.defs sched_example_def)

theorem sleeplock_exclusion_witness:
  "acquiresleep (BufLock 3) sleep_example =
     Ok () (sleep_example\<lparr>slocks := (slocks sleep_example)(BufLock 3 := \<lparr>sl_locked = True, sl_pid = 1\<rparr>)\<rparr>)"
  using sleeplock_exclusion [of sleep_example 0 "BufLock 3", THEN conjunct2, THEN conjunct1]
  by (simp add: NPROC_def)

end
