(* ===== verification/Bio.thy ===== *)
theory Bio
  imports Sleeplock
begin

text \<open>
  The buffer cache, kernel/bio.c. Buffers are indices into the array; the doubly linked list
  that orders them by use is kept in their \<open>b_prev\<close> and \<open>b_next\<close> links, with index \<open>NBUF\<close>
  standing for the list head. The disk is a function from block numbers to blocks; \<open>dwrites\<close>
  records the blocks written to it, in order, which is what a crash can cut short. The operation
  \<open>disk_rw\<close> is the effect of \<open>virtio_disk_rw\<close> that the calling thread sees when the call returns.
\<close>

definition BSIZE :: nat where "BSIZE = 1024"

record buf =
  b_valid :: bool
  b_disk :: bool
  b_dev :: u32
  b_blockno :: u32
  b_refcnt :: u32
  b_prev :: nat
  b_next :: nat
  b_data :: "byte list"

record bio_st = sleep_st +
  bufs :: "buf list"
  disk :: "u32 \<Rightarrow> byte list"
  dwrites :: "(u32 \<times> byte list) list"

definition bget_buf :: "nat \<Rightarrow> ('z bio_st_scheme, buf) kmon" where
  "bget_buf b = gets (\<lambda>s. bufs s ! b)"

definition bupd :: "nat \<Rightarrow> (buf \<Rightarrow> buf) \<Rightarrow> ('z bio_st_scheme, unit) kmon" where
  "bupd b f = modify (\<lambda>s. s\<lparr>bufs := (bufs s)[b := f (bufs s ! b)]\<rparr>)"

abbreviation bhead :: nat where "bhead \<equiv> NBUF"

definition disk_rw :: "nat \<Rightarrow> bool \<Rightarrow> ('z bio_st_scheme, unit) kmon" where
  "disk_rw b write =
     (if write then
        modify (\<lambda>s. s\<lparr>disk := (disk s)(b_blockno (bufs s ! b) := b_data (bufs s ! b)),
          dwrites := dwrites s @ [(b_blockno (bufs s ! b), b_data (bufs s ! b))]\<rparr>)
      else modify (\<lambda>s. s\<lparr>bufs := (bufs s)[b := (bufs s ! b)\<lparr>b_data := disk s (b_blockno (bufs s ! b))\<rparr>]\<rparr>))"

text \<open>
  Inserting a buffer after the list head: the last four assignments of \<open>brelse\<close>, and those of
  the loop in \<open>binit\<close>.
\<close>

definition link_front :: "nat \<Rightarrow> ('z bio_st_scheme, unit) kmon" where
  "link_front b =
     seqM
      [bnd (bget_buf bhead) (\<lambda>h. bupd b (\<lambda>x. x\<lparr>b_next := b_next h\<rparr>)),
       bupd b (\<lambda>x. x\<lparr>b_prev := bhead\<rparr>),
       bnd (bget_buf bhead) (\<lambda>h. bupd (b_next h) (\<lambda>x. x\<lparr>b_prev := b\<rparr>)),
       bupd bhead (\<lambda>x. x\<lparr>b_next := b\<rparr>)]"

definition unlink :: "nat \<Rightarrow> ('z bio_st_scheme, unit) kmon" where
  "unlink b =
     seqM
      [bnd (bget_buf b) (\<lambda>x. bupd (b_next x) (\<lambda>n. n\<lparr>b_prev := b_prev x\<rparr>)),
       bnd (bget_buf b) (\<lambda>x. bupd (b_prev x) (\<lambda>p. p\<lparr>b_next := b_next x\<rparr>))]"

definition binit :: "('z bio_st_scheme, unit) kmon" where
  "binit =
     seqM
      [bupd bhead (\<lambda>h. h\<lparr>b_prev := bhead\<rparr>),
       bupd bhead (\<lambda>h. h\<lparr>b_next := bhead\<rparr>),
       forM [0..<NBUF] (\<lambda>b. seqM [initsleeplock (BufLock b), link_front b])]"

text \<open>
  The two loops of \<open>bget\<close>. The list has \<open>NBUF\<close> buffers, so that many rounds reach the head
  again; the bound is the first argument.
\<close>

fun scan_next :: "nat \<Rightarrow> (buf \<Rightarrow> bool) \<Rightarrow> buf list \<Rightarrow> nat \<Rightarrow> nat option" where
  "scan_next 0 P bs b = None"
| "scan_next (Suc n) P bs b =
     (if b = bhead then None else if P (bs ! b) then Some b else scan_next n P bs (b_next (bs ! b)))"

fun scan_prev :: "nat \<Rightarrow> (buf \<Rightarrow> bool) \<Rightarrow> buf list \<Rightarrow> nat \<Rightarrow> nat option" where
  "scan_prev 0 P bs b = None"
| "scan_prev (Suc n) P bs b =
     (if b = bhead then None else if P (bs ! b) then Some b else scan_prev n P bs (b_prev (bs ! b)))"

definition bget :: "u32 \<Rightarrow> u32 \<Rightarrow> ('z bio_st_scheme, nat) kmon" where
  "bget dev blockno =
     bnd (acquire BcacheLock) (\<lambda>_.
     bnd (gets bufs) (\<lambda>bs.
     case scan_next (NBUF + 1) (\<lambda>b. b_dev b = dev \<and> b_blockno b = blockno) bs (b_next (bs ! bhead)) of
       Some b \<Rightarrow>
         bnd (bupd b (\<lambda>x. x\<lparr>b_refcnt := b_refcnt x + 1\<rparr>)) (\<lambda>_.
         bnd (release BcacheLock) (\<lambda>_.
         bnd (acquiresleep (BufLock b)) (\<lambda>_.
         ret b)))
     | None \<Rightarrow>
         (case scan_prev (NBUF + 1) (\<lambda>b. b_refcnt b = 0) bs (b_prev (bs ! bhead)) of
            Some b \<Rightarrow>
              bnd (bupd b (\<lambda>x. x\<lparr>b_dev := dev, b_blockno := blockno, b_valid := False, b_refcnt := 1\<rparr>)) (\<lambda>_.
              bnd (release BcacheLock) (\<lambda>_.
              bnd (acquiresleep (BufLock b)) (\<lambda>_.
              ret b)))
          | None \<Rightarrow> panic ''bget: no buffers'')))"

definition bread :: "u32 \<Rightarrow> u32 \<Rightarrow> ('z bio_st_scheme, nat) kmon" where
  "bread dev blockno =
     bnd (bget dev blockno) (\<lambda>b.
     bnd (bget_buf b) (\<lambda>x.
     bnd (whenM (\<not> b_valid x)
       (seqM [disk_rw b False, bupd b (\<lambda>x. x\<lparr>b_valid := True\<rparr>)])) (\<lambda>_.
     ret b)))"

definition bwrite :: "nat \<Rightarrow> ('z bio_st_scheme, unit) kmon" where
  "bwrite b =
     bnd (holdingsleep (BufLock b)) (\<lambda>h.
     bnd (panic_if (\<not> h) ''bwrite'') (\<lambda>_.
     disk_rw b True))"

definition brelse :: "nat \<Rightarrow> ('z bio_st_scheme, unit) kmon" where
  "brelse b =
     bnd (holdingsleep (BufLock b)) (\<lambda>h.
     bnd (panic_if (\<not> h) ''brelse'') (\<lambda>_.
     bnd (releasesleep (BufLock b)) (\<lambda>_.
     bnd (acquire BcacheLock) (\<lambda>_.
     bnd (bupd b (\<lambda>x. x\<lparr>b_refcnt := b_refcnt x - 1\<rparr>)) (\<lambda>_.
     bnd (bget_buf b) (\<lambda>x.
     bnd (whenM (b_refcnt x = 0) (seqM [unlink b, link_front b])) (\<lambda>_.
     release BcacheLock)))))))"

definition bpin :: "nat \<Rightarrow> ('z bio_st_scheme, unit) kmon" where
  "bpin b = seqM [acquire BcacheLock, bupd b (\<lambda>x. x\<lparr>b_refcnt := b_refcnt x + 1\<rparr>), release BcacheLock]"

definition bunpin :: "nat \<Rightarrow> ('z bio_st_scheme, unit) kmon" where
  "bunpin b = seqM [acquire BcacheLock, bupd b (\<lambda>x. x\<lparr>b_refcnt := b_refcnt x - 1\<rparr>), release BcacheLock]"

section \<open>The list of buffers\<close>

text \<open>
  \<open>bpath f x L y\<close>: following \<open>f\<close> from \<open>x\<close> one comes through the elements of \<open>L\<close> in order and then to
  \<open>y\<close>. The buffers form a ring: the \<open>next\<close> links run from the head through \<open>L\<close> back to the head,
  the \<open>prev\<close> links through \<open>L\<close> backwards.
\<close>

fun bpath :: "(nat \<Rightarrow> nat) \<Rightarrow> nat \<Rightarrow> nat list \<Rightarrow> nat \<Rightarrow> bool" where
  "bpath f x [] y = (f x = y)"
| "bpath f x (z # zs) y = (f x = z \<and> bpath f z zs y)"

definition bnexts :: "buf list \<Rightarrow> nat \<Rightarrow> nat" where "bnexts bs i = b_next (bs ! i)"
definition bprevs :: "buf list \<Rightarrow> nat \<Rightarrow> nat" where "bprevs bs i = b_prev (bs ! i)"

definition bring :: "buf list \<Rightarrow> nat list \<Rightarrow> bool" where
  "bring bs L \<longleftrightarrow> length bs = NBUF + 1 \<and> distinct L \<and> set L \<subseteq> {..<NBUF} \<and>
     bpath (bnexts bs) bhead L bhead \<and> bpath (bprevs bs) bhead (rev L) bhead"

lemma bpath_append: "bpath f x (xs @ z # zs) y \<longleftrightarrow> bpath f x xs z \<and> bpath f z zs y"
  by (induction xs arbitrary: x) auto

lemma bpath_cong: "(\<And>i. i \<in> set (x # L) \<Longrightarrow> f i = g i) \<Longrightarrow> bpath f x L y = bpath g x L y"
  by (induction L arbitrary: x) auto

text \<open>Redirecting the last link of a path.\<close>

lemma bpath_redirect:
  "bpath f x xs y \<Longrightarrow> distinct (x # xs) \<Longrightarrow> bpath (f(last (x # xs) := z)) x xs z"
proof (induction xs arbitrary: x)
  case (Cons a xs)
  have "x \<noteq> last (a # xs)" using Cons.prems(2) last_in_set [of "a # xs"] by auto
  then show ?case using Cons by simp
qed simp

lemma bpath_first: "bpath f x L y \<Longrightarrow> f x = hd (L @ [y])"
  by (cases L) auto

lemma bpath_last: "bpath f x (xs @ b # ys) y \<Longrightarrow> f b = hd (ys @ [y])"
  using bpath_first by (auto simp: bpath_append)

lemma last_rev_hd: "last (x # rev L) = hd (L @ [x])"
  by (cases L) auto

lemma scan_next_bpath:
  assumes "bpath (bnexts bs) x L bhead" "bhead \<notin> set L" "length L < n"
  shows "scan_next n P bs (b_next (bs ! x)) = find (\<lambda>b. P (bs ! b)) L"
  using assms
proof (induction L arbitrary: x n)
  case Nil
  then show ?case by (cases n) (auto simp: bnexts_def)
next
  case (Cons a L)
  then show ?case by (cases n) (auto simp: bnexts_def)
qed

lemma scan_prev_bpath:
  assumes "bpath (bprevs bs) x L bhead" "bhead \<notin> set L" "length L < n"
  shows "scan_prev n P bs (b_prev (bs ! x)) = find (\<lambda>b. P (bs ! b)) L"
  using assms
proof (induction L arbitrary: x n)
  case Nil
  then show ?case by (cases n) (auto simp: bprevs_def)
next
  case (Cons a L)
  then show ?case by (cases n) (auto simp: bprevs_def)
qed

lemma bring_length: "bring bs L \<Longrightarrow> length L \<le> NBUF"
  using card_mono [of "{..<NBUF}" "set L"] by (simp add: bring_def distinct_card)

lemma bring_scan:
  assumes "bring bs L"
  shows "scan_next (NBUF + 1) P bs (b_next (bs ! bhead)) = find (\<lambda>b. P (bs ! b)) L"
    "scan_prev (NBUF + 1) P bs (b_prev (bs ! bhead)) = find (\<lambda>b. P (bs ! b)) (rev L)"
  using assms bring_length [OF assms]
  by (simp_all only: bring_def, auto intro!: scan_next_bpath scan_prev_bpath simp del: scan_next.simps scan_prev.simps)

text \<open>Changing anything but the links keeps the ring.\<close>

lemma bring_update:
  assumes "bring bs L" "b_next x = b_next (bs ! b)" "b_prev x = b_prev (bs ! b)"
  shows "bring (bs[b := x]) L"
proof -
  have "bnexts (bs[b := x]) = bnexts bs" "bprevs (bs[b := x]) = bprevs bs"
    using assms by (auto simp: bnexts_def bprevs_def nth_list_update_if fun_eq_iff)
  then show ?thesis using assms(1) by (simp add: bring_def)
qed

text \<open>The links after the assignments of \<open>unlink\<close> and \<open>link_front\<close>.\<close>

definition unlink_bufs :: "nat \<Rightarrow> buf list \<Rightarrow> buf list" where
  "unlink_bufs b bs =
     (let n = b_next (bs ! b); p = b_prev (bs ! b); bs1 = bs[n := (bs ! n)\<lparr>b_prev := p\<rparr>] in
      bs1[p := (bs1 ! p)\<lparr>b_next := n\<rparr>])"

definition link_front_bufs :: "nat \<Rightarrow> buf list \<Rightarrow> buf list" where
  "link_front_bufs b bs =
     (let f = b_next (bs ! bhead); bs1 = bs[b := (bs ! b)\<lparr>b_next := f, b_prev := bhead\<rparr>];
          bs2 = bs1[f := (bs1 ! f)\<lparr>b_prev := b\<rparr>] in
      bs2[bhead := (bs2 ! bhead)\<lparr>b_next := b\<rparr>])"

lemma bring_unlink:
  assumes r: "bring bs (xs @ b # ys)"
  shows "bring (unlink_bufs b bs) (xs @ ys)"
proof -
  let ?n = "hd (ys @ [bhead])" and ?p = "last (bhead # xs)"
  let ?bs = "unlink_bufs b bs"
  have len: "length bs = NBUF + 1" and d: "distinct (xs @ b # ys)" and sub: "set (xs @ b # ys) \<subseteq> {..<NBUF}"
    using r by (auto simp: bring_def)
  have nx: "bpath (bnexts bs) bhead xs b" "bpath (bnexts bs) b ys bhead"
    and pv: "bpath (bprevs bs) bhead (rev ys) b" "bpath (bprevs bs) b (rev xs) bhead"
    using r by (auto simp: bring_def bpath_append)
  have n: "b_next (bs ! b) = ?n" using bpath_first [OF nx(2)] by (simp add: bnexts_def)
  have p: "b_prev (bs ! b) = ?p" using bpath_first [OF pv(2)]
    by (simp add: bprevs_def last_rev_hd [symmetric])
  have lt: "?n < length bs" "?p < length bs"
    using len sub by (cases ys; simp) (cases xs rule: rev_cases; use len sub in auto)
  have nb: "?n \<noteq> b" "?p \<noteq> b"
    using d sub last_in_set [of xs] by (auto simp: hd_append split: list.splits if_splits)
  have bn: "bnexts ?bs = (bnexts bs)(?p := ?n)"
    using lt by (auto simp: unlink_bufs_def n p Let_def bnexts_def nth_list_update_if fun_eq_iff)
  have bp: "bprevs ?bs = (bprevs bs)(?n := ?p)"
    using lt by (auto simp: unlink_bufs_def n p Let_def bprevs_def nth_list_update_if fun_eq_iff)
  have dx: "distinct (bhead # xs)" "distinct (bhead # rev ys)" using d sub by auto
  have "bpath (bnexts ?bs) bhead xs ?n"
    unfolding bn by (rule bpath_redirect [OF nx(1) dx(1)])
  moreover have "bpath (bnexts ?bs) a ys' bhead" if "ys = a # ys'" for a ys'
  proof -
    have "bpath (bnexts bs) a ys' bhead" using nx(2) that by simp
    moreover have "?p \<notin> set (a # ys')" using d sub that by (cases xs rule: rev_cases) auto
    ultimately show ?thesis unfolding bn by (subst bpath_cong) auto
  qed
  ultimately have N: "bpath (bnexts ?bs) bhead (xs @ ys) bhead" by (cases ys) (auto simp: bpath_append)
  have "last (bhead # rev ys) = ?n" by (rule last_rev_hd)
  then have "bpath (bprevs ?bs) bhead (rev ys) ?p"
    unfolding bp using bpath_redirect [OF pv(1) dx(2), of ?p] by simp
  moreover have "bpath (bprevs ?bs) a xs' bhead" if "rev xs = a # xs'" for a xs'
  proof -
    have "bpath (bprevs bs) a xs' bhead" using pv(2) that by simp
    moreover have "?n \<notin> set (a # xs')"
      using d sub that [symmetric] by (auto simp: hd_append dest: arg_cong [where f = set] split: if_splits list.splits)
    ultimately show ?thesis unfolding bp by (subst bpath_cong) auto
  qed
  moreover have "?p = hd (rev xs @ [bhead])" by (metis last_rev_hd rev_rev_ident)
  ultimately have P: "bpath (bprevs ?bs) bhead (rev (xs @ ys)) bhead"
    by (cases "rev xs") (auto simp: bpath_append)
  show ?thesis using N P d sub len by (auto simp: bring_def unlink_bufs_def Let_def)
qed


lemma bring_link_front:
  assumes r: "bring bs L" and b: "b < NBUF" "b \<notin> set L"
  shows "bring (link_front_bufs b bs) (b # L)"
proof -
  let ?f = "hd (L @ [bhead])"
  let ?bs = "link_front_bufs b bs"
  have len: "length bs = NBUF + 1" and d: "distinct (b # L)" and sub: "set (b # L) \<subseteq> {..<NBUF}"
    and nx: "bpath (bnexts bs) bhead L bhead" and pv: "bpath (bprevs bs) bhead (rev L) bhead"
    using r b by (auto simp: bring_def)
  have f: "b_next (bs ! bhead) = ?f" using bpath_first [OF nx] by (simp add: bnexts_def)
  have lt: "?f < length bs" "b < length bs" "bhead < length bs"
    using len sub by (cases L; auto)+
  have fb: "?f \<noteq> b" "b \<noteq> bhead" using d sub by (auto simp: hd_append split: list.splits)
  have bn: "bnexts ?bs = (bnexts bs)(b := ?f, bhead := b)"
    using lt fb by (auto simp: link_front_bufs_def f Let_def bnexts_def nth_list_update_if fun_eq_iff)
  have bp: "bprevs ?bs = (bprevs bs)(b := bhead, ?f := b)"
    using lt fb by (auto simp: link_front_bufs_def f Let_def bprevs_def nth_list_update_if fun_eq_iff)
  have "bpath (bnexts ?bs) b L bhead"
  proof (cases L)
    case (Cons a L')
    have "bpath (bnexts bs) a L' bhead" using nx Cons by simp
    moreover have "b \<notin> set (a # L')" "bhead \<notin> set (a # L')" using d sub Cons by auto
    ultimately have "bpath (bnexts ?bs) a L' bhead" unfolding bn by (subst bpath_cong) auto
    then show ?thesis using Cons fb by (simp add: bn)
  qed (use fb in \<open>simp add: bn\<close>)
  then have N: "bpath (bnexts ?bs) bhead (b # L) bhead" by (simp add: bn)
  have "distinct (bhead # rev L)" using d sub by auto
  then have "bpath ((bprevs bs)(?f := b)) bhead (rev L) b"
    using bpath_redirect [OF pv, of b] unfolding last_rev_hd by simp
  moreover have "bpath (bprevs ?bs) bhead (rev L) b = bpath ((bprevs bs)(?f := b)) bhead (rev L) b"
    unfolding bp using d sub fb by (intro bpath_cong) auto
  moreover have "bprevs ?bs b = bhead" using fb by (simp add: bp)
  ultimately have P: "bpath (bprevs ?bs) bhead (rev (b # L)) bhead" by (simp add: bpath_append)
  show ?thesis using N P d sub len by (auto simp: bring_def link_front_bufs_def Let_def)
qed

text \<open>The operations on the list only change links.\<close>

definition same_bufs :: "buf list \<Rightarrow> buf list \<Rightarrow> bool" where
  "same_bufs bs bs' \<longleftrightarrow>
     map (\<lambda>b. b\<lparr>b_prev := 0, b_next := 0\<rparr>) bs' = map (\<lambda>b. b\<lparr>b_prev := 0, b_next := 0\<rparr>) bs"

lemma same_bufs_refl: "same_bufs bs bs"
  by (simp add: same_bufs_def)

lemma same_bufs_trans: "same_bufs a b \<Longrightarrow> same_bufs b c \<Longrightarrow> same_bufs a c"
  by (simp add: same_bufs_def)

lemma same_bufs_upd:
  "x\<lparr>b_prev := 0, b_next := 0\<rparr> = (bs ! i)\<lparr>b_prev := 0, b_next := 0\<rparr> \<Longrightarrow> same_bufs bs (bs[i := x])"
  by (auto simp: same_bufs_def map_update intro!: nth_equalityI simp: nth_list_update_if)

lemma same_bufs_unlink: "same_bufs bs (unlink_bufs b bs)"
  unfolding unlink_bufs_def Let_def by (rule same_bufs_trans; rule same_bufs_upd) simp_all

lemma same_bufs_link_front: "same_bufs bs (link_front_bufs b bs)"
  unfolding link_front_bufs_def Let_def
  by (rule same_bufs_trans [OF same_bufs_trans]; rule same_bufs_upd) simp_all

lemma same_bufs_D:
  assumes "same_bufs bs bs'" "i < length bs"
  shows "b_valid (bs' ! i) = b_valid (bs ! i)" "b_dev (bs' ! i) = b_dev (bs ! i)"
    "b_blockno (bs' ! i) = b_blockno (bs ! i)" "b_refcnt (bs' ! i) = b_refcnt (bs ! i)"
    "b_data (bs' ! i) = b_data (bs ! i)"
proof -
  have "length bs' = length bs" using assms(1) unfolding same_bufs_def by (metis length_map)
  then have e: "(bs' ! i)\<lparr>b_prev := 0, b_next := 0\<rparr> = (bs ! i)\<lparr>b_prev := 0, b_next := 0\<rparr>"
    using assms unfolding same_bufs_def by (metis nth_map)
  show "b_valid (bs' ! i) = b_valid (bs ! i)" "b_dev (bs' ! i) = b_dev (bs ! i)"
    "b_blockno (bs' ! i) = b_blockno (bs ! i)" "b_refcnt (bs' ! i) = b_refcnt (bs ! i)"
    "b_data (bs' ! i) = b_data (bs ! i)"
    using arg_cong [OF e, of b_valid] arg_cong [OF e, of b_dev] arg_cong [OF e, of b_blockno]
      arg_cong [OF e, of b_refcnt] arg_cong [OF e, of b_data] by simp_all
qed

lemma unlink_run: "unlink b s = Ok () (s\<lparr>bufs := unlink_bufs b (bufs s)\<rparr>)"
  if "b_next (bufs s ! b) \<noteq> b" for s :: "'z bio_st_scheme"
  using that by (simp add: unlink_def bnd_def bget_buf_def bupd_def unlink_bufs_def Let_def nth_list_update_if)

lemma link_front_run: "link_front b s = Ok () (s\<lparr>bufs := link_front_bufs b (bufs s)\<rparr>)"
  if "b \<noteq> bhead" "b < length (bufs s)" for s :: "'z bio_st_scheme"
  using that by (simp add: link_front_def bnd_def bget_buf_def bupd_def link_front_bufs_def Let_def nth_list_update_if)

section \<open>The cache as its users see it\<close>

text \<open>
  The content of a block: that of the valid buffer that holds it, or else what is on the disk.
  All buffers in use hold blocks of the one disk, device \<open>ROOTDEV\<close>.
\<close>

definition content_of :: "buf list \<Rightarrow> (u32 \<Rightarrow> byte list) \<Rightarrow> u32 \<Rightarrow> byte list" where
  "content_of bs D bn =
     (case find (\<lambda>b. b_valid (bs ! b) \<and> b_blockno (bs ! b) = bn) [0..<NBUF] of
        Some b \<Rightarrow> b_data (bs ! b) | None \<Rightarrow> D bn)"

abbreviation content :: "'z bio_st_scheme \<Rightarrow> u32 \<Rightarrow> byte list" where
  "content s \<equiv> content_of (bufs s) (disk s)"

definition holds_block :: "u32 \<Rightarrow> buf \<Rightarrow> bool" where
  "holds_block bn b = (b_dev b = ROOTDEV \<and> b_blockno b = bn)"

text \<open>
  The invariant of the cache, for a thread that has the buffers in \<open>H\<close> locked: the buffers form
  the ring, at most one of them holds a given block, exactly those in \<open>H\<close> are locked, they are in
  use, and no reference count is near its limit.
\<close>

definition bufs_ok :: "nat set \<Rightarrow> buf list \<Rightarrow> bool" where
  "bufs_ok H bs \<longleftrightarrow>
     (\<exists>L. bring bs L \<and> set L = {..<NBUF}) \<and> H \<subseteq> {..<NBUF} \<and>
     (\<forall>i j bn. i < NBUF \<and> j < NBUF \<and> holds_block bn (bs ! i) \<and> holds_block bn (bs ! j) \<longrightarrow> i = j) \<and>
     (\<forall>i < NBUF. b_valid (bs ! i) \<longrightarrow> b_dev (bs ! i) = ROOTDEV) \<and>
     (\<forall>i \<in> H. b_refcnt (bs ! i) \<noteq> 0) \<and>
     (\<forall>i < NBUF. unat (b_refcnt (bs ! i)) \<le> 65536 + (if i \<in> H then 1 else 0))"

definition thr_ok :: "'z sched_st_scheme \<Rightarrow> bool" where
  "thr_ok s \<longleftrightarrow> held s = [] \<and> length (procs s) = NPROC \<and> (\<exists>p < NPROC. cur s = Some p)"

definition my_pid :: "'z sched_st_scheme \<Rightarrow> u32" where
  "my_pid s = p_pid (procs s ! the (cur s))"

definition locks_ok :: "nat set \<Rightarrow> (slid \<Rightarrow> sleeplock) \<Rightarrow> u32 \<Rightarrow> bool" where
  "locks_ok H sl pid \<longleftrightarrow> (\<forall>b < NBUF. sl_locked (sl (BufLock b)) \<longleftrightarrow> b \<in> H) \<and>
     (\<forall>b \<in> H. sl_pid (sl (BufLock b)) = pid)"

definition bc :: "nat set \<Rightarrow> 'z bio_st_scheme \<Rightarrow> bool" where
  "bc H s \<longleftrightarrow> thr_ok s \<and> bufs_ok H (bufs s) \<and> locks_ok H (slocks s) (my_pid s)"

text \<open>A buffer that may be recycled has nothing that is not on the disk.\<close>

definition clean :: "buf list \<Rightarrow> (u32 \<Rightarrow> byte list) \<Rightarrow> bool" where
  "clean bs D \<longleftrightarrow> (\<forall>b < NBUF. b_valid (bs ! b) \<and> b_refcnt (bs ! b) = 0 \<longrightarrow>
     b_data (bs ! b) = D (b_blockno (bs ! b)))"

lemma bufs_ok_length: "bufs_ok H bs \<Longrightarrow> length bs = NBUF + 1"
  by (auto simp: bufs_ok_def bring_def)

lemma bufs_ok_unique:
  "bufs_ok H bs \<Longrightarrow> i < NBUF \<Longrightarrow> j < NBUF \<Longrightarrow> holds_block bn (bs ! i) \<Longrightarrow> holds_block bn (bs ! j) \<Longrightarrow> i = j"
  unfolding bufs_ok_def by blast

lemma valid_holds:
  "bufs_ok H bs \<Longrightarrow> i < NBUF \<Longrightarrow> b_valid (bs ! i) \<Longrightarrow> holds_block (b_blockno (bs ! i)) (bs ! i)"
  by (simp add: bufs_ok_def holds_block_def)

lemma content_of_valid:
  assumes "bufs_ok H bs" "b < NBUF" "b_valid (bs ! b)" "b_blockno (bs ! b) = bn"
  shows "content_of bs D bn = b_data (bs ! b)"
proof -
  obtain c where c: "find (\<lambda>b. b_valid (bs ! b) \<and> b_blockno (bs ! b) = bn) [0..<NBUF] = Some c"
    using assms(2-4) by (cases "find (\<lambda>b. b_valid (bs ! b) \<and> b_blockno (bs ! b) = bn) [0..<NBUF]")
      (auto simp: find_None_iff)
  then have "c < NBUF" "b_valid (bs ! c)" "b_blockno (bs ! c) = bn" by (auto simp: find_Some_iff)
  then have "c = b" using bufs_ok_unique [OF assms(1), of c b bn] valid_holds [OF assms(1)] assms(2-4) by metis
  then show ?thesis using c by (simp add: content_of_def)
qed

lemma content_of_none:
  "(\<forall>b < NBUF. b_valid (bs ! b) \<longrightarrow> b_blockno (bs ! b) \<noteq> bn) \<Longrightarrow> content_of bs D bn = D bn"
proof -
  assume "\<forall>b < NBUF. b_valid (bs ! b) \<longrightarrow> b_blockno (bs ! b) \<noteq> bn"
  then have "find (\<lambda>b. b_valid (bs ! b) \<and> b_blockno (bs ! b) = bn) [0..<NBUF] = None"
    by (auto simp: find_None_iff)
  then show ?thesis by (simp add: content_of_def)
qed

text \<open>Two states in which the same blocks are valid with the same data have the same content.\<close>

lemma content_of_eqI:
  assumes "bufs_ok H bs" "bufs_ok H' bs'"
    "\<And>b. b < NBUF \<Longrightarrow> b_valid (bs ! b) \<Longrightarrow> b_blockno (bs ! b) = bn \<Longrightarrow>
       (b_valid (bs' ! b) \<and> b_blockno (bs' ! b) = bn \<and> b_data (bs' ! b) = b_data (bs ! b)) \<or>
       (b_data (bs ! b) = D' bn \<and> (\<forall>c < NBUF. b_valid (bs' ! c) \<longrightarrow> b_blockno (bs' ! c) \<noteq> bn))"
    "\<And>b. b < NBUF \<Longrightarrow> b_valid (bs' ! b) \<Longrightarrow> b_blockno (bs' ! b) = bn \<Longrightarrow>
       (\<forall>c < NBUF. b_valid (bs ! c) \<longrightarrow> b_blockno (bs ! c) \<noteq> bn) \<Longrightarrow> b_data (bs' ! b) = D bn"
    "(\<forall>c < NBUF. b_valid (bs ! c) \<longrightarrow> b_blockno (bs ! c) \<noteq> bn) \<Longrightarrow>
       (\<forall>c < NBUF. b_valid (bs' ! c) \<longrightarrow> b_blockno (bs' ! c) \<noteq> bn) \<Longrightarrow> D' bn = D bn"
  shows "content_of bs' D' bn = content_of bs D bn"
proof (cases "\<exists>b < NBUF. b_valid (bs ! b) \<and> b_blockno (bs ! b) = bn")
  case True
  then obtain b where b: "b < NBUF" "b_valid (bs ! b)" "b_blockno (bs ! b) = bn" by blast
  from assms(3) [OF this] show ?thesis
    using content_of_valid [OF assms(1) b] content_of_valid [OF assms(2) b(1)] content_of_none by metis
next
  case False
  then have n: "\<forall>c < NBUF. b_valid (bs ! c) \<longrightarrow> b_blockno (bs ! c) \<noteq> bn" by blast
  show ?thesis
  proof (cases "\<exists>b < NBUF. b_valid (bs' ! b) \<and> b_blockno (bs' ! b) = bn")
    case True
    then obtain b where b: "b < NBUF" "b_valid (bs' ! b)" "b_blockno (bs' ! b) = bn" by blast
    then show ?thesis using assms(4) [OF b n] content_of_valid [OF assms(2) b] content_of_none [OF n] by simp
  next
    case f: False
    then have n': "\<forall>c < NBUF. b_valid (bs' ! c) \<longrightarrow> b_blockno (bs' ! c) \<noteq> bn" by blast
    then show ?thesis using assms(5) [OF n n'] content_of_none [OF n] content_of_none [OF n'] by simp
  qed
qed

section \<open>\<open>bget\<close> and \<open>bread\<close>\<close>

definition find_block :: "u32 \<Rightarrow> buf list \<Rightarrow> nat \<Rightarrow> bool" where
  "find_block bn bs b \<longleftrightarrow> b < NBUF \<and> holds_block bn (bs ! b)"

lemma find_in_perm:
  assumes "set L = {..<NBUF}"
  shows "find P L = None \<longleftrightarrow> (\<forall>b < NBUF. \<not> P b)" "find P L = Some b \<Longrightarrow> b < NBUF \<and> P b"
  using assms by (auto simp: find_None_iff find_Some_iff dest: nth_mem)

lemma bget_hit:
  assumes "bc H s" "b < NBUF" "holds_block bn (bufs s ! b)" "b \<notin> H"
  shows "bget ROOTDEV bn s = Ok b (s\<lparr>bufs := (bufs s)[b := (bufs s ! b)\<lparr>b_refcnt := b_refcnt (bufs s ! b) + 1\<rparr>],
    slocks := (slocks s)(BufLock b := \<lparr>sl_locked = True, sl_pid = my_pid s\<rparr>)\<rparr>)"
proof -
  obtain L where L: "bring (bufs s) L" "set L = {..<NBUF}" using assms(1) by (auto simp: bc_def bufs_ok_def)
  let ?P = "\<lambda>b. b_dev b = ROOTDEV \<and> b_blockno b = bn"
  have "find (\<lambda>b. ?P (bufs s ! b)) L = Some b"
  proof (cases "find (\<lambda>b. ?P (bufs s ! b)) L")
    case None
    then show ?thesis using find_in_perm(1) [OF L(2)] assms(2,3) by (auto simp: holds_block_def)
  next
    case (Some c)
    then have "c < NBUF" "holds_block bn (bufs s ! c)" using find_in_perm(2) [OF L(2)] by (auto simp: holds_block_def)
    then have "c = b" using assms bufs_ok_unique [of H "bufs s" c b bn] by (auto simp: bc_def)
    then show ?thesis using Some by simp
  qed
  then have scan: "scan_next (NBUF + 1) ?P (bufs s) (b_next (bufs s ! bhead)) = Some b"
    using bring_scan(1) [OF L(1), of ?P] by simp
  obtain p where p: "cur s = Some p" "held s = []" "\<not> sl_locked (slocks s (BufLock b))"
    using assms by (auto simp: bc_def thr_ok_def locks_ok_def)
  show ?thesis
    using p scan acquiresleep_run [of "BufLock b" "s\<lparr>bufs := (bufs s)[b := (bufs s ! b)\<lparr>b_refcnt := b_refcnt (bufs s ! b) + 1\<rparr>]\<rparr>" p]
    by (simp add: bget_def bnd_def acquire_def release_def bupd_def my_pid_def held_same del: scan_next.simps)
qed

lemma bget_miss:
  assumes "bc H s" "\<forall>b < NBUF. \<not> holds_block bn (bufs s ! b)" "\<exists>b < NBUF. b_refcnt (bufs s ! b) = 0"
  shows "\<exists>b < NBUF. b_refcnt (bufs s ! b) = 0 \<and> b \<notin> H \<and>
    bget ROOTDEV bn s = Ok b (s\<lparr>bufs := (bufs s)[b := (bufs s ! b)\<lparr>b_dev := ROOTDEV, b_blockno := bn,
      b_valid := False, b_refcnt := 1\<rparr>],
    slocks := (slocks s)(BufLock b := \<lparr>sl_locked = True, sl_pid = my_pid s\<rparr>)\<rparr>)"
proof -
  obtain L where L: "bring (bufs s) L" "set L = {..<NBUF}" using assms(1) by (auto simp: bc_def bufs_ok_def)
  let ?P = "\<lambda>b. b_dev b = ROOTDEV \<and> b_blockno b = bn"
  have "find (\<lambda>b. ?P (bufs s ! b)) L = None"
    using find_in_perm(1) [OF L(2)] assms(2) by (auto simp: holds_block_def)
  then have scan: "scan_next (NBUF + 1) ?P (bufs s) (b_next (bufs s ! bhead)) = None"
    using bring_scan(1) [OF L(1), of ?P] by simp
  have Lr: "set (rev L) = {..<NBUF}" using L by simp
  have "find (\<lambda>b. b_refcnt (bufs s ! b) = 0) (rev L) \<noteq> None"
    using find_in_perm(1) [OF Lr] assms(3) by auto
  then obtain b where f: "find (\<lambda>b. b_refcnt (bufs s ! b) = 0) (rev L) = Some b" by auto
  then have b: "b < NBUF" "b_refcnt (bufs s ! b) = 0" using find_in_perm(2) [OF Lr f] by simp_all
  have scan2: "scan_prev (NBUF + 1) (\<lambda>b. b_refcnt b = 0) (bufs s) (b_prev (bufs s ! bhead)) = Some b"
    using bring_scan(2) [OF L(1), of "\<lambda>b. b_refcnt b = 0"] f by simp
  have nH: "b \<notin> H" using assms(1) b by (auto simp: bc_def bufs_ok_def)
  obtain p where p: "cur s = Some p" "held s = []" "\<not> sl_locked (slocks s (BufLock b))"
    using assms(1) b nH by (auto simp: bc_def thr_ok_def locks_ok_def)
  have "bget ROOTDEV bn s = Ok b (s\<lparr>bufs := (bufs s)[b := (bufs s ! b)\<lparr>b_dev := ROOTDEV, b_blockno := bn,
      b_valid := False, b_refcnt := 1\<rparr>],
    slocks := (slocks s)(BufLock b := \<lparr>sl_locked = True, sl_pid = my_pid s\<rparr>)\<rparr>)"
    using p scan scan2 acquiresleep_run [of "BufLock b" "s\<lparr>bufs := (bufs s)[b := (bufs s ! b)\<lparr>b_dev := ROOTDEV, b_blockno := bn,
      b_valid := False, b_refcnt := 1\<rparr>]\<rparr>" p]
    by (simp add: bget_def bnd_def acquire_def release_def bupd_def my_pid_def held_same del: scan_next.simps scan_prev.simps)
  then show ?thesis using b nH by blast
qed


lemma bufs_ok_upd:
  assumes ok: "bufs_ok H bs" and b: "b < NBUF"
    and links: "b_next x = b_next (bs ! b)" "b_prev x = b_prev (bs ! b)"
    and uniq: "\<And>bn c. holds_block bn x \<Longrightarrow> c < NBUF \<Longrightarrow> c \<noteq> b \<Longrightarrow> \<not> holds_block bn (bs ! c)"
    and valid: "b_valid x \<Longrightarrow> b_dev x = ROOTDEV"
    and H': "H' - {b} = H - {b}" "b \<in> H' \<Longrightarrow> b_refcnt x \<noteq> 0"
    and lim: "unat (b_refcnt x) \<le> 65536 + (if b \<in> H' then 1 else 0)"
  shows "bufs_ok H' (bs[b := x])"
proof -
  have len: "length bs = NBUF + 1" by (rule bufs_ok_length [OF ok])
  obtain L where L: "bring bs L" "set L = {..<NBUF}" using ok by (auto simp: bufs_ok_def)
  have "bring (bs[b := x]) L" by (rule bring_update [OF L(1) links])
  moreover have inH: "i \<in> H' \<longleftrightarrow> i \<in> H" if "i \<noteq> b" for i using H'(1) that by blast
  moreover have "i = j" if "i < NBUF" "j < NBUF" "holds_block bn (bs[b := x] ! i)" "holds_block bn (bs[b := x] ! j)" for i j bn
    using that uniq bufs_ok_unique [OF ok, of i j bn] len b
    by (cases "i = b"; cases "j = b") (auto simp: nth_list_update_if)
  moreover have "H' \<subseteq> {..<NBUF}"
  proof
    fix i assume "i \<in> H'"
    then show "i \<in> {..<NBUF}" using ok b inH [of i] unfolding bufs_ok_def by (cases "i = b") auto
  qed
  moreover have "\<forall>i < NBUF. b_valid (bs[b := x] ! i) \<longrightarrow> b_dev (bs[b := x] ! i) = ROOTDEV"
    "\<forall>i \<in> H'. b_refcnt (bs[b := x] ! i) \<noteq> 0"
    "\<forall>i < NBUF. unat (b_refcnt (bs[b := x] ! i)) \<le> 65536 + (if i \<in> H' then 1 else 0)"
    using ok valid H'(2) lim inH b len unfolding bufs_ok_def nth_list_update_if
    by (auto split del: if_split) (auto split: if_splits)
  ultimately show ?thesis using L(2) unfolding bufs_ok_def by blast
qed

lemma bufs_ok_same:
  assumes "bufs_ok H bs" "same_bufs bs bs'" "\<exists>L. bring bs' L \<and> set L = {..<NBUF}"
  shows "bufs_ok H bs'"
proof -
  have D: "b_valid (bs' ! i) = b_valid (bs ! i)" "b_dev (bs' ! i) = b_dev (bs ! i)"
    "b_blockno (bs' ! i) = b_blockno (bs ! i)" "b_refcnt (bs' ! i) = b_refcnt (bs ! i)" if "i < NBUF" for i
    using same_bufs_D [OF assms(2), of i] bufs_ok_length [OF assms(1)] that by simp_all
  have H: "H \<subseteq> {..<NBUF}" using assms(1) by (simp add: bufs_ok_def)
  have "\<forall>i j bn. i < NBUF \<and> j < NBUF \<and> holds_block bn (bs' ! i) \<and> holds_block bn (bs' ! j) \<longrightarrow> i = j"
    using bufs_ok_unique [OF assms(1)] by (auto simp: holds_block_def D)
  moreover have "\<forall>i < NBUF. b_valid (bs' ! i) \<longrightarrow> b_dev (bs' ! i) = ROOTDEV"
    "\<forall>i \<in> H. b_refcnt (bs' ! i) \<noteq> 0"
    "\<forall>i < NBUF. unat (b_refcnt (bs' ! i)) \<le> 65536 + (if i \<in> H then 1 else 0)"
    using assms(1) H D unfolding bufs_ok_def by auto
  ultimately show ?thesis using assms(3) H unfolding bufs_ok_def by blast
qed

lemma locks_ok_acquire:
  "locks_ok H sl pid \<Longrightarrow> b < NBUF \<Longrightarrow> locks_ok (insert b H) (sl(BufLock b := \<lparr>sl_locked = True, sl_pid = pid\<rparr>)) pid"
  by (auto simp: locks_ok_def)

lemma locks_ok_release:
  "locks_ok H sl pid \<Longrightarrow> locks_ok (H - {b}) (sl(BufLock b := \<lparr>sl_locked = False, sl_pid = 0\<rparr>)) pid"
  by (auto simp: locks_ok_def)

text \<open>Whether \<open>bread\<close> finds a buffer: one has the block already, or one is not in use.\<close>

definition room :: "buf list \<Rightarrow> u32 \<Rightarrow> bool" where
  "room bs bn \<longleftrightarrow> (\<exists>b < NBUF. holds_block bn (bs ! b)) \<or> (\<exists>b < NBUF. b_refcnt (bs ! b) = 0)"

text \<open>
  \<open>bread\<close> returns a locked buffer with the content of the block; what it does to the cache shows
  in no other buffer and in the content of no block.
\<close>

lemma bread_spec:
  assumes bc: "bc H s" and cl: "clean (bufs s) (disk s)" and rm: "room (bufs s) bn"
    and free: "\<And>b. b \<in> H \<Longrightarrow> \<not> holds_block bn (bufs s ! b)"
  shows "\<exists>b bs sl. bread ROOTDEV bn s = Ok b (s\<lparr>bufs := bs, slocks := sl\<rparr>) \<and> b < NBUF \<and> b \<notin> H \<and>
    bc (insert b H) (s\<lparr>bufs := bs, slocks := sl\<rparr>) \<and> clean bs (disk s) \<and>
    b_valid (bs ! b) \<and> b_blockno (bs ! b) = bn \<and> b_data (bs ! b) = content s bn \<and>
    content_of bs (disk s) = content s \<and> (\<forall>c < NBUF. c \<noteq> b \<longrightarrow> bs ! c = bufs s ! c) \<and>
    b_refcnt (bs ! b) = (if holds_block bn (bufs s ! b) then b_refcnt (bufs s ! b) + 1 else 1) \<and>
    (\<not> holds_block bn (bufs s ! b) \<longrightarrow> b_refcnt (bufs s ! b) = 0)"
proof -
  have ok: "bufs_ok H (bufs s)" and lk: "locks_ok H (slocks s) (my_pid s)" and thr: "thr_ok s"
    using bc by (auto simp: bc_def)
  have len: "length (bufs s) = NBUF + 1" by (rule bufs_ok_length [OF ok])
  define fin where "fin x = (if b_valid x then x else x\<lparr>b_data := disk s bn, b_valid := True\<rparr>)" for x :: buf
  have step: "\<exists>b x. b < NBUF \<and> b \<notin> H \<and>
      bget ROOTDEV bn s = Ok b (s\<lparr>bufs := (bufs s)[b := x],
        slocks := (slocks s)(BufLock b := \<lparr>sl_locked = True, sl_pid = my_pid s\<rparr>)\<rparr>) \<and>
      b_next x = b_next (bufs s ! b) \<and> b_prev x = b_prev (bufs s ! b) \<and> holds_block bn x \<and>
      (\<forall>c < NBUF. c \<noteq> b \<longrightarrow> \<not> holds_block bn (bufs s ! c)) \<and> b_refcnt x \<noteq> 0 \<and>
      unat (b_refcnt x) \<le> 65537 \<and>
      b_refcnt x = (if holds_block bn (bufs s ! b) then b_refcnt (bufs s ! b) + 1 else 1) \<and>
      (\<not> holds_block bn (bufs s ! b) \<longrightarrow> b_refcnt (bufs s ! b) = 0) \<and>
      (if holds_block bn (bufs s ! b) then b_valid x = b_valid (bufs s ! b) \<and> b_data x = b_data (bufs s ! b)
       else \<not> b_valid x)"
  proof (cases "\<exists>b < NBUF. holds_block bn (bufs s ! b)")
    case True
    then obtain b where b: "b < NBUF" "holds_block bn (bufs s ! b)" by blast
    have nH: "b \<notin> H" using free b by blast
    have "unat (b_refcnt (bufs s ! b)) \<le> 65536" using ok b nH by (auto simp: bufs_ok_def)
    then have u: "unat (b_refcnt (bufs s ! b) + 1) = unat (b_refcnt (bufs s ! b)) + 1"
      using unat_add_small [of "b_refcnt (bufs s ! b)" 1] by simp
    let ?x = "(bufs s ! b)\<lparr>b_refcnt := b_refcnt (bufs s ! b) + 1\<rparr>"
    have o: "\<forall>c < NBUF. c \<noteq> b \<longrightarrow> \<not> holds_block bn (bufs s ! c)"
      using bufs_ok_unique [OF ok _ b(1) _ b(2)] by blast
    have nz: "b_refcnt (bufs s ! b) + 1 \<noteq> 0" using u by (metis add_is_0 one_neq_zero unat_0)
    have "holds_block bn ?x" using b(2) by (simp add: holds_block_def)
    then show ?thesis
      by (intro exI [of _ b] exI [of _ ?x] conjI)
        (use b nH u o nz \<open>unat (b_refcnt (bufs s ! b)) \<le> 65536\<close> bget_hit [OF bc b nH] in simp_all)
  next
    case False
    then have none: "\<forall>b < NBUF. \<not> holds_block bn (bufs s ! b)" by blast
    then have "\<exists>b < NBUF. b_refcnt (bufs s ! b) = 0" using rm by (auto simp: room_def)
    from bget_miss [OF bc none this] obtain b where b: "b < NBUF" "b_refcnt (bufs s ! b) = 0" "b \<notin> H"
      and run: "bget ROOTDEV bn s = Ok b (s\<lparr>bufs := (bufs s)[b := (bufs s ! b)\<lparr>b_dev := ROOTDEV, b_blockno := bn,
        b_valid := False, b_refcnt := 1\<rparr>],
      slocks := (slocks s)(BufLock b := \<lparr>sl_locked = True, sl_pid = my_pid s\<rparr>)\<rparr>)" by blast
    show ?thesis
      using b none run
      by (intro exI [of _ b] exI [of _ "(bufs s ! b)\<lparr>b_dev := ROOTDEV, b_blockno := bn,
        b_valid := False, b_refcnt := 1\<rparr>"]) (auto simp: holds_block_def)
  qed
  then obtain b x where b: "b < NBUF" "b \<notin> H" and run: "bget ROOTDEV bn s = Ok b (s\<lparr>bufs := (bufs s)[b := x],
        slocks := (slocks s)(BufLock b := \<lparr>sl_locked = True, sl_pid = my_pid s\<rparr>)\<rparr>)"
    and x: "b_next x = b_next (bufs s ! b)" "b_prev x = b_prev (bufs s ! b)" "holds_block bn x"
    and others: "\<forall>c < NBUF. c \<noteq> b \<longrightarrow> \<not> holds_block bn (bufs s ! c)"
    and ref: "b_refcnt x \<noteq> 0" "unat (b_refcnt x) \<le> 65537"
      "b_refcnt x = (if holds_block bn (bufs s ! b) then b_refcnt (bufs s ! b) + 1 else 1)"
      "\<not> holds_block bn (bufs s ! b) \<longrightarrow> b_refcnt (bufs s ! b) = 0"
    and dat: "if holds_block bn (bufs s ! b) then b_valid x = b_valid (bufs s ! b) \<and> b_data x = b_data (bufs s ! b)
       else \<not> b_valid x" by blast
  let ?sl = "(slocks s)(BufLock b := \<lparr>sl_locked = True, sl_pid = my_pid s\<rparr>)"
  let ?bs = "(bufs s)[b := fin x]"
  have fx: "b_next (fin x) = b_next x" "b_prev (fin x) = b_prev x" "b_refcnt (fin x) = b_refcnt x"
    "b_valid (fin x)" "holds_block bn (fin x)" "b_dev (fin x) = ROOTDEV" "b_blockno (fin x) = bn"
    using x by (auto simp: fin_def holds_block_def)
  have r: "bread ROOTDEV bn s = Ok b (s\<lparr>bufs := ?bs, slocks := ?sl\<rparr>)"
  proof (cases "b_valid x")
    case True
    then show ?thesis using b len by (simp add: bread_def bnd_def run bget_buf_def fin_def)
  next
    case False
    then show ?thesis using b len fx(7) by (simp add: bread_def bnd_def run bget_buf_def fin_def disk_rw_def bupd_def)
  qed
  have ok': "bufs_ok (insert b H) ?bs"
  proof (rule bufs_ok_upd [OF ok b(1)])
    fix bn' c assume "holds_block bn' (fin x)" "c < NBUF" "c \<noteq> b"
    then show "\<not> holds_block bn' (bufs s ! c)" using others fx by (auto simp: holds_block_def)
  qed (use x fx ref in auto)
  have "bc (insert b H) (s\<lparr>bufs := ?bs, slocks := ?sl\<rparr>)"
    using ok' locks_ok_acquire [OF lk b(1)] thr by (simp add: bc_def thr_ok_def my_pid_def)
  moreover have "clean ?bs (disk s)"
    using cl ref fx b len by (auto simp: clean_def nth_list_update_if)
  moreover have cont: "content_of ?bs (disk s) bn' = content s bn'" for bn'
  proof (rule content_of_eqI [OF ok ok'])
    fix c assume c: "c < NBUF" "b_valid (bufs s ! c)" "b_blockno (bufs s ! c) = bn'"
    show "(b_valid (?bs ! c) \<and> b_blockno (?bs ! c) = bn' \<and> b_data (?bs ! c) = b_data (bufs s ! c)) \<or>
       (b_data (bufs s ! c) = disk s bn' \<and> (\<forall>d < NBUF. b_valid (?bs ! d) \<longrightarrow> b_blockno (?bs ! d) \<noteq> bn'))"
    proof (cases "c = b")
      case False
      then show ?thesis using c by simp
    next
      case True
      show ?thesis
      proof (cases "holds_block bn (bufs s ! b)")
        case h: True
        then show ?thesis using c True dat fx len b by (auto simp: fin_def holds_block_def)
      next
        case h: False
        then have "b_data (bufs s ! c) = disk s bn'" using cl c True ref by (auto simp: clean_def)
        moreover have "bn' \<noteq> bn" using c h valid_holds [OF ok c(1,2)] True by auto
        moreover have "d = b" if "d < NBUF" "b_valid (bufs s ! d)" "b_blockno (bufs s ! d) = bn'" for d
          using that c True valid_holds [OF ok, of d] valid_holds [OF ok, of b] bufs_ok_unique [OF ok, of d b bn'] by simp
        ultimately show ?thesis using fx b len by (auto simp: nth_list_update_if)
      qed
    qed
  next
    fix c assume c: "c < NBUF" "b_valid (?bs ! c)" "b_blockno (?bs ! c) = bn'"
      and n: "\<forall>d < NBUF. b_valid (bufs s ! d) \<longrightarrow> b_blockno (bufs s ! d) \<noteq> bn'"
    have "c = b" using c n by (auto simp: nth_list_update_if split: if_splits)
    moreover have "bn' = bn" using c fx calculation len b by simp
    moreover have "\<not> b_valid x" using n dat b x(3) calculation by (auto simp: holds_block_def split: if_splits)
    ultimately show "b_data (?bs ! c) = disk s bn'" using len b by (simp add: fin_def)
  qed simp
  moreover have "b_data (?bs ! b) = content s bn"
    using content_of_valid [OF ok' b(1), of bn "disk s"] cont [of bn] fx len b by simp
  ultimately show ?thesis
    using r b fx ref len by (intro exI [of _ b] exI [of _ ?bs] exI [of _ ?sl]) auto
qed


section \<open>\<open>bwrite\<close>, \<open>brelse\<close> and changes to a locked buffer\<close>

lemma bc_D:
  assumes "bc H s" "b \<in> H"
  shows "b < NBUF" "b < length (bufs s)" "holdingsleep (BufLock b) s = Ok True s" "b_refcnt (bufs s ! b) \<noteq> 0"
proof -
  show b: "b < NBUF" "b < length (bufs s)" "b_refcnt (bufs s ! b) \<noteq> 0"
    using assms bufs_ok_length [of H "bufs s"] by (auto simp: bc_def bufs_ok_def)
  obtain p where "cur s = Some p" "held s = []" using assms by (auto simp: bc_def thr_ok_def)
  then show "holdingsleep (BufLock b) s = Ok True s"
    using assms b holdingsleep_run [of "BufLock b" s p] by (auto simp: bc_def locks_ok_def my_pid_def)
qed

lemma bwrite_spec:
  assumes bc: "bc H s" and b: "b \<in> H" "b_valid (bufs s ! b)" and cl: "clean (bufs s) (disk s)"
  shows "bwrite b s = Ok () (s\<lparr>disk := (disk s)(b_blockno (bufs s ! b) := b_data (bufs s ! b)),
      dwrites := dwrites s @ [(b_blockno (bufs s ! b), b_data (bufs s ! b))]\<rparr>)"
    "clean (bufs s) ((disk s)(b_blockno (bufs s ! b) := b_data (bufs s ! b)))"
    "content_of (bufs s) ((disk s)(b_blockno (bufs s ! b) := b_data (bufs s ! b))) = content s"
proof -
  have ok: "bufs_ok H (bufs s)" using bc by (simp add: bc_def)
  note bD = bc_D [OF bc b(1)]
  show "bwrite b s = Ok () (s\<lparr>disk := (disk s)(b_blockno (bufs s ! b) := b_data (bufs s ! b)),
      dwrites := dwrites s @ [(b_blockno (bufs s ! b), b_data (bufs s ! b))]\<rparr>)"
    using bD by (simp add: bwrite_def bnd_def disk_rw_def)
  show "clean (bufs s) ((disk s)(b_blockno (bufs s ! b) := b_data (bufs s ! b)))"
    unfolding clean_def
  proof (intro allI impI)
    fix c assume c: "c < NBUF" "b_valid (bufs s ! c) \<and> b_refcnt (bufs s ! c) = 0"
    then have "c \<noteq> b" using bD by auto
    then have "b_blockno (bufs s ! c) \<noteq> b_blockno (bufs s ! b)"
      using bufs_ok_unique [OF ok c(1) bD(1)] valid_holds [OF ok c(1)] valid_holds [OF ok bD(1) b(2)] c by metis
    then show "b_data (bufs s ! c) = ((disk s)(b_blockno (bufs s ! b) := b_data (bufs s ! b))) (b_blockno (bufs s ! c))"
      using cl c by (simp add: clean_def)
  qed
  show "content_of (bufs s) ((disk s)(b_blockno (bufs s ! b) := b_data (bufs s ! b))) = content s"
  proof (rule ext, rule content_of_eqI [OF ok ok])
    fix bn assume "\<forall>c < NBUF. b_valid (bufs s ! c) \<longrightarrow> b_blockno (bufs s ! c) \<noteq> bn"
    then show "((disk s)(b_blockno (bufs s ! b) := b_data (bufs s ! b))) bn = disk s bn"
      using bD b by auto
  qed auto
qed

text \<open>Changing the data of a locked buffer changes the content of its block.\<close>

lemma bupd_data_spec:
  assumes bc: "bc H s" and b: "b \<in> H" "b_valid (bufs s ! b)" and cl: "clean (bufs s) (disk s)"
    and f: "\<And>x. f x = x\<lparr>b_data := g (b_data x)\<rparr>"
  shows "bupd b f s = Ok () (s\<lparr>bufs := (bufs s)[b := f (bufs s ! b)]\<rparr>)"
    "bc H (s\<lparr>bufs := (bufs s)[b := f (bufs s ! b)]\<rparr>)"
    "clean ((bufs s)[b := f (bufs s ! b)]) (disk s)"
    "content_of ((bufs s)[b := f (bufs s ! b)]) (disk s) =
       (content s)(b_blockno (bufs s ! b) := g (b_data (bufs s ! b)))"
proof -
  have ok: "bufs_ok H (bufs s)" using bc by (simp add: bc_def)
  note bD = bc_D [OF bc b(1)]
  show "bupd b f s = Ok () (s\<lparr>bufs := (bufs s)[b := f (bufs s ! b)]\<rparr>)" by (simp add: bupd_def)
  have ok': "bufs_ok H ((bufs s)[b := f (bufs s ! b)])"
  proof (rule bufs_ok_upd [OF ok bD(1)])
    fix bn c assume "holds_block bn (f (bufs s ! b))" "c < NBUF" "c \<noteq> b"
    then show "\<not> holds_block bn (bufs s ! c)"
      using bufs_ok_unique [OF ok _ bD(1), of c bn] by (auto simp: f holds_block_def)
  qed (use ok bD b in \<open>auto simp: f bufs_ok_def\<close>)
  then show "bc H (s\<lparr>bufs := (bufs s)[b := f (bufs s ! b)]\<rparr>)"
    using bc by (simp add: bc_def thr_ok_def my_pid_def)
  show "clean ((bufs s)[b := f (bufs s ! b)]) (disk s)"
    using cl bD by (auto simp: clean_def nth_list_update_if f)
  show "content_of ((bufs s)[b := f (bufs s ! b)]) (disk s) =
       (content s)(b_blockno (bufs s ! b) := g (b_data (bufs s ! b)))"
  proof (rule ext)
    fix bn
    show "content_of ((bufs s)[b := f (bufs s ! b)]) (disk s) bn =
       ((content s)(b_blockno (bufs s ! b) := g (b_data (bufs s ! b)))) bn"
    proof (cases "bn = b_blockno (bufs s ! b)")
      case True
      then show ?thesis using content_of_valid [OF ok' bD(1), of bn "disk s"] b bD by (simp add: f)
    next
      case False
      have "content_of ((bufs s)[b := f (bufs s ! b)]) (disk s) bn = content s bn"
        by (rule content_of_eqI [OF ok ok']) (use False bD in \<open>auto simp: nth_list_update_if f split: if_splits\<close>)
      then show ?thesis using False by simp
    qed
  qed
qed

lemma bnexts_ring:
  assumes "bring bs L" "b \<in> set L"
  shows "b_next (bs ! b) \<noteq> b"
proof -
  obtain xs ys where L: "L = xs @ b # ys" using assms(2) by (auto simp: in_set_conv_decomp)
  then have "b_next (bs ! b) = hd (ys @ [bhead])"
    using assms(1) bpath_last [of "bnexts bs" bhead xs b ys bhead] by (simp add: bring_def bnexts_def)
  then show ?thesis using assms L by (cases ys) (auto simp: bring_def)
qed

definition brelse_bufs :: "nat \<Rightarrow> buf list \<Rightarrow> buf list" where
  "brelse_bufs b bs =
     (let bs1 = bs[b := (bs ! b)\<lparr>b_refcnt := b_refcnt (bs ! b) - 1\<rparr>] in
      if b_refcnt (bs1 ! b) = 0 then link_front_bufs b (unlink_bufs b bs1) else bs1)"

lemma brelse_bufs_spec:
  assumes "bufs_ok H bs" "b \<in> H"
  shows "bufs_ok (H - {b}) (brelse_bufs b bs)"
    "same_bufs (bs[b := (bs ! b)\<lparr>b_refcnt := b_refcnt (bs ! b) - 1\<rparr>]) (brelse_bufs b bs)"
proof -
  let ?bs1 = "bs[b := (bs ! b)\<lparr>b_refcnt := b_refcnt (bs ! b) - 1\<rparr>]"
  have b: "b < NBUF" "b_refcnt (bs ! b) \<noteq> 0" "unat (b_refcnt (bs ! b)) \<le> 65537"
    using assms by (auto simp: bufs_ok_def)
  have "unat (b_refcnt (bs ! b) - 1) = unat (b_refcnt (bs ! b)) - 1"
    using b(2) by (simp add: unat_sub_le word_le_nat_alt unat_gt_0 Suc_leI)
  then have ok1: "bufs_ok (H - {b}) ?bs1"
    using b bufs_ok_unique [OF assms(1)] assms(1)
    by (intro bufs_ok_upd [OF assms(1) b(1)]) (auto simp: holds_block_def bufs_ok_def)
  show same: "same_bufs ?bs1 (brelse_bufs b bs)"
    unfolding brelse_bufs_def Let_def
    using same_bufs_trans [OF same_bufs_unlink same_bufs_link_front] same_bufs_refl by simp
  obtain L where L: "bring ?bs1 L" "set L = {..<NBUF}" using ok1 by (auto simp: bufs_ok_def)
  obtain xs ys where xy: "L = xs @ b # ys" using b L by (metis in_set_conv_decomp lessThan_iff)
  have "bring (link_front_bufs b (unlink_bufs b ?bs1)) (b # xs @ ys)"
  proof (rule bring_link_front)
    show "bring (unlink_bufs b ?bs1) (xs @ ys)" using L(1) xy by (simp add: bring_unlink)
    show "b \<notin> set (xs @ ys)" using L(1) xy by (auto simp: bring_def)
  qed (rule b(1))
  moreover have "set (b # xs @ ys) = {..<NBUF}" using L(2) xy by auto
  ultimately have "\<exists>L. bring (brelse_bufs b bs) L \<and> set L = {..<NBUF}"
    using L unfolding brelse_bufs_def Let_def by (auto split: if_splits)
  then show "bufs_ok (H - {b}) (brelse_bufs b bs)" by (rule bufs_ok_same [OF ok1 same])
qed

lemma brelse_run:
  assumes bc: "bc H s" and b: "b \<in> H"
  shows "brelse b s = Ok () (s\<lparr>bufs := brelse_bufs b (bufs s),
    slocks := (slocks s)(BufLock b := \<lparr>sl_locked = False, sl_pid = 0\<rparr>),
    procs := wake_all (cur s) (SleepChan (BufLock b)) (procs s)\<rparr>)"
proof -
  let ?bs1 = "(bufs s)[b := (bufs s ! b)\<lparr>b_refcnt := b_refcnt (bufs s ! b) - 1\<rparr>]"
  let ?sl = "(slocks s)(BufLock b := \<lparr>sl_locked = False, sl_pid = 0\<rparr>)"
  let ?ps = "wake_all (cur s) (SleepChan (BufLock b)) (procs s)"
  have ok: "bufs_ok H (bufs s)" and thr: "thr_ok s" using bc by (auto simp: bc_def)
  note bD = bc_D [OF bc b]
  have len: "length (bufs s) = NBUF + 1" by (rule bufs_ok_length [OF ok])
  obtain p where p: "cur s = Some p" "held s = []" "length (procs s) = NPROC"
    using thr by (auto simp: thr_ok_def)
  obtain L where L: "bring (bufs s) L" "set L = {..<NBUF}" using ok by (auto simp: bufs_ok_def)
  have r1: "releasesleep (BufLock b) s = Ok () (s\<lparr>slocks := ?sl, procs := ?ps\<rparr>)"
    using releasesleep_run [of "BufLock b" s] p by simp
  have nn: "b_next (?bs1 ! b) \<noteq> b" using bnexts_ring [OF L(1), of b] L(2) bD by simp
  have ul: "unlink b t = Ok () (t\<lparr>bufs := unlink_bufs b (bufs t)\<rparr>)"
    if "bufs t = ?bs1" for t :: "'a bio_st_scheme"
    using unlink_run [of t b] that nn by simp
  have lf: "link_front b t = Ok () (t\<lparr>bufs := link_front_bufs b (bufs t)\<rparr>)"
    if "bufs t = unlink_bufs b ?bs1" for t :: "'a bio_st_scheme"
    using that bD len by (intro link_front_run) (auto simp: unlink_bufs_def Let_def)
  show ?thesis
    using bD p len
    by (simp add: brelse_def bnd_def r1 acquire_def release_def bupd_def bget_buf_def ul lf held_same
      brelse_bufs_def Let_def)
qed

lemma brelse_spec:
  assumes bc: "bc H s" and b: "b \<in> H" and cl: "clean (bufs s) (disk s)"
    and last: "b_refcnt (bufs s ! b) = 1 \<Longrightarrow> b_valid (bufs s ! b) \<Longrightarrow>
      b_data (bufs s ! b) = disk s (b_blockno (bufs s ! b))"
  shows "\<exists>bs sl ps. brelse b s = Ok () (s\<lparr>bufs := bs, slocks := sl, procs := ps\<rparr>) \<and>
    bc (H - {b}) (s\<lparr>bufs := bs, slocks := sl, procs := ps\<rparr>) \<and> clean bs (disk s) \<and>
    content_of bs (disk s) = content s \<and>
    same_bufs ((bufs s)[b := (bufs s ! b)\<lparr>b_refcnt := b_refcnt (bufs s ! b) - 1\<rparr>]) bs"
proof -
  let ?bs1 = "(bufs s)[b := (bufs s ! b)\<lparr>b_refcnt := b_refcnt (bufs s ! b) - 1\<rparr>]"
  let ?bs = "brelse_bufs b (bufs s)"
  let ?sl = "(slocks s)(BufLock b := \<lparr>sl_locked = False, sl_pid = 0\<rparr>)"
  let ?ps = "wake_all (cur s) (SleepChan (BufLock b)) (procs s)"
  have ok: "bufs_ok H (bufs s)" and thr: "thr_ok s" and lk: "locks_ok H (slocks s) (my_pid s)"
    using bc by (auto simp: bc_def)
  note bD = bc_D [OF bc b]
  note ok' = brelse_bufs_spec(1) [OF ok b] and same = brelse_bufs_spec(2) [OF ok b]
  have len: "length (bufs s) = NBUF + 1" by (rule bufs_ok_length [OF ok])
  obtain p where p: "cur s = Some p" "held s = []" "p < NPROC" "length (procs s) = NPROC"
    using thr by (auto simp: thr_ok_def)
  note run = brelse_run [OF bc b]
  have "my_pid (s\<lparr>bufs := ?bs, slocks := ?sl, procs := ?ps\<rparr>) = my_pid s"
    using p by (simp add: my_pid_def wake_all_same)
  then have "bc (H - {b}) (s\<lparr>bufs := ?bs, slocks := ?sl, procs := ?ps\<rparr>)"
    using ok' locks_ok_release [OF lk, of b] thr by (simp add: bc_def thr_ok_def)
  moreover have D: "b_valid (?bs ! c) = b_valid (bufs s ! c)" "b_blockno (?bs ! c) = b_blockno (bufs s ! c)"
    "b_data (?bs ! c) = b_data (bufs s ! c)"
    "b_refcnt (?bs ! c) = (if c = b then b_refcnt (bufs s ! c) - 1 else b_refcnt (bufs s ! c))" if "c < NBUF" for c
    using same_bufs_D [OF same, of c] that len by (auto simp: nth_list_update_if)
  have "clean ?bs (disk s)"
    using cl last unfolding clean_def by (auto simp: D)
  moreover have "content_of ?bs (disk s) bn = content s bn" for bn
    by (rule content_of_eqI [OF ok ok']) (use D in auto)
  ultimately show ?thesis using run same by blast
qed

lemma bunpin_run:
  assumes "held s = []"
  shows "bunpin b s = Ok () (s\<lparr>bufs := (bufs s)[b := (bufs s ! b)\<lparr>b_refcnt := b_refcnt (bufs s ! b) - 1\<rparr>]\<rparr>)"
  using assms by (simp add: bunpin_def bnd_def acquire_def release_def bupd_def held_same)

lemma bpin_run:
  assumes "BcacheLock \<notin> set (held s)"
  shows "bpin b s = Ok () (s\<lparr>bufs := (bufs s)[b := (bufs s ! b)\<lparr>b_refcnt := b_refcnt (bufs s ! b) + 1\<rparr>]\<rparr>)"
  using assms by (simp add: bpin_def bnd_def acquire_def release_def bupd_def)

text \<open>Dropping one of several references to a locked buffer.\<close>

lemma bunpin_spec:
  assumes bc: "bc H s" and b: "b \<in> H" and ref: "b_refcnt (bufs s ! b) - 1 \<noteq> 0"
    and cl: "clean (bufs s) (disk s)"
  defines "bs \<equiv> (bufs s)[b := (bufs s ! b)\<lparr>b_refcnt := b_refcnt (bufs s ! b) - 1\<rparr>]"
  shows "bunpin b s = Ok () (s\<lparr>bufs := bs\<rparr>)" "bc H (s\<lparr>bufs := bs\<rparr>)" "clean bs (disk s)"
    "content_of bs (disk s) = content s"
proof -
  have ok: "bufs_ok H (bufs s)" using bc by (simp add: bc_def)
  note bD = bc_D [OF bc b]
  show "bunpin b s = Ok () (s\<lparr>bufs := bs\<rparr>)"
    using bc bunpin_run [of s b] by (simp add: bs_def bc_def thr_ok_def)
  have "unat (b_refcnt (bufs s ! b) - 1) = unat (b_refcnt (bufs s ! b)) - 1"
    using bD(4) by (simp add: unat_sub_le word_le_nat_alt unat_gt_0 Suc_leI)
  moreover have "unat (b_refcnt (bufs s ! b)) \<le> 65537" "b_valid (bufs s ! b) \<Longrightarrow> b_dev (bufs s ! b) = ROOTDEV"
    using ok bD b by (auto simp: bufs_ok_def)
  moreover have "\<not> holds_block bn (bufs s ! c)"
    if "holds_block bn ((bufs s ! b)\<lparr>b_refcnt := b_refcnt (bufs s ! b) - 1\<rparr>)" "c < NBUF" "c \<noteq> b" for bn c
    using that bufs_ok_unique [OF ok _ bD(1), of c bn] by (auto simp: holds_block_def)
  ultimately have ok': "bufs_ok H bs"
    unfolding bs_def using b ref by (intro bufs_ok_upd [OF ok bD(1)]) auto
  then show "bc H (s\<lparr>bufs := bs\<rparr>)" using bc by (simp add: bc_def thr_ok_def my_pid_def)
  show "clean bs (disk s)" using cl ref bD by (auto simp: clean_def bs_def nth_list_update_if)
  show "content_of bs (disk s) = content s"
    by (rule ext, rule content_of_eqI [OF ok ok']) (auto simp: bs_def nth_list_update_if split: if_splits)
qed

end
