(* ===== verification/Log.thy ===== *)
theory Log
  imports Bio
begin

text \<open>
  The redo log of the file system, kernel/log.c. The in-memory header is the record \<open>logheader\<close>;
  on disk it is the first bytes of the block \<open>log.start\<close>. Integers of C type \<open>int\<close> are \<open>int\<close>
  here: all of them stay far below the range of a machine integer.
\<close>

section \<open>Words in byte arrays\<close>

definition get_le :: "nat \<Rightarrow> byte list \<Rightarrow> 'a::len word" where
  "get_le off bs = of_le (take (LENGTH('a) div 8) (drop off bs))"

definition put_le :: "nat \<Rightarrow> 'a::len word \<Rightarrow> byte list \<Rightarrow> byte list" where
  "put_le off w bs = take off bs @ to_le w @ drop (off + LENGTH('a) div 8) bs"

section \<open>Data\<close>

record superblock =
  sb_magic :: u32
  sb_size :: u32
  sb_nblocks :: u32
  sb_ninodes :: u32
  sb_nlog :: u32
  sb_logstart :: u32
  sb_inodestart :: u32
  sb_bmapstart :: u32

record logheader =
  lh_n :: int
  lh_block :: "u32 list"

record log_st = bio_st +
  l_start :: u32
  l_size :: int
  l_outstanding :: int
  l_committing :: bool
  l_dev :: u32
  l_lh :: logheader

text \<open>An access outside the array \<open>log.lh.block\<close> is undefined behaviour in C; the model stops.\<close>

definition lh_check :: "nat \<Rightarrow> ('z log_st_scheme, unit) kmon" where
  "lh_check i = panic_if (i \<ge> LOGSIZE) ''undefined: log.lh.block''"

definition log_blk :: "nat \<Rightarrow> ('z log_st_scheme, u32) kmon" where
  "log_blk i = bnd (lh_check i) (\<lambda>_. gets (\<lambda>s. lh_block (l_lh s) ! i))"

definition set_log_blk :: "nat \<Rightarrow> u32 \<Rightarrow> ('z log_st_scheme, unit) kmon" where
  "set_log_blk i v =
     bnd (lh_check i) (\<lambda>_.
     modify (\<lambda>s. s\<lparr>l_lh := (l_lh s)\<lparr>lh_block := (lh_block (l_lh s))[i := v]\<rparr>\<rparr>))"

section \<open>Operations\<close>

definition install_trans :: "bool \<Rightarrow> ('z log_st_scheme, unit) kmon" where
  "install_trans recovering =
     bnd (gets (\<lambda>s. lh_n (l_lh s))) (\<lambda>n.
     forM [0..<nat n] (\<lambda>tail.
       bnd (gets l_dev) (\<lambda>dev.
       bnd (gets l_start) (\<lambda>start.
       bnd (bread dev (start + of_nat tail + 1)) (\<lambda>lbuf.
       bnd (log_blk tail) (\<lambda>blk.
       bnd (bread dev blk) (\<lambda>dbuf.
       bnd (bget_buf lbuf) (\<lambda>lb.
       seqM
        [bupd dbuf (\<lambda>b. b\<lparr>b_data := b_data lb\<rparr>),
         bwrite dbuf,
         whenM (\<not> recovering) (bunpin dbuf),
         brelse lbuf,
         brelse dbuf]))))))))"

definition read_head :: "('z log_st_scheme, unit) kmon" where
  "read_head =
     bnd (gets l_dev) (\<lambda>dev.
     bnd (gets l_start) (\<lambda>start.
     bnd (bread dev start) (\<lambda>b.
     bnd (bget_buf b) (\<lambda>x.
     let n = sint (get_le 0 (b_data x) :: u32) in
     bnd (modify (\<lambda>s. s\<lparr>l_lh := (l_lh s)\<lparr>lh_n := n\<rparr>\<rparr>)) (\<lambda>_.
     bnd (forM [0..<nat n] (\<lambda>i. set_log_blk i (get_le (4 + 4 * i) (b_data x)))) (\<lambda>_.
     brelse b))))))"

definition write_head :: "('z log_st_scheme, unit) kmon" where
  "write_head =
     bnd (gets l_dev) (\<lambda>dev.
     bnd (gets l_start) (\<lambda>start.
     bnd (bread dev start) (\<lambda>b.
     bnd (gets (\<lambda>s. lh_n (l_lh s))) (\<lambda>n.
     seqM
      [bupd b (\<lambda>x. x\<lparr>b_data := put_le 0 (of_int n :: u32) (b_data x)\<rparr>),
       forM [0..<nat n] (\<lambda>i.
         bnd (log_blk i) (\<lambda>blk. bupd b (\<lambda>x. x\<lparr>b_data := put_le (4 + 4 * i) blk (b_data x)\<rparr>))),
       bwrite b,
       brelse b]))))"

definition set_lh_n :: "int \<Rightarrow> ('z log_st_scheme, unit) kmon" where
  "set_lh_n n = modify (\<lambda>s. s\<lparr>l_lh := (l_lh s)\<lparr>lh_n := n\<rparr>\<rparr>)"

definition recover_from_log :: "('z log_st_scheme, unit) kmon" where
  "recover_from_log = seqM [read_head, install_trans True, set_lh_n 0, write_head]"

definition initlog :: "u32 \<Rightarrow> superblock \<Rightarrow> ('z log_st_scheme, unit) kmon" where
  "initlog dev sb =
     seqM
      [panic_if (4 + 4 * LOGSIZE \<ge> BSIZE) ''initlog: too big logheader'',
       modify (\<lambda>s. s\<lparr>l_start := sb_logstart sb\<rparr>),
       modify (\<lambda>s. s\<lparr>l_size := sint (sb_nlog sb)\<rparr>),
       modify (\<lambda>s. s\<lparr>l_dev := dev\<rparr>),
       recover_from_log]"

text \<open>\<open>begin_op\<close> from the head of its loop; it comes back there each time it is woken.\<close>

definition begin_op_loop :: "('z log_st_scheme, unit) kmon" where
  "begin_op_loop =
     bnd (gets l_committing) (\<lambda>committing.
     bnd (gets (\<lambda>s. lh_n (l_lh s))) (\<lambda>n.
     bnd (gets l_outstanding) (\<lambda>outstanding.
     if committing then sleep LogChan LogLock
     else if n + (outstanding + 1) * int MAXOPBLOCKS > int LOGSIZE then sleep LogChan LogLock
     else
       bnd (modify (\<lambda>s. s\<lparr>l_outstanding := l_outstanding s + 1\<rparr>)) (\<lambda>_.
       release LogLock))))"

definition begin_op :: "('z log_st_scheme, unit) kmon" where
  "begin_op = bnd (acquire LogLock) (\<lambda>_. begin_op_loop)"

definition begin_op_resume :: "('z log_st_scheme, unit) kmon" where
  "begin_op_resume = bnd (sleep_resume LogLock) (\<lambda>_. begin_op_loop)"

definition write_log :: "('z log_st_scheme, unit) kmon" where
  "write_log =
     bnd (gets (\<lambda>s. lh_n (l_lh s))) (\<lambda>n.
     forM [0..<nat n] (\<lambda>tail.
       bnd (gets l_dev) (\<lambda>dev.
       bnd (gets l_start) (\<lambda>start.
       bnd (bread dev (start + of_nat tail + 1)) (\<lambda>to.
       bnd (log_blk tail) (\<lambda>blk.
       bnd (bread dev blk) (\<lambda>from.
       bnd (bget_buf from) (\<lambda>fb.
       seqM
        [bupd to (\<lambda>b. b\<lparr>b_data := b_data fb\<rparr>),
         bwrite to,
         brelse from,
         brelse to]))))))))"

definition commit :: "('z log_st_scheme, unit) kmon" where
  "commit =
     bnd (gets (\<lambda>s. lh_n (l_lh s))) (\<lambda>n.
     whenM (n > 0) (seqM [write_log, write_head, install_trans False, set_lh_n 0, write_head]))"

definition end_op :: "('z log_st_scheme, unit) kmon" where
  "end_op =
     bnd (acquire LogLock) (\<lambda>_.
     bnd (modify (\<lambda>s. s\<lparr>l_outstanding := l_outstanding s - 1\<rparr>)) (\<lambda>_.
     bnd (gets l_committing) (\<lambda>committing.
     bnd (panic_if committing ''log.committing'') (\<lambda>_.
     bnd (gets (\<lambda>s. l_outstanding s = 0)) (\<lambda>do_commit.
     bnd (if do_commit then modify (\<lambda>s. s\<lparr>l_committing := True\<rparr>) else wakeup LogChan) (\<lambda>_.
     bnd (release LogLock) (\<lambda>_.
     whenM do_commit
       (seqM
         [commit,
          acquire LogLock,
          modify (\<lambda>s. s\<lparr>l_committing := False\<rparr>),
          wakeup LogChan,
          release LogLock]))))))))"

definition log_write :: "nat \<Rightarrow> ('z log_st_scheme, unit) kmon" where
  "log_write b =
     bnd (acquire LogLock) (\<lambda>_.
     bnd (gets l_lh) (\<lambda>lh.
     bnd (gets l_size) (\<lambda>sz.
     bnd (panic_if (lh_n lh \<ge> int LOGSIZE \<or> lh_n lh \<ge> sz - 1) ''too big a transaction'') (\<lambda>_.
     bnd (gets l_outstanding) (\<lambda>outstanding.
     bnd (panic_if (outstanding < 1) ''log_write outside of trans'') (\<lambda>_.
     bnd (bget_buf b) (\<lambda>x.
     let i = (case first_idx (\<lambda>blk. blk = b_blockno x) (take (nat (lh_n lh)) (lh_block lh)) of
                Some i \<Rightarrow> i | None \<Rightarrow> nat (lh_n lh)) in
     bnd (set_log_blk i (b_blockno x)) (\<lambda>_.
     bnd (whenM (i = nat (lh_n lh)) (seqM [bpin b, set_lh_n (lh_n lh + 1)])) (\<lambda>_.
     release LogLock)))))))))"

section \<open>Copying a block through the cache\<close>

text \<open>Reference counts are as before, and so is which blocks are in buffers that are in use.\<close>

definition keeps :: "buf list \<Rightarrow> buf list \<Rightarrow> bool" where
  "keeps bs bs' \<longleftrightarrow> (\<forall>c < NBUF. b_refcnt (bs' ! c) = b_refcnt (bs ! c) \<and>
     (b_refcnt (bs ! c) \<noteq> 0 \<longrightarrow> b_dev (bs' ! c) = b_dev (bs ! c) \<and>
       b_blockno (bs' ! c) = b_blockno (bs ! c) \<and> b_valid (bs' ! c) = b_valid (bs ! c)))"

lemma keeps_refl: "keeps bs bs"
  by (simp add: keeps_def)

lemma keeps_trans: "keeps a b \<Longrightarrow> keeps b c \<Longrightarrow> keeps a c"
  by (simp add: keeps_def)

text \<open>A block is pinned when a buffer in use holds it.\<close>

definition pinned :: "buf list \<Rightarrow> u32 \<Rightarrow> bool" where
  "pinned bs bn \<longleftrightarrow> (\<exists>b < NBUF. holds_block bn (bs ! b) \<and> b_valid (bs ! b) \<and> b_refcnt (bs ! b) \<noteq> 0)"

lemma keeps_pinned: "keeps bs bs' \<Longrightarrow> pinned bs bn \<Longrightarrow> pinned bs' bn"
  unfolding keeps_def pinned_def holds_block_def by metis

definition two_free :: "buf list \<Rightarrow> bool" where
  "two_free bs \<longleftrightarrow> (\<exists>b c. b < NBUF \<and> c < NBUF \<and> b \<noteq> c \<and> b_refcnt (bs ! b) = 0 \<and> b_refcnt (bs ! c) = 0)"

definition one_free :: "buf list \<Rightarrow> bool" where
  "one_free bs \<longleftrightarrow> (\<exists>b < NBUF. b_refcnt (bs ! b) = 0)"

lemma keeps_free: "keeps bs bs' \<Longrightarrow> two_free bs \<Longrightarrow> two_free bs'" "keeps bs bs' \<Longrightarrow> one_free bs \<Longrightarrow> one_free bs'"
  unfolding keeps_def two_free_def one_free_def by metis+

lemma clean_content:
  assumes "bufs_ok H bs" "clean bs D" "\<not> pinned bs bn"
  shows "content_of bs D bn = D bn"
proof (cases "\<exists>b < NBUF. b_valid (bs ! b) \<and> b_blockno (bs ! b) = bn")
  case True
  then obtain b where b: "b < NBUF" "b_valid (bs ! b)" "b_blockno (bs ! b) = bn" by blast
  then have "b_refcnt (bs ! b) = 0" using assms(3) valid_holds [OF assms(1) b(1,2)] by (auto simp: pinned_def)
  then show ?thesis using content_of_valid [OF assms(1) b] assms(2) b by (simp add: clean_def)
qed (auto intro: content_of_none)

text \<open>Two reads one after the other.\<close>

lemma two_bread:
  assumes bc: "bc {} s" and cl: "clean (bufs s) (disk s)" and AB: "A \<noteq> B"
    and room: "one_free (bufs s)" "pinned (bufs s) B \<or> two_free (bufs s)"
  shows "\<exists>x y s1 bs sl. bread ROOTDEV A s = Ok x s1 \<and> bread ROOTDEV B s1 = Ok y (s\<lparr>bufs := bs, slocks := sl\<rparr>) \<and>
    x \<noteq> y \<and> x < NBUF \<and> y < NBUF \<and> bc {x, y} (s\<lparr>bufs := bs, slocks := sl\<rparr>) \<and> clean bs (disk s) \<and>
    (\<exists>t. s1 = s\<lparr>bufs := fst t, slocks := snd t\<rparr>) \<and>
    b_valid (bs ! x) \<and> b_blockno (bs ! x) = A \<and> b_data (bs ! x) = content s A \<and>
    b_valid (bs ! y) \<and> b_blockno (bs ! y) = B \<and> b_data (bs ! y) = content s B \<and>
    content_of bs (disk s) = content s \<and>
    (\<forall>c < NBUF. c \<noteq> x \<longrightarrow> c \<noteq> y \<longrightarrow> bs ! c = bufs s ! c) \<and>
    b_refcnt (bs ! x) = b_refcnt (bufs s ! x) + 1 \<and> b_refcnt (bs ! y) = b_refcnt (bufs s ! y) + 1 \<and>
    (b_refcnt (bufs s ! x) \<noteq> 0 \<longrightarrow> holds_block A (bufs s ! x)) \<and>
    (b_refcnt (bufs s ! y) \<noteq> 0 \<longrightarrow> holds_block B (bufs s ! y))"
proof -
  have "room (bufs s) A" using room(1) by (auto simp: room_def one_free_def)
  from bread_spec [OF bc cl this, simplified] obtain x bs1 sl1 where
    r1: "bread ROOTDEV A s = Ok x (s\<lparr>bufs := bs1, slocks := sl1\<rparr>)" and x: "x < NBUF"
    and bc1: "bc {x} (s\<lparr>bufs := bs1, slocks := sl1\<rparr>)" and cl1: "clean bs1 (disk s)"
    and x1: "b_valid (bs1 ! x)" "b_blockno (bs1 ! x) = A" "b_data (bs1 ! x) = content s A"
    and c1: "content_of bs1 (disk s) = content s" and o1: "\<forall>c < NBUF. c \<noteq> x \<longrightarrow> bs1 ! c = bufs s ! c"
    and f1: "b_refcnt (bs1 ! x) = (if holds_block A (bufs s ! x) then b_refcnt (bufs s ! x) + 1 else 1)"
      "\<not> holds_block A (bufs s ! x) \<longrightarrow> b_refcnt (bufs s ! x) = 0" by blast
  have rx: "b_refcnt (bs1 ! x) = b_refcnt (bufs s ! x) + 1" using f1 by auto
  let ?s1 = "s\<lparr>bufs := bs1, slocks := sl1\<rparr>"
  have rm: "room (bufs ?s1) B"
    using room(2)
  proof
    assume "pinned (bufs s) B"
    then obtain b where b: "b < NBUF" "holds_block B (bufs s ! b)" "b_refcnt (bufs s ! b) \<noteq> 0"
      by (auto simp: pinned_def)
    then have "b \<noteq> x" using f1 AB by (auto simp: holds_block_def)
    then show ?thesis using b o1 by (auto simp: room_def)
  next
    assume "two_free (bufs s)"
    then obtain b where "b < NBUF" "b \<noteq> x" "b_refcnt (bufs s ! b) = 0" unfolding two_free_def by metis
    then show ?thesis using o1 by (auto simp: room_def)
  qed
  have nh: "\<not> holds_block B (bufs ?s1 ! b)" if "b \<in> {x}" for b using that x1 AB by (auto simp: holds_block_def)
  have cl1': "clean (bufs ?s1) (disk ?s1)" using cl1 by simp
  from bread_spec [OF bc1 cl1' rm nh, simplified, unfolded c1] obtain y bs sl where
    r2: "bread ROOTDEV B ?s1 = Ok y (s\<lparr>bufs := bs, slocks := sl\<rparr>)" and y: "y < NBUF" "y \<noteq> x"
    and bc2: "bc {y, x} (s\<lparr>bufs := bs, slocks := sl\<rparr>)" and cl2: "clean bs (disk s)"
    and y1: "b_valid (bs ! y)" "b_blockno (bs ! y) = B" "b_data (bs ! y) = content s B"
    and c2: "content_of bs (disk s) = content s" and o2: "\<forall>c < NBUF. c \<noteq> y \<longrightarrow> bs ! c = bs1 ! c"
    and f2: "b_refcnt (bs ! y) = (if holds_block B (bs1 ! y) then b_refcnt (bufs ?s1 ! y) + 1 else 1)"
      "\<not> holds_block B (bs1 ! y) \<longrightarrow> b_refcnt (bs1 ! y) = 0" by blast
  have bc2': "bc {x, y} (s\<lparr>bufs := bs, slocks := sl\<rparr>)" using bc2 by (simp only: insert_commute)
  have xy: "bs ! x = bs1 ! x" "bs1 ! y = bufs s ! y" using o1 o2 x y by auto
  show ?thesis
  proof (rule exI [of _ x], rule exI [of _ y], rule exI [of _ ?s1], rule exI [of _ bs], rule exI [of _ sl], intro conjI)
    show "\<exists>t. ?s1 = s\<lparr>bufs := fst t, slocks := snd t\<rparr>" by (rule exI [of _ "(bs1, sl1)"]) simp
  qed (use r1 r2 x y bc2' cl2 x1 y1 c1 c2 o1 o2 rx f1 f2 xy in auto)
qed


lemma holds_distinct:
  assumes "bufs_ok H bs" "i < NBUF" "j < NBUF" "i \<noteq> j" "b_valid (bs ! i)" "b_valid (bs ! j)"
  shows "b_blockno (bs ! i) \<noteq> b_blockno (bs ! j)"
  using assms valid_holds [OF assms(1)] bufs_ok_unique [OF assms(1)] by metis

text \<open>The second half of the loop bodies of \<open>write_log\<close> and \<open>install_trans\<close>.\<close>

lemma finish_copy:
  assumes bc: "bc {u, v} s" and uv: "u \<noteq> v" "tgt \<in> {u, v}" and cl: "clean (bufs s) (disk s)"
    and valid: "b_valid (bufs s ! u)" "b_valid (bufs s ! v)"
    and src: "\<And>c. c \<in> {u, v} \<Longrightarrow> c \<noteq> tgt \<Longrightarrow> b_refcnt (bufs s ! c) = 1 \<Longrightarrow>
      b_data (bufs s ! c) = disk s (b_blockno (bufs s ! c))"
    and up: "unpin \<Longrightarrow> b_refcnt (bufs s ! tgt) - 1 \<noteq> 0"
    and t: "t = b_blockno (bufs s ! tgt)"
  shows "\<exists>bs sl ps. seqM [bupd tgt (\<lambda>b. b\<lparr>b_data := d\<rparr>), bwrite tgt, whenM unpin (bunpin tgt), brelse u, brelse v] s =
      Ok () (s\<lparr>bufs := bs, slocks := sl, procs := ps, disk := (disk s)(t := d), dwrites := dwrites s @ [(t, d)]\<rparr>) \<and>
    bc {} (s\<lparr>bufs := bs, slocks := sl, procs := ps, disk := (disk s)(t := d), dwrites := dwrites s @ [(t, d)]\<rparr>) \<and>
    clean bs ((disk s)(t := d)) \<and> content_of bs ((disk s)(t := d)) = (content s)(t := d) \<and>
    (\<forall>c < NBUF. b_dev (bs ! c) = b_dev (bufs s ! c) \<and> b_blockno (bs ! c) = b_blockno (bufs s ! c) \<and>
      b_valid (bs ! c) = b_valid (bufs s ! c) \<and>
      b_refcnt (bs ! c) = b_refcnt (bufs s ! c) - (if c \<in> {u, v} then 1 else 0) - (if unpin \<and> c = tgt then 1 else 0))"
proof -
  have ok: "bufs_ok {u, v} (bufs s)" using bc by (simp add: bc_def)
  have len: "length (bufs s) = NBUF + 1" by (rule bufs_ok_length [OF ok])
  have lt: "u < NBUF" "v < NBUF" "tgt < NBUF" using ok uv by (auto simp: bufs_ok_def)
  have vt: "b_valid (bufs s ! tgt)" using uv valid by auto
  let ?f = "\<lambda>b. b\<lparr>b_data := d\<rparr>"
  let ?bs1 = "(bufs s)[tgt := ?f (bufs s ! tgt)]" and ?D = "(disk s)(t := d)"
  let ?s1 = "s\<lparr>bufs := ?bs1\<rparr>"
  note u1 = bupd_data_spec [OF bc uv(2) vt cl, of ?f "\<lambda>_. d", simplified, folded t]
  have tg1: "b_blockno (?bs1 ! tgt) = t" "b_data (?bs1 ! tgt) = d" "b_valid (?bs1 ! tgt)"
    using len lt t vt by simp_all
  let ?s2 = "?s1\<lparr>disk := ?D, dwrites := dwrites s @ [(t, d)]\<rparr>"
  have cl1: "clean (bufs ?s1) (disk ?s1)" and vt1: "b_valid (bufs ?s1 ! tgt)" using u1 tg1 by simp_all
  have w: "bwrite tgt ?s1 = Ok () ?s2" and cl2: "clean ?bs1 ?D"
    and c2: "content_of ?bs1 ?D = (content s)(t := d)"
    using bwrite_spec [OF u1(2) uv(2) vt1 cl1] tg1 u1 by simp_all
  have bc2: "bc {u, v} ?s2" using u1(2) by (simp add: bc_def thr_ok_def my_pid_def)
  define bs3 where "bs3 = (if unpin then ?bs1[tgt := (?bs1 ! tgt)\<lparr>b_refcnt := b_refcnt (?bs1 ! tgt) - 1\<rparr>] else ?bs1)"
  let ?s3 = "?s2\<lparr>bufs := bs3\<rparr>"
  have cl2': "clean (bufs ?s2) (disk ?s2)" using cl2 by simp
  have s3: "whenM unpin (bunpin tgt) ?s2 = Ok () ?s3 \<and> bc {u, v} ?s3 \<and> clean bs3 ?D \<and>
      content_of bs3 ?D = (content s)(t := d)"
  proof (cases unpin)
    case True
    then have "b_refcnt (bufs ?s2 ! tgt) - 1 \<noteq> 0" using up len lt by simp
    from bunpin_spec [OF bc2 uv(2) this cl2'] show ?thesis using True c2 by (simp add: bs3_def)
  next
    case False
    then have e: "?s3 = ?s2" by (cases s) (simp add: bs3_def)
    show ?thesis unfolding e using False bc2 cl2 c2 by (simp add: bs3_def)
  qed
  have e3: "b_dev (bs3 ! c) = b_dev (bufs s ! c)" "b_blockno (bs3 ! c) = b_blockno (bufs s ! c)"
    "b_valid (bs3 ! c) = b_valid (bufs s ! c)" "b_data (bs3 ! c) = (if c = tgt then d else b_data (bufs s ! c))"
    "b_refcnt (bs3 ! c) = b_refcnt (bufs s ! c) - (if unpin \<and> c = tgt then 1 else 0)" if "c < NBUF" for c
    using that len lt by (auto simp: bs3_def nth_list_update_if)
  have last3: "b_data (bs3 ! c) = ?D (b_blockno (bs3 ! c))" if "c \<in> {u, v}" "b_refcnt (bs3 ! c) = 1" for c
  proof (cases "c = tgt")
    case True
    then show ?thesis using e3 lt t by simp
  next
    case False
    have c: "c < NBUF" using that lt by auto
    have "b_blockno (bufs s ! c) \<noteq> t"
      using holds_distinct [OF ok c lt(3) False] valid vt that t by auto
    then show ?thesis using e3 [OF c] src [OF that(1) False] that False by auto
  qed
  have bc3: "bc {u, v} ?s3" and cl3: "clean (bufs ?s3) (disk ?s3)" using s3 by simp_all
  have uH: "u \<in> {u, v}" by simp
  from brelse_spec [OF bc3 uH cl3] last3 [of u] obtain bs4 sl4 ps4 where
    r4: "brelse u ?s3 = Ok () (?s3\<lparr>bufs := bs4, slocks := sl4, procs := ps4\<rparr>)"
    and bc4: "bc ({u, v} - {u}) (?s3\<lparr>bufs := bs4, slocks := sl4, procs := ps4\<rparr>)"
    and cl4: "clean bs4 ?D" and c4: "content_of bs4 ?D = (content s)(t := d)"
    and same4: "same_bufs (bs3[u := (bs3 ! u)\<lparr>b_refcnt := b_refcnt (bs3 ! u) - 1\<rparr>]) bs4"
    using s3 by auto
  have len3: "length bs3 = NBUF + 1" using len by (simp add: bs3_def)
  have e4: "b_dev (bs4 ! c) = b_dev (bs3 ! c)" "b_blockno (bs4 ! c) = b_blockno (bs3 ! c)"
    "b_valid (bs4 ! c) = b_valid (bs3 ! c)" "b_data (bs4 ! c) = b_data (bs3 ! c)"
    "b_refcnt (bs4 ! c) = b_refcnt (bs3 ! c) - (if c = u then 1 else 0)" if "c < NBUF" for c
    using same_bufs_D [OF same4, of c] that len3 by (auto simp: nth_list_update_if)
  let ?s4 = "?s3\<lparr>bufs := bs4, slocks := sl4, procs := ps4\<rparr>"
  have bc4': "bc {v} ?s4" using bc4 uv(1) by (simp add: insert_Diff_if)
  have cl4': "clean (bufs ?s4) (disk ?s4)" using cl4 by simp
  have vH: "v \<in> {v}" by simp
  have "b_refcnt (bufs ?s4 ! v) = 1 \<Longrightarrow> b_valid (bufs ?s4 ! v) \<Longrightarrow> b_data (bufs ?s4 ! v) = disk ?s4 (b_blockno (bufs ?s4 ! v))"
    using e4 [OF lt(2)] last3 [of v] uv by simp
  from brelse_spec [OF bc4' vH cl4' this] obtain bs5 sl5 ps5 where
    r5: "brelse v ?s4 = Ok () (?s4\<lparr>bufs := bs5, slocks := sl5, procs := ps5\<rparr>)"
    and bc5: "bc {} (?s4\<lparr>bufs := bs5, slocks := sl5, procs := ps5\<rparr>)"
    and cl5: "clean bs5 ?D" and c5: "content_of bs5 ?D = (content s)(t := d)"
    and same5: "same_bufs (bs4[v := (bs4 ! v)\<lparr>b_refcnt := b_refcnt (bs4 ! v) - 1\<rparr>]) bs5"
    using c4 by auto
  have len4: "length bs4 = NBUF + 1" using bc4' bufs_ok_length by (fastforce simp: bc_def)
  have e5: "b_dev (bs5 ! c) = b_dev (bs4 ! c)" "b_blockno (bs5 ! c) = b_blockno (bs4 ! c)"
    "b_valid (bs5 ! c) = b_valid (bs4 ! c)"
    "b_refcnt (bs5 ! c) = b_refcnt (bs4 ! c) - (if c = v then 1 else 0)" if "c < NBUF" for c
    using same_bufs_D [OF same5, of c] that len4 by (auto simp: nth_list_update_if)
  let ?fin = "s\<lparr>bufs := bs5, slocks := sl5, procs := ps5, disk := ?D, dwrites := dwrites s @ [(t, d)]\<rparr>"
  have fin: "?s4\<lparr>bufs := bs5, slocks := sl5, procs := ps5\<rparr> = ?fin" by (cases s) simp
  have bc5': "bc {} ?fin" using bc5 unfolding fin .
  have "seqM [bupd tgt ?f, bwrite tgt, whenM unpin (bunpin tgt), brelse u, brelse v] s = Ok () ?fin"
    using u1(1) w s3 r4 r5 unfolding fin by (simp add: bnd_def)
  moreover have "\<forall>c < NBUF. b_dev (bs5 ! c) = b_dev (bufs s ! c) \<and> b_blockno (bs5 ! c) = b_blockno (bufs s ! c) \<and>
      b_valid (bs5 ! c) = b_valid (bufs s ! c) \<and>
      b_refcnt (bs5 ! c) = b_refcnt (bufs s ! c) - (if c \<in> {u, v} then 1 else 0) - (if unpin \<and> c = tgt then 1 else 0)"
    using e3 e4 e5 uv(1) by simp
  ultimately show ?thesis using bc5' cl5 c5 by (intro exI [of _ bs5] exI [of _ sl5] exI [of _ ps5] conjI)
qed

section \<open>Sequences of block writes\<close>

definition apply_writes :: "(u32 \<times> byte list) list \<Rightarrow> (u32 \<Rightarrow> byte list) \<Rightarrow> u32 \<Rightarrow> byte list" where
  "apply_writes ws D = foldl (\<lambda>D (bn, d). D(bn := d)) D ws"

lemma apply_writes_simps [simp]:
  "apply_writes [] D = D"
  "apply_writes ((bn, d) # ws) D = apply_writes ws (D(bn := d))"
  "apply_writes (ws @ ws') D = apply_writes ws' (apply_writes ws D)"
  by (simp_all add: apply_writes_def)

lemma apply_writes_other: "bn \<notin> fst ` set ws \<Longrightarrow> apply_writes ws D bn = D bn"
  by (induction ws arbitrary: D) auto

lemma apply_writes_nth:
  "distinct (map fst ws) \<Longrightarrow> i < length ws \<Longrightarrow> apply_writes ws D (fst (ws ! i)) = snd (ws ! i)"
proof (induction ws arbitrary: D i)
  case (Cons w ws)
  obtain bn d where w: "w = (bn, d)" by force
  show ?case
  proof (cases i)
    case 0
    then show ?thesis using Cons.prems w apply_writes_other [of bn ws] by simp
  next
    case (Suc j)
    then show ?thesis using Cons w by simp
  qed
qed simp

text \<open>
  \<open>outcome s r ws C X\<close>: the result \<open>r\<close> of an operation run in \<open>s\<close> is a return; it has written \<open>ws\<close>
  to the disk, the content of the blocks is \<open>C\<close>, and apart from the buffers and the process table
  nothing has changed. Blocks outside \<open>X\<close> that were pinned still are.
\<close>

definition pins_but :: "u32 set \<Rightarrow> buf list \<Rightarrow> buf list \<Rightarrow> bool" where
  "pins_but X bs bs' \<longleftrightarrow> (\<forall>bn. bn \<notin> X \<longrightarrow> pinned bs bn \<longrightarrow> pinned bs' bn) \<and>
     (one_free bs \<longrightarrow> one_free bs') \<and> (two_free bs \<longrightarrow> two_free bs')"

definition after ::
  "'z bio_st_scheme \<Rightarrow> buf list \<Rightarrow> (slid \<Rightarrow> sleeplock) \<Rightarrow> proc list \<Rightarrow> (u32 \<times> byte list) list \<Rightarrow> 'z bio_st_scheme" where
  "after s bs sl ps ws =
     s\<lparr>bufs := bs, slocks := sl, procs := ps, disk := apply_writes ws (disk s), dwrites := dwrites s @ ws\<rparr>"

definition outcome ::
  "'z bio_st_scheme \<Rightarrow> (unit, 'z bio_st_scheme) result \<Rightarrow> (u32 \<times> byte list) list \<Rightarrow> (u32 \<Rightarrow> byte list) \<Rightarrow> u32 set \<Rightarrow> bool" where
  "outcome s r ws C X \<longleftrightarrow> (\<exists>bs sl ps. r = Ok () (after s bs sl ps ws) \<and> bc {} (after s bs sl ps ws) \<and>
     clean bs (apply_writes ws (disk s)) \<and> content_of bs (apply_writes ws (disk s)) = C \<and>
     pins_but X (bufs s) bs)"

lemma after_sel [simp]:
  "bufs (after s bs sl ps ws) = bs" "disk (after s bs sl ps ws) = apply_writes ws (disk s)"
  "dwrites (after s bs sl ps ws) = dwrites s @ ws"
  by (simp_all add: after_def)

lemma after_after [simp]: "after (after s bs sl ps ws) bs' sl' ps' ws' = after s bs' sl' ps' (ws @ ws')"
  by (cases s) (simp add: after_def)

lemma after_log [simp]:
  fixes s :: "'z log_st_scheme"
  shows "l_dev (after s bs sl ps ws) = l_dev s" "l_start (after s bs sl ps ws) = l_start s"
    "l_lh (after s bs sl ps ws) = l_lh s"
  by (simp_all add: after_def)

lemma pins_but_keeps: "keeps bs bs' \<Longrightarrow> pins_but X bs bs'"
  by (auto simp: pins_but_def keeps_pinned keeps_free)

lemma pins_but_trans: "pins_but X a b \<Longrightarrow> pins_but Y b c \<Longrightarrow> pins_but (X \<union> Y) a c"
  by (auto simp: pins_but_def)

text \<open>What an operation needs of the state of the cache.\<close>

definition ready :: "'z bio_st_scheme \<Rightarrow> bool" where
  "ready s \<longleftrightarrow> bc {} s \<and> clean (bufs s) (disk s) \<and> one_free (bufs s)"

lemma outcome_seq:
  assumes m: "outcome s (m s) ws C X" and one: "one_free (bufs s)"
    and f: "\<And>bs sl ps. ready (after s bs sl ps ws) \<Longrightarrow> content (after s bs sl ps ws) = C \<Longrightarrow>
      pins_but X (bufs s) bs \<Longrightarrow> outcome (after s bs sl ps ws) (f () (after s bs sl ps ws)) ws' C' Y"
  shows "outcome s (bnd m f s) (ws @ ws') C' (X \<union> Y)"
proof -
  obtain bs sl ps where 1: "m s = Ok () (after s bs sl ps ws)" "bc {} (after s bs sl ps ws)"
    "clean bs (apply_writes ws (disk s))" "content_of bs (apply_writes ws (disk s)) = C" "pins_but X (bufs s) bs"
    using m by (auto simp: outcome_def)
  then have "ready (after s bs sl ps ws)" using one by (simp add: ready_def pins_but_def)
  from f [OF this] 1 show ?thesis
    using pins_but_trans [OF 1(5)] unfolding outcome_def by (force simp: bnd_def)
qed

lemma outcome_ret:
  assumes "ready s"
  shows "outcome s (Ok () s) [] (content s) X"
proof -
  have "s = after s (bufs s) (slocks s) (procs s) []" by (cases s) (simp add: after_def)
  then show ?thesis
    using assms unfolding outcome_def ready_def
    by (intro exI [of _ "bufs s"] exI [of _ "slocks s"] exI [of _ "procs s"])
      (simp add: pins_but_def)
qed

section \<open>The loop bodies\<close>

definition log_bn :: "u32 \<Rightarrow> nat \<Rightarrow> u32" where
  "log_bn start i = start + of_nat i + 1"

definition write_log_body :: "nat \<Rightarrow> ('z log_st_scheme, unit) kmon" where
  "write_log_body tail =
       bnd (gets l_dev) (\<lambda>dev.
       bnd (gets l_start) (\<lambda>start.
       bnd (bread dev (start + of_nat tail + 1)) (\<lambda>to.
       bnd (log_blk tail) (\<lambda>blk.
       bnd (bread dev blk) (\<lambda>from.
       bnd (bget_buf from) (\<lambda>fb.
       seqM
        [bupd to (\<lambda>b. b\<lparr>b_data := b_data fb\<rparr>),
         bwrite to,
         brelse from,
         brelse to]))))))"

definition install_body :: "bool \<Rightarrow> nat \<Rightarrow> ('z log_st_scheme, unit) kmon" where
  "install_body recovering tail =
       bnd (gets l_dev) (\<lambda>dev.
       bnd (gets l_start) (\<lambda>start.
       bnd (bread dev (start + of_nat tail + 1)) (\<lambda>lbuf.
       bnd (log_blk tail) (\<lambda>blk.
       bnd (bread dev blk) (\<lambda>dbuf.
       bnd (bget_buf lbuf) (\<lambda>lb.
       seqM
        [bupd dbuf (\<lambda>b. b\<lparr>b_data := b_data lb\<rparr>),
         bwrite dbuf,
         whenM (\<not> recovering) (bunpin dbuf),
         brelse lbuf,
         brelse dbuf]))))))"

text \<open>Buffers that held other blocks before are not in use.\<close>

lemma copy_keeps:
  assumes "bufs_ok H bs" "x < NBUF" "y < NBUF" "x \<noteq> y"
    and o: "\<forall>c < NBUF. c \<noteq> x \<longrightarrow> c \<noteq> y \<longrightarrow> bs2 ! c = bs ! c"
    and k: "b_refcnt (bs ! x) \<noteq> 0 \<longrightarrow> holds_block A (bs ! x)" "b_refcnt (bs ! y) \<noteq> 0 \<longrightarrow> holds_block B (bs ! y)"
    and v: "b_valid (bs2 ! x)" "b_blockno (bs2 ! x) = A" "b_valid (bs2 ! y)" "b_blockno (bs2 ! y) = B"
    and d: "b_dev (bs2 ! x) = ROOTDEV" "b_dev (bs2 ! y) = ROOTDEV"
    and r: "b_refcnt (bs2 ! x) = b_refcnt (bs ! x) + 1" "b_refcnt (bs2 ! y) = b_refcnt (bs ! y) + 1"
    and e: "\<forall>c < NBUF. b_dev (bs3 ! c) = b_dev (bs2 ! c) \<and> b_blockno (bs3 ! c) = b_blockno (bs2 ! c) \<and>
      b_valid (bs3 ! c) = b_valid (bs2 ! c) \<and>
      b_refcnt (bs3 ! c) = b_refcnt (bs2 ! c) - (if c \<in> {x, y} then 1 else 0) - (if unpin \<and> c = y then 1 else 0)"
    and up: "unpin \<longrightarrow> b_refcnt (bs ! y) \<noteq> 0"
  shows "pins_but (if unpin then {B} else {}) bs bs3"
proof -
  have free: "b_refcnt (bs3 ! c) = 0" if "c < NBUF" "b_refcnt (bs ! c) = 0" for c
    using that o r e up assms(4) by (cases "c = x"; cases "c = y") auto
  have "pinned bs3 bn" if pin: "pinned bs bn" and nX: "bn \<notin> (if unpin then {B} else {})" for bn
  proof -
    obtain c where c: "c < NBUF" "holds_block bn (bs ! c)" "b_valid (bs ! c)" "b_refcnt (bs ! c) \<noteq> 0"
      using pin by (auto simp: pinned_def)
    have "holds_block bn (bs3 ! c) \<and> b_valid (bs3 ! c) \<and> b_refcnt (bs3 ! c) \<noteq> 0"
    proof (cases "c = x")
      case True
      then show ?thesis using c k(1) e v d r assms(4) by (auto simp: holds_block_def)
    next
      case x: False
      show ?thesis
      proof (cases "c = y")
        case True
        then show ?thesis using c k(2) e v d r nX by (auto simp: holds_block_def split: if_splits)
      next
        case False
        then show ?thesis using x c o e by (auto simp: holds_block_def)
      qed
    qed
    then show ?thesis using c(1) by (auto simp: pinned_def)
  qed
  then show ?thesis
    unfolding pins_but_def one_free_def two_free_def using free by blast
qed


lemma write_log_body_spec:
  fixes s :: "'z log_st_scheme"
  assumes rd: "ready s" and dev: "l_dev s = ROOTDEV" and i: "i < LOGSIZE"
    and bn: "blk = lh_block (l_lh s) ! i" "pinned (bufs s) blk" and ne: "log_bn (l_start s) i \<noteq> blk"
  shows "outcome s (write_log_body i s) [(log_bn (l_start s) i, content s blk)]
    ((content s)(log_bn (l_start s) i := content s blk)) {}"
proof -
  let ?A = "log_bn (l_start s) i"
  have bc: "bc {} s" and cl: "clean (bufs s) (disk s)" and one: "one_free (bufs s)"
    using rd by (auto simp: ready_def)
  from two_bread [OF bc cl ne one disjI1 [OF bn(2)]] obtain x y s1 bs sl where
    r1: "bread ROOTDEV ?A s = Ok x s1" and r2: "bread ROOTDEV blk s1 = Ok y (s\<lparr>bufs := bs, slocks := sl\<rparr>)"
    and xy: "x \<noteq> y" "x < NBUF" "y < NBUF" and bc2: "bc {x, y} (s\<lparr>bufs := bs, slocks := sl\<rparr>)"
    and cl2: "clean bs (disk s)" and s1: "\<exists>t. s1 = s\<lparr>bufs := fst t, slocks := snd t\<rparr>"
    and x: "b_valid (bs ! x)" "b_blockno (bs ! x) = ?A" "b_data (bs ! x) = content s ?A"
    and y: "b_valid (bs ! y)" "b_blockno (bs ! y) = blk" "b_data (bs ! y) = content s blk"
    and c2: "content_of bs (disk s) = content s"
    and o: "\<forall>c < NBUF. c \<noteq> x \<longrightarrow> c \<noteq> y \<longrightarrow> bs ! c = bufs s ! c"
    and r: "b_refcnt (bs ! x) = b_refcnt (bufs s ! x) + 1" "b_refcnt (bs ! y) = b_refcnt (bufs s ! y) + 1"
    and k: "b_refcnt (bufs s ! x) \<noteq> 0 \<longrightarrow> holds_block ?A (bufs s ! x)"
      "b_refcnt (bufs s ! y) \<noteq> 0 \<longrightarrow> holds_block blk (bufs s ! y)" by blast
  let ?s2 = "s\<lparr>bufs := bs, slocks := sl\<rparr>"
  have ok: "bufs_ok {x, y} bs" "bufs_ok {} (bufs s)" using bc2 bc by (simp_all add: bc_def)
  have dv: "b_dev (bs ! x) = ROOTDEV" "b_dev (bs ! y) = ROOTDEV" using ok(1) x y xy by (auto simp: bufs_ok_def)
  have bc2': "bc {y, x} ?s2" using bc2 by (simp only: insert_commute)
  have src: "b_data (bufs ?s2 ! c) = disk ?s2 (b_blockno (bufs ?s2 ! c))"
    if "c \<in> {y, x}" "c \<noteq> x" "b_refcnt (bufs ?s2 ! c) = 1" for c
  proof -
    have cy: "c = y" using that by simp
    then have "b_refcnt (bufs s ! y) = 0" using that r by simp
    obtain b where b: "b < NBUF" "holds_block blk (bufs s ! b)" "b_refcnt (bufs s ! b) \<noteq> 0"
      using bn(2) by (auto simp: pinned_def)
    have "b \<noteq> x" using b k(1) ne by (auto simp: holds_block_def)
    moreover have "b \<noteq> y" using b \<open>b_refcnt (bufs s ! y) = 0\<close> by auto
    ultimately have "holds_block blk (bs ! b)" using o b by simp
    then have "b = y" using bufs_ok_unique [OF ok(1) b(1) xy(3)] y dv by (auto simp: holds_block_def)
    then show ?thesis using \<open>b \<noteq> y\<close> by simp
  qed
  have f: "\<exists>bs3 sl3 ps3. seqM [bupd x (\<lambda>b. b\<lparr>b_data := content s blk\<rparr>), bwrite x, whenM False (bunpin x), brelse y, brelse x] ?s2 =
      Ok () (after s bs3 sl3 ps3 [(?A, content s blk)]) \<and> bc {} (after s bs3 sl3 ps3 [(?A, content s blk)]) \<and>
      clean bs3 ((disk s)(?A := content s blk)) \<and>
      content_of bs3 ((disk s)(?A := content s blk)) = (content s)(?A := content s blk) \<and>
      pins_but {} (bufs s) bs3"
  proof -
    from finish_copy [OF bc2' xy(1) [symmetric], of x False ?A "content s blk"] obtain bs3 sl3 ps3 where
      q: "seqM [bupd x (\<lambda>b. b\<lparr>b_data := content s blk\<rparr>), bwrite x, whenM False (bunpin x), brelse y, brelse x] ?s2 =
        Ok () (?s2\<lparr>bufs := bs3, slocks := sl3, procs := ps3, disk := (disk s)(?A := content s blk),
          dwrites := dwrites s @ [(?A, content s blk)]\<rparr>)"
      "bc {} (?s2\<lparr>bufs := bs3, slocks := sl3, procs := ps3, disk := (disk s)(?A := content s blk),
          dwrites := dwrites s @ [(?A, content s blk)]\<rparr>)"
      "clean bs3 ((disk s)(?A := content s blk))"
      "content_of bs3 ((disk s)(?A := content s blk)) = (content s)(?A := content s blk)"
      "\<forall>c < NBUF. b_dev (bs3 ! c) = b_dev (bs ! c) \<and> b_blockno (bs3 ! c) = b_blockno (bs ! c) \<and>
        b_valid (bs3 ! c) = b_valid (bs ! c) \<and>
        b_refcnt (bs3 ! c) = b_refcnt (bs ! c) - (if c \<in> {y, x} then 1 else 0)"
      using cl2 x y c2 src by auto
    have "?s2\<lparr>bufs := bs3, slocks := sl3, procs := ps3, disk := (disk s)(?A := content s blk),
          dwrites := dwrites s @ [(?A, content s blk)]\<rparr> = after s bs3 sl3 ps3 [(?A, content s blk)]"
      by (cases s) (simp add: after_def)
    moreover have "pins_but {} (bufs s) bs3"
      using copy_keeps [OF ok(2) xy(2,3,1) o k x(1,2) y(1,2) dv r, of bs3 False] q(5) by (simp add: insert_commute)
    ultimately show ?thesis using q by auto
  qed
  obtain t where t: "s1 = s\<lparr>bufs := fst t, slocks := snd t\<rparr>" using s1 by blast
  have "write_log_body i s =
      seqM [bupd x (\<lambda>b. b\<lparr>b_data := content s blk\<rparr>), bwrite x, whenM False (bunpin x), brelse y, brelse x] ?s2"
    using r1 r2 y i dev bn(1) unfolding t
    by (simp add: write_log_body_def log_bn_def bnd_def [of "bread _ _"] bnd_def [of "gets _"] bnd_def [of "\<lambda>a. Ok (f a) a" for f] bnd_def [of "bget_buf _"] bget_buf_def gets_def log_blk_def lh_check_def)
  then show ?thesis using f unfolding outcome_def by simp
qed


lemma install_body_spec:
  fixes s :: "'z log_st_scheme"
  assumes rd: "ready s" and dev: "l_dev s = ROOTDEV" and i: "i < LOGSIZE"
    and bn: "blk = lh_block (l_lh s) ! i" and ne: "log_bn (l_start s) i \<noteq> blk"
    and pin: "if recovering then two_free (bufs s) else pinned (bufs s) blk"
  shows "outcome s (install_body recovering i s) [(blk, content s (log_bn (l_start s) i))]
    ((content s)(blk := content s (log_bn (l_start s) i))) (if recovering then {} else {blk})"
proof -
  let ?A = "log_bn (l_start s) i" and ?u = "\<not> recovering"
  have bc: "bc {} s" and cl: "clean (bufs s) (disk s)" and one: "one_free (bufs s)"
    using rd by (auto simp: ready_def)
  have rm: "pinned (bufs s) blk \<or> two_free (bufs s)" using pin by (auto split: if_splits)
  from two_bread [OF bc cl ne one rm] obtain x y s1 bs sl where
    r1: "bread ROOTDEV ?A s = Ok x s1" and r2: "bread ROOTDEV blk s1 = Ok y (s\<lparr>bufs := bs, slocks := sl\<rparr>)"
    and xy: "x \<noteq> y" "x < NBUF" "y < NBUF" and bc2: "bc {x, y} (s\<lparr>bufs := bs, slocks := sl\<rparr>)"
    and cl2: "clean bs (disk s)" and s1: "\<exists>t. s1 = s\<lparr>bufs := fst t, slocks := snd t\<rparr>"
    and x: "b_valid (bs ! x)" "b_blockno (bs ! x) = ?A" "b_data (bs ! x) = content s ?A"
    and y: "b_valid (bs ! y)" "b_blockno (bs ! y) = blk" "b_data (bs ! y) = content s blk"
    and c2: "content_of bs (disk s) = content s"
    and o: "\<forall>c < NBUF. c \<noteq> x \<longrightarrow> c \<noteq> y \<longrightarrow> bs ! c = bufs s ! c"
    and r: "b_refcnt (bs ! x) = b_refcnt (bufs s ! x) + 1" "b_refcnt (bs ! y) = b_refcnt (bufs s ! y) + 1"
    and k: "b_refcnt (bufs s ! x) \<noteq> 0 \<longrightarrow> holds_block ?A (bufs s ! x)"
      "b_refcnt (bufs s ! y) \<noteq> 0 \<longrightarrow> holds_block blk (bufs s ! y)" by blast
  let ?s2 = "s\<lparr>bufs := bs, slocks := sl\<rparr>"
  have ok: "bufs_ok {x, y} bs" "bufs_ok {} (bufs s)" using bc2 bc by (simp_all add: bc_def)
  have dv: "b_dev (bs ! x) = ROOTDEV" "b_dev (bs ! y) = ROOTDEV" using ok(1) x y xy by (auto simp: bufs_ok_def)
  have up: "b_refcnt (bufs s ! y) \<noteq> 0" if nr: "?u"
  proof -
    obtain b where b: "b < NBUF" "holds_block blk (bufs s ! b)" "b_refcnt (bufs s ! b) \<noteq> 0"
      using nr pin by (auto simp: pinned_def)
    have "b \<noteq> x" using b k(1) ne by (auto simp: holds_block_def)
    moreover have "b = y" if "b \<noteq> y"
      using bufs_ok_unique [OF ok(1) b(1) xy(3), of blk] b o that \<open>b \<noteq> x\<close> y dv by (simp add: holds_block_def)
    ultimately show ?thesis using b by blast
  qed
  have src: "b_data (bufs ?s2 ! c) = disk ?s2 (b_blockno (bufs ?s2 ! c))"
    if "c \<in> {x, y}" "c \<noteq> y" "b_refcnt (bufs ?s2 ! c) = 1" for c
  proof -
    have cx: "c = x" using that by simp
    then have z: "b_refcnt (bufs s ! x) = 0" using that r by simp
    have "\<not> pinned (bufs s) ?A"
    proof
      assume "pinned (bufs s) ?A"
      then obtain b where b: "b < NBUF" "holds_block ?A (bufs s ! b)" "b_refcnt (bufs s ! b) \<noteq> 0"
        by (auto simp: pinned_def)
      have "b \<noteq> y" using b k(2) ne by (auto simp: holds_block_def)
      moreover have "b \<noteq> x" using b z by auto
      ultimately have "b = x"
        using bufs_ok_unique [OF ok(1) b(1) xy(2), of ?A] b o x dv by (simp add: holds_block_def)
      then show False using \<open>b \<noteq> x\<close> by simp
    qed
    then show ?thesis using clean_content [OF ok(2) cl] x cx by simp
  qed
  have f: "\<exists>bs3 sl3 ps3. seqM [bupd y (\<lambda>b. b\<lparr>b_data := content s ?A\<rparr>), bwrite y, whenM ?u (bunpin y), brelse x, brelse y] ?s2 =
      Ok () (after s bs3 sl3 ps3 [(blk, content s ?A)]) \<and> bc {} (after s bs3 sl3 ps3 [(blk, content s ?A)]) \<and>
      clean bs3 ((disk s)(blk := content s ?A)) \<and>
      content_of bs3 ((disk s)(blk := content s ?A)) = (content s)(blk := content s ?A) \<and>
      pins_but (if ?u then {blk} else {}) (bufs s) bs3"
  proof -
    from finish_copy [OF bc2 xy(1), of y ?u blk "content s ?A"] obtain bs3 sl3 ps3 where
      q: "seqM [bupd y (\<lambda>b. b\<lparr>b_data := content s ?A\<rparr>), bwrite y, whenM ?u (bunpin y), brelse x, brelse y] ?s2 =
        Ok () (?s2\<lparr>bufs := bs3, slocks := sl3, procs := ps3, disk := (disk s)(blk := content s ?A),
          dwrites := dwrites s @ [(blk, content s ?A)]\<rparr>)"
      "bc {} (?s2\<lparr>bufs := bs3, slocks := sl3, procs := ps3, disk := (disk s)(blk := content s ?A),
          dwrites := dwrites s @ [(blk, content s ?A)]\<rparr>)"
      "clean bs3 ((disk s)(blk := content s ?A))"
      "content_of bs3 ((disk s)(blk := content s ?A)) = (content s)(blk := content s ?A)"
      "\<forall>c < NBUF. b_dev (bs3 ! c) = b_dev (bs ! c) \<and> b_blockno (bs3 ! c) = b_blockno (bs ! c) \<and>
        b_valid (bs3 ! c) = b_valid (bs ! c) \<and>
        b_refcnt (bs3 ! c) = b_refcnt (bs ! c) - (if c \<in> {x, y} then 1 else 0) - (if ?u \<and> c = y then 1 else 0)"
      using cl2 x y c2 src up r by auto
    have "?s2\<lparr>bufs := bs3, slocks := sl3, procs := ps3, disk := (disk s)(blk := content s ?A),
          dwrites := dwrites s @ [(blk, content s ?A)]\<rparr> = after s bs3 sl3 ps3 [(blk, content s ?A)]"
      by (cases s) (simp add: after_def)
    moreover have "pins_but (if ?u then {blk} else {}) (bufs s) bs3"
      using copy_keeps [OF ok(2) xy(2,3,1) o k x(1,2) y(1,2) dv r q(5)] up by blast
    ultimately show ?thesis using q(1-4) by (intro exI [of _ bs3] exI [of _ sl3] exI [of _ ps3] conjI) simp_all
  qed
  obtain t where t: "s1 = s\<lparr>bufs := fst t, slocks := snd t\<rparr>" using s1 by blast
  have "install_body recovering i s =
      seqM [bupd y (\<lambda>b. b\<lparr>b_data := content s ?A\<rparr>), bwrite y, whenM ?u (bunpin y), brelse x, brelse y] ?s2"
    using r1 r2 x i dev bn unfolding t
    by (simp add: install_body_def log_bn_def bnd_def [of "bread _ _"] bnd_def [of "gets _"]
      bnd_def [of "\<lambda>a. Ok (f a) a" for f] bnd_def [of "bget_buf _"] bget_buf_def gets_def log_blk_def lh_check_def)
  then show ?thesis using f unfolding outcome_def by (simp split: if_splits)
qed


section \<open>The loops\<close>

lemma outcome_forM:
  assumes body: "\<And>j bs sl ps. j < n \<Longrightarrow> ready (after s bs sl ps (map w [0..<j])) \<Longrightarrow>
      content (after s bs sl ps (map w [0..<j])) = C j \<Longrightarrow> pins_but (\<Union>i<j. X i) (bufs s) bs \<Longrightarrow>
      outcome (after s bs sl ps (map w [0..<j])) (f j (after s bs sl ps (map w [0..<j]))) [w j] (C (Suc j)) (X j)"
    and rd: "ready s" and C0: "C 0 = content s"
  shows "outcome s (forM [0..<n] f s) (map w [0..<n]) (C n) (\<Union>i<n. X i)"
  using body
proof (induction n)
  case 0
  then show ?case using outcome_ret [OF rd, of "{}"] C0 by simp
next
  case (Suc n)
  have one: "one_free (bufs s)" using rd by (simp add: ready_def)
  have IH: "outcome s (forM [0..<n] f s) (map w [0..<n]) (C n) (\<Union>i<n. X i)"
    by (rule Suc.IH) (rule Suc.prems, simp_all)
  have "outcome s (bnd (forM [0..<n] f) (\<lambda>_. f n) s) (map w [0..<n] @ [w n]) (C (Suc n)) ((\<Union>i<n. X i) \<union> X n)"
    by (rule outcome_seq [where m = "forM [0..<n] f", OF IH one]) (rule Suc.prems, simp_all)
  moreover have "forM [0..<Suc n] f s = bnd (forM [0..<n] f) (\<lambda>_. f n) s" by (simp add: forM_snoc)
  moreover have "(\<Union>i<Suc n. X i) = (\<Union>i<n. X i) \<union> X n" by (auto simp: less_Suc_eq)
  ultimately show ?case by simp
qed

end
