(* ===== verification/Bcache.thy ===== *)
theory Bcache
  imports Bio
begin

text \<open>
  The buffer cache (kernel/bio.c) from the outside: \<open>binit\<close> builds the list of buffers, \<open>bget\<close>
  recycles the least recently used one, and a thread that follows the rules of use sees a store of
  blocks, whatever the cache keeps, drops or reads again.
\<close>

section \<open>Start-up\<close>

lemma initsleeplock_run:
  "initsleeplock l s = Ok () (s\<lparr>slocks := (slocks s)(l := \<lparr>sl_locked = False, sl_pid = 0\<rparr>)\<rparr>)"
  by (simp add: initsleeplock_def)

lemma binit_loop:
  fixes s :: "'z bio_st_scheme"
  assumes "bring (bufs s) []" "n \<le> NBUF"
  shows "\<exists>bs sl. forM [0..<n] (\<lambda>b. seqM [initsleeplock (BufLock b), link_front b]) s =
      Ok () (s\<lparr>bufs := bs, slocks := sl\<rparr>) \<and> bring bs (rev [0..<n]) \<and> same_bufs (bufs s) bs \<and>
      (\<forall>b < n. sl (BufLock b) = \<lparr>sl_locked = False, sl_pid = 0\<rparr>)"
  using assms(2)
proof (induction n)
  case 0
  have "s = s\<lparr>bufs := bufs s, slocks := slocks s\<rparr>" by simp
  then show ?case using assms(1) same_bufs_refl
    by (intro exI [of _ "bufs s"] exI [of _ "slocks s"]) simp
next
  case (Suc n)
  then obtain bs sl where 1: "forM [0..<n] (\<lambda>b. seqM [initsleeplock (BufLock b), link_front b]) s =
      Ok () (s\<lparr>bufs := bs, slocks := sl\<rparr>)" and r: "bring bs (rev [0..<n])" and sm: "same_bufs (bufs s) bs"
    and sl: "\<forall>b < n. sl (BufLock b) = \<lparr>sl_locked = False, sl_pid = 0\<rparr>" by auto
  let ?sl = "sl(BufLock n := \<lparr>sl_locked = False, sl_pid = 0\<rparr>)"
  have n: "n < NBUF" "n \<noteq> bhead" "n < length bs" using Suc.prems r by (auto simp: bring_def)
  have "seqM [initsleeplock (BufLock n), link_front n] (s\<lparr>bufs := bs, slocks := sl\<rparr>) =
      Ok () (s\<lparr>bufs := link_front_bufs n bs, slocks := ?sl\<rparr>)"
    using n by (simp add: bnd_case initsleeplock_run link_front_run)
  then have "forM [0..<Suc n] (\<lambda>b. seqM [initsleeplock (BufLock b), link_front b]) s =
      Ok () (s\<lparr>bufs := link_front_bufs n bs, slocks := ?sl\<rparr>)"
    using 1 by (simp add: forM_snoc bnd_case del: seqM.simps)
  moreover have "bring (link_front_bufs n bs) (rev [0..<Suc n])"
    using bring_link_front [OF r n(1)] by simp
  moreover have "same_bufs (bufs s) (link_front_bufs n bs)"
    by (rule same_bufs_trans [OF sm same_bufs_link_front])
  ultimately show ?case using sl by (intro exI [of _ "link_front_bufs n bs"] exI [of _ ?sl]) (simp add: less_Suc_eq del: fun_upd_apply, simp)
qed

lemma binit_spec:
  fixes s :: "'z bio_st_scheme"
  assumes "length (bufs s) = NBUF + 1"
  shows "\<exists>bs sl. binit s = Ok () (s\<lparr>bufs := bs, slocks := sl\<rparr>) \<and> bring bs (rev [0..<NBUF]) \<and>
    same_bufs (bufs s) bs \<and> (\<forall>b < NBUF. sl (BufLock b) = \<lparr>sl_locked = False, sl_pid = 0\<rparr>)"
proof -
  let ?bs = "(bufs s)[bhead := (bufs s ! bhead)\<lparr>b_prev := bhead, b_next := bhead\<rparr>]"
  have r: "bring (bufs (s\<lparr>bufs := ?bs\<rparr>)) []" using assms by (simp add: bring_def bnexts_def bprevs_def)
  have sm: "same_bufs (bufs s) ?bs" by (rule same_bufs_upd) simp
  have "binit s = forM [0..<NBUF] (\<lambda>b. seqM [initsleeplock (BufLock b), link_front b]) (s\<lparr>bufs := ?bs\<rparr>)"
    using assms by (simp add: binit_def bupd_def)
  then show ?thesis using binit_loop [OF r, of NBUF] same_bufs_trans [OF sm] by auto
qed

lemma fresh_ok:
  assumes "bring bs L" "set L = {..<NBUF}" and v: "\<forall>b < NBUF. \<not> b_valid (bs ! b) \<and> b_refcnt (bs ! b) = 0 \<and> b_dev (bs ! b) = 0"
  shows "bufs_ok {} bs" "clean bs D" "content_of bs D = D"
proof -
  show "bufs_ok {} bs" using assms unfolding bufs_ok_def by (auto simp: holds_block_def ROOTDEV_def)
  show "clean bs D" using v by (simp add: clean_def)
  show "content_of bs D = D" using v by (auto simp: content_of_none)
qed

section \<open>Least recently used\<close>

lemma bpath_unique:
  "bpath f x L z \<Longrightarrow> bpath f x L' z \<Longrightarrow> z \<notin> set L \<Longrightarrow> z \<notin> set L' \<Longrightarrow> L = L'"
proof (induction L arbitrary: x L')
  case Nil
  then show ?case by (cases L') auto
next
  case (Cons a L)
  then show ?case by (cases L') auto
qed

lemma bring_unique: "bring bs L \<Longrightarrow> bring bs L' \<Longrightarrow> L = L'"
  by (rule bpath_unique [of "bnexts bs" bhead _ bhead]) (auto simp: bring_def)

lemma bget_none:
  assumes "held s = []" "bring (bufs s) L" "find (\<lambda>b. holds_block bn (bufs s ! b)) L = None"
    "find (\<lambda>b. b_refcnt (bufs s ! b) = 0) (rev L) = None"
  shows "bget ROOTDEV bn s = Panic ''bget: no buffers''"
proof -
  have "scan_next (NBUF + 1) (\<lambda>b. b_dev b = ROOTDEV \<and> b_blockno b = bn) (bufs s) (b_next (bufs s ! bhead)) = None"
    "scan_prev (NBUF + 1) (\<lambda>b. b_refcnt b = 0) (bufs s) (b_prev (bufs s ! bhead)) = None"
    using bring_scan [OF assms(2)] assms(3,4) by (simp_all add: holds_block_def del: scan_next.simps scan_prev.simps)
  then show ?thesis using assms(1)
    by (simp add: bget_def bnd_case acquire_def del: scan_next.simps scan_prev.simps)
qed

lemma bget_lru:
  assumes bc: "bc H s" and L: "bring (bufs s) L" and none: "find (\<lambda>b. holds_block bn (bufs s ! b)) L = None"
    and f: "find (\<lambda>b. b_refcnt (bufs s ! b) = 0) (rev L) = Some b"
  shows "bget ROOTDEV bn s = Ok b (s\<lparr>bufs := (bufs s)[b := (bufs s ! b)\<lparr>b_dev := ROOTDEV, b_blockno := bn,
      b_valid := False, b_refcnt := 1\<rparr>],
    slocks := (slocks s)(BufLock b := \<lparr>sl_locked = True, sl_pid = my_pid s\<rparr>)\<rparr>)"
proof -
  let ?P = "\<lambda>b. b_dev b = ROOTDEV \<and> b_blockno b = bn"
  have scan: "scan_next (NBUF + 1) ?P (bufs s) (b_next (bufs s ! bhead)) = None"
    and scan2: "scan_prev (NBUF + 1) (\<lambda>b. b_refcnt b = 0) (bufs s) (b_prev (bufs s ! bhead)) = Some b"
    using bring_scan [OF L] none f by (simp_all add: holds_block_def del: scan_next.simps scan_prev.simps)
  have "b \<in> set (rev L)" "b_refcnt (bufs s ! b) = 0"
    using f unfolding find_Some_iff by (metis nth_mem)+
  then have b: "b < NBUF" "b_refcnt (bufs s ! b) = 0" "b \<notin> H"
    using L bc by (auto simp: bring_def bc_def bufs_ok_def)
  obtain p where p: "cur s = Some p" "held s = []" "\<not> sl_locked (slocks s (BufLock b))"
    using bc b by (auto simp: bc_def thr_ok_def locks_ok_def)
  show ?thesis
    using p scan scan2 acquiresleep_run [of "BufLock b" "s\<lparr>bufs := (bufs s)[b := (bufs s ! b)\<lparr>b_dev := ROOTDEV, b_blockno := bn,
      b_valid := False, b_refcnt := 1\<rparr>]\<rparr>" p]
    by (simp add: bget_def bnd_def acquire_def release_def bupd_def my_pid_def held_same del: scan_next.simps scan_prev.simps)
qed


lemma brelse_front:
  assumes bc: "bc H s" and b: "b \<in> H" "b_refcnt (bufs s ! b) = 1" and L: "bring (bufs s) L"
  shows "bring (brelse_bufs b (bufs s)) (b # remove1 b L)"
proof -
  let ?bs1 = "(bufs s)[b := (bufs s ! b)\<lparr>b_refcnt := b_refcnt (bufs s ! b) - 1\<rparr>]"
  have ok: "bufs_ok H (bufs s)" and thr: "thr_ok s" using bc by (auto simp: bc_def)
  note bD = bc_D [OF bc b(1)]
  have len: "length (bufs s) = NBUF + 1" by (rule bufs_ok_length [OF ok])
  obtain L' where L': "bring (bufs s) L'" "set L' = {..<NBUF}" using ok by (auto simp: bufs_ok_def)
  have "L = L'" by (rule bring_unique [OF L L'(1)])
  then have "b \<in> set L" using L' bD by simp
  then obtain xs ys where xy: "L = xs @ b # ys" "b \<notin> set xs" by (metis split_list_first)
  have L1: "bring ?bs1 L" by (rule bring_update [OF L]) simp_all
  have r: "bring (link_front_bufs b (unlink_bufs b ?bs1)) (b # xs @ ys)"
  proof (rule bring_link_front)
    show "bring (unlink_bufs b ?bs1) (xs @ ys)" using L1 xy by (simp add: bring_unlink)
    show "b \<notin> set (xs @ ys)" using L xy by (auto simp: bring_def)
  qed (rule bD)
  have e: "brelse_bufs b (bufs s) = link_front_bufs b (unlink_bufs b ?bs1)"
    using b bD by (simp add: brelse_bufs_def Let_def)
  have "remove1 b L = xs @ ys" using xy by (simp add: remove1_append)
  then show ?thesis using r unfolding e by simp
qed

section \<open>The cache as a store of blocks\<close>

lemma bpin_spec:
  assumes bc: "bc H s" and b: "b \<in> H" and lim: "unat (b_refcnt (bufs s ! b)) \<le> 65536"
    and cl: "clean (bufs s) (disk s)"
  defines "bs \<equiv> (bufs s)[b := (bufs s ! b)\<lparr>b_refcnt := b_refcnt (bufs s ! b) + 1\<rparr>]"
  shows "bpin b s = Ok () (s\<lparr>bufs := bs\<rparr>)" "bc H (s\<lparr>bufs := bs\<rparr>)" "clean bs (disk s)"
    "content_of bs (disk s) = content s"
proof -
  have ok: "bufs_ok H (bufs s)" using bc by (simp add: bc_def)
  note bD = bc_D [OF bc b]
  show "bpin b s = Ok () (s\<lparr>bufs := bs\<rparr>)"
    using bc bpin_run [of s b] by (simp add: bs_def bc_def thr_ok_def)
  have r: "unat (b_refcnt (bufs s ! b) + 1) = unat (b_refcnt (bufs s ! b)) + 1"
    using lim by (simp add: unat_word_ariths)
  then have r0: "b_refcnt (bufs s ! b) + 1 \<noteq> 0" by (metis add_is_0 unat_0 zero_neq_one)
  have "\<not> holds_block bn (bufs s ! c)"
    if "holds_block bn ((bufs s ! b)\<lparr>b_refcnt := b_refcnt (bufs s ! b) + 1\<rparr>)" "c < NBUF" "c \<noteq> b" for bn c
    using that bufs_ok_unique [OF ok _ bD(1), of c bn] by (auto simp: holds_block_def)
  moreover have "b_valid (bufs s ! b) \<Longrightarrow> b_dev (bufs s ! b) = ROOTDEV" using ok bD by (auto simp: bufs_ok_def)
  ultimately have ok': "bufs_ok H bs"
    unfolding bs_def using b r r0 lim by (intro bufs_ok_upd [OF ok bD(1)]) auto
  then show "bc H (s\<lparr>bufs := bs\<rparr>)" using bc by (simp add: bc_def thr_ok_def my_pid_def)
  show "clean bs (disk s)" using cl r0 bD by (auto simp: clean_def bs_def nth_list_update_if)
  show "content_of bs (disk s) = content s"
    by (rule ext, rule content_of_eqI [OF ok ok']) (auto simp: bs_def nth_list_update_if split: if_splits)
qed

text \<open>
  The operations of one thread on the cache, in any order that respects the rules of use in
  kernel/bio.c: only buffers the thread has locked are changed, written, pinned or released; no block
  is read twice without a release; and the last reference to a buffer is dropped only when its data
  is on the disk. The events are the blocks read, with the data the buffer had, and the
  changes made to blocks.
\<close>

datatype bevent = BRead u32 "byte list" | BChange u32 "byte list"

inductive bcache_run :: "'z bio_st_scheme \<Rightarrow> bevent list \<Rightarrow> nat set \<Rightarrow> 'z bio_st_scheme \<Rightarrow> bool" for s0 where
  start: "bcache_run s0 [] {} s0"
| read: "bcache_run s0 es H s \<Longrightarrow> room (bufs s) bn \<Longrightarrow> \<forall>b \<in> H. b_blockno (bufs s ! b) \<noteq> bn \<Longrightarrow>
    bread ROOTDEV bn s = Ok b s' \<Longrightarrow> bcache_run s0 (es @ [BRead bn (b_data (bufs s' ! b))]) (insert b H) s'"
| change: "bcache_run s0 es H s \<Longrightarrow> b \<in> H \<Longrightarrow> bupd b (\<lambda>x. x\<lparr>b_data := d\<rparr>) s = Ok () s' \<Longrightarrow>
    bcache_run s0 (es @ [BChange (b_blockno (bufs s ! b)) d]) H s'"
| wr: "bcache_run s0 es H s \<Longrightarrow> b \<in> H \<Longrightarrow> bwrite b s = Ok () s' \<Longrightarrow> bcache_run s0 es H s'"
| pin: "bcache_run s0 es H s \<Longrightarrow> b \<in> H \<Longrightarrow> unat (b_refcnt (bufs s ! b)) \<le> 65536 \<Longrightarrow>
    bpin b s = Ok () s' \<Longrightarrow> bcache_run s0 es H s'"
| unpin: "bcache_run s0 es H s \<Longrightarrow> b \<in> H \<Longrightarrow> b_refcnt (bufs s ! b) \<noteq> 1 \<Longrightarrow>
    bunpin b s = Ok () s' \<Longrightarrow> bcache_run s0 es H s'"
| rel: "bcache_run s0 es H s \<Longrightarrow> b \<in> H \<Longrightarrow>
    b_refcnt (bufs s ! b) = 1 \<longrightarrow> b_data (bufs s ! b) = disk s (b_blockno (bufs s ! b)) \<Longrightarrow>
    brelse b s = Ok () s' \<Longrightarrow> bcache_run s0 es (H - {b}) s'"

text \<open>The specification: a map from block numbers to data.\<close>

fun replay :: "(u32 \<Rightarrow> byte list) \<Rightarrow> bevent list \<Rightarrow> (u32 \<Rightarrow> byte list) option" where
  "replay C [] = Some C"
| "replay C (BRead bn d # es) = (if C bn = d then replay C es else None)"
| "replay C (BChange bn d # es) = replay (C(bn := d)) es"

lemma replay_snoc:
  "replay C (es @ [BRead bn d]) = (case replay C es of None \<Rightarrow> None | Some C' \<Rightarrow> if C' bn = d then Some C' else None)"
  "replay C (es @ [BChange bn d]) = (case replay C es of None \<Rightarrow> None | Some C' \<Rightarrow> Some (C'(bn := d)))"
  by (induction C es rule: replay.induct) simp_all

definition bcache_inv :: "nat set \<Rightarrow> 'z bio_st_scheme \<Rightarrow> bool" where
  "bcache_inv H s \<longleftrightarrow> bc H s \<and> clean (bufs s) (disk s) \<and> (\<forall>b \<in> H. b_valid (bufs s ! b))"

lemma bcache_inv_D:
  assumes "bcache_inv H s" "b \<in> H"
  shows "bc H s" "clean (bufs s) (disk s)" "b_valid (bufs s ! b)" "content s (b_blockno (bufs s ! b)) = b_data (bufs s ! b)"
    "b < NBUF" "length (bufs s) = NBUF + 1"
proof -
  show 1: "bc H s" "clean (bufs s) (disk s)" "b_valid (bufs s ! b)" using assms by (auto simp: bcache_inv_def)
  then have ok: "bufs_ok H (bufs s)" by (simp add: bc_def)
  show "b < NBUF" using bc_D(1) [OF 1(1) assms(2)] .
  then show "content s (b_blockno (bufs s ! b)) = b_data (bufs s ! b)" using content_of_valid [OF ok _ 1(3)] by simp
  show "length (bufs s) = NBUF + 1" by (rule bufs_ok_length [OF ok])
qed

lemma bcache_inv_read:
  assumes "bcache_inv H s" "room (bufs s) bn" "\<forall>b \<in> H. b_blockno (bufs s ! b) \<noteq> bn" "bread ROOTDEV bn s = Ok b s'"
  shows "bcache_inv (insert b H) s'" "content s' = content s" "b_data (bufs s' ! b) = content s bn"
proof -
  have bc: "bc H s" "clean (bufs s) (disk s)" and v: "\<forall>b \<in> H. b_valid (bufs s ! b)"
    using assms(1) by (auto simp: bcache_inv_def)
  have nh: "\<And>b. b \<in> H \<Longrightarrow> \<not> holds_block bn (bufs s ! b)" using assms(3) by (auto simp: holds_block_def)
  from bread_spec [OF bc assms(2) nh] assms(4) obtain bs sl where
    s': "s' = s\<lparr>bufs := bs, slocks := sl\<rparr>" "b < NBUF" "b \<notin> H" "bc (insert b H) s'" "clean bs (disk s)"
    "b_valid (bs ! b)" "b_data (bs ! b) = content s bn" "content_of bs (disk s) = content s"
    and o: "\<forall>c < NBUF. c \<noteq> b \<longrightarrow> bs ! c = bufs s ! c" by auto
  have "c < NBUF" if "c \<in> H" for c using bc_D(1) [OF bc(1) that] .
  then have "\<forall>c \<in> insert b H. b_valid (bs ! c)" using v o s'(3,6) by (metis insert_iff)
  then show "bcache_inv (insert b H) s'" "content s' = content s" "b_data (bufs s' ! b) = content s bn"
    using s' by (simp_all add: bcache_inv_def)
qed

lemma bcache_inv_release:
  assumes i: "bcache_inv H s" and b: "b \<in> H" and last: "b_refcnt (bufs s ! b) = 1 \<longrightarrow> b_data (bufs s ! b) = disk s (b_blockno (bufs s ! b))"
    and r: "brelse b s = Ok () s'"
  shows "bcache_inv (H - {b}) s'" "content s' = content s"
proof -
  note D = bcache_inv_D [OF i b]
  have "b_refcnt (bufs s ! b) = 1 \<Longrightarrow> b_valid (bufs s ! b) \<Longrightarrow> b_data (bufs s ! b) = disk s (b_blockno (bufs s ! b))"
    using last by simp
  from brelse_spec [OF D(1) b D(2) this] r obtain bs sl ps where
    s': "s' = s\<lparr>bufs := bs, slocks := sl, procs := ps\<rparr>" "bc (H - {b}) s'" "clean bs (disk s)"
    "content_of bs (disk s) = content s"
    and sm: "same_bufs ((bufs s)[b := (bufs s ! b)\<lparr>b_refcnt := b_refcnt (bufs s ! b) - 1\<rparr>]) bs" by auto
  have "b_valid (bs ! c)" if "c \<in> H" for c
    using same_bufs_D(1) [OF sm, of c] bcache_inv_D(3,5,6) [OF i that] by (simp add: nth_list_update_if split: if_splits)
  then show "bcache_inv (H - {b}) s'" "content s' = content s" using s' by (simp_all add: bcache_inv_def)
qed

lemma bcache_inv_upd:
  assumes "bcache_inv H s" "bc H (s\<lparr>bufs := (bufs s)[b := x]\<rparr>)" "clean ((bufs s)[b := x]) (disk s)"
    "b_valid x = b_valid (bufs s ! b)"
  shows "bcache_inv H (s\<lparr>bufs := (bufs s)[b := x]\<rparr>)"
  using assms by (auto simp: bcache_inv_def nth_list_update_if)

lemma bcache_run_inv:
  assumes "bcache_run s0 es H s" "bcache_inv {} s0"
  shows "bcache_inv H s \<and> replay (content s0) es = Some (content s)"
  using assms
proof (induction rule: bcache_run.induct)
  case (read es H s bn b s')
  then have i: "bcache_inv H s" "replay (content s0) es = Some (content s)" by simp_all
  from bcache_inv_read [OF i(1) read.hyps(2,3,4)] show ?case using i(2) by (simp add: replay_snoc)
next
  case (change es H s b d s')
  then have i: "bcache_inv H s" "replay (content s0) es = Some (content s)" by simp_all
  note D = bcache_inv_D [OF i(1) change.hyps(2)]
  note u = bupd_data_spec [OF D(1) change.hyps(2) D(3) D(2), of "\<lambda>x. x\<lparr>b_data := d\<rparr>" "\<lambda>_. d", simplified]
  have s': "s' = s\<lparr>bufs := (bufs s)[b := (bufs s ! b)\<lparr>b_data := d\<rparr>]\<rparr>" using u(1) change.hyps(3) by simp
  have "bcache_inv H s'" unfolding s' by (rule bcache_inv_upd [OF i(1) u(2,3)]) simp
  then show ?case using i(2) u(4) s' by (simp add: replay_snoc fun_upd_def)
next
  case (wr es H s b s')
  then have i: "bcache_inv H s" "replay (content s0) es = Some (content s)" by simp_all
  note D = bcache_inv_D [OF i(1) wr.hyps(2)]
  note w = bwrite_spec [OF D(1) wr.hyps(2) D(3) D(2)]
  then show ?case using i wr.hyps(3)
    by (auto simp: bcache_inv_def bc_def thr_ok_def my_pid_def simp flip: fun_upd_def)
next
  case (pin es H s b s')
  then have i: "bcache_inv H s" "replay (content s0) es = Some (content s)" by simp_all
  note D = bcache_inv_D [OF i(1) pin.hyps(2)]
  note w = bpin_spec [OF D(1) pin.hyps(2,3) D(2)]
  have s': "s' = s\<lparr>bufs := (bufs s)[b := (bufs s ! b)\<lparr>b_refcnt := b_refcnt (bufs s ! b) + 1\<rparr>]\<rparr>"
    using w(1) pin.hyps(4) by simp
  have "bcache_inv H s'" unfolding s' by (rule bcache_inv_upd [OF i(1) w(2,3)]) simp
  then show ?case using i(2) w(4) s' by simp
next
  case (unpin es H s b s')
  then have i: "bcache_inv H s" "replay (content s0) es = Some (content s)" by simp_all
  note D = bcache_inv_D [OF i(1) unpin.hyps(2)]
  have "b_refcnt (bufs s ! b) - 1 \<noteq> 0" using unpin.hyps(3) by (metis eq_iff_diff_eq_0)
  note w = bunpin_spec [OF D(1) unpin.hyps(2) this D(2)]
  have s': "s' = s\<lparr>bufs := (bufs s)[b := (bufs s ! b)\<lparr>b_refcnt := b_refcnt (bufs s ! b) - 1\<rparr>]\<rparr>"
    using w(1) unpin.hyps(4) by simp
  have "bcache_inv H s'" unfolding s' by (rule bcache_inv_upd [OF i(1) w(2,3)]) simp
  then show ?case using i(2) w(4) s' by simp
next
  case (rel es H s b s')
  then have i: "bcache_inv H s" "replay (content s0) es = Some (content s)" by simp_all
  from bcache_inv_release [OF i(1) rel.hyps(2-4)] show ?case using i(2) by simp
qed simp

section \<open>An example\<close>

definition buf0 :: buf where
  "buf0 = \<lparr>b_valid = False, b_disk = False, b_dev = 0, b_blockno = 0, b_refcnt = 0, b_prev = 0, b_next = 0, b_data = []\<rparr>"

definition bio_boot :: bio_st where
  "bio_boot = sleep_st.extend sleep_example
     \<lparr>bufs = replicate (NBUF + 1) buf0, disk = (\<lambda>_. replicate BSIZE 0), dwrites = []\<rparr>"

definition bio_example :: bio_st where
  "bio_example = (case binit bio_boot of Ok _ s \<Rightarrow> s | _ \<Rightarrow> bio_boot)"

lemma bio_boot_simps [simp]:
  "held bio_boot = []" "cur bio_boot = Some 0" "procs bio_boot = procs sched_example"
  "bufs bio_boot = replicate (NBUF + 1) buf0" "disk bio_boot = (\<lambda>_. replicate BSIZE 0)" "dwrites bio_boot = []"
  by (simp_all add: bio_boot_def sleep_example_def sleep_st.defs sched_st.defs sched_example_def)

lemma bio_example_run:
  "\<exists>bs sl. bio_example = bio_boot\<lparr>bufs := bs, slocks := sl\<rparr> \<and> binit bio_boot = Ok () bio_example \<and>
     bring bs (rev [0..<NBUF]) \<and> same_bufs (replicate (NBUF + 1) buf0) bs \<and>
     (\<forall>b < NBUF. sl (BufLock b) = \<lparr>sl_locked = False, sl_pid = 0\<rparr>)"
proof -
  have "length (bufs bio_boot) = NBUF + 1" by simp
  from binit_spec [OF this] obtain bs sl where b: "binit bio_boot = Ok () (bio_boot\<lparr>bufs := bs, slocks := sl\<rparr>)"
    "bring bs (rev [0..<NBUF])" "same_bufs (replicate (NBUF + 1) buf0) bs"
    "\<forall>b < NBUF. sl (BufLock b) = \<lparr>sl_locked = False, sl_pid = 0\<rparr>"
    unfolding bio_boot_simps by blast
  then have "bio_example = bio_boot\<lparr>bufs := bs, slocks := sl\<rparr>" by (simp add: bio_example_def)
  then show ?thesis using b by metis
qed

lemma bio_example_thr [simp]:
  "held bio_example = []" "cur bio_example = Some 0" "procs bio_example = procs sched_example"
proof -
  obtain bs sl where e: "bio_example = bio_boot\<lparr>bufs := bs, slocks := sl\<rparr>" using bio_example_run by blast
  show "held bio_example = []" "cur bio_example = Some 0" "procs bio_example = procs sched_example"
    unfolding e by simp_all
qed

lemma bio_example_ok:
  "bc {} bio_example" "clean (bufs bio_example) (disk bio_example)" "content bio_example = disk bio_example"
  "disk bio_example = (\<lambda>_. replicate BSIZE 0)" "bring (bufs bio_example) (rev [0..<NBUF])"
  "\<And>b. b < NBUF \<Longrightarrow> \<not> b_valid (bufs bio_example ! b) \<and> b_refcnt (bufs bio_example ! b) = 0 \<and> b_dev (bufs bio_example ! b) = 0"
proof -
  obtain bs sl where e: "bio_example = bio_boot\<lparr>bufs := bs, slocks := sl\<rparr>" and r: "bring bs (rev [0..<NBUF])"
    and sm: "same_bufs (replicate (NBUF + 1) buf0) bs" and sl: "\<forall>b < NBUF. sl (BufLock b) = \<lparr>sl_locked = False, sl_pid = 0\<rparr>"
    using bio_example_run by blast
  have v: "\<not> b_valid (bs ! b) \<and> b_refcnt (bs ! b) = 0 \<and> b_dev (bs ! b) = 0" if "b < NBUF" for b
  proof -
    have "replicate (NBUF + 1) buf0 ! b = buf0" "b < length (replicate (NBUF + 1) buf0)"
      using that by (simp_all add: nth_Cons' del: replicate.simps)
    then show ?thesis using same_bufs_D [OF sm, of b] by (simp add: buf0_def del: replicate.simps)
  qed
  have L: "set (rev [0..<NBUF]) = {..<NBUF}" by auto
  have va: "\<forall>b < NBUF. \<not> b_valid (bs ! b) \<and> b_refcnt (bs ! b) = 0 \<and> b_dev (bs ! b) = 0" using v by blast
  note f = fresh_ok [OF r L va]
  show "bc {} bio_example"
    using f(1) sl unfolding e by (simp add: bc_def thr_ok_def locks_ok_def NPROC_def)
  show "clean (bufs bio_example) (disk bio_example)" "content bio_example = disk bio_example"
    "disk bio_example = (\<lambda>_. replicate BSIZE 0)" "bring (bufs bio_example) (rev [0..<NBUF])"
    using f r unfolding e by simp_all
  show "\<And>b. b < NBUF \<Longrightarrow> \<not> b_valid (bufs bio_example ! b) \<and> b_refcnt (bufs bio_example ! b) = 0 \<and> b_dev (bufs bio_example ! b) = 0"
    using v unfolding e by simp
qed

section \<open>Properties\<close>

text \<open>
  C3. The cache is a faithful store of blocks. Whatever a thread does with it, respecting the rules of
  use, every \<open>bread\<close> gives the data last put into that block (that of the disk if there was none),
  the blocks it sees are the result of its own changes in order, and at most one buffer
  holds any block.
\<close>

theorem bcache_refines_store:
  assumes "bcache_run s0 es H s" "bc {} s0" "clean (bufs s0) (disk s0)"
  shows "replay (content s0) es = Some (content s) \<and> bc H s \<and>
    (\<forall>i < NBUF. \<forall>j < NBUF. i \<noteq> j \<and> b_valid (bufs s ! i) \<and> b_valid (bufs s ! j) \<longrightarrow>
       b_blockno (bufs s ! i) \<noteq> b_blockno (bufs s ! j))"
proof -
  have "bcache_inv {} s0" using assms(2,3) by (simp add: bcache_inv_def)
  from bcache_run_inv [OF assms(1) this] have i: "bcache_inv H s" "replay (content s0) es = Some (content s)" by simp_all
  then have ok: "bufs_ok H (bufs s)" and bc: "bc H s" by (simp_all add: bcache_inv_def bc_def)
  then show ?thesis using i(2) bufs_ok_unique [OF ok] valid_holds [OF ok] by metis
qed

theorem bcache_refines_store_witness:
  "\<exists>b s. bcache_run bio_example [BRead 7 (replicate BSIZE 0), BChange 7 [1, 2]] {b} s \<and>
     content s 7 = [1, 2] \<and> content s 8 = replicate BSIZE 0"
proof -
  note ex = bio_example_ok
  have rm: "room (bufs bio_example) 7" using ex(6) [of 0] by (auto simp: room_def NBUF_def MAXOPBLOCKS_def)
  from bread_spec [OF ex(1,2) rm] obtain b s1 where r: "bread ROOTDEV 7 bio_example = Ok b s1"
    and d: "b_data (bufs s1 ! b) = replicate BSIZE 0" and bn: "b_blockno (bufs s1 ! b) = 7" using ex(3,4) by fastforce
  have 1: "bcache_run bio_example ([] @ [BRead 7 (b_data (bufs s1 ! b))]) (insert b {}) s1"
    using rm r by (intro bcache_run.read [OF bcache_run.start]) simp_all
  obtain s2 where u: "bupd b (\<lambda>x. x\<lparr>b_data := [1, 2]\<rparr>) s1 = Ok () s2" by (simp add: bupd_def)
  have 2: "bcache_run bio_example [BRead 7 (replicate BSIZE 0), BChange 7 [1, 2]] {b} s2"
    using bcache_run.change [OF 1 _ u] d bn by simp
  from bcache_refines_store [OF 2 ex(1,2)] have "Some (content s2) = Some ((content bio_example)(7 := [1, 2]))"
    using ex(3,4) by (simp split: if_splits)
  then have "content s2 7 = [1, 2]" "content s2 8 = replicate BSIZE 0" using ex(3,4) by simp_all
  then show ?thesis using 2 by blast
qed

text \<open>
  C26. Buffers are recycled in the order of their last use. If no buffer holds the block, \<open>bget\<close> takes
  the unused buffer nearest to the end of the list, and stops with its panic exactly when all are in
  use; dropping the last reference to a buffer moves it to the front of the list, before all others.
\<close>

theorem bget_recycles_lru:
  assumes "bc H s" "bring (bufs s) L" "\<forall>b \<in> set L. \<not> holds_block bn (bufs s ! b)"
  shows "(\<forall>b. find (\<lambda>b. b_refcnt (bufs s ! b) = 0) (rev L) = Some b \<longrightarrow>
      (\<exists>s'. bget ROOTDEV bn s = Ok b s' \<and> bring (bufs s') L \<and> holds_block bn (bufs s' ! b) \<and>
        b_refcnt (bufs s' ! b) = 1 \<and> \<not> b_valid (bufs s' ! b))) \<and>
    (bget ROOTDEV bn s = Panic ''bget: no buffers'' \<longleftrightarrow> (\<forall>b \<in> set L. b_refcnt (bufs s ! b) \<noteq> 0)) \<and>
    (\<forall>b \<in> H. b_refcnt (bufs s ! b) = 1 \<longrightarrow>
      (\<exists>s'. brelse b s = Ok () s' \<and> bring (bufs s') (b # remove1 b L) \<and> b_refcnt (bufs s' ! b) = 0))"
proof (intro conjI allI impI ballI)
  have none: "find (\<lambda>b. holds_block bn (bufs s ! b)) L = None" using assms(3) by (simp add: find_None_iff)
  have held: "held s = []" using assms(1) by (simp add: bc_def thr_ok_def)
  { fix b assume f: "find (\<lambda>b. b_refcnt (bufs s ! b) = 0) (rev L) = Some b"
    then have "b \<in> set (rev L)" unfolding find_Some_iff by (metis nth_mem)
    then have b: "b < length (bufs s)" using assms(2) by (auto simp: bring_def)
    note g = bget_lru [OF assms(1,2) none f]
    have "bring ((bufs s)[b := (bufs s ! b)\<lparr>b_dev := ROOTDEV, b_blockno := bn, b_valid := False, b_refcnt := 1\<rparr>]) L"
      by (rule bring_update [OF assms(2)]) simp_all
    then show "\<exists>s'. bget ROOTDEV bn s = Ok b s' \<and> bring (bufs s') L \<and> holds_block bn (bufs s' ! b) \<and>
        b_refcnt (bufs s' ! b) = 1 \<and> \<not> b_valid (bufs s' ! b)"
      using g b by (simp add: holds_block_def) }
  note ok = this
  show "bget ROOTDEV bn s = Panic ''bget: no buffers'' \<longleftrightarrow> (\<forall>b \<in> set L. b_refcnt (bufs s ! b) \<noteq> 0)"
  proof (cases "find (\<lambda>b. b_refcnt (bufs s ! b) = 0) (rev L)")
    case None
    then show ?thesis using bget_none [OF held assms(2) none] by (simp add: find_None_iff)
  next
    case (Some b)
    have "b \<in> set L" "b_refcnt (bufs s ! b) = 0" using Some unfolding find_Some_iff by (metis nth_mem set_rev)+
    then show ?thesis using ok [OF Some] by auto
  qed
  fix b assume b: "b \<in> H" "b_refcnt (bufs s ! b) = 1"
  then have "b_refcnt (brelse_bufs b (bufs s) ! b) = 0"
    using brelse_bufs_spec(2) [of H "bufs s" b] same_bufs_D(4) [of _ "brelse_bufs b (bufs s)" b] bc_D(2) [OF assms(1) b(1)] assms(1)
    by (auto simp: bc_def)
  then show "\<exists>s'. brelse b s = Ok () s' \<and> bring (bufs s') (b # remove1 b L) \<and> b_refcnt (bufs s' ! b) = 0"
    using brelse_front [OF assms(1) b assms(2)] brelse_run [OF assms(1) b(1)] by auto
qed

theorem bget_recycles_lru_witness:
  "\<exists>s. bget ROOTDEV 5 bio_example = Ok 0 s \<and> bring (bufs s) (rev [0..<NBUF])"
proof -
  note ex = bio_example_ok
  have n: "NBUF = Suc (NBUF - 1)" by (simp add: NBUF_def MAXOPBLOCKS_def)
  have "\<forall>b \<in> set (rev [0..<NBUF]). \<not> holds_block 5 (bufs bio_example ! b)"
    using ex(6) by (auto simp: holds_block_def ROOTDEV_def)
  moreover have "find (\<lambda>b. b_refcnt (bufs bio_example ! b) = 0) (rev (rev [0..<NBUF])) = Some 0"
    using ex(6) [of 0] n by (subst n) (simp add: upt_conv_Cons NBUF_def MAXOPBLOCKS_def del: upt_Suc)
  ultimately show ?thesis using bget_recycles_lru [OF ex(1,5), of 5] by blast
qed

end
