(* ===== verification/Recovery.thy ===== *)
theory Recovery
  imports Log Bcache
begin

text \<open>
  Crash safety of the log (kernel/log.c). A disk stands for a state of the file system: its blocks,
  with those that the header of the log lists taken from their copies in the log (\<open>logical\<close>).
  The writes of \<open>commit\<close> are computed; whatever number of them a crash lets through, the disk stands
  for the old state or for the new one. The writes of the recovery do not change what the disk
  stands for, and at their end it is on the disk in place. A write of a block is taken to be
  atomic, as the code does.
\<close>

section \<open>The header block\<close>

lemma length_put_le32 [simp]: "off + 4 \<le> length bs \<Longrightarrow> length (put_le off (w :: u32) bs) = length bs"
  by (simp add: put_le_def)

lemma get_put_le32: "off + 4 \<le> length bs \<Longrightarrow> get_le off (put_le off w bs) = (w :: u32)"
  by (simp add: get_le_def put_le_def)

lemma get_put_le32_other:
  assumes "off + 4 \<le> off' \<or> off' + 4 \<le> off" "off + 4 \<le> length bs" "off' + 4 \<le> length bs"
  shows "get_le off' (put_le off (w :: u32) bs) = (get_le off' bs :: u32)"
proof -
  have "take 4 (drop off' (put_le off w bs)) = take 4 (drop off' bs)"
    using assms by (intro nth_equalityI) (auto simp: put_le_def nth_append)
  then show ?thesis by (simp add: get_le_def)
qed

definition head_data :: "int \<Rightarrow> u32 list \<Rightarrow> byte list \<Rightarrow> byte list" where
  "head_data n bl d =
     fold (\<lambda>i. put_le (4 + 4 * i) (bl ! i)) [0..<nat n] (put_le 0 (of_int n :: u32) d)"

lemma head_fold:
  assumes "length d = BSIZE" "n \<le> LOGSIZE"
  shows "length (fold (\<lambda>i. put_le (4 + 4 * i) (bl ! i)) [0..<n] d) = BSIZE"
    "get_le 0 (fold (\<lambda>i. put_le (4 + 4 * i) (bl ! i :: u32)) [0..<n] d) = (get_le 0 d :: u32)"
    "i < n \<Longrightarrow> get_le (4 + 4 * i) (fold (\<lambda>i. put_le (4 + 4 * i) (bl ! i :: u32)) [0..<n] d) = bl ! i"
proof -
  have "length (fold (\<lambda>i. put_le (4 + 4 * i) (bl ! i)) [0..<n] d) = BSIZE \<and>
    get_le 0 (fold (\<lambda>i. put_le (4 + 4 * i) (bl ! i :: u32)) [0..<n] d) = (get_le 0 d :: u32) \<and>
    (\<forall>i < n. get_le (4 + 4 * i) (fold (\<lambda>i. put_le (4 + 4 * i) (bl ! i :: u32)) [0..<n] d) = bl ! i)"
    using assms(2)
  proof (induction n)
    case (Suc n)
    let ?e = "fold (\<lambda>i. put_le (4 + 4 * i) (bl ! i :: u32)) [0..<n] d"
    have IH: "length ?e = BSIZE" "get_le 0 ?e = (get_le 0 d :: u32)"
      "\<And>i. i < n \<Longrightarrow> get_le (4 + 4 * i) ?e = bl ! i" using Suc by auto
    have n: "4 + 4 * n + 4 \<le> length ?e" using IH Suc.prems by (simp add: BSIZE_def LOGSIZE_def MAXOPBLOCKS_def)
    have "get_le (4 + 4 * i) (put_le (4 + 4 * n) (bl ! n) ?e) = bl ! i" if "i < Suc n" for i
    proof (cases "i = n")
      case True
      then show ?thesis using get_put_le32 [OF n] by simp
    next
      case False
      then show ?thesis using that n IH(3) [of i] by (subst get_put_le32_other) auto
    qed
    moreover have "get_le 0 (put_le (4 + 4 * n) (bl ! n) ?e) = (get_le 0 d :: u32)"
      using n IH(2) by (subst get_put_le32_other) auto
    ultimately show ?case using IH(1) n by simp
  qed (use assms in simp)
  then show "length (fold (\<lambda>i. put_le (4 + 4 * i) (bl ! i)) [0..<n] d) = BSIZE"
    "get_le 0 (fold (\<lambda>i. put_le (4 + 4 * i) (bl ! i :: u32)) [0..<n] d) = (get_le 0 d :: u32)"
    "i < n \<Longrightarrow> get_le (4 + 4 * i) (fold (\<lambda>i. put_le (4 + 4 * i) (bl ! i :: u32)) [0..<n] d) = bl ! i" by auto
qed

lemma head_data:
  assumes "length d = BSIZE" "0 \<le> n" "n \<le> int LOGSIZE"
  shows "length (head_data n bl d) = BSIZE" "sint (get_le 0 (head_data n bl d) :: u32) = n"
    "i < nat n \<Longrightarrow> get_le (4 + 4 * i) (head_data n bl d) = bl ! i"
proof -
  have 0: "0 + 4 \<le> length d" and n: "nat n \<le> LOGSIZE" using assms by (simp_all add: BSIZE_def)
  have l: "length (put_le 0 (of_int n :: u32) d) = BSIZE" using 0 assms by simp
  note h = head_fold [OF l n]
  show "length (head_data n bl d) = BSIZE" using h by (simp add: head_data_def)
  show "i < nat n \<Longrightarrow> get_le (4 + 4 * i) (head_data n bl d) = bl ! i" using h by (simp add: head_data_def)
  have "sint (of_int n :: u32) = n"
    using assms by (simp add: sint_u32_pos word_of_int_inverse LOGSIZE_def MAXOPBLOCKS_def signed_take_bit_int_eq_self sint_word_ariths signed_of_int)
  then show "sint (get_le 0 (head_data n bl d) :: u32) = n"
    using h(2) get_put_le32 [OF 0] by (simp add: head_data_def)
qed

section \<open>Reading and writing one block\<close>

lemma one_bread:
  assumes "ready s"
  shows "\<exists>x bs sl. bread ROOTDEV bn s = Ok x (s\<lparr>bufs := bs, slocks := sl\<rparr>) \<and> x < NBUF \<and>
    bc {x} (s\<lparr>bufs := bs, slocks := sl\<rparr>) \<and> clean bs (disk s) \<and>
    b_valid (bs ! x) \<and> b_blockno (bs ! x) = bn \<and> b_data (bs ! x) = content s bn \<and>
    content_of bs (disk s) = content s \<and> (\<forall>c < NBUF. c \<noteq> x \<longrightarrow> bs ! c = bufs s ! c) \<and>
    b_refcnt (bs ! x) = b_refcnt (bufs s ! x) + 1 \<and>
    (b_refcnt (bufs s ! x) \<noteq> 0 \<longrightarrow> holds_block bn (bufs s ! x))"
proof -
  have bc: "bc {} s" and cl: "clean (bufs s) (disk s)" and rm: "room (bufs s) bn"
    using assms by (auto simp: ready_def room_def one_free_def)
  from bread_spec [OF bc cl rm, simplified] obtain x bs sl where
    "bread ROOTDEV bn s = Ok x (s\<lparr>bufs := bs, slocks := sl\<rparr>)" "x < NBUF"
    "bc {x} (s\<lparr>bufs := bs, slocks := sl\<rparr>)" "clean bs (disk s)"
    "b_valid (bs ! x)" "b_blockno (bs ! x) = bn" "b_data (bs ! x) = content s bn"
    "content_of bs (disk s) = content s" "\<forall>c < NBUF. c \<noteq> x \<longrightarrow> bs ! c = bufs s ! c"
    and f: "b_refcnt (bs ! x) = (if holds_block bn (bufs s ! x) then b_refcnt (bufs s ! x) + 1 else 1)"
      "\<not> holds_block bn (bufs s ! x) \<longrightarrow> b_refcnt (bufs s ! x) = 0" by blast
  moreover have "b_refcnt (bs ! x) = b_refcnt (bufs s ! x) + 1" using f by auto
  ultimately show ?thesis using f(2) by (intro exI [of _ x] exI [of _ bs] exI [of _ sl] conjI) blast+
qed

text \<open>With its reference dropped again the buffer is as it was, or free and with the block.\<close>

lemma one_keeps:
  assumes o: "\<forall>c < NBUF. c \<noteq> x \<longrightarrow> bs2 ! c = bs ! c" and x: "x < NBUF"
    and k: "b_refcnt (bs ! x) \<noteq> 0 \<longrightarrow> holds_block A (bs ! x)"
    and v: "b_valid (bs2 ! x)" "b_blockno (bs2 ! x) = A" "b_dev (bs2 ! x) = ROOTDEV"
    and r: "b_refcnt (bs2 ! x) = b_refcnt (bs ! x) + 1"
    and e: "\<forall>c < NBUF. b_dev (bs3 ! c) = b_dev (bs2 ! c) \<and> b_blockno (bs3 ! c) = b_blockno (bs2 ! c) \<and>
      b_valid (bs3 ! c) = b_valid (bs2 ! c) \<and> b_refcnt (bs3 ! c) = b_refcnt (bs2 ! c) - (if c = x then 1 else 0)"
  shows "pins_but {} bs bs3"
proof -
  have free: "b_refcnt (bs3 ! c) = 0" if "c < NBUF" "b_refcnt (bs ! c) = 0" for c
    using that o r e by (cases "c = x") auto
  have "pinned bs3 bn" if pin: "pinned bs bn" for bn
  proof -
    obtain c where c: "c < NBUF" "holds_block bn (bs ! c)" "b_valid (bs ! c)" "b_refcnt (bs ! c) \<noteq> 0"
      using pin by (auto simp: pinned_def)
    have "holds_block bn (bs3 ! c) \<and> b_valid (bs3 ! c) \<and> b_refcnt (bs3 ! c) \<noteq> 0"
      using c k e v r o by (cases "c = x") (auto simp: holds_block_def)
    then show ?thesis using c(1) by (auto simp: pinned_def)
  qed
  then show ?thesis unfolding pins_but_def one_free_def two_free_def using free by blast
qed

lemma finish_one:
  assumes bc: "bc {x} s" and cl: "clean (bufs s) (disk s)" and v: "b_valid (bufs s ! x)"
    and t: "t = b_blockno (bufs s ! x)" and d: "d = b_data (bufs s ! x)"
  shows "\<exists>bs sl ps. seqM [bwrite x, brelse x] s =
      Ok () (s\<lparr>bufs := bs, slocks := sl, procs := ps, disk := (disk s)(t := d), dwrites := dwrites s @ [(t, d)]\<rparr>) \<and>
    bc {} (s\<lparr>bufs := bs, slocks := sl, procs := ps, disk := (disk s)(t := d), dwrites := dwrites s @ [(t, d)]\<rparr>) \<and>
    clean bs ((disk s)(t := d)) \<and> content_of bs ((disk s)(t := d)) = content s \<and>
    (\<forall>c < NBUF. b_dev (bs ! c) = b_dev (bufs s ! c) \<and> b_blockno (bs ! c) = b_blockno (bufs s ! c) \<and>
      b_valid (bs ! c) = b_valid (bufs s ! c) \<and>
      b_refcnt (bs ! c) = b_refcnt (bufs s ! c) - (if c = x then 1 else 0))"
proof -
  have xH: "x \<in> {x}" by simp
  note w = bwrite_spec [OF bc xH v cl, folded t d]
  let ?s2 = "s\<lparr>disk := (disk s)(t := d), dwrites := dwrites s @ [(t, d)]\<rparr>"
  have bc2: "bc {x} ?s2" using bc by (simp add: bc_def thr_ok_def my_pid_def)
  have cl2: "clean (bufs ?s2) (disk ?s2)" using w by simp
  have "b_data (bufs ?s2 ! x) = disk ?s2 (b_blockno (bufs ?s2 ! x))" using t d by simp
  from brelse_spec [OF bc2 xH cl2 this] obtain bs sl ps where
    r: "brelse x ?s2 = Ok () (?s2\<lparr>bufs := bs, slocks := sl, procs := ps\<rparr>)"
    and bc3: "bc {} (?s2\<lparr>bufs := bs, slocks := sl, procs := ps\<rparr>)"
    and c: "clean bs ((disk s)(t := d))" "content_of bs ((disk s)(t := d)) = content s"
    and same: "same_bufs ((bufs s)[x := (bufs s ! x)\<lparr>b_refcnt := b_refcnt (bufs s ! x) - 1\<rparr>]) bs"
    using w by auto
  let ?fin = "s\<lparr>bufs := bs, slocks := sl, procs := ps, disk := (disk s)(t := d), dwrites := dwrites s @ [(t, d)]\<rparr>"
  have fin: "?s2\<lparr>bufs := bs, slocks := sl, procs := ps\<rparr> = ?fin" by (cases s) simp
  have len: "length (bufs s) = NBUF + 1" using bc bufs_ok_length by (fastforce simp: bc_def)
  have "\<forall>c < NBUF. b_dev (bs ! c) = b_dev (bufs s ! c) \<and> b_blockno (bs ! c) = b_blockno (bufs s ! c) \<and>
      b_valid (bs ! c) = b_valid (bufs s ! c) \<and>
      b_refcnt (bs ! c) = b_refcnt (bufs s ! c) - (if c = x then 1 else 0)"
    using same_bufs_D [OF same] len by (auto simp: nth_list_update_if)
  moreover have "seqM [bwrite x, brelse x] s = Ok () ?fin" using w(1) r unfolding fin by (simp add: bnd_def)
  ultimately show ?thesis
    using bc3 c unfolding fin by (intro exI [of _ bs] exI [of _ sl] exI [of _ ps] conjI)
qed

lemma write_head_loop:
  fixes s :: "'z log_st_scheme"
  assumes "n \<le> LOGSIZE" "x < length (bufs s)"
  shows "forM [0..<n] (\<lambda>i. bnd (log_blk i) (\<lambda>blk. bupd x (\<lambda>b. b\<lparr>b_data := put_le (4 + 4 * i) blk (b_data b)\<rparr>))) s =
    Ok () (s\<lparr>bufs := (bufs s)[x := (bufs s ! x)\<lparr>b_data :=
      fold (\<lambda>i. put_le (4 + 4 * i) (lh_block (l_lh s) ! i)) [0..<n] (b_data (bufs s ! x))\<rparr>]\<rparr>)"
  using assms
proof (induction n)
  case 0
  then show ?case by (cases s) simp
next
  case (Suc n)
  then have n: "n < LOGSIZE" "x < length (bufs s)" by simp_all
  show ?case
    using Suc n by (simp add: forM_snoc bnd_case log_blk_def lh_check_def bupd_def)
qed

lemma bupd_run: "bupd x f s = Ok () (s\<lparr>bufs := (bufs s)[x := f (bufs s ! x)]\<rparr>)"
  by (simp add: bupd_def)

lemma write_head_spec:
  fixes s :: "'z log_st_scheme"
  assumes rd: "ready s" and dev: "l_dev s = ROOTDEV" and n: "0 \<le> lh_n (l_lh s)" "lh_n (l_lh s) \<le> int LOGSIZE"
  defines "d \<equiv> head_data (lh_n (l_lh s)) (lh_block (l_lh s)) (content s (l_start s))"
  shows "outcome s (write_head s) [(l_start s, d)] ((content s)(l_start s := d)) {}"
proof -
  let ?A = "l_start s" and ?n = "lh_n (l_lh s)"
  from one_bread [OF rd, of ?A] obtain x bs sl where
    r: "bread ROOTDEV ?A s = Ok x (s\<lparr>bufs := bs, slocks := sl\<rparr>)" and x: "x < NBUF"
    and bc: "bc {x} (s\<lparr>bufs := bs, slocks := sl\<rparr>)" and cl: "clean bs (disk s)"
    and v: "b_valid (bs ! x)" "b_blockno (bs ! x) = ?A" "b_data (bs ! x) = content s ?A"
    and c: "content_of bs (disk s) = content s" and o: "\<forall>c < NBUF. c \<noteq> x \<longrightarrow> bs ! c = bufs s ! c"
    and rf: "b_refcnt (bs ! x) = b_refcnt (bufs s ! x) + 1"
    and k: "b_refcnt (bufs s ! x) \<noteq> 0 \<longrightarrow> holds_block ?A (bufs s ! x)" by blast
  let ?s1 = "s\<lparr>bufs := bs, slocks := sl\<rparr>"
  have ok: "bufs_ok {x} bs" using bc by (simp add: bc_def)
  have len: "length bs = NBUF + 1" by (rule bufs_ok_length [OF ok])
  have dv: "b_dev (bs ! x) = ROOTDEV" using ok v x by (auto simp: bufs_ok_def)
  let ?f = "\<lambda>b. b\<lparr>b_data := d\<rparr>"
  let ?bs1 = "bs[x := ?f (bs ! x)]"
  let ?s2 = "?s1\<lparr>bufs := ?bs1\<rparr>"
  have "x \<in> {x}" "b_valid (bufs ?s1 ! x)" "clean (bufs ?s1) (disk ?s1)" using v cl by simp_all
  note u = bupd_data_spec [OF bc this, of ?f "\<lambda>_. d", simplified, unfolded v c]
  have "clean (bufs ?s2) (disk ?s2)" "b_valid (bufs ?s2 ! x)" "?A = b_blockno (bufs ?s2 ! x)" "d = b_data (bufs ?s2 ! x)"
    using u v len x by simp_all
  moreover have "bc {x} ?s2" using u(2) by simp
  ultimately obtain bs3 sl3 ps3 where
    q: "seqM [bwrite x, brelse x] ?s2 = Ok () (?s2\<lparr>bufs := bs3, slocks := sl3, procs := ps3,
        disk := (disk s)(?A := d), dwrites := dwrites s @ [(?A, d)]\<rparr>)"
      "bc {} (?s2\<lparr>bufs := bs3, slocks := sl3, procs := ps3, disk := (disk s)(?A := d), dwrites := dwrites s @ [(?A, d)]\<rparr>)"
      "clean bs3 ((disk s)(?A := d))" "content_of bs3 ((disk s)(?A := d)) = (content s)(?A := d)"
      and e: "\<forall>c < NBUF. b_dev (bs3 ! c) = b_dev (?bs1 ! c) \<and> b_blockno (bs3 ! c) = b_blockno (?bs1 ! c) \<and>
      b_valid (bs3 ! c) = b_valid (?bs1 ! c) \<and>
      b_refcnt (bs3 ! c) = b_refcnt (?bs1 ! c) - (if c = x then 1 else 0)"
    using finish_one [of x ?s2 ?A d] u(4) by auto
  have e2: "?s2\<lparr>bufs := bs3, slocks := sl3, procs := ps3, disk := (disk s)(?A := d), dwrites := dwrites s @ [(?A, d)]\<rparr> =
      after s bs3 sl3 ps3 [(?A, d)]" by (cases s) (simp add: after_def)
  have "\<forall>c < NBUF. b_dev (bs3 ! c) = b_dev (bs ! c) \<and> b_blockno (bs3 ! c) = b_blockno (bs ! c) \<and>
      b_valid (bs3 ! c) = b_valid (bs ! c) \<and> b_refcnt (bs3 ! c) = b_refcnt (bs ! c) - (if c = x then 1 else 0)"
    using e len by (simp add: nth_list_update_if)
  from one_keeps [OF o x k v(1,2) dv rf this] have p: "pins_but {} (bufs s) bs3" .
  have "write_head s = seqM [bwrite x, brelse x] ?s2"
    using dev n len x v
    by (simp add: write_head_def r bnd_case bupd_run write_head_loop d_def head_data_def)
  then show ?thesis using q p unfolding outcome_def e2
    by (intro exI [of _ bs3] exI [of _ sl3] exI [of _ ps3] conjI) simp_all
qed

definition log_area :: "u32 \<Rightarrow> u32 set" where
  "log_area start = (\<lambda>i. start + of_nat i) ` {..LOGSIZE}"

lemma log_bn_area: "i < LOGSIZE \<Longrightarrow> log_bn start i \<in> log_area start"
  by (auto simp: log_area_def log_bn_def intro!: image_eqI [of _ _ "Suc i"])

lemma start_area: "start \<in> log_area start"
  by (auto simp: log_area_def intro!: image_eqI [of _ _ 0])

lemma log_bn_inj:
  assumes "log_bn start i = log_bn start j" "i < LOGSIZE" "j < LOGSIZE"
  shows "i = j"
proof -
  have "(of_nat i :: u32) = of_nat j" using assms(1) by (simp add: log_bn_def)
  then have "unat (of_nat i :: u32) = unat (of_nat j :: u32)" by simp
  then show ?thesis using assms by (simp add: unat_of_nat LOGSIZE_def MAXOPBLOCKS_def)
qed

lemma log_bn_not_start: "i < LOGSIZE \<Longrightarrow> log_bn start i \<noteq> start"
proof
  assume i: "i < LOGSIZE" "log_bn start i = start"
  then have "of_nat (Suc i) = (0 :: u32)" by (simp add: log_bn_def add.assoc add.commute)
  then have "unat (of_nat (Suc i) :: u32) = 0" by simp
  then show False using i(1) by (simp add: unat_of_nat LOGSIZE_def MAXOPBLOCKS_def del: of_nat_Suc)
qed

text \<open>The blocks of a transaction: \<open>n\<close> blocks outside the log, each listed once.\<close>

definition tx_ok :: "'z log_st_scheme \<Rightarrow> bool" where
  "tx_ok s \<longleftrightarrow> l_dev s = ROOTDEV \<and> length (lh_block (l_lh s)) = LOGSIZE \<and>
     0 \<le> lh_n (l_lh s) \<and> lh_n (l_lh s) \<le> int LOGSIZE \<and>
     distinct (take (nat (lh_n (l_lh s))) (lh_block (l_lh s))) \<and>
     set (take (nat (lh_n (l_lh s))) (lh_block (l_lh s))) \<inter> log_area (l_start s) = {}"

abbreviation tx_n :: "'z log_st_scheme \<Rightarrow> nat" where "tx_n s \<equiv> nat (lh_n (l_lh s))"
abbreviation tx_blk :: "'z log_st_scheme \<Rightarrow> nat \<Rightarrow> u32" where "tx_blk s i \<equiv> lh_block (l_lh s) ! i"

lemma tx_okD:
  assumes "tx_ok s" "i < tx_n s"
  shows "i < LOGSIZE" "tx_blk s i \<notin> log_area (l_start s)" "j < tx_n s \<Longrightarrow> tx_blk s i = tx_blk s j \<longleftrightarrow> i = j"
proof -
  have n: "tx_n s \<le> length (lh_block (l_lh s))" using assms by (auto simp: tx_ok_def)
  then show "i < LOGSIZE" using assms by (auto simp: tx_ok_def)
  have "tx_blk s i \<in> set (take (tx_n s) (lh_block (l_lh s)))"
    using assms(2) n by (metis in_set_conv_nth length_take min.absorb2 nth_take)
  then show "tx_blk s i \<notin> log_area (l_start s)" using assms by (auto simp: tx_ok_def)
  show "j < tx_n s \<Longrightarrow> tx_blk s i = tx_blk s j \<longleftrightarrow> i = j"
    using assms n nth_eq_iff_index_eq [of "take (tx_n s) (lh_block (l_lh s))" i j] by (simp add: tx_ok_def)
qed

definition log_writes :: "'z log_st_scheme \<Rightarrow> (u32 \<Rightarrow> byte list) \<Rightarrow> (u32 \<times> byte list) list" where
  "log_writes s C = map (\<lambda>i. (log_bn (l_start s) i, C (tx_blk s i))) [0..<tx_n s]"

definition install_writes :: "'z log_st_scheme \<Rightarrow> (u32 \<Rightarrow> byte list) \<Rightarrow> (u32 \<times> byte list) list" where
  "install_writes s C = map (\<lambda>i. (tx_blk s i, C (log_bn (l_start s) i))) [0..<tx_n s]"

lemma write_log_spec:
  fixes s :: "'z log_st_scheme"
  assumes rd: "ready s" and tx: "tx_ok s" and pin: "\<And>i. i < tx_n s \<Longrightarrow> pinned (bufs s) (tx_blk s i)"
  shows "outcome s (write_log s) (log_writes s (content s)) (apply_writes (log_writes s (content s)) (content s)) {}"
proof -
  let ?w = "\<lambda>i. (log_bn (l_start s) i, content s (tx_blk s i))"
  let ?C = "\<lambda>j. apply_writes (map ?w [0..<j]) (content s)"
  have "outcome s (forM [0..<tx_n s] write_log_body s) (map ?w [0..<tx_n s]) (?C (tx_n s)) (\<Union>i<tx_n s. {})"
  proof (rule outcome_forM [OF _ rd])
    fix j bs sl ps
    assume j: "j < tx_n s" and rd': "ready (after s bs sl ps (map ?w [0..<j]))"
      and c: "content (after s bs sl ps (map ?w [0..<j])) = ?C j" and p: "pins_but (\<Union>i<j. {}) (bufs s) bs"
    let ?s = "after s bs sl ps (map ?w [0..<j])"
    note jD = tx_okD [OF tx j]
    have "pinned bs (tx_blk s j)" using p pin [OF j] by (simp add: pins_but_def)
    moreover have "log_bn (l_start s) j \<noteq> tx_blk s j" using jD(2) log_bn_area [OF jD(1)] by metis
    ultimately have "outcome ?s (write_log_body j ?s) [(log_bn (l_start s) j, content ?s (tx_blk s j))]
        ((content ?s)(log_bn (l_start s) j := content ?s (tx_blk s j))) {}"
      using write_log_body_spec [OF rd', of j "tx_blk s j"] jD(1) tx by (simp add: tx_ok_def)
    moreover have "?C j (tx_blk s j) = content s (tx_blk s j)"
      using jD log_bn_area [of _ "l_start s"] by (intro apply_writes_other) force
    ultimately show "outcome ?s (write_log_body j ?s) [?w j] (?C (Suc j)) {}"
      unfolding c by simp
  qed simp
  moreover have "write_log s = forM [0..<tx_n s] write_log_body s"
    by (simp add: write_log_def write_log_body_def [abs_def])
  ultimately show ?thesis by (simp add: log_writes_def)
qed

lemma install_trans_spec:
  fixes s :: "'z log_st_scheme"
  assumes rd: "ready s" and tx: "tx_ok s"
    and pin: "\<And>i. i < tx_n s \<Longrightarrow> \<not> recovering \<Longrightarrow> pinned (bufs s) (tx_blk s i)"
    and two: "recovering \<Longrightarrow> two_free (bufs s)"
  shows "\<exists>X. outcome s (install_trans recovering s) (install_writes s (content s))
    (apply_writes (install_writes s (content s)) (content s)) X"
proof -
  let ?w = "\<lambda>i. (tx_blk s i, content s (log_bn (l_start s) i))"
  let ?C = "\<lambda>j. apply_writes (map ?w [0..<j]) (content s)"
  let ?X = "\<lambda>i. if recovering then {} else {tx_blk s i}"
  have "outcome s (forM [0..<tx_n s] (install_body recovering) s) (map ?w [0..<tx_n s]) (?C (tx_n s)) (\<Union>i<tx_n s. ?X i)"
  proof (rule outcome_forM [OF _ rd])
    fix j bs sl ps
    assume j: "j < tx_n s" and rd': "ready (after s bs sl ps (map ?w [0..<j]))"
      and c: "content (after s bs sl ps (map ?w [0..<j])) = ?C j" and p: "pins_but (\<Union>i<j. ?X i) (bufs s) bs"
    let ?s = "after s bs sl ps (map ?w [0..<j])"
    note jD = tx_okD [OF tx j]
    have "tx_blk s j \<notin> (\<Union>i<j. ?X i)" using jD(3) j by auto
    then have "if recovering then two_free bs else pinned bs (tx_blk s j)"
      using p pin [OF j] two by (auto simp: pins_but_def)
    moreover have "log_bn (l_start s) j \<noteq> tx_blk s j" using jD(2) log_bn_area [OF jD(1)] by metis
    ultimately have "outcome ?s (install_body recovering j ?s) [(tx_blk s j, content ?s (log_bn (l_start s) j))]
        ((content ?s)(tx_blk s j := content ?s (log_bn (l_start s) j))) (?X j)"
      using install_body_spec [OF rd', of j "tx_blk s j" recovering] jD(1) tx by (simp add: tx_ok_def)
    moreover have "?C j (log_bn (l_start s) j) = content s (log_bn (l_start s) j)"
      using tx_okD(2) [OF tx] j log_bn_area [OF jD(1), of "l_start s"] by (intro apply_writes_other) force
    ultimately show "outcome ?s (install_body recovering j ?s) [?w j] (?C (Suc j)) (?X j)"
      unfolding c by simp
  qed simp
  moreover have "install_trans recovering s = forM [0..<tx_n s] (install_body recovering) s"
    by (simp add: install_trans_def install_body_def [abs_def])
  ultimately show ?thesis by (auto simp: install_writes_def)
qed

section \<open>The disk and what it stands for\<close>

definition disk_n :: "u32 \<Rightarrow> (u32 \<Rightarrow> byte list) \<Rightarrow> int" where
  "disk_n start D = sint (get_le 0 (D start) :: u32)"

definition disk_blk :: "u32 \<Rightarrow> (u32 \<Rightarrow> byte list) \<Rightarrow> nat \<Rightarrow> u32" where
  "disk_blk start D i = get_le (4 + 4 * i) (D start)"

text \<open>
  The state of the file system that a disk stands for: blocks that the header of the log lists have
  the contents of their copies in the log.
\<close>

definition logical :: "u32 \<Rightarrow> (u32 \<Rightarrow> byte list) \<Rightarrow> u32 \<Rightarrow> byte list" where
  "logical start D bn =
     (case find (\<lambda>i. disk_blk start D i = bn) [0..<nat (disk_n start D)] of
        Some i \<Rightarrow> D (log_bn start i) | None \<Rightarrow> D bn)"

definition disk_ok :: "u32 \<Rightarrow> (u32 \<Rightarrow> byte list) \<Rightarrow> bool" where
  "disk_ok start D \<longleftrightarrow> length (D start) = BSIZE \<and> 0 \<le> disk_n start D \<and> disk_n start D \<le> int LOGSIZE \<and>
     distinct (map (disk_blk start D) [0..<nat (disk_n start D)]) \<and>
     disk_blk start D ` {..<nat (disk_n start D)} \<inter> log_area start = {}"

lemma logical_none: "disk_n start D \<le> 0 \<Longrightarrow> logical start D = D"
  by (rule ext) (simp add: logical_def)

lemma logical_other: "(\<And>i. i < nat (disk_n start D) \<Longrightarrow> disk_blk start D i \<noteq> bn) \<Longrightarrow> logical start D bn = D bn"
  by (simp add: logical_def find_None_iff [THEN iffD2] split: option.split)

lemma logical_blk:
  assumes "i < nat (disk_n start D)" "bn = disk_blk start D i"
    "\<And>j. j < nat (disk_n start D) \<Longrightarrow> disk_blk start D i = disk_blk start D j \<Longrightarrow> i = j"
  shows "logical start D bn = D (log_bn start i)"
proof (cases "find (\<lambda>j. disk_blk start D j = bn) [0..<nat (disk_n start D)]")
  case None
  then show ?thesis using assms by (auto simp: find_None_iff)
next
  case (Some j)
  then have "j < nat (disk_n start D)" "disk_blk start D j = bn" by (auto simp: find_Some_iff)
  then have "i = j" using assms by metis
  then show ?thesis using Some by (simp add: logical_def)
qed

lemma head_disk:
  assumes "length d = BSIZE" "0 \<le> n" "n \<le> int LOGSIZE" "D start = head_data n bl d"
  shows "disk_n start D = n" "i < nat n \<Longrightarrow> disk_blk start D i = bl ! i"
  using head_data [OF assms(1-3)] assms(4) by (simp_all add: disk_n_def disk_blk_def)

section \<open>Committing\<close>

definition tx_head :: "'z log_st_scheme \<Rightarrow> byte list" where
  "tx_head s = head_data (lh_n (l_lh s)) (lh_block (l_lh s)) (content s (l_start s))"

definition home_writes :: "'z log_st_scheme \<Rightarrow> (u32 \<times> byte list) list" where
  "home_writes s = map (\<lambda>i. (tx_blk s i, content s (tx_blk s i))) [0..<tx_n s]"

definition commit_writes :: "'z log_st_scheme \<Rightarrow> (u32 \<times> byte list) list" where
  "commit_writes s = log_writes s (content s) @ [(l_start s, tx_head s)] @ home_writes s @
     [(l_start s, head_data 0 (lh_block (l_lh s)) (tx_head s))]"

lemma log_writes_log:
  assumes "tx_ok s" "i < tx_n s"
  shows "apply_writes (log_writes s C) D (log_bn (l_start s) i) = C (tx_blk s i)"
proof -
  have "map fst (log_writes s C) = map (log_bn (l_start s)) [0..<tx_n s]" by (simp add: log_writes_def comp_def)
  moreover have "inj_on (log_bn (l_start s)) {0..<tx_n s}"
    using log_bn_inj tx_okD(1) [OF assms(1)] by (auto intro!: inj_onI)
  ultimately have "distinct (map fst (log_writes s C))" by (simp add: distinct_map)
  from apply_writes_nth [OF this, of i D] show ?thesis using assms(2) by (simp add: log_writes_def)
qed

lemma log_writes_fst:
  assumes "tx_ok s"
  shows "fst ` set (log_writes s C) \<subseteq> log_area (l_start s) - {l_start s}"
  using tx_okD(1) [OF assms] by (auto simp: log_writes_def log_bn_area log_bn_not_start)

lemma home_writes_fst: "tx_ok s \<Longrightarrow> fst ` set (home_writes s) \<inter> log_area (l_start s) = {}"
  using tx_okD(2) by (fastforce simp: home_writes_def)

lemma home_writes_blk:
  assumes "tx_ok s" "i < tx_n s"
  shows "apply_writes (home_writes s) D (tx_blk s i) = content s (tx_blk s i)"
proof -
  have "map fst (home_writes s) = map (tx_blk s) [0..<tx_n s]" by (simp add: home_writes_def comp_def)
  moreover have "inj_on (tx_blk s) {0..<tx_n s}" using tx_okD(3) [OF assms(1)] by (auto intro!: inj_onI)
  ultimately have "distinct (map fst (home_writes s))" by (simp add: distinct_map)
  from apply_writes_nth [OF this, of i D] show ?thesis using assms(2) by (simp add: home_writes_def)
qed

lemma after_lh: "(after s bs sl ps ws)\<lparr>l_lh := x\<rparr> = after (s\<lparr>l_lh := x\<rparr>) bs sl ps ws"
  for s :: "'z log_st_scheme"
  by (cases s) (simp add: after_def)

lemma bc_lh [simp]: "bc H (s\<lparr>l_lh := x\<rparr>) = bc H s" for s :: "'z log_st_scheme"
  by (simp add: bc_def thr_ok_def my_pid_def)

lemma ready_lh [simp]: "ready (s\<lparr>l_lh := x\<rparr>) = ready s" for s :: "'z log_st_scheme"
  by (simp add: ready_def)

text \<open>An operation followed by a change of the header in memory and another write of the header.\<close>

lemma outcome_head:
  fixes s :: "'z log_st_scheme"
  assumes m: "outcome s (m s) ws C X" and rd: "ready s" and dev: "l_dev s = ROOTDEV"
  shows "outcome (s\<lparr>l_lh := (l_lh s)\<lparr>lh_n := 0\<rparr>\<rparr>) (bnd m (\<lambda>_. bnd (set_lh_n 0) (\<lambda>_. write_head)) s)
    (ws @ [(l_start s, head_data 0 (lh_block (l_lh s)) (C (l_start s)))])
    (C(l_start s := head_data 0 (lh_block (l_lh s)) (C (l_start s)))) X"
proof -
  let ?lh = "(l_lh s)\<lparr>lh_n := 0\<rparr>"
  have one: "one_free (bufs s)" using rd by (simp add: ready_def)
  obtain bs sl ps where 1: "m s = Ok () (after s bs sl ps ws)" "bc {} (after s bs sl ps ws)"
    "clean bs (apply_writes ws (disk s))" "content_of bs (apply_writes ws (disk s)) = C" "pins_but X (bufs s) bs"
    using m by (auto simp: outcome_def)
  let ?s1 = "after (s\<lparr>l_lh := ?lh\<rparr>) bs sl ps ws"
  have "bc {} ?s1" using 1(2) by (simp flip: after_lh)
  then have rd1: "ready ?s1" using 1 one by (simp add: ready_def pins_but_def)
  have 2: "bnd m (\<lambda>_. bnd (set_lh_n 0) (\<lambda>_. write_head)) s = write_head ?s1"
    using 1(1) by (simp add: bnd_case set_lh_n_def after_lh)
  have c: "content ?s1 = C" using 1 by simp
  have "outcome ?s1 (write_head ?s1) [(l_start s, head_data 0 (lh_block (l_lh s)) (C (l_start s)))]
      (C(l_start s := head_data 0 (lh_block (l_lh s)) (C (l_start s)))) {}"
    using write_head_spec [OF rd1] dev unfolding c by simp
  then obtain bs' sl' ps' where 3: "write_head ?s1 = Ok () (after ?s1 bs' sl' ps'
        [(l_start s, head_data 0 (lh_block (l_lh s)) (C (l_start s)))])"
    "bc {} (after ?s1 bs' sl' ps' [(l_start s, head_data 0 (lh_block (l_lh s)) (C (l_start s)))])"
    "clean bs' ((apply_writes ws (disk s))(l_start s := head_data 0 (lh_block (l_lh s)) (C (l_start s))))"
    "content_of bs' ((apply_writes ws (disk s))(l_start s := head_data 0 (lh_block (l_lh s)) (C (l_start s)))) =
      C(l_start s := head_data 0 (lh_block (l_lh s)) (C (l_start s)))"
    "pins_but {} bs bs'"
    unfolding outcome_def by auto
  then show ?thesis using pins_but_trans [OF 1(5) 3(5)] unfolding outcome_def 2
    by (intro exI [of _ bs'] exI [of _ sl'] exI [of _ ps']) simp
qed

lemma outcome_mono:
  assumes "outcome s r ws C X" "X \<subseteq> Y"
  shows "outcome s r ws C Y"
proof -
  have "pins_but X a b \<Longrightarrow> pins_but Y a b" for a b using assms(2) by (auto simp: pins_but_def)
  then show ?thesis using assms(1) unfolding outcome_def by blast
qed

lemma commit_spec:
  fixes s :: "'z log_st_scheme"
  assumes rd: "ready s" and tx: "tx_ok s" and n: "lh_n (l_lh s) > 0"
    and pin: "\<And>i. i < tx_n s \<Longrightarrow> pinned (bufs s) (tx_blk s i)"
  shows "\<exists>X. outcome (s\<lparr>l_lh := (l_lh s)\<lparr>lh_n := 0\<rparr>\<rparr>) (commit s) (commit_writes s)
    (apply_writes (commit_writes s) (content s)) X"
proof -
  let ?C = "content s" and ?st = "l_start s"
  let ?C1 = "apply_writes (log_writes s ?C) ?C"
  let ?C2 = "?C1(?st := tx_head s)"
  have one: "one_free (bufs s)" using rd by (simp add: ready_def)
  have dev: "l_dev s = ROOTDEV" and nn: "0 \<le> lh_n (l_lh s)" "lh_n (l_lh s) \<le> int LOGSIZE"
    using tx by (simp_all add: tx_ok_def)
  have C1: "?C1 ?st = ?C ?st" using log_writes_fst [OF tx, of ?C] by (intro apply_writes_other) auto
  have 1: "outcome s (write_log s) (log_writes s ?C) ?C1 {}" by (rule write_log_spec [OF rd tx pin])
  have "outcome s (bnd write_log (\<lambda>_. write_head) s) (log_writes s ?C @ [(?st, tx_head s)]) ?C2 ({} \<union> {})"
  proof (rule outcome_seq [where m = write_log, OF 1 one])
    fix bs sl ps
    let ?s = "after s bs sl ps (log_writes s ?C)"
    assume r: "ready ?s" and c: "content ?s = ?C1"
    from write_head_spec [OF r] dev nn show "outcome ?s (write_head ?s) [(?st, tx_head s)] ?C2 {}"
      unfolding c by (simp add: tx_head_def C1)
  qed
  then have 2: "outcome s (bnd write_log (\<lambda>_. write_head) s) (log_writes s ?C @ [(?st, tx_head s)]) ?C2 {}" by simp
  have hw: "map (\<lambda>i. (tx_blk s i, ?C2 (log_bn ?st i))) [0..<tx_n s] = home_writes s"
    unfolding home_writes_def
    by (rule map_cong) (use log_writes_log [OF tx, of _ ?C ?C] tx_okD(1) [OF tx] log_bn_not_start [of _ ?st] in simp_all)
  have "outcome s (bnd (bnd write_log (\<lambda>_. write_head)) (\<lambda>_. install_trans False) s)
      ((log_writes s ?C @ [(?st, tx_head s)]) @ home_writes s) (apply_writes (home_writes s) ?C2) ({} \<union> UNIV)"
  proof (rule outcome_seq [where m = "bnd write_log (\<lambda>_. write_head)", OF 2 one])
    fix bs sl ps
    let ?s = "after s bs sl ps (log_writes s ?C @ [(?st, tx_head s)])"
    assume r: "ready ?s" and c: "content ?s = ?C2" and p: "pins_but {} (bufs s) bs"
    have "tx_ok ?s" using tx by (simp add: tx_ok_def)
    moreover have "pinned (bufs ?s) (tx_blk ?s i)" if "i < tx_n ?s" for i
      using that pin p by (simp add: pins_but_def)
    ultimately obtain X where "outcome ?s (install_trans False ?s) (install_writes ?s ?C2)
        (apply_writes (install_writes ?s ?C2) ?C2) X"
      using install_trans_spec [OF r, of False] unfolding c by auto
    moreover have "install_writes ?s ?C2 = home_writes s" unfolding install_writes_def using hw by simp
    ultimately show "outcome ?s (install_trans False ?s) (home_writes s) (apply_writes (home_writes s) ?C2) UNIV"
      using outcome_mono [OF _ subset_UNIV] by simp
  qed
  from outcome_head [where m = "bnd (bnd write_log (\<lambda>_. write_head)) (\<lambda>_. install_trans False)", OF this rd dev]
  have 3: "outcome (s\<lparr>l_lh := (l_lh s)\<lparr>lh_n := 0\<rparr>\<rparr>)
      (bnd (bnd (bnd write_log (\<lambda>_. write_head)) (\<lambda>_. install_trans False)) (\<lambda>_. bnd (set_lh_n 0) (\<lambda>_. write_head)) s)
      (((log_writes s ?C @ [(?st, tx_head s)]) @ home_writes s) @
         [(?st, head_data 0 (lh_block (l_lh s)) (apply_writes (home_writes s) ?C2 ?st))])
      ((apply_writes (home_writes s) ?C2)(?st := head_data 0 (lh_block (l_lh s)) (apply_writes (home_writes s) ?C2 ?st)))
      ({} \<union> UNIV)" .
  have h: "apply_writes (home_writes s) ?C2 ?st = tx_head s"
    using home_writes_fst [OF tx] start_area [of ?st] by (subst apply_writes_other) auto
  have "commit s = bnd (bnd (bnd write_log (\<lambda>_. write_head)) (\<lambda>_. install_trans False)) (\<lambda>_. bnd (set_lh_n 0) (\<lambda>_. write_head)) s"
    using n by (simp add: commit_def bnd_assoc)
  then show ?thesis using 3 unfolding h commit_writes_def by (intro exI [of _ UNIV]) simp
qed

lemma take_writes_fst: "fst ` set (take k ws) \<subseteq> fst ` set ws"
  by (meson image_mono set_take_subset)

lemma head_cong:
  assumes "D start = D' start"
  shows "disk_n start D = disk_n start D'" "disk_blk start D i = disk_blk start D' i"
  using assms by (simp_all add: disk_n_def disk_blk_def)

text \<open>Writes to the copies, with no transaction in the header, do not show.\<close>

lemma logical_log_writes:
  assumes tx: "tx_ok s" and n: "disk_n (l_start s) D \<le> 0" and bn: "bn \<notin> log_area (l_start s)"
  shows "logical (l_start s) (apply_writes (take k (log_writes s C)) D) bn = D bn"
proof -
  let ?D = "apply_writes (take k (log_writes s C)) D"
  have f: "fst ` set (take k (log_writes s C)) \<subseteq> log_area (l_start s) - {l_start s}"
    by (rule subset_trans [OF take_writes_fst log_writes_fst [OF tx]])
  then have "?D (l_start s) = D (l_start s)" by (intro apply_writes_other) auto
  from head_cong(1) [where D = ?D and D' = D and start = "l_start s", OF this] have "logical (l_start s) ?D = ?D" using n by (intro logical_none) simp
  moreover have "?D bn = D bn" using f bn by (intro apply_writes_other) auto
  ultimately show ?thesis by simp
qed

text \<open>With the header in place the disk stands for the new state, whatever is installed.\<close>

lemma logical_committed:
  assumes tx: "tx_ok s" and len: "length (content s (l_start s)) = BSIZE" and bn: "bn \<notin> log_area (l_start s)"
    and h: "D (l_start s) = tx_head s"
    and cp: "\<And>i. i < tx_n s \<Longrightarrow> D (log_bn (l_start s) i) = content s (tx_blk s i)"
  shows "logical (l_start s) D bn = (if bn \<in> set (take (tx_n s) (lh_block (l_lh s))) then content s bn else D bn)"
proof -
  have nn: "0 \<le> lh_n (l_lh s)" "lh_n (l_lh s) \<le> int LOGSIZE" and n: "tx_n s \<le> length (lh_block (l_lh s))"
    using tx by (auto simp: tx_ok_def)
  note hd = head_disk [where D = D and start = "l_start s", OF len nn h [unfolded tx_head_def]]
  show ?thesis
  proof (cases "bn \<in> set (take (tx_n s) (lh_block (l_lh s)))")
    case True
    then obtain i where i: "i < tx_n s" "bn = tx_blk s i" using n by (auto simp: in_set_conv_nth)
    then have "logical (l_start s) D bn = D (log_bn (l_start s) i)"
      using hd tx_okD(3) [OF tx] by (intro logical_blk) auto
    then show ?thesis using cp i True by simp
  next
    case False
    then have "tx_blk s i \<noteq> bn" if "i < tx_n s" for i
      using that n by (metis in_set_conv_nth length_take min.absorb2 nth_take)
    then show ?thesis using False hd by (simp add: logical_other)
  qed
qed

text \<open>The disk after \<open>k\<close> of the writes of a commit.\<close>

lemma logical_commit:
  assumes tx: "tx_ok s" and len: "length (content s (l_start s)) = BSIZE" and bn: "bn \<notin> log_area (l_start s)"
    and n0: "disk_n (l_start s) D = 0"
  shows "logical (l_start s) (apply_writes (take k (commit_writes s)) D) bn =
    (if tx_n s < k \<and> bn \<in> set (take (tx_n s) (lh_block (l_lh s))) then content s bn else D bn)"
proof -
  let ?st = "l_start s" and ?W = "log_writes s (content s)" and ?H = "home_writes s"
  let ?fin = "(?st, head_data 0 (lh_block (l_lh s)) (tx_head s))"
  let ?bl = "set (take (tx_n s) (lh_block (l_lh s)))"
  have lens: "length ?W = tx_n s" "length ?H = tx_n s" by (simp_all add: log_writes_def home_writes_def)
  have nn: "0 \<le> lh_n (l_lh s)" "lh_n (l_lh s) \<le> int LOGSIZE" and n: "tx_n s \<le> length (lh_block (l_lh s))"
    using tx by (auto simp: tx_ok_def)
  have hlen: "length (tx_head s) = BSIZE" unfolding tx_head_def by (rule head_data(1) [OF len nn])
  define D1 where "D1 = (apply_writes ?W D)(?st := tx_head s)"
  have D1: "D1 bn = D bn" "D1 ?st = tx_head s" "\<And>i. i < tx_n s \<Longrightarrow> D1 (log_bn ?st i) = content s (tx_blk s i)"
  proof -
    show "D1 bn = D bn" using log_writes_fst [OF tx, of "content s"] bn start_area [of ?st]
      by (auto simp: D1_def intro!: apply_writes_other)
    show "D1 (log_bn ?st i) = content s (tx_blk s i)" if "i < tx_n s" for i
      using log_writes_log [OF tx that] log_bn_not_start tx_okD(1) [OF tx that] by (simp add: D1_def)
  qed (simp add: D1_def)
  have home: "apply_writes (take j ?H) D1 b = D1 b" if "b \<in> log_area ?st \<or> b \<notin> ?bl" for b j
  proof (rule apply_writes_other)
    have "tx_blk s i \<in> ?bl" if "i < tx_n s" for i
      using that n by (metis in_set_conv_nth length_take min.absorb2 nth_take)
    then have "fst ` set ?H \<subseteq> ?bl" by (auto simp: home_writes_def)
    with take_writes_fst have "fst ` set (take j ?H) \<subseteq> ?bl" by (rule subset_trans)
    moreover have "?bl \<inter> log_area ?st = {}" using tx by (simp add: tx_ok_def)
    ultimately show "b \<notin> fst ` set (take j ?H)" using that by auto
  qed
  consider (a) "k \<le> tx_n s" | (b) "tx_n s < k" "k \<le> 2 * tx_n s + 1" | (c) "2 * tx_n s + 1 < k" by linarith
  then show ?thesis
  proof cases
    case a
    then have "take k (commit_writes s) = take k ?W" using lens by (simp add: commit_writes_def)
    then show ?thesis using a logical_log_writes [OF tx _ bn, of D k "content s"] n0 by simp
  next
    case b
    let ?j = "k - tx_n s - 1" and ?D = "apply_writes (take (k - tx_n s - 1) ?H) D1"
    have "take k (commit_writes s) = ?W @ (?st, tx_head s) # take ?j ?H"
      using b lens by (simp add: commit_writes_def take_Cons')
    then have e: "apply_writes (take k (commit_writes s)) D = ?D" by (simp add: D1_def)
    have "logical ?st ?D bn = (if bn \<in> ?bl then content s bn else ?D bn)"
      using home D1 log_bn_area [of _ ?st] start_area tx_okD(1) [OF tx] by (intro logical_committed [OF tx len bn]) simp_all
    then show ?thesis unfolding e using b home D1 by simp
  next
    case c
    let ?D = "(apply_writes ?H D1)(?st := head_data 0 (lh_block (l_lh s)) (tx_head s))"
    have "take k (commit_writes s) = ?W @ (?st, tx_head s) # ?H @ [?fin]"
      using c lens by (simp add: commit_writes_def)
    then have e: "apply_writes (take k (commit_writes s)) D = ?D" by (simp add: D1_def)
    have "disk_n ?st ?D = 0" using head_disk(1) [OF hlen, of 0 ?D] by simp
    then have "logical ?st ?D = ?D" by (intro logical_none) simp
    moreover have "?D bn = (if bn \<in> ?bl then content s bn else D bn)"
    proof (cases "bn \<in> ?bl")
      case True
      then obtain i where "i < tx_n s" "bn = tx_blk s i" using n by (auto simp: in_set_conv_nth)
      then show ?thesis using True home_writes_blk [OF tx] bn start_area [of ?st] by auto
    next
      case False
      then show ?thesis using home [of bn "tx_n s"] lens D1 bn start_area [of ?st] by auto
    qed
    ultimately show ?thesis unfolding e using c by simp
  qed
qed

section \<open>Recovery\<close>

lemma fold_list_update:
  "length (fold (\<lambda>i xs. xs[i := g i]) [0..<n] xs) = length xs"
  "n \<le> length xs \<Longrightarrow> take n (fold (\<lambda>i xs. xs[i := g i]) [0..<n] xs) = map g [0..<n]"
proof -
  show l: "length (fold (\<lambda>i xs. xs[i := g i]) [0..<n] xs) = length xs" for n
    by (induction n) simp_all
  show "n \<le> length xs \<Longrightarrow> take n (fold (\<lambda>i xs. xs[i := g i]) [0..<n] xs) = map g [0..<n]"
    by (induction n) (simp_all add: l take_Suc_conv_app_nth)
qed

lemma read_head_loop:
  fixes s :: "'z log_st_scheme"
  assumes "n \<le> LOGSIZE"
  shows "forM [0..<n] (\<lambda>i. set_log_blk i (g i)) s =
    Ok () (s\<lparr>l_lh := (l_lh s)\<lparr>lh_block := fold (\<lambda>i xs. xs[i := g i]) [0..<n] (lh_block (l_lh s))\<rparr>\<rparr>)"
  using assms
proof (induction n)
  case 0
  then show ?case by (cases s) simp
next
  case (Suc n)
  then show ?case by (simp add: forM_snoc bnd_case set_log_blk_def lh_check_def)
qed

definition head_of :: "u32 \<Rightarrow> (u32 \<Rightarrow> byte list) \<Rightarrow> u32 list \<Rightarrow> logheader" where
  "head_of start D bl =
     \<lparr>lh_n = disk_n start D, lh_block = fold (\<lambda>i xs. xs[i := disk_blk start D i]) [0..<nat (disk_n start D)] bl\<rparr>"

lemma read_head_spec:
  fixes s :: "'z log_st_scheme"
  assumes rd: "ready s" and dev: "l_dev s = ROOTDEV" and n: "disk_n (l_start s) (content s) \<le> int LOGSIZE"
    and same: "content s = disk s"
  shows "outcome (s\<lparr>l_lh := head_of (l_start s) (content s) (lh_block (l_lh s))\<rparr>) (read_head s) [] (content s) {}"
proof -
  let ?A = "l_start s" and ?h = "head_of (l_start s) (content s) (lh_block (l_lh s))"
  from one_bread [OF rd, of ?A] obtain x bs sl where
    r: "bread ROOTDEV ?A s = Ok x (s\<lparr>bufs := bs, slocks := sl\<rparr>)" and x: "x < NBUF"
    and bc: "bc {x} (s\<lparr>bufs := bs, slocks := sl\<rparr>)" and cl: "clean bs (disk s)"
    and v: "b_valid (bs ! x)" "b_blockno (bs ! x) = ?A" "b_data (bs ! x) = content s ?A"
    and c: "content_of bs (disk s) = content s" and o: "\<forall>c < NBUF. c \<noteq> x \<longrightarrow> bs ! c = bufs s ! c"
    and rf: "b_refcnt (bs ! x) = b_refcnt (bufs s ! x) + 1"
    and k: "b_refcnt (bufs s ! x) \<noteq> 0 \<longrightarrow> holds_block ?A (bufs s ! x)" by blast
  let ?s1 = "s\<lparr>l_lh := ?h, bufs := bs, slocks := sl\<rparr>"
  have e1: "s\<lparr>bufs := bs, slocks := sl, l_lh := ?h\<rparr> = ?s1" by (cases s) simp
  have ok: "bufs_ok {x} bs" using bc by (simp add: bc_def)
  have len: "length bs = NBUF + 1" by (rule bufs_ok_length [OF ok])
  have dv: "b_dev (bs ! x) = ROOTDEV" using ok v x by (auto simp: bufs_ok_def)
  have bc1: "bc {x} ?s1" using bc unfolding e1 [symmetric] by simp
  have cl1: "clean (bufs ?s1) (disk ?s1)" using cl by simp
  have xH: "x \<in> {x}" by simp
  have "b_data (bufs ?s1 ! x) = disk ?s1 (b_blockno (bufs ?s1 ! x))" using v same by simp
  from brelse_spec [OF bc1 xH cl1 this] obtain bs3 sl3 ps3 where
    q: "brelse x ?s1 = Ok () (?s1\<lparr>bufs := bs3, slocks := sl3, procs := ps3\<rparr>)"
      "bc {} (?s1\<lparr>bufs := bs3, slocks := sl3, procs := ps3\<rparr>)"
      "clean bs3 (disk s)" "content_of bs3 (disk s) = content s"
    and same3: "same_bufs (bs[x := (bs ! x)\<lparr>b_refcnt := b_refcnt (bs ! x) - 1\<rparr>]) bs3"
    using c by auto
  have e3: "?s1\<lparr>bufs := bs3, slocks := sl3, procs := ps3\<rparr> = after (s\<lparr>l_lh := ?h\<rparr>) bs3 sl3 ps3 []"
    by (cases s) (simp add: after_def)
  have "\<forall>c < NBUF. b_dev (bs3 ! c) = b_dev (bs ! c) \<and> b_blockno (bs3 ! c) = b_blockno (bs ! c) \<and>
      b_valid (bs3 ! c) = b_valid (bs ! c) \<and> b_refcnt (bs3 ! c) = b_refcnt (bs ! c) - (if c = x then 1 else 0)"
    using same_bufs_D [OF same3] len by (auto simp: nth_list_update_if)
  from one_keeps [OF o x k v(1,2) dv rf this] have p: "pins_but {} (bufs s) bs3" .
  have nn: "nat (disk_n ?A (content s)) \<le> LOGSIZE" using n by simp
  have e0: "(l_lh s)\<lparr>lh_n := a, lh_block := b\<rparr> = \<lparr>lh_n = a, lh_block = b\<rparr>" for a b by simp
  have "read_head s = brelse x ?s1"
    unfolding e1 [symmetric] using dev v nn
    by (simp add: read_head_def bget_buf_def r bnd_case Let_def read_head_loop
      disk_n_def [of ?A "content s", symmetric] disk_blk_def [of ?A "content s", symmetric] head_of_def e0)
  then show ?thesis using q p unfolding outcome_def e3
    by (intro exI [of _ bs3] exI [of _ sl3] exI [of _ ps3] conjI) simp_all
qed

lemma head_of_tx:
  fixes s :: "'z log_st_scheme"
  assumes d: "disk_ok (l_start s) D" and dev: "l_dev s = ROOTDEV" and len: "length bl = LOGSIZE"
    and h: "l_lh s = head_of (l_start s) D bl"
  shows "tx_ok s" "tx_n s = nat (disk_n (l_start s) D)" "i < tx_n s \<Longrightarrow> tx_blk s i = disk_blk (l_start s) D i"
proof -
  let ?n = "nat (disk_n (l_start s) D)"
  have n: "?n \<le> length bl" using d len by (auto simp: disk_ok_def)
  show t: "tx_n s = ?n" using h by (simp add: head_of_def)
  have b: "take ?n (lh_block (l_lh s)) = map (disk_blk (l_start s) D) [0..<?n]"
    using fold_list_update(2) [OF n] h by (simp add: head_of_def)
  have l: "length (lh_block (l_lh s)) = LOGSIZE" using h len by (simp add: head_of_def fold_list_update)
  have "disk_n (l_start s) D = lh_n (l_lh s)" using h by (simp add: head_of_def)
  then show "tx_ok s" using d dev b l by (simp add: tx_ok_def disk_ok_def lessThan_atLeast0)
  show "i < tx_n s \<Longrightarrow> tx_blk s i = disk_blk (l_start s) D i"
    using b t by (metis diff_zero length_upt nth_map nth_take nth_upt plus_nat.add_0)
qed

definition recovery_writes :: "u32 \<Rightarrow> (u32 \<Rightarrow> byte list) \<Rightarrow> (u32 \<times> byte list) list" where
  "recovery_writes start D =
     map (\<lambda>i. (disk_blk start D i, D (log_bn start i))) [0..<nat (disk_n start D)] @
     [(start, head_data 0 [] (D start))]"

lemma head_data_0: "head_data 0 bl d = head_data 0 bl' d"
  by (simp add: head_data_def)

lemma recover_spec:
  fixes s :: "'z log_st_scheme"
  assumes rd: "ready s" "two_free (bufs s)" and dev: "l_dev s = ROOTDEV"
    and d: "disk_ok (l_start s) (disk s)" and len: "length (lh_block (l_lh s)) = LOGSIZE"
    and same: "content s = disk s"
  shows "\<exists>h. outcome (s\<lparr>l_lh := h\<lparr>lh_n := 0\<rparr>\<rparr>) (recover_from_log s) (recovery_writes (l_start s) (disk s))
    (apply_writes (recovery_writes (l_start s) (disk s)) (disk s)) UNIV \<and> length (lh_block h) = LOGSIZE"
proof -
  let ?st = "l_start s" and ?D = "disk s"
  let ?h = "head_of ?st ?D (lh_block (l_lh s))"
  let ?s1 = "s\<lparr>l_lh := ?h\<rparr>"
  have n: "disk_n ?st (content s) \<le> int LOGSIZE" using d same by (simp add: disk_ok_def)
  from read_head_spec [OF rd(1) dev n same] have "outcome ?s1 (read_head s) [] ?D {}" unfolding same .
  then obtain bs sl ps where 1: "read_head s = Ok () (after ?s1 bs sl ps [])" "bc {} (after ?s1 bs sl ps [])"
    "clean bs ?D" "content_of bs ?D = ?D" "pins_but {} (bufs s) bs"
    by (auto simp: outcome_def)
  let ?s2 = "after ?s1 bs sl ps []"
  have rd2: "ready ?s2" "two_free (bufs ?s2)" using 1 rd by (simp_all add: ready_def pins_but_def)
  have dev2: "l_dev ?s2 = ROOTDEV" using dev by simp
  have d2: "disk_ok (l_start ?s2) ?D" using d by simp
  have h2: "l_lh ?s2 = head_of (l_start ?s2) ?D (lh_block (l_lh s))" by simp
  note tx = head_of_tx [OF d2 dev2 len h2]
  have same2: "content ?s2 = ?D" using 1 by simp
  obtain X where X: "outcome ?s2 (install_trans True ?s2) (install_writes ?s2 ?D) (apply_writes (install_writes ?s2 ?D) ?D) X"
    using install_trans_spec [OF rd2(1) tx(1), of True] rd2 same2 by auto
  have iw: "install_writes ?s2 ?D = map (\<lambda>i. (disk_blk ?st ?D i, ?D (log_bn ?st i))) [0..<nat (disk_n ?st ?D)]"
    unfolding install_writes_def tx(2) using tx(3) tx(2) by simp
  have "disk_blk ?st ?D i \<noteq> ?st" if "i < nat (disk_n ?st ?D)" for i
    using that d start_area [of ?st] by (auto simp: disk_ok_def)
  then have st: "apply_writes (install_writes ?s2 ?D) ?D ?st = ?D ?st"
    unfolding iw by (intro apply_writes_other) force
  have "outcome (?s2\<lparr>l_lh := ?h\<lparr>lh_n := 0\<rparr>\<rparr>) (bnd (install_trans True) (\<lambda>_. bnd (set_lh_n 0) (\<lambda>_. write_head)) ?s2)
    (recovery_writes ?st ?D) (apply_writes (recovery_writes ?st ?D) ?D) X"
    using outcome_head [where m = "install_trans True", OF X rd2(1) dev2] st head_data_0 [of "lh_block ?h" _ "[]"]
    by (simp add: recovery_writes_def iw)
  then have 2: "outcome (?s2\<lparr>l_lh := ?h\<lparr>lh_n := 0\<rparr>\<rparr>) (recover_from_log s) (recovery_writes ?st ?D)
      (apply_writes (recovery_writes ?st ?D) ?D) UNIV"
    using 1(1) by (intro outcome_mono [OF _ subset_UNIV]) (simp add: recover_from_log_def bnd_case)
  have e: "after (?s2\<lparr>l_lh := ?h\<lparr>lh_n := 0\<rparr>\<rparr>) bs' sl' ps' ws = after (s\<lparr>l_lh := ?h\<lparr>lh_n := 0\<rparr>\<rparr>) bs' sl' ps' ws" for bs' sl' ps' ws
    by (cases s) (simp add: after_def)
  have "outcome (s\<lparr>l_lh := ?h\<lparr>lh_n := 0\<rparr>\<rparr>) (recover_from_log s) (recovery_writes ?st ?D)
      (apply_writes (recovery_writes ?st ?D) ?D) UNIV"
    using 2 1(5) unfolding outcome_def e by (auto simp: pins_but_def)
  moreover have "length (lh_block ?h) = LOGSIZE" using len by (simp add: head_of_def fold_list_update)
  ultimately show ?thesis by blast
qed

text \<open>No write of the recovery changes what the disk stands for, and in the end that is on the disk itself.\<close>

lemma logical_recovery:
  assumes d: "disk_ok start D" and bn: "bn \<notin> log_area start"
  shows "logical start (apply_writes (take k (recovery_writes start D)) D) bn = logical start D bn"
    "length (recovery_writes start D) \<le> k \<Longrightarrow>
       apply_writes (take k (recovery_writes start D)) D bn = logical start D bn"
proof -
  let ?n = "nat (disk_n start D)" and ?w = "\<lambda>i. (disk_blk start D i, D (log_bn start i))"
  let ?H = "map ?w [0..<?n]"
  have area: "\<And>i. i < ?n \<Longrightarrow> disk_blk start D i \<notin> log_area start" and nl: "?n \<le> LOGSIZE"
    and len: "length (D start) = BSIZE" using d by (auto simp: disk_ok_def)
  have inj: "\<And>i j. i < ?n \<Longrightarrow> j < ?n \<Longrightarrow> disk_blk start D i = disk_blk start D j \<Longrightarrow> i = j"
    using d by (auto simp: disk_ok_def distinct_map inj_on_def)
  have ar: "apply_writes (take j ?H) D b = D b" if "b \<in> log_area start" for b j
    using area that by (intro apply_writes_other) (auto simp: take_map dest!: in_set_takeD)
  have at: "apply_writes (take j ?H) D b = (if j \<le> i then D b else D (log_bn start i))"
    if "i < ?n" "b = disk_blk start D i" for i j b
  proof (cases "j \<le> i")
    case True
    have "disk_blk start D l \<noteq> b" if "l < j" for l
      using inj [of l i] that True \<open>i < ?n\<close> \<open>b = _\<close> by auto
    then have "b \<notin> fst ` set (take j ?H)" using True that by (force simp: take_map take_upt)
    then show ?thesis using True by (simp add: apply_writes_other)
  next
    case False
    have "map fst (take j ?H) = map (disk_blk start D) (take j [0..<?n])" by (simp add: take_map comp_def)
    moreover have "distinct (map (disk_blk start D) (take j [0..<?n]))"
      using d by (simp add: disk_ok_def flip: take_map)
    ultimately have "distinct (map fst (take j ?H))" by simp
    from apply_writes_nth [OF this, of i D] show ?thesis using that False by simp
  qed
  have oth: "apply_writes (take j ?H) D b = D b" if "\<And>i. i < ?n \<Longrightarrow> disk_blk start D i \<noteq> b" for b j
    using that by (intro apply_writes_other) (force simp: take_map dest!: in_set_takeD)
  have mid: "logical start (apply_writes (take j ?H) D) bn = logical start D bn" for j
  proof -
    let ?D = "apply_writes (take j ?H) D"
    have st: "?D start = D start" by (rule ar [OF start_area])
    note hc = head_cong [where D = ?D and D' = D and start = start, OF st]
    have "?D (log_bn start i) = D (log_bn start i)" if "i < ?n" for i
      using that nl by (intro ar log_bn_area) simp
    moreover have "?D bn = D bn" if "find (\<lambda>i. disk_blk start D i = bn) [0..<?n] = None"
      using that by (intro oth) (auto simp: find_None_iff)
    moreover have "find (\<lambda>i. disk_blk start D i = bn) [0..<?n] = Some i \<Longrightarrow> i < ?n" for i
      by (auto simp: find_Some_iff)
    ultimately show ?thesis unfolding logical_def hc by (auto split: option.split)
  qed
  let ?h0 = "head_data 0 [] (D start)"
  let ?F = "(apply_writes ?H D)(start := ?h0)"
  have F: "disk_n start ?F = 0" using head_disk(1) [OF len, of 0 ?F] by simp
  have Fbn: "?F bn = logical start D bn"
  proof (cases "\<exists>i < ?n. disk_blk start D i = bn")
    case True
    then obtain i where i: "i < ?n" "bn = disk_blk start D i" by blast
    have "?F bn = D (log_bn start i)" using at [OF i, of ?n] i(1) bn start_area [of start] by auto
    moreover have "logical start D bn = D (log_bn start i)" by (rule logical_blk [OF i]) (rule inj [OF i(1)])
    ultimately show ?thesis by simp
  next
    case False
    then show ?thesis using oth [of bn ?n] logical_other [of start D bn] bn start_area [of start] by auto
  qed
  have whole: "take k (recovery_writes start D) = ?H @ [(start, ?h0)]" if "length (recovery_writes start D) \<le> k"
    using that by (simp add: recovery_writes_def)
  show "logical start (apply_writes (take k (recovery_writes start D)) D) bn = logical start D bn"
  proof (cases "length (recovery_writes start D) \<le> k")
    case True
    then show ?thesis using whole Fbn logical_none [of start ?F] F by simp
  next
    case False
    then have "take k (recovery_writes start D) = take k ?H" by (simp add: recovery_writes_def)
    then show ?thesis using mid by simp
  qed
  show "length (recovery_writes start D) \<le> k \<Longrightarrow>
       apply_writes (take k (recovery_writes start D)) D bn = logical start D bn"
    using whole Fbn by simp
qed

lemma logical_recovery_n:
  assumes "disk_ok start D"
  shows "disk_n start (apply_writes (recovery_writes start D) D) = 0"
proof -
  have len: "length (D start) = BSIZE" using assms by (simp add: disk_ok_def)
  let ?D = "apply_writes (recovery_writes start D) D"
  have "?D start = head_data 0 [] (D start)" by (simp add: recovery_writes_def)
  then show ?thesis using head_disk(1) [where D = ?D and start = start, OF len, of 0] by simp
qed

lemma commit_writes_content:
  assumes tx: "tx_ok s" and bn: "bn \<notin> log_area (l_start s)"
  shows "apply_writes (commit_writes s) (content s) bn = content s bn"
proof -
  let ?st = "l_start s" and ?W = "log_writes s (content s)" and ?H = "home_writes s"
  let ?C = "(apply_writes ?W (content s))(?st := tx_head s)"
  have st: "bn \<noteq> ?st" using bn start_area [of ?st] by auto
  have "bn \<notin> fst ` set ?W" using log_writes_fst [OF tx] bn by blast
  then have C: "?C bn = content s bn" using st by (simp add: apply_writes_other)
  have "apply_writes ?H ?C bn = content s bn"
  proof (cases "\<exists>i < tx_n s. bn = tx_blk s i")
    case True
    then show ?thesis using home_writes_blk [OF tx] by auto
  next
    case False
    then have "bn \<notin> fst ` set ?H" by (auto simp: home_writes_def)
    then show ?thesis using C by (simp add: apply_writes_other)
  qed
  then show ?thesis using st by (simp add: commit_writes_def)
qed

end
