(* ===== verification/Transaction.thy ===== *)
theory Transaction
  imports Recovery
begin

text \<open>
  Transactions of the log (kernel/log.c) and crashes: \<open>log_write\<close>, \<open>begin_op\<close> and \<open>end_op\<close>, the
  disk after any part of a commit or of a recovery, and \<open>initlog\<close> on it.
\<close>

section \<open>Crashes\<close>

lemma disk_ok_head:
  assumes tx: "tx_ok s" and len: "length (content s (l_start s)) = BSIZE" and h: "D (l_start s) = tx_head s"
  shows "disk_ok (l_start s) D"
proof -
  have nn: "0 \<le> lh_n (l_lh s)" "lh_n (l_lh s) \<le> int LOGSIZE" and n: "tx_n s \<le> length (lh_block (l_lh s))"
    and d: "distinct (take (tx_n s) (lh_block (l_lh s)))"
      "set (take (tx_n s) (lh_block (l_lh s))) \<inter> log_area (l_start s) = {}"
    using tx by (auto simp: tx_ok_def)
  note hd = head_disk [where D = D and start = "l_start s", OF len nn h [unfolded tx_head_def]]
  have "map (disk_blk (l_start s) D) [0..<tx_n s] = take (tx_n s) (lh_block (l_lh s))"
    using hd n by (intro nth_equalityI) simp_all
  moreover from this have "disk_blk (l_start s) D ` {..<tx_n s} = set (take (tx_n s) (lh_block (l_lh s)))"
    by (metis list.set_map lessThan_atLeast0 set_upt)
  moreover have "length (D (l_start s)) = BSIZE" using head_data(1) [OF len nn] h by (simp add: tx_head_def)
  ultimately show ?thesis using hd(1) nn d by (simp add: disk_ok_def)
qed

lemma disk_ok_empty: "disk_n start D = 0 \<Longrightarrow> length (D start) = BSIZE \<Longrightarrow> disk_ok start D"
  by (simp add: disk_ok_def)

text \<open>Whatever part of a commit has reached the disk, its header can be recovered from.\<close>

lemma disk_ok_commit:
  assumes tx: "tx_ok s" and len: "length (content s (l_start s)) = BSIZE" "length (D (l_start s)) = BSIZE"
    and n0: "disk_n (l_start s) D = 0"
  shows "disk_ok (l_start s) (apply_writes (take k (commit_writes s)) D)"
proof -
  let ?st = "l_start s" and ?W = "log_writes s (content s)" and ?H = "home_writes s"
  let ?h0 = "head_data 0 (lh_block (l_lh s)) (tx_head s)"
  have lens: "length ?W = tx_n s" "length ?H = tx_n s" by (simp_all add: log_writes_def home_writes_def)
  have nn: "0 \<le> lh_n (l_lh s)" "lh_n (l_lh s) \<le> int LOGSIZE" using tx by (auto simp: tx_ok_def)
  have hlen: "length (tx_head s) = BSIZE" unfolding tx_head_def by (rule head_data(1) [OF len(1) nn])
  have W: "?st \<notin> fst ` set (take j ?W)" for j
    using subset_trans [OF take_writes_fst log_writes_fst [OF tx]] by blast
  have H: "?st \<notin> fst ` set (take j ?H)" for j
    using take_writes_fst [of j ?H] home_writes_fst [OF tx] start_area [of ?st] by blast
  consider (a) "k \<le> tx_n s" | (b) "tx_n s < k" "k \<le> 2 * tx_n s + 1" | (c) "2 * tx_n s + 1 < k" by linarith
  then show ?thesis
  proof cases
    case a
    let ?D = "apply_writes (take k ?W) D"
    have e: "take k (commit_writes s) = take k ?W" using lens a by (simp add: commit_writes_def)
    have st: "?D ?st = D ?st" by (rule apply_writes_other [OF W])
    have "disk_n ?st ?D = 0" using head_cong(1) [where D = ?D and D' = D and start = ?st, OF st] n0 by simp
    then show ?thesis unfolding e using st len by (intro disk_ok_empty) simp_all
  next
    case b
    have e: "take k (commit_writes s) = ?W @ (?st, tx_head s) # take (k - tx_n s - 1) ?H"
      using b lens by (simp add: commit_writes_def take_Cons')
    have "apply_writes (take (k - tx_n s - 1) ?H) ((apply_writes ?W D)(?st := tx_head s)) ?st = tx_head s"
      using apply_writes_other [OF H] by simp
    then show ?thesis unfolding e by (intro disk_ok_head [OF tx len(1)]) simp
  next
    case c
    let ?D = "apply_writes (commit_writes s) D"
    have e: "take k (commit_writes s) = commit_writes s" using c lens by (simp add: commit_writes_def)
    have "?D ?st = ?h0" by (simp add: commit_writes_def)
    then show ?thesis unfolding e
      using head_disk(1) [OF hlen, of 0 ?D] head_data(1) [OF hlen, of 0] by (intro disk_ok_empty) simp_all
  qed
qed

text \<open>The state at boot, before \<open>initlog\<close>: nothing in the cache that is not on the disk, and room in it.\<close>

definition booted :: "'z log_st_scheme \<Rightarrow> bool" where
  "booted r \<longleftrightarrow> bc {} r \<and> clean (bufs r) (disk r) \<and> content r = disk r \<and> two_free (bufs r) \<and>
     length (lh_block (l_lh r)) = LOGSIZE"

lemma initlog_spec:
  fixes r :: "'z log_st_scheme"
  assumes b: "booted r" and d: "disk_ok (sb_logstart sb) (disk r)"
  shows "\<exists>r' ws. initlog ROOTDEV sb r = Ok () r' \<and> ws = recovery_writes (sb_logstart sb) (disk r) \<and>
    dwrites r' = dwrites r @ ws \<and> disk r' = apply_writes ws (disk r) \<and> l_start r' = sb_logstart sb \<and>
    lh_n (l_lh r') = 0 \<and> bc {} r' \<and> clean (bufs r') (disk r') \<and> content r' = disk r'"
proof -
  let ?r = "r\<lparr>l_start := sb_logstart sb, l_size := sint (sb_nlog sb), l_dev := ROOTDEV\<rparr>"
  have "ready ?r" "two_free (bufs ?r)" "content ?r = disk ?r" "disk_ok (l_start ?r) (disk ?r)"
    "length (lh_block (l_lh ?r)) = LOGSIZE" "l_dev ?r = ROOTDEV"
    using b d by (auto simp: booted_def ready_def bc_def thr_ok_def my_pid_def two_free_def one_free_def)
  note p = this
  from recover_spec [OF p(1,2,6,4,5,3)] obtain h where
    o: "outcome (?r\<lparr>l_lh := h\<lparr>lh_n := 0\<rparr>\<rparr>) (recover_from_log ?r) (recovery_writes (sb_logstart sb) (disk r))
      (apply_writes (recovery_writes (sb_logstart sb) (disk r)) (disk r)) UNIV" by auto
  have i: "initlog ROOTDEV sb r = recover_from_log ?r"
    by (simp add: initlog_def BSIZE_def LOGSIZE_def MAXOPBLOCKS_def)
  show ?thesis using o unfolding i outcome_def by auto
qed

section \<open>Properties\<close>

text \<open>
  C1. A commit is atomic across crashes. Let a transaction be in memory, with its blocks pinned in the
  cache, and let the log on disk be empty. \<open>commit\<close> returns with an empty header, and the contents of
  all blocks outside the log are as before. If instead the machine stops after any number \<open>k\<close>
  of its block writes, and a later boot runs \<open>initlog\<close> on the disk that is left, then \<open>initlog\<close>
  returns, and the disk has all the blocks of the transaction new (if the header had been
  written, that is \<open>k > n\<close>) or all of them old; every other block outside the log is untouched.
\<close>

theorem commit_crash_atomic:
  fixes s :: "'z log_st_scheme"
  assumes "ready s" "tx_ok s" "0 < lh_n (l_lh s)" "\<forall>i < tx_n s. pinned (bufs s) (tx_blk s i)"
    "length (content s (l_start s)) = BSIZE" "length (disk s (l_start s)) = BSIZE" "disk_n (l_start s) (disk s) = 0"
  shows "\<exists>s' ws. commit s = Ok () s' \<and> dwrites s' = dwrites s @ ws \<and> disk s' = apply_writes ws (disk s) \<and>
    lh_n (l_lh s') = 0 \<and> (\<forall>bn. bn \<notin> log_area (l_start s) \<longrightarrow> content s' bn = content s bn) \<and>
    (\<forall>k sb. \<forall>r :: 'y log_st_scheme. booted r \<and> sb_logstart sb = l_start s \<and>
      disk r = apply_writes (take k ws) (disk s) \<longrightarrow>
      (\<exists>r'. initlog ROOTDEV sb r = Ok () r' \<and> disk_n (l_start s) (disk r') = 0 \<and>
        (\<forall>bn. bn \<notin> log_area (l_start s) \<longrightarrow> disk r' bn =
          (if tx_n s < k \<and> bn \<in> set (take (tx_n s) (lh_block (l_lh s))) then content s bn else disk s bn))))"
proof -
  let ?st = "l_start s" and ?ws = "commit_writes s"
  obtain X where "outcome (s\<lparr>l_lh := (l_lh s)\<lparr>lh_n := 0\<rparr>\<rparr>) (commit s) ?ws (apply_writes ?ws (content s)) X"
    using commit_spec [OF assms(1,2,3)] assms(4) by blast
  then obtain s' where c: "commit s = Ok () s'" "dwrites s' = dwrites s @ ?ws" "disk s' = apply_writes ?ws (disk s)"
    "lh_n (l_lh s') = 0" "content s' = apply_writes ?ws (content s)"
    by (auto simp: outcome_def)
  have ct: "content s' bn = content s bn" if "bn \<notin> log_area ?st" for bn
    using c(5) commit_writes_content [OF assms(2) that] by simp
  have rec: "\<exists>r'. initlog ROOTDEV sb r = Ok () r' \<and> disk_n ?st (disk r') = 0 \<and>
      (\<forall>bn. bn \<notin> log_area ?st \<longrightarrow> disk r' bn =
        (if tx_n s < k \<and> bn \<in> set (take (tx_n s) (lh_block (l_lh s))) then content s bn else disk s bn))"
    if b: "booted r" and sb: "sb_logstart sb = ?st" and r: "disk r = apply_writes (take k ?ws) (disk s)"
    for k sb and r :: "'y log_st_scheme"
  proof -
    let ?D = "disk r"
    have ok: "disk_ok ?st ?D" unfolding r by (rule disk_ok_commit [OF assms(2,5,6,7)])
    from initlog_spec [OF b, of sb] ok sb obtain r' where r': "initlog ROOTDEV sb r = Ok () r'"
      "disk r' = apply_writes (recovery_writes ?st ?D) ?D" by auto
    have w: "take (length (recovery_writes ?st ?D)) (recovery_writes ?st ?D) = recovery_writes ?st ?D" by simp
    have "disk r' bn = logical ?st ?D bn" if "bn \<notin> log_area ?st" for bn
      using logical_recovery(2) [OF ok that order_refl] r'(2) unfolding w by simp
    moreover have "disk_n ?st (disk r') = 0"
      using logical_recovery_n [OF ok] r'(2) by simp
    ultimately show ?thesis using r'(1) logical_commit [OF assms(2,5) _ assms(7)] unfolding r by auto
  qed
  show ?thesis
    using c ct rec by (intro exI [of _ s'] exI [of _ ?ws]) blast
qed

section \<open>Transactions\<close>

lemma commit_writes_disk:
  assumes tx: "tx_ok s" and bn: "bn \<in> set (take (tx_n s) (lh_block (l_lh s)))"
  shows "apply_writes (commit_writes s) D bn = content s bn"
proof -
  obtain i where i: "i < tx_n s" "bn = tx_blk s i"
    using bn tx by (auto simp: in_set_conv_nth tx_ok_def)
  then have "bn \<noteq> l_start s" using tx_okD(2) [OF tx i(1)] start_area [of "l_start s"] by auto
  then show ?thesis using home_writes_blk [OF tx i(1)] i(2) by (simp add: commit_writes_def)
qed

lemma log_write_absorbs:
  fixes s :: "'z log_st_scheme"
  assumes "LogLock \<notin> set (held s)" "lh_n (l_lh s) < int LOGSIZE" "lh_n (l_lh s) < l_size s - 1" "1 \<le> l_outstanding s"
    "b_blockno (bufs s ! b) \<in> set (take (tx_n s) (lh_block (l_lh s)))"
  shows "log_write b s = Ok () s"
proof -
  obtain i where i: "first_idx (\<lambda>blk. blk = b_blockno (bufs s ! b)) (take (tx_n s) (lh_block (l_lh s))) = Some i"
    using assms(5) first_idx_None [of "\<lambda>blk. blk = b_blockno (bufs s ! b)"] by (metis not_Some_eq)
  from i have "i < tx_n s" "tx_blk s i = b_blockno (bufs s ! b)" "i < LOGSIZE"
    using assms(2) by (auto simp: first_idx_Some)
  moreover from this have "(lh_block (l_lh s))[i := b_blockno (bufs s ! b)] = lh_block (l_lh s)"
    by (metis list_update_id)
  ultimately show ?thesis using assms i
    by (simp add: log_write_def bnd_case acquire_def release_def bget_buf_def Let_def set_log_blk_def lh_check_def)
qed

lemma log_write_adds:
  fixes s :: "'z log_st_scheme"
  assumes "held s = []" "0 \<le> lh_n (l_lh s)" "lh_n (l_lh s) < int LOGSIZE" "lh_n (l_lh s) < l_size s - 1" "1 \<le> l_outstanding s"
    "b_blockno (bufs s ! b) \<notin> set (take (tx_n s) (lh_block (l_lh s)))"
  shows "log_write b s = Ok () (s\<lparr>
    bufs := (bufs s)[b := (bufs s ! b)\<lparr>b_refcnt := b_refcnt (bufs s ! b) + 1\<rparr>],
    l_lh := \<lparr>lh_n = lh_n (l_lh s) + 1, lh_block = (lh_block (l_lh s))[tx_n s := b_blockno (bufs s ! b)]\<rparr>\<rparr>)"
proof -
  have i: "first_idx (\<lambda>blk. blk = b_blockno (bufs s ! b)) (take (tx_n s) (lh_block (l_lh s))) = None"
    using assms(6) first_idx_None [of "\<lambda>blk. blk = b_blockno (bufs s ! b)"] by blast
  have "tx_n s < LOGSIZE" using assms by simp
  then show ?thesis using assms i
    by (simp add: log_write_def bnd_case acquire_def release_def bget_buf_def Let_def set_log_blk_def lh_check_def
      bpin_run set_lh_n_def held_same)
qed


text \<open>
  The reference that the log has to a block: a buffer holds the block, and there is a reference to the
  buffer besides the one of the thread, for the buffers \<open>H\<close> it has locked. So the block stays in the cache
  when the thread releases what it has locked.
\<close>

definition log_pinned :: "nat set \<Rightarrow> buf list \<Rightarrow> u32 \<Rightarrow> bool" where
  "log_pinned H bs bn \<longleftrightarrow> (\<exists>b < NBUF. holds_block bn (bs ! b) \<and> b_valid (bs ! b) \<and>
     (if b \<in> H then 1 else 0) < unat (b_refcnt (bs ! b)))"

lemma log_pinned_unlocked: "log_pinned {} bs bn = pinned bs bn"
  by (simp add: log_pinned_def pinned_def unat_gt_0)

lemma unat_incr: "unat (x :: u32) \<le> 65536 \<Longrightarrow> unat (x + 1) = Suc (unat x)"
  by (simp add: unat_word_ariths)

lemma log_pinned_pin:
  assumes "bufs_ok H bs" "b \<in> H" "b_valid (bs ! b)" "unat (b_refcnt (bs ! b)) \<le> 65536"
  defines "bs' \<equiv> bs[b := (bs ! b)\<lparr>b_refcnt := b_refcnt (bs ! b) + 1\<rparr>]"
  shows "log_pinned H bs' (b_blockno (bs ! b))" "log_pinned H bs bn \<Longrightarrow> log_pinned H bs' bn"
proof -
  have b: "b < NBUF" "0 < unat (b_refcnt (bs ! b))" using assms(1,2) by (auto simp: bufs_ok_def unat_gt_0)
  have len: "length bs = NBUF + 1" by (rule bufs_ok_length [OF assms(1)])
  note u = unat_incr [OF assms(4)]
  show "log_pinned H bs' (b_blockno (bs ! b))"
    using assms(3) b u len valid_holds [OF assms(1) b(1) assms(3)] unfolding log_pinned_def bs'_def
    by (intro exI [of _ b]) (simp add: holds_block_def)
  assume "log_pinned H bs bn"
  then obtain c where "c < NBUF" "holds_block bn (bs ! c)" "b_valid (bs ! c)" "(if c \<in> H then 1 else 0) < unat (b_refcnt (bs ! c))"
    by (auto simp: log_pinned_def)
  then show "log_pinned H bs' bn"
    using u len unfolding log_pinned_def bs'_def
    by (intro exI [of _ c]) (auto simp: nth_list_update_if holds_block_def)
qed

lemma log_pinned_brelse:
  assumes "bufs_ok H bs" "b \<in> H" "log_pinned H bs bn"
  shows "log_pinned (H - {b}) (brelse_bufs b bs) bn"
proof -
  obtain c where c: "c < NBUF" "holds_block bn (bs ! c)" "b_valid (bs ! c)" "(if c \<in> H then 1 else 0) < unat (b_refcnt (bs ! c))"
    using assms(3) by (auto simp: log_pinned_def)
  have len: "length bs = NBUF + 1" by (rule bufs_ok_length [OF assms(1)])
  have u: "unat (b_refcnt (bs ! b) - 1) = unat (b_refcnt (bs ! b)) - 1"
    using assms(1,2) by (simp add: bufs_ok_def unat_sub_le word_le_nat_alt unat_gt_0 Suc_leI)
  let ?x = "bs[b := (bs ! b)\<lparr>b_refcnt := b_refcnt (bs ! b) - 1\<rparr>] ! c"
  have "b_refcnt (brelse_bufs b bs ! c) = b_refcnt ?x" "b_valid (brelse_bufs b bs ! c) = b_valid ?x"
    "b_dev (brelse_bufs b bs ! c) = b_dev ?x" "b_blockno (brelse_bufs b bs ! c) = b_blockno ?x"
    using same_bufs_D [OF brelse_bufs_spec(2) [OF assms(1,2)], of c] c(1) len by simp_all
  then show ?thesis
    unfolding log_pinned_def using c u len assms(2)
    by (intro exI [of _ c]) (auto simp: nth_list_update_if holds_block_def)
qed

text \<open>
  C24. \<open>log_write\<close> records a block in the transaction. With room in the log and a transaction open,
  the blocks listed afterwards are those before and the block of the buffer; a block that is listed
  already is not listed again; the list stays free of duplicates and of blocks of the log itself;
  a block that is new takes one more reference to its buffer, one that is listed takes none, and no other
  buffer changes; so all listed blocks stay in the cache also after \<open>brelse\<close>; nothing is written to the disk.
\<close>

theorem log_write_records:
  fixes s :: "'z log_st_scheme"
  assumes "bc H s" "clean (bufs s) (disk s)" "b \<in> H" "b_valid (bufs s ! b)" "unat (b_refcnt (bufs s ! b)) \<le> 65536"
    "tx_ok s" "\<forall>i < tx_n s. log_pinned H (bufs s) (tx_blk s i)" "b_blockno (bufs s ! b) \<notin> log_area (l_start s)"
    "lh_n (l_lh s) < int LOGSIZE" "lh_n (l_lh s) < l_size s - 1" "1 \<le> l_outstanding s"
  shows "\<exists>s' u. log_write b s = Ok () s' \<and> tx_ok s' \<and>
    set (take (tx_n s') (lh_block (l_lh s'))) =
      insert (b_blockno (bufs s ! b)) (set (take (tx_n s) (lh_block (l_lh s)))) \<and>
    tx_n s' = (if b_blockno (bufs s ! b) \<in> set (take (tx_n s) (lh_block (l_lh s))) then tx_n s else Suc (tx_n s)) \<and>
    bufs s' = (if b_blockno (bufs s ! b) \<in> set (take (tx_n s) (lh_block (l_lh s))) then bufs s
      else (bufs s)[b := (bufs s ! b)\<lparr>b_refcnt := b_refcnt (bufs s ! b) + 1\<rparr>]) \<and>
    (\<forall>i < tx_n s'. log_pinned H (bufs s') (tx_blk s' i)) \<and>
    bc H s' \<and> clean (bufs s') (disk s') \<and> content s' = content s \<and> disk s' = disk s \<and> dwrites s' = dwrites s \<and>
    brelse b s' = Ok () u \<and> l_lh u = l_lh s' \<and> (\<forall>i < tx_n s'. log_pinned (H - {b}) (bufs u) (tx_blk s' i))"
proof -
  have rel: "\<exists>u. brelse b s' = Ok () u \<and> l_lh u = l_lh s' \<and> (\<forall>i < tx_n s'. log_pinned (H - {b}) (bufs u) (tx_blk s' i))"
    if "bc H s'" "\<forall>i < tx_n s'. log_pinned H (bufs s') (tx_blk s' i)" for s' :: "'z log_st_scheme"
    using brelse_run [OF that(1) assms(3)] log_pinned_brelse [of H "bufs s'" b] that assms(3) by (simp add: bc_def)
  show ?thesis
  proof (cases "b_blockno (bufs s ! b) \<in> set (take (tx_n s) (lh_block (l_lh s)))")
    case True
    have "LogLock \<notin> set (held s)" using assms(1) by (simp add: bc_def thr_ok_def)
    from log_write_absorbs [OF this assms(9,10,11) True] rel [OF assms(1,7)] show ?thesis
      using True assms by (auto intro!: exI [of _ s])
  next
    case False
    let ?bn = "b_blockno (bufs s ! b)" and ?n = "tx_n s"
    let ?lh = "\<lparr>lh_n = lh_n (l_lh s) + 1, lh_block = (lh_block (l_lh s))[tx_n s := b_blockno (bufs s ! b)]\<rparr>"
    let ?bs = "(bufs s)[b := (bufs s ! b)\<lparr>b_refcnt := b_refcnt (bufs s ! b) + 1\<rparr>]"
    let ?s = "s\<lparr>bufs := ?bs, l_lh := ?lh\<rparr>"
    have held: "held s = []" and ok: "bufs_ok H (bufs s)" using assms(1) by (simp_all add: bc_def thr_ok_def)
    have n: "0 \<le> lh_n (l_lh s)" "length (lh_block (l_lh s)) = LOGSIZE" "?n < LOGSIZE"
      using assms(6,9) by (auto simp: tx_ok_def)
    have n': "tx_n ?s = Suc ?n" using n by simp
    have blk: "take (tx_n ?s) (lh_block (l_lh ?s)) = take ?n (lh_block (l_lh s)) @ [?bn]"
      unfolding n' using n by (simp add: take_Suc_conv_app_nth)
    have tx: "tx_ok ?s"
      unfolding tx_ok_def blk using assms(6,8,9) False n by (auto simp: tx_ok_def)
    note pp = log_pinned_pin [OF ok assms(3-5)]
    have pin: "\<forall>i < tx_n ?s. log_pinned H (bufs ?s) (tx_blk ?s i)"
    proof (intro allI impI)
      fix i assume "i < tx_n ?s"
      then show "log_pinned H (bufs ?s) (tx_blk ?s i)"
        using pp(1) pp(2) [of "tx_blk s i"] assms(7) n by (cases "i = ?n") auto
    qed
    note bp = bpin_spec [OF assms(1,3,5,2)]
    have bc: "bc H ?s" using bp(2) by simp
    obtain u where "brelse b ?s = Ok () u" "l_lh u = l_lh ?s" "\<forall>i < tx_n ?s. log_pinned (H - {b}) (bufs u) (tx_blk ?s i)"
      using rel [OF bc pin] by blast
    then show ?thesis
      using log_write_adds [OF held n(1) assms(9-11) False] tx blk pin bp bc False n'
      by (intro exI [of _ ?s] exI [of _ u]) simp
  qed
qed

text \<open>
  The guards of \<open>log_write\<close>. A transaction that would not fit the log or the header stops with
  the panic of the code, and so does a write outside a transaction; on every other path through
  the guards the operation returns.
\<close>

lemma log_write_guards:
  fixes s :: "'z log_st_scheme"
  assumes "held s = []" "0 \<le> lh_n (l_lh s)"
  shows "log_write b s =
    (if int LOGSIZE \<le> lh_n (l_lh s) \<or> l_size s - 1 \<le> lh_n (l_lh s) then Panic ''too big a transaction''
     else if l_outstanding s < 1 then Panic ''log_write outside of trans''
     else if b_blockno (bufs s ! b) \<in> set (take (tx_n s) (lh_block (l_lh s))) then Ok () s
     else Ok () (s\<lparr>bufs := (bufs s)[b := (bufs s ! b)\<lparr>b_refcnt := b_refcnt (bufs s ! b) + 1\<rparr>],
       l_lh := \<lparr>lh_n = lh_n (l_lh s) + 1, lh_block = (lh_block (l_lh s))[tx_n s := b_blockno (bufs s ! b)]\<rparr>\<rparr>))"
proof (cases "int LOGSIZE \<le> lh_n (l_lh s) \<or> l_size s - 1 \<le> lh_n (l_lh s) \<or> l_outstanding s < 1")
  case True
  then show ?thesis using assms by (auto simp: log_write_def bnd_case acquire_def panic_if_def panic_def)
next
  case False
  then show ?thesis using assms log_write_absorbs [of s b] log_write_adds [of s b] by auto
qed

text \<open>
  Admission to the log. \<open>begin_op\<close> lets an operation in exactly when no commit is under way and the
  blocks already listed, with \<open>MAXOPBLOCKS\<close> for every operation in progress and for this one, fit
  into the log; otherwise the process sleeps on the log with nothing of the log changed, holding only
  its own lock.
\<close>

lemma begin_op_admission:
  fixes s :: "'z log_st_scheme"
  assumes "held s = []" "cur s = Some p" "p < length (procs s)"
  shows "begin_op s =
    (if \<not> l_committing s \<and> lh_n (l_lh s) + (l_outstanding s + 1) * int MAXOPBLOCKS \<le> int LOGSIZE
     then Ok () (s\<lparr>l_outstanding := l_outstanding s + 1\<rparr>)
     else Swtch (s\<lparr>held := [ProcLock p],
       procs := (procs s)[p := (procs s ! p)\<lparr>p_chan := LogChan, p_state := SLEEPING\<rparr>]\<rparr>))"
  using assms sleep_run [of "s\<lparr>held := [LogLock]\<rparr>" p LogLock LogChan]
  by (auto simp: begin_op_def begin_op_loop_def bnd_case acquire_def release_def held_same)


text \<open>
  C25. Group commit. \<open>end_op\<close> of an operation while others are in progress only takes it off the count and
  wakes the waiting ones; it writes nothing. The \<open>end_op\<close> of the last one commits: it returns
  with an empty header and no commit under way, every block of the transaction is on the disk,
  and no block outside the log has changed its contents.
\<close>

theorem end_op_group_commit:
  fixes s :: "'z log_st_scheme"
  assumes "ready s" "tx_ok s" "\<forall>i < tx_n s. pinned (bufs s) (tx_blk s i)" "\<not> l_committing s" "0 < lh_n (l_lh s)"
  shows "(1 < l_outstanding s \<longrightarrow> end_op s = Ok () (s\<lparr>l_outstanding := l_outstanding s - 1,
      procs := wake_all (cur s) LogChan (procs s)\<rparr>)) \<and>
    (l_outstanding s = 1 \<longrightarrow> (\<exists>s'. end_op s = Ok () s' \<and> l_outstanding s' = 0 \<and> \<not> l_committing s' \<and>
      lh_n (l_lh s') = 0 \<and> held s' = [] \<and>
      (\<forall>bn \<in> set (take (tx_n s) (lh_block (l_lh s))). disk s' bn = content s bn) \<and>
      (\<forall>bn. bn \<notin> log_area (l_start s) \<longrightarrow> content s' bn = content s bn)))"
proof (intro conjI impI)
  have thr: "held s = []" "length (procs s) = NPROC" using assms(1) by (auto simp: ready_def bc_def thr_ok_def)
  { assume "1 < l_outstanding s"
    then show "end_op s = Ok () (s\<lparr>l_outstanding := l_outstanding s - 1, procs := wake_all (cur s) LogChan (procs s)\<rparr>)"
      using thr assms(4) wakeup_run [of "s\<lparr>held := [LogLock], l_outstanding := l_outstanding s - 1\<rparr>" LogChan]
      by (simp add: end_op_def bnd_case acquire_def release_def) }
  assume o: "l_outstanding s = 1"
  let ?t = "s\<lparr>l_outstanding := 0, l_committing := True\<rparr>"
  have t: "ready ?t" "tx_ok ?t" "0 < lh_n (l_lh ?t)" "\<forall>i < tx_n ?t. pinned (bufs ?t) (tx_blk ?t i)"
    using assms by (auto simp: ready_def tx_ok_def bc_def thr_ok_def my_pid_def)
  obtain X where "outcome (?t\<lparr>l_lh := (l_lh ?t)\<lparr>lh_n := 0\<rparr>\<rparr>) (commit ?t) (commit_writes ?t)
      (apply_writes (commit_writes ?t) (content ?t)) X"
    using commit_spec [OF t(1,2,3)] t(4) by blast
  then obtain bs sl ps where c: "commit ?t = Ok () (after (?t\<lparr>l_lh := (l_lh ?t)\<lparr>lh_n := 0\<rparr>\<rparr>) bs sl ps (commit_writes ?t))"
    "bc {} (after (?t\<lparr>l_lh := (l_lh ?t)\<lparr>lh_n := 0\<rparr>\<rparr>) bs sl ps (commit_writes ?t))"
    "content_of bs (apply_writes (commit_writes ?t) (disk ?t)) = apply_writes (commit_writes ?t) (content ?t)"
    unfolding outcome_def by auto
  let ?u = "after (?t\<lparr>l_lh := (l_lh ?t)\<lparr>lh_n := 0\<rparr>\<rparr>) bs sl ps (commit_writes ?t)"
  have u: "held ?u = []" "length (procs ?u) = NPROC" using c(2) by (auto simp: bc_def thr_ok_def)
  let ?v = "?u\<lparr>l_committing := False, procs := wake_all (cur ?u) LogChan (procs ?u)\<rparr>"
  have "end_op s = Ok () ?v"
    using thr assms(4) o c(1) u wakeup_run [of "?u\<lparr>held := [LogLock], l_committing := False\<rparr>" LogChan]
    by (simp add: end_op_def bnd_case acquire_def release_def held_same)
  moreover have "disk ?v bn = content s bn" if "bn \<in> set (take (tx_n s) (lh_block (l_lh s)))" for bn
    using that commit_writes_disk [OF t(2), of bn "disk ?t"] by simp
  moreover have "content ?v bn = content s bn" if "bn \<notin> log_area (l_start s)" for bn
    using that c(3) commit_writes_content [OF t(2), of bn] by simp
  ultimately show "\<exists>s'. end_op s = Ok () s' \<and> l_outstanding s' = 0 \<and> \<not> l_committing s' \<and>
      lh_n (l_lh s') = 0 \<and> held s' = [] \<and>
      (\<forall>bn \<in> set (take (tx_n s) (lh_block (l_lh s))). disk s' bn = content s bn) \<and>
      (\<forall>bn. bn \<notin> log_area (l_start s) \<longrightarrow> content s' bn = content s bn)"
    using u by (intro exI [of _ ?v]) (simp add: after_def)
qed

lemma disk_ok_recovery:
  assumes d: "disk_ok start D"
  shows "disk_ok start (apply_writes (take k (recovery_writes start D)) D)"
proof (cases "length (recovery_writes start D) \<le> k")
  case True
  let ?D = "apply_writes (recovery_writes start D) D"
  have len: "length (D start) = BSIZE" using d by (simp add: disk_ok_def)
  have "?D start = head_data 0 [] (D start)" by (simp add: recovery_writes_def)
  then show ?thesis
    using True logical_recovery_n [OF d] head_data(1) [OF len, of 0] by (intro disk_ok_empty) simp_all
next
  case False
  let ?H = "map (\<lambda>i. (disk_blk start D i, D (log_bn start i))) [0..<nat (disk_n start D)]"
  let ?D = "apply_writes (take k ?H) D"
  have e: "take k (recovery_writes start D) = take k ?H" using False by (simp add: recovery_writes_def)
  have "start \<notin> fst ` set ?H" using d start_area [of start] by (force simp: disk_ok_def)
  then have "start \<notin> fst ` set (take k ?H)" using take_writes_fst [of k ?H] by blast
  then have st: "?D start = D start" by (rule apply_writes_other)
  have "disk_n start ?D = disk_n start D" "disk_blk start ?D = disk_blk start D"
    using st by (simp_all add: disk_n_def disk_blk_def fun_eq_iff)
  then show ?thesis unfolding e using d st by (simp add: disk_ok_def)
qed

text \<open>
  C7. Recovery may itself be cut short. From any disk with a well-formed log, \<open>initlog\<close> returns and puts
  the state that the disk stands for in place. If the machine stops after any number \<open>k\<close> of the
  writes of the recovery, the next boot's \<open>initlog\<close> returns with the same blocks.
\<close>

theorem initlog_restartable:
  fixes r :: "'z log_st_scheme"
  assumes "booted r" "disk_ok (sb_logstart sb) (disk r)"
  shows "\<exists>r' ws. initlog ROOTDEV sb r = Ok () r' \<and> dwrites r' = dwrites r @ ws \<and> disk r' = apply_writes ws (disk r) \<and>
    disk_n (sb_logstart sb) (disk r') = 0 \<and>
    (\<forall>bn. bn \<notin> log_area (sb_logstart sb) \<longrightarrow> disk r' bn = logical (sb_logstart sb) (disk r) bn) \<and>
    (\<forall>k. \<forall>q :: 'y log_st_scheme. booted q \<and> disk q = apply_writes (take k ws) (disk r) \<longrightarrow>
      (\<exists>q'. initlog ROOTDEV sb q = Ok () q' \<and>
        (\<forall>bn. bn \<notin> log_area (sb_logstart sb) \<longrightarrow> disk q' bn = disk r' bn)))"
proof -
  let ?st = "sb_logstart sb" and ?ws = "recovery_writes (sb_logstart sb) (disk r)"
  have whole: "apply_writes (recovery_writes ?st D) D bn = logical ?st D bn"
    if "disk_ok ?st D" "bn \<notin> log_area ?st" for D bn
    using logical_recovery(2) [OF that order_refl] by simp
  from initlog_spec [OF assms] obtain r' where r': "initlog ROOTDEV sb r = Ok () r'"
    "dwrites r' = dwrites r @ ?ws" "disk r' = apply_writes ?ws (disk r)" by blast
  have again: "\<exists>q'. initlog ROOTDEV sb q = Ok () q' \<and> (\<forall>bn. bn \<notin> log_area ?st \<longrightarrow> disk q' bn = disk r' bn)"
    if b: "booted q" and d: "disk q = apply_writes (take k ?ws) (disk r)" for k and q :: "'y log_st_scheme"
  proof -
    have ok: "disk_ok ?st (disk q)" unfolding d by (rule disk_ok_recovery [OF assms(2)])
    from initlog_spec [OF b ok] obtain q' where q': "initlog ROOTDEV sb q = Ok () q'"
      "disk q' = apply_writes (recovery_writes ?st (disk q)) (disk q)" by blast
    have "disk q' bn = disk r' bn" if "bn \<notin> log_area ?st" for bn
      using logical_recovery(1) [OF assms(2) that, of k] whole [OF ok that] whole [OF assms(2) that] q'(2) r'(3) d by simp
    then show ?thesis using q'(1) by blast
  qed
  show ?thesis
    using r' again logical_recovery_n [OF assms(2)] whole [OF assms(2)]
    by (intro exI [of _ r'] exI [of _ ?ws]) simp
qed

section \<open>An example\<close>

text \<open>
  A transaction of one block, number 100, whose new contents are in buffer 0; the log starts at block
  2. \<open>log_fresh\<close> is the state of a boot with a given disk.
\<close>

definition log_fresh :: "(u32 \<Rightarrow> byte list) \<Rightarrow> log_st" where
  "log_fresh D = bio_st.extend (bio_example\<lparr>disk := D\<rparr>)
     \<lparr>l_start = 2, l_size = 30, l_outstanding = 1, l_committing = False, l_dev = ROOTDEV,
      l_lh = \<lparr>lh_n = 0, lh_block = replicate LOGSIZE 0\<rparr>\<rparr>"

definition log_example :: log_st where
  "log_example = (log_fresh (\<lambda>_. replicate BSIZE 0))
     \<lparr>bufs := (bufs bio_example)[0 := (bufs bio_example ! 0)
        \<lparr>b_valid := True, b_dev := ROOTDEV, b_blockno := 100, b_refcnt := 1, b_data := replicate BSIZE 7\<rparr>],
      l_lh := \<lparr>lh_n = 1, lh_block = 100 # replicate (LOGSIZE - 1) 0\<rparr>\<rparr>"

definition sb_example :: superblock where
  "sb_example = \<lparr>sb_magic = 0x10203040, sb_size = 2000, sb_nblocks = 1954, sb_ninodes = 200, sb_nlog = 30,
     sb_logstart = 2, sb_inodestart = 32, sb_bmapstart = 45\<rparr>"

lemma log_fresh_simps [simp]:
  "held (log_fresh D) = []" "cur (log_fresh D) = Some 0" "procs (log_fresh D) = procs sched_example"
  "slocks (log_fresh D) = slocks bio_example" "bufs (log_fresh D) = bufs bio_example" "disk (log_fresh D) = D"
  "l_start (log_fresh D) = 2" "l_size (log_fresh D) = 30" "l_outstanding (log_fresh D) = 1"
  "\<not> l_committing (log_fresh D)" "l_dev (log_fresh D) = ROOTDEV"
  "l_lh (log_fresh D) = \<lparr>lh_n = 0, lh_block = replicate LOGSIZE 0\<rparr>"
  by (simp_all add: log_fresh_def bio_st.defs)

lemma log_fresh_ok:
  "bc {} (log_fresh D)" "clean (bufs bio_example) D" "content_of (bufs bio_example) D = D" "two_free (bufs bio_example)"
  "booted (log_fresh D)"
proof -
  note ex = bio_example_ok
  show b: "bc {} (log_fresh D)" using ex(1) by (simp add: bc_def thr_ok_def my_pid_def NPROC_def)
  have va: "\<forall>b < NBUF. \<not> b_valid (bufs bio_example ! b) \<and> b_refcnt (bufs bio_example ! b) = 0 \<and> b_dev (bufs bio_example ! b) = 0"
    using ex(6) by blast
  have L: "set (rev [0..<NBUF]) = {..<NBUF}" by auto
  show c: "clean (bufs bio_example) D" "content_of (bufs bio_example) D = D" using fresh_ok(2,3) [OF ex(5) L va] by simp_all
  show t: "two_free (bufs bio_example)" unfolding two_free_def using va
    by (intro exI [of _ 0] exI [of _ 1]) (simp add: NBUF_def MAXOPBLOCKS_def)
  show "booted (log_fresh D)" using b c t by (simp add: booted_def)
qed

lemma zero_head: "disk_n 2 (\<lambda>_. replicate BSIZE 0) = 0"
proof -
  have "replicate 4 (0 :: byte) = [0, 0, 0, 0]" by (simp add: numeral_eq_Suc)
  moreover have "take 4 (drop 0 (replicate BSIZE (0 :: byte))) = replicate 4 0" by (simp add: BSIZE_def)
  ultimately show ?thesis by (simp add: disk_n_def get_le_def of_le_def)
qed

lemma area_100: "(100 :: u32) \<notin> log_area 2"
proof
  assume "(100 :: u32) \<in> log_area 2"
  then obtain i where i: "i \<le> LOGSIZE" "(100 :: u32) = 2 + of_nat i" by (auto simp: log_area_def)
  have "of_nat i = (2 + of_nat i) - (2 :: u32)" by simp
  then have "(of_nat i :: u32) = 98" unfolding i(2) [symmetric] by simp
  then have "unat (of_nat i :: u32) = 98" by simp
  then show False using i(1) by (simp add: unat_of_nat LOGSIZE_def MAXOPBLOCKS_def)
qed

lemma log_example_ok:
  "ready log_example" "tx_ok log_example" "lh_n (l_lh log_example) = 1" "lh_block (l_lh log_example) ! 0 = 100"
  "pinned (bufs log_example) 100" "content log_example 100 = replicate BSIZE 7"
  "content log_example 2 = replicate BSIZE 0"
  "take (nat 1) (lh_block (l_lh log_example)) = [100]"
proof -
  note ex = bio_example_ok
  have N: "0 < NBUF" "1 < NBUF" by (simp_all add: NBUF_def MAXOPBLOCKS_def)
  have len: "length (bufs bio_example) = NBUF + 1" using ex(5) by (simp add: bring_def)
  have ok0: "bufs_ok {} (bufs bio_example)" using ex(1) by (simp add: bc_def)
  let ?x = "(bufs bio_example ! 0)\<lparr>b_valid := True, b_dev := ROOTDEV, b_blockno := 100, b_refcnt := 1, b_data := replicate BSIZE 7\<rparr>"
  let ?bs = "(bufs bio_example)[0 := ?x]"
  have b: "bufs log_example = ?bs" "disk log_example = (\<lambda>_. replicate BSIZE 0)" by (simp_all add: log_example_def)
  have ok: "bufs_ok {} ?bs"
    by (rule bufs_ok_upd [OF ok0 N(1)]) (use ex(6) in \<open>auto simp: holds_block_def ROOTDEV_def\<close>)
  have "clean ?bs (disk log_example)"
    using ex(6) len by (auto simp: clean_def nth_list_update_if)
  moreover have "one_free ?bs" using ex(6) [OF N(2)] N unfolding one_free_def by (intro exI [of _ 1]) simp
  moreover have "bc {} log_example" using log_fresh_ok(1) ok by (simp add: log_example_def bc_def thr_ok_def my_pid_def)
  ultimately show "ready log_example" using b by (simp add: ready_def)
  show h: "lh_n (l_lh log_example) = 1" "lh_block (l_lh log_example) ! 0 = 100"
    "take (nat 1) (lh_block (l_lh log_example)) = [100]"
    by (simp_all add: log_example_def LOGSIZE_def MAXOPBLOCKS_def)
  show "tx_ok log_example"
    unfolding tx_ok_def using h area_100
    by (simp add: log_example_def LOGSIZE_def MAXOPBLOCKS_def)
  show "pinned (bufs log_example) 100"
    unfolding b pinned_def using N len by (intro exI [of _ 0]) (simp add: holds_block_def)
  show "content log_example 100 = replicate BSIZE 7"
    unfolding b using content_of_valid [OF ok N(1), of 100] len N by simp
  have "\<forall>c < NBUF. b_valid (?bs ! c) \<longrightarrow> b_blockno (?bs ! c) \<noteq> 2" using ex(6) len by (auto simp: nth_list_update_if)
  then show "content log_example 2 = replicate BSIZE 0" unfolding b by (auto simp: content_of_none)
qed

theorem commit_crash_atomic_witness:
  "\<exists>s' ws. commit log_example = Ok () s' \<and> dwrites s' = dwrites log_example @ ws \<and>
     (\<forall>k. \<exists>r'. initlog ROOTDEV sb_example (log_fresh (apply_writes (take k ws) (disk log_example))) = Ok () r' \<and>
       disk r' 100 = (if 1 < k then replicate BSIZE 7 else replicate BSIZE 0))"
proof -
  note ex = log_example_ok
  have l: "l_start log_example = 2" "\<And>bn. disk log_example bn = replicate BSIZE 0" by (simp_all add: log_example_def)
  have "\<forall>i < tx_n log_example. pinned (bufs log_example) (tx_blk log_example i)" using ex(3,4,5) by simp
  moreover have "length (content log_example (l_start log_example)) = BSIZE" unfolding l ex(7) by simp
  moreover have "length (disk log_example (l_start log_example)) = BSIZE" "disk_n (l_start log_example) (disk log_example) = 0"
    using zero_head by (simp_all add: l log_example_def)
  ultimately obtain s' ws where c: "commit log_example = Ok () s'" "dwrites s' = dwrites log_example @ ws"
    and r: "\<forall>k sb. \<forall>r :: log_st. booted r \<and> sb_logstart sb = l_start log_example \<and>
      disk r = apply_writes (take k ws) (disk log_example) \<longrightarrow>
      (\<exists>r'. initlog ROOTDEV sb r = Ok () r' \<and> disk_n (l_start log_example) (disk r') = 0 \<and>
        (\<forall>bn. bn \<notin> log_area (l_start log_example) \<longrightarrow> disk r' bn =
          (if tx_n log_example < k \<and> bn \<in> set (take (tx_n log_example) (lh_block (l_lh log_example)))
           then content log_example bn else disk log_example bn)))"
    using commit_crash_atomic [OF ex(1,2), where 'y = unit] ex(3) by fastforce
  have "\<exists>r'. initlog ROOTDEV sb_example (log_fresh (apply_writes (take k ws) (disk log_example))) = Ok () r' \<and>
       disk r' 100 = (if 1 < k then replicate BSIZE 7 else replicate BSIZE 0)" for k
    using r [rule_format, of "log_fresh (apply_writes (take k ws) (disk log_example))" sb_example k]
      log_fresh_ok(5) ex(3,6,8) l(1) area_100 by (auto simp: sb_example_def l(2))
  then show ?thesis using c by blast
qed

theorem initlog_restartable_witness:
  "\<exists>r'. initlog ROOTDEV sb_example (log_fresh (\<lambda>_. replicate BSIZE 0)) = Ok () r' \<and> disk r' 100 = replicate BSIZE 0"
proof -
  have "disk_ok (sb_logstart sb_example) (disk (log_fresh (\<lambda>_. replicate BSIZE 0)))"
    using zero_head by (simp add: disk_ok_def sb_example_def)
  from initlog_restartable [OF log_fresh_ok(5) this, where 'y = unit] show ?thesis
    using area_100 logical_none [of 2 "\<lambda>_. replicate BSIZE 0"] zero_head by (fastforce simp: sb_example_def)
qed

theorem log_write_records_witness:
  "\<exists>b s s' u. bread ROOTDEV 100 log_example = Ok b s \<and> log_write b s = Ok () s' \<and> tx_n s' = 1 \<and>
     brelse b s' = Ok () u \<and> pinned (bufs u) 100"
proof -
  note ex = log_example_ok
  have bc: "bc {} log_example" "clean (bufs log_example) (disk log_example)" using ex(1) by (simp_all add: ready_def)
  have "room (bufs log_example) 100" using ex(5) by (auto simp: room_def pinned_def)
  from bread_spec [OF bc this, simplified] obtain b bs sl where
    r: "bread ROOTDEV 100 log_example = Ok b (log_example\<lparr>bufs := bs, slocks := sl\<rparr>)" and b: "b < NBUF"
    and bc1: "bc {b} (log_example\<lparr>bufs := bs, slocks := sl\<rparr>)" and cl: "clean bs (disk log_example)"
    and v: "b_valid (bs ! b)" "b_blockno (bs ! b) = 100"
    and o: "\<forall>c < NBUF. c \<noteq> b \<longrightarrow> bs ! c = bufs log_example ! c"
    and rf: "b_refcnt (bs ! b) = (if holds_block 100 (bufs log_example ! b) then b_refcnt (bufs log_example ! b) + 1 else 1)"
    by blast
  have z: "0 < NBUF" "0 < length (bufs bio_example)" using bio_example_ok(5) by (simp_all add: NBUF_def MAXOPBLOCKS_def bring_def)
  have ok1: "bufs_ok {b} bs" using bc1 by (simp add: bc_def)
  have dev: "b_dev (bs ! b) = ROOTDEV" using ok1 v b by (auto simp: bufs_ok_def)
  have h0: "holds_block 100 (bufs log_example ! 0)" "b_refcnt (bufs log_example ! 0) = 1"
    using z by (simp_all add: log_example_def holds_block_def)
  have b0: "b = 0"
  proof (rule ccontr)
    assume "b \<noteq> 0"
    then have "holds_block 100 (bs ! 0)" using o z(1) h0(1) by simp
    then show False using bufs_ok_unique [OF ok1 z(1) b, of 100] dev v \<open>b \<noteq> 0\<close> by (simp add: holds_block_def)
  qed
  have two: "b_refcnt (bs ! b) = 2" using rf h0 b0 by simp
  let ?s = "log_example\<lparr>bufs := bs, slocks := sl\<rparr>"
  have tx: "tx_ok ?s" using ex(2) by (simp add: tx_ok_def)
  have "log_pinned {b} bs 100"
    unfolding log_pinned_def using b v dev two by (intro exI [of _ b]) (simp add: holds_block_def)
  then have pin: "\<forall>i < tx_n ?s. log_pinned {b} (bufs ?s) (tx_blk ?s i)" using ex(3,4) by simp
  have g: "clean (bufs ?s) (disk ?s)" "b_valid (bufs ?s ! b)" "unat (b_refcnt (bufs ?s ! b)) \<le> 65536"
    "b_blockno (bufs ?s ! b) \<notin> log_area (l_start ?s)" "lh_n (l_lh ?s) < int LOGSIZE"
    "lh_n (l_lh ?s) < l_size ?s - 1" "1 \<le> l_outstanding ?s"
    using cl v two area_100 ex(3) by (simp_all add: log_example_def LOGSIZE_def MAXOPBLOCKS_def)
  from log_write_records [OF bc1 g(1) _ g(2,3) tx pin g(4-7)] obtain s' u where
    s': "log_write b ?s = Ok () s'" "tx_n s' = (if b_blockno (bufs ?s ! b) \<in> set (take (tx_n ?s) (lh_block (l_lh ?s))) then tx_n ?s else Suc (tx_n ?s))"
    "set (take (tx_n s') (lh_block (l_lh s'))) = insert 100 (set (take (tx_n ?s) (lh_block (l_lh ?s))))"
    "brelse b s' = Ok () u" "\<forall>i < tx_n s'. log_pinned ({b} - {b}) (bufs u) (tx_blk s' i)"
    using v(2) by auto
  have n: "tx_n s' = 1" using s'(2) v ex(3,8) by simp
  moreover have "tx_blk s' 0 = 100"
    using s'(3) ex(3,8) unfolding n by (cases "lh_block (l_lh s')") auto
  ultimately show ?thesis using r s' log_pinned_unlocked by auto
qed

lemma log_write_guards_witness:
  "log_write 0 log_example = Ok () log_example \<and>
   log_write 0 (log_example\<lparr>l_outstanding := 0\<rparr>) = Panic ''log_write outside of trans''"
  using log_write_guards [of log_example 0] log_write_guards [of "log_example\<lparr>l_outstanding := 0\<rparr>" 0] log_example_ok(3,8) bio_example_ok(5)
  by (simp add: log_example_def LOGSIZE_def MAXOPBLOCKS_def bring_def)

lemma begin_op_admission_witness:
  "begin_op log_example = Ok () (log_example\<lparr>l_outstanding := 2\<rparr>)"
  using begin_op_admission [of log_example 0] log_example_ok(3)
  by (simp add: log_example_def NPROC_def LOGSIZE_def MAXOPBLOCKS_def)

theorem end_op_group_commit_witness:
  "\<exists>s'. end_op log_example = Ok () s' \<and> lh_n (l_lh s') = 0 \<and> disk s' 100 = replicate BSIZE 7"
proof -
  note ex = log_example_ok
  have "\<forall>i < tx_n log_example. pinned (bufs log_example) (tx_blk log_example i)" using ex(3,4,5) by simp
  moreover have "\<not> l_committing log_example" "l_outstanding log_example = 1" by (simp_all add: log_example_def)
  ultimately show ?thesis using end_op_group_commit [OF ex(1,2)] ex(3,6,8) by fastforce
qed

end
