(* ===== verification/Fs.thy ===== *)
theory Fs
  imports Log
begin

text \<open>
  The file system, kernel/fs.c: block allocator, inodes, file contents, directories and path
  names. On-disk structures are bytes of blocks at the offsets of kernel/fs.h. Inodes are indices
  into the in-memory table; a null pointer is \<open>None\<close>. Console messages are left out.
\<close>

section \<open>On-disk format (kernel/fs.h)\<close>

definition ROOTINO :: u32 where "ROOTINO = 1"
definition FSMAGIC :: u32 where "FSMAGIC = 0x10203040"
definition NDIRECT :: nat where "NDIRECT = 12"
definition NINDIRECT :: nat where "NINDIRECT = BSIZE div 4"
definition MAXFILE :: nat where "MAXFILE = NDIRECT + NINDIRECT"
definition IPB :: nat where "IPB = BSIZE div 64"
definition BPB :: nat where "BPB = BSIZE * 8"
definition DIRSIZ :: nat where "DIRSIZ = 14"

definition T_DIR :: u16 where "T_DIR = 1"
definition T_FILE :: u16 where "T_FILE = 2"
definition T_DEVICE :: u16 where "T_DEVICE = 3"

definition IBLOCK :: "u32 \<Rightarrow> superblock \<Rightarrow> u32" where
  "IBLOCK i sb = i div of_nat IPB + sb_inodestart sb"

definition BBLOCK :: "u32 \<Rightarrow> superblock \<Rightarrow> u32" where
  "BBLOCK b sb = b div of_nat BPB + sb_bmapstart sb"

record dinode =
  d_type :: u16
  d_major :: u16
  d_minor :: u16
  d_nlink :: u16
  d_size :: u32
  d_addrs :: "u32 list"

text \<open>The dinode at index \<open>k\<close> of a block, and storing one there.\<close>

definition dinode_at :: "nat \<Rightarrow> byte list \<Rightarrow> dinode" where
  "dinode_at k data =
     \<lparr>d_type = get_le (64 * k) data, d_major = get_le (64 * k + 2) data,
      d_minor = get_le (64 * k + 4) data, d_nlink = get_le (64 * k + 6) data,
      d_size = get_le (64 * k + 8) data,
      d_addrs = map (\<lambda>i. get_le (64 * k + 12 + 4 * i) data) [0..<NDIRECT + 1]\<rparr>"

definition dinode_bytes :: "dinode \<Rightarrow> byte list" where
  "dinode_bytes d =
     to_le (d_type d) @ to_le (d_major d) @ to_le (d_minor d) @ to_le (d_nlink d) @
     to_le (d_size d) @ concat (map to_le (d_addrs d))"

definition put_bytes :: "nat \<Rightarrow> byte list \<Rightarrow> byte list \<Rightarrow> byte list" where
  "put_bytes off bs data = take off data @ bs @ drop (off + length bs) data"

definition superblock_of :: "byte list \<Rightarrow> superblock" where
  "superblock_of data =
     \<lparr>sb_magic = get_le 0 data, sb_size = get_le 4 data, sb_nblocks = get_le 8 data,
      sb_ninodes = get_le 12 data, sb_nlog = get_le 16 data, sb_logstart = get_le 20 data,
      sb_inodestart = get_le 24 data, sb_bmapstart = get_le 28 data\<rparr>"

section \<open>In-memory inodes (kernel/file.h)\<close>

record inode =
  i_dev :: u32
  i_inum :: u32
  i_ref :: int
  i_valid :: bool
  i_type :: u16
  i_major :: u16
  i_minor :: u16
  i_nlink :: u16
  i_size :: u32
  i_addrs :: "u32 list"

record fs_st = log_st +
  sb :: superblock
  inodes :: "inode list"

definition iget_ino :: "nat \<Rightarrow> ('z fs_st_scheme, inode) kmon" where
  "iget_ino ip = gets (\<lambda>s. inodes s ! ip)"

definition iupd :: "nat \<Rightarrow> (inode \<Rightarrow> inode) \<Rightarrow> ('z fs_st_scheme, unit) kmon" where
  "iupd ip f = modify (\<lambda>s. s\<lparr>inodes := (inodes s)[ip := f (inodes s ! ip)]\<rparr>)"

section \<open>Super block and block allocator\<close>

definition readsb :: "u32 \<Rightarrow> ('z fs_st_scheme, unit) kmon" where
  "readsb dev =
     bnd (bread dev 1) (\<lambda>bp.
     bnd (bget_buf bp) (\<lambda>b.
     bnd (modify (\<lambda>s. s\<lparr>sb := superblock_of (b_data b)\<rparr>)) (\<lambda>_.
     brelse bp)))"

definition fsinit :: "u32 \<Rightarrow> ('z fs_st_scheme, unit) kmon" where
  "fsinit dev =
     bnd (readsb dev) (\<lambda>_.
     bnd (gets sb) (\<lambda>b.
     bnd (panic_if (sb_magic b \<noteq> FSMAGIC) ''invalid file system'') (\<lambda>_.
     initlog dev b)))"

definition bzero :: "u32 \<Rightarrow> u32 \<Rightarrow> ('z fs_st_scheme, unit) kmon" where
  "bzero dev bno =
     bnd (bread dev bno) (\<lambda>bp.
     seqM [bupd bp (\<lambda>b. b\<lparr>b_data := replicate BSIZE 0\<rparr>), log_write bp, brelse bp])"

text \<open>The bit of block \<open>bi\<close> in a bitmap block.\<close>

definition bit_mask :: "nat \<Rightarrow> byte" where
  "bit_mask bi = push_bit (bi mod 8) 1"

definition bit_free :: "byte list \<Rightarrow> nat \<Rightarrow> bool" where
  "bit_free data bi = (data ! (bi div 8) AND bit_mask bi = 0)"

definition balloc :: "u32 \<Rightarrow> ('z fs_st_scheme, u32) kmon" where
  "balloc dev =
     bnd (gets sb) (\<lambda>sb.
     let sz = unat (sb_size sb) in
     bnd (findM (map (\<lambda>k. k * BPB) [0..<(sz + BPB - 1) div BPB]) (\<lambda>b.
       bnd (bread dev (BBLOCK (of_nat b) sb)) (\<lambda>bp.
       bnd (bget_buf bp) (\<lambda>x.
       case find (bit_free (b_data x)) [0..<min BPB (sz - b)] of
         Some bi \<Rightarrow>
           bnd (bupd bp (\<lambda>y. y\<lparr>b_data := (b_data y)[bi div 8 := b_data y ! (bi div 8) OR bit_mask bi]\<rparr>)) (\<lambda>_.
           bnd (log_write bp) (\<lambda>_.
           bnd (brelse bp) (\<lambda>_.
           bnd (bzero dev (of_nat (b + bi))) (\<lambda>_.
           ret (Some (of_nat (b + bi)))))))
       | None \<Rightarrow> bnd (brelse bp) (\<lambda>_. ret None))))) (\<lambda>r.
     case r of Some a \<Rightarrow> ret a | None \<Rightarrow> ret 0))"

definition bfree :: "u32 \<Rightarrow> u32 \<Rightarrow> ('z fs_st_scheme, unit) kmon" where
  "bfree dev b =
     bnd (gets sb) (\<lambda>sb.
     bnd (bread dev (BBLOCK b sb)) (\<lambda>bp.
     let bi = unat b mod BPB in
     bnd (bget_buf bp) (\<lambda>x.
     bnd (panic_if (bit_free (b_data x) bi) ''freeing free block'') (\<lambda>_.
     bnd (bupd bp (\<lambda>y. y\<lparr>b_data := (b_data y)[bi div 8 := b_data y ! (bi div 8) AND NOT (bit_mask bi)]\<rparr>)) (\<lambda>_.
     bnd (log_write bp) (\<lambda>_.
     brelse bp))))))"

section \<open>Inodes\<close>

definition iinit :: "('z fs_st_scheme, unit) kmon" where
  "iinit = forM [0..<NINODE] (\<lambda>i. initsleeplock (InodeLock i))"

text \<open>\<open>iget\<close>: the entry already in use for the inode, else the first free one.\<close>

definition iget :: "u32 \<Rightarrow> u32 \<Rightarrow> ('z fs_st_scheme, nat) kmon" where
  "iget dev inum =
     bnd (acquire ItableLock) (\<lambda>_.
     bnd (gets inodes) (\<lambda>tab.
     case first_idx (\<lambda>ip. i_ref ip > 0 \<and> i_dev ip = dev \<and> i_inum ip = inum) tab of
       Some ip \<Rightarrow>
         bnd (iupd ip (\<lambda>i. i\<lparr>i_ref := i_ref i + 1\<rparr>)) (\<lambda>_.
         bnd (release ItableLock) (\<lambda>_.
         ret ip))
     | None \<Rightarrow>
         (case first_idx (\<lambda>ip. i_ref ip = 0) tab of
            None \<Rightarrow> panic ''iget: no inodes''
          | Some ip \<Rightarrow>
              bnd (iupd ip (\<lambda>i. i\<lparr>i_dev := dev, i_inum := inum, i_ref := 1, i_valid := False\<rparr>)) (\<lambda>_.
              bnd (release ItableLock) (\<lambda>_.
              ret ip)))))"

definition ialloc :: "u32 \<Rightarrow> u16 \<Rightarrow> ('z fs_st_scheme, nat option) kmon" where
  "ialloc dev type =
     bnd (gets sb) (\<lambda>sb.
     findM [1..<unat (sb_ninodes sb)] (\<lambda>inum.
       bnd (bread dev (IBLOCK (of_nat inum) sb)) (\<lambda>bp.
       bnd (bget_buf bp) (\<lambda>x.
       if d_type (dinode_at (inum mod IPB) (b_data x)) = 0 then
         bnd (bupd bp (\<lambda>y. y\<lparr>b_data :=
           put_le (64 * (inum mod IPB)) type
             (put_bytes (64 * (inum mod IPB)) (replicate 64 0) (b_data y))\<rparr>)) (\<lambda>_.
         bnd (log_write bp) (\<lambda>_.
         bnd (brelse bp) (\<lambda>_.
         bnd (iget dev (of_nat inum)) (\<lambda>ip.
         ret (Some ip)))))
       else bnd (brelse bp) (\<lambda>_. ret None)))))"

definition iupdate :: "nat \<Rightarrow> ('z fs_st_scheme, unit) kmon" where
  "iupdate ip =
     bnd (iget_ino ip) (\<lambda>i.
     bnd (gets sb) (\<lambda>sb.
     bnd (bread (i_dev i) (IBLOCK (i_inum i) sb)) (\<lambda>bp.
     let k = unat (i_inum i) mod IPB;
         d = \<lparr>d_type = i_type i, d_major = i_major i, d_minor = i_minor i, d_nlink = i_nlink i,
              d_size = i_size i, d_addrs = i_addrs i\<rparr> in
     seqM
      [bupd bp (\<lambda>y. y\<lparr>b_data := put_bytes (64 * k) (dinode_bytes d) (b_data y)\<rparr>),
       log_write bp,
       brelse bp])))"

definition idup :: "nat \<Rightarrow> ('z fs_st_scheme, nat) kmon" where
  "idup ip =
     bnd (acquire ItableLock) (\<lambda>_.
     bnd (iupd ip (\<lambda>i. i\<lparr>i_ref := i_ref i + 1\<rparr>)) (\<lambda>_.
     bnd (release ItableLock) (\<lambda>_.
     ret ip)))"

definition ilock :: "nat \<Rightarrow> ('z fs_st_scheme, unit) kmon" where
  "ilock ip =
     bnd (iget_ino ip) (\<lambda>i.
     bnd (panic_if (i_ref i < 1) ''ilock'') (\<lambda>_.
     bnd (acquiresleep (InodeLock ip)) (\<lambda>_.
     bnd (iget_ino ip) (\<lambda>i.
     whenM (\<not> i_valid i)
       (bnd (gets sb) (\<lambda>sb.
        bnd (bread (i_dev i) (IBLOCK (i_inum i) sb)) (\<lambda>bp.
        bnd (bget_buf bp) (\<lambda>x.
        let d = dinode_at (unat (i_inum i) mod IPB) (b_data x) in
        seqM
         [iupd ip (\<lambda>i. i\<lparr>i_type := d_type d, i_major := d_major d, i_minor := d_minor d,
            i_nlink := d_nlink d, i_size := d_size d, i_addrs := d_addrs d\<rparr>),
          brelse bp,
          iupd ip (\<lambda>i. i\<lparr>i_valid := True\<rparr>),
          panic_if (d_type d = 0) ''ilock: no type'']))))))))"

definition iunlock :: "nat \<Rightarrow> ('z fs_st_scheme, unit) kmon" where
  "iunlock ip =
     bnd (holdingsleep (InodeLock ip)) (\<lambda>h.
     bnd (iget_ino ip) (\<lambda>i.
     bnd (panic_if (\<not> h \<or> i_ref i < 1) ''iunlock'') (\<lambda>_.
     releasesleep (InodeLock ip))))"

definition itrunc :: "nat \<Rightarrow> ('z fs_st_scheme, unit) kmon" where
  "itrunc ip =
     bnd (forM [0..<NDIRECT] (\<lambda>k.
       bnd (iget_ino ip) (\<lambda>i.
       whenM (i_addrs i ! k \<noteq> 0)
         (seqM [bfree (i_dev i) (i_addrs i ! k), iupd ip (\<lambda>i. i\<lparr>i_addrs := (i_addrs i)[k := 0]\<rparr>)])))) (\<lambda>_.
     bnd (iget_ino ip) (\<lambda>i.
     bnd (whenM (i_addrs i ! NDIRECT \<noteq> 0)
       (bnd (bread (i_dev i) (i_addrs i ! NDIRECT)) (\<lambda>bp.
        seqM
         [forM [0..<NINDIRECT] (\<lambda>j.
            bnd (bget_buf bp) (\<lambda>x.
            let a = get_le (4 * j) (b_data x) in
            whenM (a \<noteq> 0) (bfree (i_dev i) a))),
          brelse bp,
          bfree (i_dev i) (i_addrs i ! NDIRECT),
          iupd ip (\<lambda>i. i\<lparr>i_addrs := (i_addrs i)[NDIRECT := 0]\<rparr>)]))) (\<lambda>_.
     seqM [iupd ip (\<lambda>i. i\<lparr>i_size := 0\<rparr>), iupdate ip])))"

definition iput :: "nat \<Rightarrow> ('z fs_st_scheme, unit) kmon" where
  "iput ip =
     bnd (acquire ItableLock) (\<lambda>_.
     bnd (iget_ino ip) (\<lambda>i.
     bnd (whenM (i_ref i = 1 \<and> i_valid i \<and> i_nlink i = 0)
       (seqM
         [acquiresleep (InodeLock ip),
          release ItableLock,
          itrunc ip,
          iupd ip (\<lambda>i. i\<lparr>i_type := 0\<rparr>),
          iupdate ip,
          iupd ip (\<lambda>i. i\<lparr>i_valid := False\<rparr>),
          releasesleep (InodeLock ip),
          acquire ItableLock])) (\<lambda>_.
     seqM [iupd ip (\<lambda>i. i\<lparr>i_ref := i_ref i - 1\<rparr>), release ItableLock])))"

definition iunlockput :: "nat \<Rightarrow> ('z fs_st_scheme, unit) kmon" where
  "iunlockput ip = seqM [iunlock ip, iput ip]"

section \<open>File contents\<close>

definition bmap :: "nat \<Rightarrow> nat \<Rightarrow> ('z fs_st_scheme, u32) kmon" where
  "bmap ip bn =
     bnd (iget_ino ip) (\<lambda>i.
     if bn < NDIRECT then
       if i_addrs i ! bn = 0 then
         bnd (balloc (i_dev i)) (\<lambda>addr.
         if addr = 0 then ret 0
         else bnd (iupd ip (\<lambda>i. i\<lparr>i_addrs := (i_addrs i)[bn := addr]\<rparr>)) (\<lambda>_. ret addr))
       else ret (i_addrs i ! bn)
     else if bn - NDIRECT < NINDIRECT then
       bnd (if i_addrs i ! NDIRECT = 0 then
              bnd (balloc (i_dev i)) (\<lambda>addr.
              if addr = 0 then ret 0
              else bnd (iupd ip (\<lambda>i. i\<lparr>i_addrs := (i_addrs i)[NDIRECT := addr]\<rparr>)) (\<lambda>_. ret addr))
            else ret (i_addrs i ! NDIRECT)) (\<lambda>ind.
       if ind = 0 then ret 0
       else
         bnd (bread (i_dev i) ind) (\<lambda>bp.
         bnd (bget_buf bp) (\<lambda>x.
         let a = get_le (4 * (bn - NDIRECT)) (b_data x) in
         bnd (if a = 0 then
                bnd (balloc (i_dev i)) (\<lambda>addr.
                if addr \<noteq> 0 then
                  bnd (bupd bp (\<lambda>y. y\<lparr>b_data := put_le (4 * (bn - NDIRECT)) addr (b_data y)\<rparr>)) (\<lambda>_.
                  bnd (log_write bp) (\<lambda>_. ret addr))
                else ret addr)
              else ret a) (\<lambda>addr.
         bnd (brelse bp) (\<lambda>_. ret addr)))))
     else panic ''bmap: out of range'')"

text \<open>
  The loops of \<open>readi\<close> and \<open>writei\<close>. The tests before them exclude that \<open>off + n\<close> wraps, so the
  counters are natural numbers.
\<close>

function readi_loop :: "nat \<Rightarrow> bool \<Rightarrow> u64 \<Rightarrow> nat \<Rightarrow> nat \<Rightarrow> nat \<Rightarrow> ('z fs_st_scheme, int) kmon" where
  "readi_loop ip user_dst dst off n tot =
     (if tot < n then
        bnd (bmap ip (off div BSIZE)) (\<lambda>addr.
        if addr = 0 then ret (int tot)
        else
          bnd (iget_ino ip) (\<lambda>i.
          bnd (bread (i_dev i) addr) (\<lambda>bp.
          bnd (bget_buf bp) (\<lambda>x.
          let m = min (n - tot) (BSIZE - off mod BSIZE) in
          bnd (either_copyout user_dst dst (take m (drop (off mod BSIZE) (b_data x)))) (\<lambda>r.
          if r = -1 then bnd (brelse bp) (\<lambda>_. ret (-1))
          else
            bnd (brelse bp) (\<lambda>_.
            readi_loop ip user_dst (dst + of_nat m) (off + m) n (tot + m)))))))
      else ret (int tot))"
  by pat_completeness auto
termination
  by (relation "measure (\<lambda>(_, _, _, _, n, tot). n - tot)") (auto simp: BSIZE_def)

definition readi :: "nat \<Rightarrow> bool \<Rightarrow> u64 \<Rightarrow> u32 \<Rightarrow> u32 \<Rightarrow> ('z fs_st_scheme, int) kmon" where
  "readi ip user_dst dst off n =
     bnd (iget_ino ip) (\<lambda>i.
     if off > i_size i \<or> off + n < off then ret 0
     else
       let n' = (if off + n > i_size i then i_size i - off else n) in
       readi_loop ip user_dst dst (unat off) (unat n') 0)"

text \<open>The result of the loop of \<open>writei\<close>: the bytes written and the offset reached.\<close>

function writei_loop ::
  "nat \<Rightarrow> bool \<Rightarrow> u64 \<Rightarrow> nat \<Rightarrow> nat \<Rightarrow> nat \<Rightarrow> ('z fs_st_scheme, nat \<times> nat) kmon" where
  "writei_loop ip user_src src off n tot =
     (if tot < n then
        bnd (bmap ip (off div BSIZE)) (\<lambda>addr.
        if addr = 0 then ret (tot, off)
        else
          bnd (iget_ino ip) (\<lambda>i.
          bnd (bread (i_dev i) addr) (\<lambda>bp.
          let m = min (n - tot) (BSIZE - off mod BSIZE) in
          bnd (either_copyin user_src src m) (\<lambda>(r, bs).
          bnd (bupd bp (\<lambda>y. y\<lparr>b_data := put_bytes (off mod BSIZE) bs (b_data y)\<rparr>)) (\<lambda>_.
          if r = -1 then bnd (brelse bp) (\<lambda>_. ret (tot, off))
          else
            bnd (log_write bp) (\<lambda>_.
            bnd (brelse bp) (\<lambda>_.
            writei_loop ip user_src (src + of_nat m) (off + m) n (tot + m))))))))
      else ret (tot, off))"
  by pat_completeness auto
termination
  by (relation "measure (\<lambda>(_, _, _, _, n, tot). n - tot)") (auto simp: BSIZE_def)

declare readi_loop.simps [simp del] writei_loop.simps [simp del]

definition writei :: "nat \<Rightarrow> bool \<Rightarrow> u64 \<Rightarrow> u32 \<Rightarrow> u32 \<Rightarrow> ('z fs_st_scheme, int) kmon" where
  "writei ip user_src src off n =
     bnd (iget_ino ip) (\<lambda>i.
     if off > i_size i \<or> off + n < off then ret (-1)
     else if unat (off + n) > MAXFILE * BSIZE then ret (-1)
     else
       bnd (writei_loop ip user_src src (unat off) (unat n) 0) (\<lambda>(tot, off').
       bnd (iget_ino ip) (\<lambda>i.
       bnd (whenM (off' > unat (i_size i)) (iupd ip (\<lambda>i. i\<lparr>i_size := of_nat off'\<rparr>))) (\<lambda>_.
       bnd (iupdate ip) (\<lambda>_.
       ret (int tot))))))"

record stat =
  st_dev :: u32
  st_ino :: u32
  st_type :: u16
  st_nlink :: u16
  st_size :: u64

definition stati :: "nat \<Rightarrow> ('z fs_st_scheme, stat) kmon" where
  "stati ip =
     bnd (iget_ino ip) (\<lambda>i.
     ret \<lparr>st_dev = i_dev i, st_ino = i_inum i, st_type = i_type i, st_nlink = i_nlink i,
          st_size = ucast (i_size i)\<rparr>)"

section \<open>Directories\<close>

definition namecmp :: "byte list \<Rightarrow> byte list \<Rightarrow> int" where
  "namecmp s t = strncmp (cptr_of s) (cptr_of t) DIRSIZ"

definition de_inum :: "byte list \<Rightarrow> u16" where
  "de_inum de = get_le 0 de"

definition de_name :: "byte list \<Rightarrow> byte list" where
  "de_name de = take DIRSIZ (drop 2 de)"

text \<open>The values of \<open>off\<close> in \<open>for(off = 0; off < dp->size; off += sizeof(de))\<close>.\<close>

definition dirent_offs :: "u32 \<Rightarrow> nat list" where
  "dirent_offs sz = map (\<lambda>k. 16 * k) [0..<(unat sz + 15) div 16]"

text \<open>The entry at an offset, read into the local variable \<open>de\<close>.\<close>

definition read_dirent :: "nat \<Rightarrow> nat \<Rightarrow> string \<Rightarrow> ('z fs_st_scheme, byte list) kmon" where
  "read_dirent dp off msg =
     bnd (gets kvar) (\<lambda>de.
     bnd (readi dp False de (of_nat off) 16) (\<lambda>r.
     bnd (panic_if (r \<noteq> 16) msg) (\<lambda>_.
     gets (\<lambda>s. load_bytes (phys s) de 16))))"

text \<open>\<open>dirlookup\<close> returns the inode and the offset that \<open>*poff\<close> is set to.\<close>

definition dirlookup :: "nat \<Rightarrow> byte list \<Rightarrow> ('z fs_st_scheme, (nat \<times> nat) option) kmon" where
  "dirlookup dp name =
     bnd (iget_ino dp) (\<lambda>i.
     bnd (panic_if (i_type i \<noteq> T_DIR) ''dirlookup not DIR'') (\<lambda>_.
     findM (dirent_offs (i_size i)) (\<lambda>off.
       bnd (read_dirent dp off ''dirlookup read'') (\<lambda>de.
       if de_inum de \<noteq> 0 \<and> namecmp name (de_name de) = 0 then
         bnd (iget (i_dev i) (ucast (de_inum de))) (\<lambda>ip. ret (Some (ip, off)))
       else ret None))))"

definition dirlink :: "nat \<Rightarrow> byte list \<Rightarrow> u32 \<Rightarrow> ('z fs_st_scheme, int) kmon" where
  "dirlink dp name inum =
     bnd (dirlookup dp name) (\<lambda>r.
     case r of
       Some (ip, _) \<Rightarrow> bnd (iput ip) (\<lambda>_. ret (-1))
     | None \<Rightarrow>
         bnd (iget_ino dp) (\<lambda>i.
         bnd (findM (dirent_offs (i_size i)) (\<lambda>off.
           bnd (read_dirent dp off ''dirlink read'') (\<lambda>de.
           ret (if de_inum de = 0 then Some off else None)))) (\<lambda>o1.
         let off = (case o1 of Some off \<Rightarrow> off | None \<Rightarrow> 16 * ((unat (i_size i) + 15) div 16)) in
         bnd (gets kvar) (\<lambda>de.
         bnd (modify (\<lambda>s. s\<lparr>phys := store_bytes (phys s) de
           (to_le (ucast inum :: u16) @ strncpy (cptr_of name) DIRSIZ)\<rparr>)) (\<lambda>_.
         bnd (writei dp False de (of_nat off) 16) (\<lambda>w.
         ret (if w \<noteq> 16 then -1 else 0)))))))"

section \<open>Path names\<close>

text \<open>
  A path is the list of its bytes without the final NUL. \<open>skipelem\<close> returns the rest of the path
  and the element, cut to \<open>DIRSIZ\<close> bytes.
\<close>

definition slash :: byte where "slash = 47"

definition skipelem :: "byte list \<Rightarrow> (byte list \<times> byte list) option" where
  "skipelem path =
     (let p = dropWhile (\<lambda>c. c = slash) path in
      if p = [] then None
      else
        let elem = takeWhile (\<lambda>c. c \<noteq> slash) p; rest = dropWhile (\<lambda>c. c \<noteq> slash) p in
        Some (dropWhile (\<lambda>c. c = slash) rest, take DIRSIZ elem))"

lemma skipelem_shorter: "skipelem path = Some (rest, name) \<Longrightarrow> length rest < length path"
proof -
  assume s: "skipelem path = Some (rest, name)"
  let ?p = "dropWhile (\<lambda>c. c = slash) path"
  let ?r = "dropWhile (\<lambda>c. c \<noteq> slash) ?p"
  have p: "?p \<noteq> []" and r: "rest = dropWhile (\<lambda>c. c = slash) ?r"
    using s by (auto simp: skipelem_def Let_def split: if_splits)
  have "hd ?p \<noteq> slash" using hd_dropWhile [OF p] by simp
  then have "length ?r < length ?p" using p
    by (cases ?p) (auto simp: less_Suc_eq_le intro: length_dropWhile_le)
  moreover have "length rest \<le> length ?r" "length ?p \<le> length path"
    using r by (simp_all add: length_dropWhile_le)
  ultimately show ?thesis by simp
qed

text \<open>The loop of \<open>namex\<close>. The element goes to \<open>name\<close>, which the caller of \<open>nameiparent\<close> sees.\<close>

function namex_loop ::
  "nat \<Rightarrow> byte list \<Rightarrow> bool \<Rightarrow> byte list \<Rightarrow> ('z fs_st_scheme, (nat \<times> byte list) option) kmon" where
  "namex_loop ip path nameiparent name0 =
     (case skipelem path of
        Some (path', name) \<Rightarrow>
          bnd (ilock ip) (\<lambda>_.
          bnd (iget_ino ip) (\<lambda>i.
          if i_type i \<noteq> T_DIR then bnd (iunlockput ip) (\<lambda>_. ret None)
          else if nameiparent \<and> path' = [] then bnd (iunlock ip) (\<lambda>_. ret (Some (ip, name)))
          else
            bnd (dirlookup ip name) (\<lambda>r.
            case r of
              None \<Rightarrow> bnd (iunlockput ip) (\<lambda>_. ret None)
            | Some (next, _) \<Rightarrow>
                bnd (iunlockput ip) (\<lambda>_. namex_loop next path' nameiparent name))))
      | None \<Rightarrow>
          if nameiparent then bnd (iput ip) (\<lambda>_. ret None)
          else ret (Some (ip, name0)))"
  by pat_completeness auto
termination
  by (relation "measure (\<lambda>(_, path, _, _). length path)") (auto dest: skipelem_shorter)

declare namex_loop.simps [simp del]

definition namex :: "byte list \<Rightarrow> bool \<Rightarrow> ('z fs_st_scheme, (nat \<times> byte list) option) kmon" where
  "namex path nameiparent =
     bnd (if path \<noteq> [] \<and> hd path = slash then iget ROOTDEV ROOTINO
          else
            bnd myproc (\<lambda>p.
            bnd (pget p) (\<lambda>pr.
            case p_cwd pr of None \<Rightarrow> panic ''kerneltrap'' | Some c \<Rightarrow> idup c))) (\<lambda>ip.
     namex_loop ip path nameiparent [])"

definition namei :: "byte list \<Rightarrow> ('z fs_st_scheme, nat option) kmon" where
  "namei path = bnd (namex path False) (\<lambda>r. ret (map_option fst r))"

definition nameiparent :: "byte list \<Rightarrow> ('z fs_st_scheme, (nat \<times> byte list) option) kmon" where
  "nameiparent path = namex path True"

end
