(* ===== verification/Pipe.thy ===== *)
theory Pipe
  imports Fs
begin

text \<open>
  Pipes, kernel/pipe.c: a ring of \<open>PIPESIZE\<close> bytes with 32-bit counters that are never reset.
  A pipe is named by the address of the page that holds it. \<open>pipealloc\<close>, which needs the file
  table, is in the theory of kernel/file.c.
\<close>

definition PIPESIZE :: nat where "PIPESIZE = 512"

record pipe =
  pi_data :: "byte list"
  pi_nread :: u32
  pi_nwrite :: u32
  pi_readopen :: bool
  pi_writeopen :: bool

record pipe_st = fs_st +
  pipes :: "u64 \<Rightarrow> pipe"

definition pipe_get :: "u64 \<Rightarrow> ('z pipe_st_scheme, pipe) kmon" where
  "pipe_get pi = gets (\<lambda>s. pipes s pi)"

definition pipe_upd :: "u64 \<Rightarrow> (pipe \<Rightarrow> pipe) \<Rightarrow> ('z pipe_st_scheme, unit) kmon" where
  "pipe_upd pi f = modify (\<lambda>s. s\<lparr>pipes := (pipes s)(pi := f (pipes s pi))\<rparr>)"

text \<open>\<open>pi->data[pi->nwrite++ % PIPESIZE] = ch\<close> and \<open>ch = pi->data[pi->nread++ % PIPESIZE]\<close>.\<close>

definition pipe_put :: "byte \<Rightarrow> pipe \<Rightarrow> pipe" where
  "pipe_put ch p =
     p\<lparr>pi_data := (pi_data p)[unat (pi_nwrite p mod of_nat PIPESIZE) := ch],
       pi_nwrite := pi_nwrite p + 1\<rparr>"

definition pipe_peek :: "pipe \<Rightarrow> byte" where
  "pipe_peek p = pi_data p ! unat (pi_nread p mod of_nat PIPESIZE)"

definition pipe_skip :: "pipe \<Rightarrow> pipe" where
  "pipe_skip p = p\<lparr>pi_nread := pi_nread p + 1\<rparr>"

definition pipe_full :: "pipe \<Rightarrow> bool" where
  "pipe_full p = (pi_nwrite p = pi_nread p + of_nat PIPESIZE)"

definition pipe_empty :: "pipe \<Rightarrow> bool" where
  "pipe_empty p = (pi_nread p = pi_nwrite p)"

definition pipeclose :: "u64 \<Rightarrow> bool \<Rightarrow> ('z pipe_st_scheme, unit) kmon" where
  "pipeclose pi writable =
     bnd (acquire (PipeLock pi)) (\<lambda>_.
     bnd (if writable
          then seqM [pipe_upd pi (\<lambda>p. p\<lparr>pi_writeopen := False\<rparr>), wakeup (PipeReadChan pi)]
          else seqM [pipe_upd pi (\<lambda>p. p\<lparr>pi_readopen := False\<rparr>), wakeup (PipeWriteChan pi)]) (\<lambda>_.
     bnd (pipe_get pi) (\<lambda>p.
     if \<not> pi_readopen p \<and> \<not> pi_writeopen p
     then seqM [release (PipeLock pi), kfree pi]
     else release (PipeLock pi))))"

text \<open>
  \<open>pipewrite\<close> from the head of its loop, with \<open>i\<close> bytes written. When it is woken after
  \<open>sleep\<close> it comes back there.
\<close>

function pipewrite_loop :: "u64 \<Rightarrow> u64 \<Rightarrow> nat \<Rightarrow> nat \<Rightarrow> ('z pipe_st_scheme, int) kmon" where
  "pipewrite_loop pi addr n i =
     (if i < n then
        bnd myproc (\<lambda>pr.
        bnd (pipe_get pi) (\<lambda>p.
        bnd (if \<not> pi_readopen p then ret True else killed pr) (\<lambda>stop.
        if stop then bnd (release (PipeLock pi)) (\<lambda>_. ret (-1))
        else if pipe_full p then
          bnd (wakeup (PipeReadChan pi)) (\<lambda>_.
          bnd (sleep (PipeWriteChan pi) (PipeLock pi)) (\<lambda>_.
          panic ''sleep returned''))
        else
          bnd (pget pr) (\<lambda>x.
          bnd (copyin (p_pagetable x) (addr + of_nat i) 1) (\<lambda>(r, ch).
          if r = -1 then
            seq_ret [wakeup (PipeReadChan pi), release (PipeLock pi)] (int i)
          else
            bnd (pipe_upd pi (pipe_put (hd ch))) (\<lambda>_.
            pipewrite_loop pi addr n (i + 1)))))))
      else seq_ret [wakeup (PipeReadChan pi), release (PipeLock pi)] (int i))"
  by pat_completeness auto
termination
  by (relation "measure (\<lambda>(_, _, n, i). n - i)") auto

declare pipewrite_loop.simps [simp del]

definition pipewrite :: "u64 \<Rightarrow> u64 \<Rightarrow> int \<Rightarrow> ('z pipe_st_scheme, int) kmon" where
  "pipewrite pi addr n =
     bnd (acquire (PipeLock pi)) (\<lambda>_. pipewrite_loop pi addr (nat n) 0)"

definition pipewrite_resume :: "u64 \<Rightarrow> u64 \<Rightarrow> int \<Rightarrow> nat \<Rightarrow> ('z pipe_st_scheme, int) kmon" where
  "pipewrite_resume pi addr n i =
     bnd (sleep_resume (PipeLock pi)) (\<lambda>_. pipewrite_loop pi addr (nat n) i)"

text \<open>The \<open>for\<close> loop of \<open>piperead\<close>.\<close>

function piperead_copy :: "u64 \<Rightarrow> u64 \<Rightarrow> nat \<Rightarrow> nat \<Rightarrow> ('z pipe_st_scheme, int) kmon" where
  "piperead_copy pi addr n i =
     (if i < n then
        bnd (pipe_get pi) (\<lambda>p.
        if pipe_empty p then ret (int i)
        else
          bnd (pipe_upd pi pipe_skip) (\<lambda>_.
          bnd myproc (\<lambda>pr.
          bnd (pget pr) (\<lambda>x.
          bnd (copyout (p_pagetable x) (addr + of_nat i) [pipe_peek p]) (\<lambda>r.
          if r = -1 then ret (int i) else piperead_copy pi addr n (i + 1))))))
      else ret (int i))"
  by pat_completeness auto
termination
  by (relation "measure (\<lambda>(_, _, n, i). n - i)") auto

declare piperead_copy.simps [simp del]

text \<open>\<open>piperead\<close> from the head of its \<open>while\<close> loop.\<close>

definition piperead_loop :: "u64 \<Rightarrow> u64 \<Rightarrow> int \<Rightarrow> ('z pipe_st_scheme, int) kmon" where
  "piperead_loop pi addr n =
     bnd myproc (\<lambda>pr.
     bnd (pipe_get pi) (\<lambda>p.
     if pipe_empty p \<and> pi_writeopen p then
       bnd (killed pr) (\<lambda>k.
       if k then bnd (release (PipeLock pi)) (\<lambda>_. ret (-1))
       else
         bnd (sleep (PipeReadChan pi) (PipeLock pi)) (\<lambda>_.
         panic ''sleep returned''))
     else
       bnd (piperead_copy pi addr (nat n) 0) (\<lambda>i.
       seq_ret [wakeup (PipeWriteChan pi), release (PipeLock pi)] i)))"

definition piperead :: "u64 \<Rightarrow> u64 \<Rightarrow> int \<Rightarrow> ('z pipe_st_scheme, int) kmon" where
  "piperead pi addr n = bnd (acquire (PipeLock pi)) (\<lambda>_. piperead_loop pi addr n)"

definition piperead_resume :: "u64 \<Rightarrow> u64 \<Rightarrow> int \<Rightarrow> ('z pipe_st_scheme, int) kmon" where
  "piperead_resume pi addr n = bnd (sleep_resume (PipeLock pi)) (\<lambda>_. piperead_loop pi addr n)"

end
