(* ===== verification/Ring.thy ===== *)
theory Ring
  imports Prelude
begin

text \<open>
  Ring buffers with free-running counters, the form the pipes, the console and the UART driver
  share: \<open>w\<close> counts what was put in and \<open>r\<close> what was taken out, both wrap around at the width of the
  machine word, and an element is at its counter modulo the size of the buffer. The size divides
  the range of the counters, so that the position is not disturbed by the wrap-around.
\<close>

section \<open>Positions\<close>

definition ring_pos :: "nat \<Rightarrow> 'a::len word \<Rightarrow> nat" where
  "ring_pos N c = unat (c mod of_nat N)"

lemma ring_pos_eq:
  assumes "N < 2 ^ LENGTH('a)"
  shows "ring_pos N (c :: 'a::len word) = unat c mod N"
  using assms by (simp add: ring_pos_def unat_mod unat_of_nat)

lemma ring_pos_add:
  assumes "N dvd 2 ^ LENGTH('a)" "N < 2 ^ LENGTH('a)"
  shows "ring_pos N (c + of_nat i :: 'a::len word) = (unat c + i) mod N"
proof -
  have "unat (c + of_nat i) mod N = ((unat c + i) mod 2 ^ LENGTH('a)) mod N"
    by (simp add: unat_word_ariths unat_of_nat mod_add_right_eq)
  also have "\<dots> = (unat c + i) mod N" using assms(1) by (rule mod_mod_cancel)
  finally show ?thesis using ring_pos_eq [OF assms(2)] by simp
qed

section \<open>Contents\<close>

definition ring_items :: "'b list \<Rightarrow> 'a::len word \<Rightarrow> 'a word \<Rightarrow> 'b list" where
  "ring_items buf r w = map (\<lambda>i. buf ! ring_pos (length buf) (r + of_nat i)) [0..<unat (w - r)]"

definition ring_ok :: "'b list \<Rightarrow> 'a::len word \<Rightarrow> 'a word \<Rightarrow> bool" where
  "ring_ok buf r w \<longleftrightarrow> length buf dvd 2 ^ LENGTH('a) \<and> 0 < length buf \<and> length buf < 2 ^ LENGTH('a) \<and>
     unat (w - r) \<le> length buf"

lemma length_ring_items [simp]: "length (ring_items buf r w) = unat (w - r)"
  by (simp add: ring_items_def)

lemma ring_empty: "ring_items buf r w = [] \<longleftrightarrow> r = w"
  by (simp add: ring_items_def unat_eq_0) auto

lemma ring_full:
  fixes r w :: "'a::len word"
  assumes "ring_ok buf r w"
  shows "length (ring_items buf r w) = length buf \<longleftrightarrow> w = r + of_nat (length buf)"
proof
  assume "length (ring_items buf r w) = length buf"
  then have "of_nat (unat (w - r)) = (of_nat (length buf) :: 'a word)" by simp
  then show "w = r + of_nat (length buf)" by (simp add: algebra_simps)
next
  assume "w = r + of_nat (length buf)"
  then show "length (ring_items buf r w) = length buf"
    using assms by (simp add: ring_ok_def unat_of_nat)
qed

lemma ring_get:
  fixes r w :: "'a::len word"
  assumes "ring_ok buf r w" "r \<noteq> w"
  shows "ring_ok buf (r + 1) w" "buf ! ring_pos (length buf) r # ring_items buf (r + 1) w = ring_items buf r w"
proof -
  let ?d = "w - r"
  have d: "?d \<noteq> 0" using assms(2) by simp
  have e: "w - (r + 1) = ?d - 1" by (simp add: algebra_simps)
  have u: "unat (w - (r + 1)) = unat ?d - 1" "0 < unat ?d"
    unfolding e using d by (simp_all add: unat_sub_le word_le_nat_alt unat_gt_0 Suc_leI)
  then show "ring_ok buf (r + 1) w" using assms(1) unfolding ring_ok_def by linarith
  have "[0..<unat ?d] = 0 # map Suc [0..<unat ?d - 1]" using u(2) by (metis Suc_pred' map_Suc_upt upt_conv_Cons)
  then show "buf ! ring_pos (length buf) r # ring_items buf (r + 1) w = ring_items buf r w"
    unfolding ring_items_def u(1) by (simp add: comp_def add.assoc)
qed

lemma ring_put:
  fixes r w :: "'a::len word"
  assumes ok: "ring_ok buf r w" and nf: "w \<noteq> r + of_nat (length buf)"
  shows "ring_ok (buf[ring_pos (length buf) w := x]) r (w + 1)"
    "ring_items (buf[ring_pos (length buf) w := x]) r (w + 1) = ring_items buf r w @ [x]"
proof -
  let ?N = "length buf" and ?d = "unat (w - r)"
  let ?buf = "buf[ring_pos (length buf) w := x]"
  have N: "?N dvd 2 ^ LENGTH('a)" "0 < ?N" "?N < 2 ^ LENGTH('a)" and le: "?d \<le> ?N" using ok by (simp_all add: ring_ok_def)
  have "?d \<noteq> ?N" using nf ring_full [OF ok] by simp
  then have lt: "?d < ?N" using le by simp
  have e: "w + 1 - r = (w - r) + 1" by (simp add: algebra_simps)
  have d1: "unat (w + 1 - r) = ?d + 1" unfolding e using lt N by (simp add: unat_word_ariths)
  then show "ring_ok ?buf r (w + 1)" using N lt by (simp add: ring_ok_def)
  have w: "w = r + of_nat ?d" by simp
  have pw: "ring_pos ?N w = (unat r + ?d) mod ?N" by (subst w) (rule ring_pos_add [OF N(1,3)])
  have pi: "ring_pos ?N (r + of_nat i) = (unat r + i) mod ?N" for i by (rule ring_pos_add [OF N(1,3)])
  have ne: "(unat r + i) mod ?N \<noteq> (unat r + ?d) mod ?N" if "i < ?d" for i
  proof
    assume "(unat r + i) mod ?N = (unat r + ?d) mod ?N"
    then have "?N dvd ?d - i" 
      using that mod_eq_dvd_iff_nat [of "unat r + i" "unat r + ?d" ?N] by simp
    then show False using that lt by (auto dest: dvd_imp_le)
  qed
  have "?buf ! ring_pos ?N (r + of_nat i) = buf ! ring_pos ?N (r + of_nat i)" if "i < ?d" for i
    using ne [OF that] by (simp add: pi pw)
  moreover have "?buf ! ring_pos ?N (r + of_nat ?d) = x" using N by (simp add: pi pw)
  ultimately show "ring_items ?buf r (w + 1) = ring_items buf r w @ [x]"
    unfolding ring_items_def d1 by simp
qed

section \<open>The interface of a bounded queue\<close>

text \<open>
  What the drivers rely on: with the abstraction \<open>items\<close>, putting appends, taking removes the first
  element, and the tests for full and empty are exact.
\<close>

datatype 'b qop = QPut 'b | QGet

text \<open>A sequence of operations, those that find the queue full or empty skipped; the elements put and those taken.\<close>

fun qrun :: "('b \<Rightarrow> 'q \<Rightarrow> 'q) \<Rightarrow> ('q \<Rightarrow> 'b) \<Rightarrow> ('q \<Rightarrow> 'q) \<Rightarrow> ('q \<Rightarrow> bool) \<Rightarrow> ('q \<Rightarrow> bool) \<Rightarrow>
    'b qop list \<Rightarrow> 'q \<Rightarrow> 'b list \<times> 'b list \<times> 'q" where
  "qrun put front skip isfull isempty [] q = ([], [], q)"
| "qrun put front skip isfull isempty (QPut x # ops) q =
     (if isfull q then qrun put front skip isfull isempty ops q
      else case qrun put front skip isfull isempty ops (put x q) of (ins, outs, q') \<Rightarrow> (x # ins, outs, q'))"
| "qrun put front skip isfull isempty (QGet # ops) q =
     (if isempty q then qrun put front skip isfull isempty ops q
      else case qrun put front skip isfull isempty ops (skip q) of (ins, outs, q') \<Rightarrow> (ins, front q # outs, q'))"

locale bounded_queue =
  fixes inv :: "'q \<Rightarrow> bool" and items :: "'q \<Rightarrow> 'b list" and cap :: nat
    and put :: "'b \<Rightarrow> 'q \<Rightarrow> 'q" and front :: "'q \<Rightarrow> 'b" and skip :: "'q \<Rightarrow> 'q"
    and isfull :: "'q \<Rightarrow> bool" and isempty :: "'q \<Rightarrow> bool"
  assumes bound: "inv q \<Longrightarrow> length (items q) \<le> cap"
    and full_iff: "inv q \<Longrightarrow> isfull q \<longleftrightarrow> length (items q) = cap"
    and empty_iff: "inv q \<Longrightarrow> isempty q \<longleftrightarrow> items q = []"
    and put_inv: "inv q \<Longrightarrow> \<not> isfull q \<Longrightarrow> inv (put x q)"
    and put_items: "inv q \<Longrightarrow> \<not> isfull q \<Longrightarrow> items (put x q) = items q @ [x]"
    and skip_inv: "inv q \<Longrightarrow> \<not> isempty q \<Longrightarrow> inv (skip q)"
    and skip_items: "inv q \<Longrightarrow> \<not> isempty q \<Longrightarrow> front q # items (skip q) = items q"
begin

lemma fifo:
  assumes "inv q" "qrun put front skip isfull isempty ops q = (ins, outs, q')"
  shows "inv q' \<and> items q @ ins = outs @ items q' \<and> length (items q') \<le> cap"
  using assms
proof (induction ops arbitrary: q ins outs)
  case Nil
  then show ?case using bound by auto
next
  case (Cons op ops)
  show ?case
  proof (cases op)
    case (QPut x)
    show ?thesis
    proof (cases "isfull q")
      case True
      then show ?thesis using Cons QPut by simp
    next
      case False
      obtain ins' where r: "qrun put front skip isfull isempty ops (put x q) = (ins', outs, q')" "ins = x # ins'"
        using Cons.prems(2) False QPut by (auto split: prod.splits)
      from Cons.IH [OF put_inv [OF Cons.prems(1) False] r(1)] show ?thesis
        using put_items [OF Cons.prems(1) False] r(2) by simp
    qed
  next
    case QGet
    show ?thesis
    proof (cases "isempty q")
      case True
      then show ?thesis using Cons QGet by simp
    next
      case False
      obtain outs' where r: "qrun put front skip isfull isempty ops (skip q) = (ins, outs', q')" "outs = front q # outs'"
        using Cons.prems(2) False QGet by (auto split: prod.splits)
      from Cons.IH [OF skip_inv [OF Cons.prems(1) False] r(1)] show ?thesis
        using skip_items [OF Cons.prems(1) False] r(2) by (metis append_Cons)
    qed
  qed
qed

lemma front_hd: "inv q \<Longrightarrow> \<not> isempty q \<Longrightarrow> front q = hd (items q)"
  using skip_items by (metis list.sel(1))

lemma skip_tl: "inv q \<Longrightarrow> \<not> isempty q \<Longrightarrow> items (skip q) = tl (items q)"
  using skip_items by (metis list.sel(3))

end

end
