(* ===== verification/Pipes.thy ===== *)
theory Pipes
  imports Pipe Addrspace Transaction Ring
begin

text \<open>
  Pipes (kernel/pipe.c) as queues of bytes: the ring buffer of a pipe is a bounded queue, and
  \<open>pipewrite\<close> and \<open>piperead\<close> move bytes between it and the memory of the calling process.
\<close>

section \<open>The pipe as a queue\<close>

definition pipe_items :: "pipe \<Rightarrow> byte list" where
  "pipe_items p = ring_items (pi_data p) (pi_nread p) (pi_nwrite p)"

definition pipe_ok :: "pipe \<Rightarrow> bool" where
  "pipe_ok p \<longleftrightarrow> length (pi_data p) = PIPESIZE \<and> ring_ok (pi_data p) (pi_nread p) (pi_nwrite p)"

interpretation pq: bounded_queue pipe_ok pipe_items PIPESIZE pipe_put pipe_peek pipe_skip pipe_full pipe_empty
proof unfold_locales
  fix q :: pipe and x :: byte
  assume ok: "pipe_ok q"
  then have len: "length (pi_data q) = PIPESIZE" and r: "ring_ok (pi_data q) (pi_nread q) (pi_nwrite q)"
    by (simp_all add: pipe_ok_def)
  show "length (pipe_items q) \<le> PIPESIZE" using len r by (simp add: pipe_items_def ring_ok_def)
  show f: "pipe_full q \<longleftrightarrow> length (pipe_items q) = PIPESIZE"
    using ring_full [OF r] len by (simp add: pipe_full_def pipe_items_def)
  show e: "pipe_empty q \<longleftrightarrow> pipe_items q = []" by (simp add: pipe_empty_def pipe_items_def ring_empty)
  { assume "\<not> pipe_full q"
    then have "pi_nwrite q \<noteq> pi_nread q + of_nat (length (pi_data q))" using len by (simp add: pipe_full_def)
    note p = ring_put [OF r this, of x, unfolded len ring_pos_def]
    show "pipe_ok (pipe_put x q)" "pipe_items (pipe_put x q) = pipe_items q @ [x]"
      using p len by (simp_all add: pipe_ok_def pipe_put_def pipe_items_def) }
  { assume "\<not> pipe_empty q"
    then have "pi_nread q \<noteq> pi_nwrite q" by (simp add: pipe_empty_def)
    note p = ring_get [OF r this, unfolded len ring_pos_def]
    show "pipe_ok (pipe_skip q)" "pipe_peek q # pipe_items (pipe_skip q) = pipe_items q"
      using p len by (simp_all add: pipe_ok_def pipe_skip_def pipe_items_def pipe_peek_def) }
qed

lemma pipe_put_open [simp]:
  "pi_readopen (pipe_put x p) = pi_readopen p" "pi_writeopen (pipe_put x p) = pi_writeopen p"
  by (simp_all add: pipe_put_def)

lemma pipe_skip_open [simp]:
  "pi_readopen (pipe_skip p) = pi_readopen p" "pi_writeopen (pipe_skip p) = pi_writeopen p"
  by (simp_all add: pipe_skip_def)

section \<open>Writing\<close>

text \<open>The state of a process in the middle of a pipe operation.\<close>

definition pipe_ctx :: "u64 \<Rightarrow> nat \<Rightarrow> 'z pipe_st_scheme \<Rightarrow> bool" where
  "pipe_ctx pi p s \<longleftrightarrow> held s = [PipeLock pi] \<and> cur s = Some p \<and> p < NPROC \<and> length (procs s) = NPROC \<and>
     \<not> p_killed (procs s ! p) \<and> pipe_ok (pipes s pi)"

lemma copyin_byte:
  fixes s :: "'z kmem_scheme"
  assumes "tables_ok s F 2 root"
  shows "copyin root va 1 s = (if readable (phys s) root va then Ok (0, [ubyte (phys s) root va]) s
    else Ok (-1, []) s)"
proof -
  from copyin_spec [OF assms, of 1 va] obtain k where k: "k \<le> 1"
    "copyin root va 1 s = Ok (if k = 1 then 0 else -1, map (\<lambda>i. ubyte (phys s) root (va + of_nat i)) [0..<k]) s"
    "\<forall>i < k. readable (phys s) root (va + of_nat i)" "k < 1 \<longrightarrow> \<not> readable (phys s) root (va + of_nat k)" by blast
  then show ?thesis by (cases k) auto
qed

lemma tables_ok_cong:
  assumes "tables_ok s F n root" "phys t = phys s" "freelist t = freelist s" "kend t = kend s" "KmemLock \<notin> set (held t)"
  shows "tables_ok t F n root"
  using assms by (auto simp: tables_ok_def free_pages_def kmem_list_def)

lemma space_ok_cong:
  assumes "space_ok s F root" "phys t = phys s" "freelist t = freelist s" "kend t = kend s" "KmemLock \<notin> set (held t)"
  shows "space_ok t F root"
  using assms tables_ok_cong [OF _ assms(2-5)] by (auto simp: space_ok_def)

text \<open>
  One call of \<open>pipewrite\<close> up to its return or to the point where it sleeps. \<open>k\<close> is the number of bytes at
  \<open>addr\<close> that the process can read, \<open>n\<close> at most. Returning needs room for all of them, and room for one more
  if the call is to find out that the next byte cannot be read.
\<close>

definition pipe_wake :: "chan \<Rightarrow> 'z sched_st_scheme \<Rightarrow> proc list" where
  "pipe_wake ch s = wake_all (cur s) ch (procs s)"

lemma pipewrite_loop_spec:
  fixes s :: "'z pipe_st_scheme"
  assumes "pipe_ctx pi p s" "tables_ok s F 2 (p_pagetable (procs s ! p))" "pi_readopen (pipes s pi)" "i \<le> k" "k \<le> n"
    "\<forall>j < k. readable (phys s) (p_pagetable (procs s ! p)) (addr + of_nat j)"
    "k < n \<longrightarrow> \<not> readable (phys s) (p_pagetable (procs s ! p)) (addr + of_nat k)"
  defines "spc \<equiv> PIPESIZE - length (pipe_items (pipes s pi))"
    and "bytes \<equiv> \<lambda>m. map (\<lambda>j. ubyte (phys s) (p_pagetable (procs s ! p)) (addr + of_nat j)) [i..<m]"
  shows "if k - i < spc \<or> (k = n \<and> k - i = spc)
    then \<exists>q. pipewrite_loop pi addr n i s = Ok (int k) (s\<lparr>held := [], pipes := (pipes s)(pi := q), procs := pipe_wake (PipeReadChan pi) s\<rparr>) \<and>
      pipe_ok q \<and> pipe_items q = pipe_items (pipes s pi) @ bytes k \<and> pi_readopen q \<and> pi_writeopen q = pi_writeopen (pipes s pi)
    else \<exists>q. pipewrite_loop pi addr n i s = Swtch (s\<lparr>held := [ProcLock p], pipes := (pipes s)(pi := q),
        procs := (pipe_wake (PipeReadChan pi) s)[p := (procs s ! p)\<lparr>p_chan := PipeWriteChan pi, p_state := SLEEPING\<rparr>]\<rparr>) \<and>
      pipe_ok q \<and> pipe_items q = pipe_items (pipes s pi) @ bytes (i + spc) \<and> length (pipe_items q) = PIPESIZE"
  using assms(1-7) unfolding spc_def bytes_def
proof (induction "n - i" arbitrary: i s)
  case (0 i s)
  have h: "held s = [PipeLock pi]" "length (procs s) = NPROC" using "0.prems" by (auto simp: pipe_ctx_def)
  have ik: "i = k" "k = n" using 0 by auto
  have e: "s\<lparr>held := [], procs := pipe_wake (PipeReadChan pi) s\<rparr> =
      s\<lparr>held := [], pipes := (pipes s)(pi := pipes s pi), procs := pipe_wake (PipeReadChan pi) s\<rparr>"
    unfolding fun_upd_triv by (cases s) simp
  have "pipewrite_loop pi addr n i s = Ok (int k) (s\<lparr>held := [], procs := pipe_wake (PipeReadChan pi) s\<rparr>)"
    using h ik wakeup_run [of s "PipeReadChan pi"]
    by (simp add: pipewrite_loop.simps [of pi addr n n] seq_ret_def bnd_case release_def pipe_wake_def)
  note r = this [unfolded e]
  have c: "k - i < PIPESIZE - length (pipe_items (pipes s pi)) \<or>
      (k = n \<and> k - i = PIPESIZE - length (pipe_items (pipes s pi)))"
    unfolding ik by (cases "PIPESIZE - length (pipe_items (pipes s pi))") simp_all
  show ?case unfolding if_P [OF c] using r ik "0.prems" by (intro exI [of _ "pipes s pi"] conjI) (simp_all add: pipe_ctx_def)
next
  case (Suc m i s)
  let ?q = "pipes s pi" and ?root = "p_pagetable (procs s ! p)"
  let ?spc = "PIPESIZE - length (pipe_items ?q)"
  have h: "held s = [PipeLock pi]" "length (procs s) = NPROC" "cur s = Some p" "p < NPROC" "\<not> p_killed (procs s ! p)"
    and ok: "pipe_ok ?q" using Suc.prems by (auto simp: pipe_ctx_def)
  have i: "i < n" using Suc.hyps(2) by simp
  note le = pq.bound [OF ok] and full = pq.full_iff [OF ok]
  have k: "killed p s = Ok False s" using killed_run [of p s] h by simp
  have wr: "wakeup (PipeReadChan pi) s = Ok () (s\<lparr>procs := pipe_wake (PipeReadChan pi) s\<rparr>)"
    using wakeup_run [of s "PipeReadChan pi"] h by (simp add: pipe_wake_def)
  have upd: "(pipes s)(pi := ?q) = pipes s" by simp
  note unf = pipewrite_loop.simps [of pi addr n i]
  show ?case
  proof (cases "pipe_full ?q")
    case True
    have lw: "length (pipe_wake (PipeReadChan pi) s) = NPROC" using h by (simp add: pipe_wake_def length_wake_all)
    have me: "pipe_wake (PipeReadChan pi) s ! p = procs s ! p" using h by (simp add: pipe_wake_def wake_all_def)
    let ?t = "s\<lparr>procs := pipe_wake (PipeReadChan pi) s\<rparr>"
    have sl: "sleep (PipeWriteChan pi) (PipeLock pi) ?t = Swtch (?t\<lparr>held := [ProcLock p],
        procs := (pipe_wake (PipeReadChan pi) s)[p := (procs s ! p)\<lparr>p_chan := PipeWriteChan pi, p_state := SLEEPING\<rparr>]\<rparr>)"
      using sleep_run [of ?t p "PipeLock pi" "PipeWriteChan pi"] h lw me by simp
    have e: "?t\<lparr>held := [ProcLock p],
        procs := (pipe_wake (PipeReadChan pi) s)[p := (procs s ! p)\<lparr>p_chan := PipeWriteChan pi, p_state := SLEEPING\<rparr>]\<rparr> =
      s\<lparr>held := [ProcLock p], pipes := (pipes s)(pi := ?q),
        procs := (pipe_wake (PipeReadChan pi) s)[p := (procs s ! p)\<lparr>p_chan := PipeWriteChan pi, p_state := SLEEPING\<rparr>]\<rparr>"
      unfolding upd by (cases s) simp
    have r: "pipewrite_loop pi addr n i s = Swtch (s\<lparr>held := [ProcLock p], pipes := (pipes s)(pi := ?q),
        procs := (pipe_wake (PipeReadChan pi) s)[p := (procs s ! p)\<lparr>p_chan := PipeWriteChan pi, p_state := SLEEPING\<rparr>]\<rparr>)"
      using i h(3) True Suc.prems(3) k wr sl unfolding e [symmetric]
      by (simp add: unf bnd_case pipe_get_def myproc_def)
    have sp: "?spc = 0" "length (pipe_items ?q) = PIPESIZE" using True full by simp_all
    then have c: "\<not> (k - i < ?spc \<or> (k = n \<and> k - i = ?spc))" using i Suc.prems by auto
    show ?thesis unfolding if_not_P [OF c] using r ok sp by (intro exI [of _ ?q] conjI) simp_all
  next
    case nf: False
    then have sp: "0 < ?spc" using full le by simp
    have ci: "copyin ?root (addr + of_nat i) 1 s = (if readable (phys s) ?root (addr + of_nat i)
        then Ok (0, [ubyte (phys s) ?root (addr + of_nat i)]) s else Ok (-1, []) s)"
      by (rule copyin_byte [OF Suc.prems(2)])
    show ?thesis
    proof (cases "i = k")
      case True
      then have c: "k - i < ?spc \<or> (k = n \<and> k - i = ?spc)" using sp by simp
      have nr: "\<not> readable (phys s) ?root (addr + of_nat i)" using True i Suc.prems by auto
      have e: "s\<lparr>held := [], procs := pipe_wake (PipeReadChan pi) s\<rparr> =
          s\<lparr>held := [], pipes := (pipes s)(pi := ?q), procs := pipe_wake (PipeReadChan pi) s\<rparr>"
        unfolding upd by (cases s) simp
      have "pipewrite_loop pi addr n i s = Ok (int k) (s\<lparr>held := [], procs := pipe_wake (PipeReadChan pi) s\<rparr>)"
        using i h nf Suc.prems(3) k ci nr True wr
        by (simp add: unf [unfolded True] bnd_case pipe_get_def pget_def myproc_def seq_ret_def release_def)
      note r = this [unfolded e]
      show ?thesis unfolding if_P [OF c] using r ok Suc.prems(3) True by (intro exI [of _ ?q] conjI) simp_all
    next
      case False
      then have ik: "i < k" using Suc.prems by simp
      let ?x = "ubyte (phys s) ?root (addr + of_nat i)"
      let ?q' = "pipe_put ?x ?q"
      let ?s' = "s\<lparr>pipes := (pipes s)(pi := ?q')\<rparr>"
      have rd: "readable (phys s) ?root (addr + of_nat i)" using ik Suc.prems by blast
      have step: "pipewrite_loop pi addr n i s = pipewrite_loop pi addr n (Suc i) ?s'"
        using i h nf Suc.prems(3) k ci rd
        by (simp add: unf bnd_case pipe_get_def pget_def myproc_def pipe_upd_def)
      have ok': "pipe_ok ?q'" and it: "pipe_items ?q' = pipe_items ?q @ [?x]"
        using pq.put_inv [OF ok nf] pq.put_items [OF ok nf] by simp_all
      have ctx: "pipe_ctx pi p ?s'" using h ok' by (simp add: pipe_ctx_def)
      have tb: "tables_ok ?s' F 2 (p_pagetable (procs ?s' ! p))"
        using tables_ok_cong [OF Suc.prems(2), of ?s'] h by simp
      have m: "m = n - Suc i" using Suc.hyps(2) by simp
      have sp': "PIPESIZE - length (pipe_items ?q') = ?spc - 1" using it by simp
      have c: "k - Suc i < ?spc - 1 \<or> (k = n \<and> k - Suc i = ?spc - 1) \<longleftrightarrow> k - i < ?spc \<or> (k = n \<and> k - i = ?spc)"
        using ik sp by auto
      have by1: "map f [i..<k] = f i # map f [Suc i..<k]" for f :: "nat \<Rightarrow> byte" using ik by (simp add: upt_conv_Cons)
      have by2: "map f [i..<i + ?spc] = f i # map f [Suc i..<Suc i + (?spc - 1)]" for f :: "nat \<Rightarrow> byte"
      proof -
        have "Suc i + (?spc - 1) = i + ?spc" "i < i + ?spc" using sp by simp_all
        then show ?thesis by (simp only: upt_conv_Cons list.map)
      qed
      have up2: "(pipes ?s')(pi := q) = (pipes s)(pi := q)" for q by simp
      have e1: "?s'\<lparr>held := a, pipes := b, procs := d\<rparr> = s\<lparr>held := a, pipes := b, procs := d\<rparr>" for a b d
        by (cases s) simp
      have wk: "pipe_wake (PipeReadChan pi) ?s' = pipe_wake (PipeReadChan pi) s" by (simp add: pipe_wake_def)
      have k1: "Suc i \<le> k" using ik by simp
      have ro: "pi_readopen (pipes ?s' pi)" using Suc.prems(3) by simp
      have rb: "\<forall>j < k. readable (phys ?s') (p_pagetable (procs ?s' ! p)) (addr + of_nat j)"
        "k < n \<longrightarrow> \<not> readable (phys ?s') (p_pagetable (procs ?s' ! p)) (addr + of_nat k)"
        using Suc.prems(6,7) by simp_all
      note IH = Suc.hyps(1) [OF m ctx tb ro k1 Suc.prems(5) rb]
      have q': "pipes ?s' pi = ?q'" "phys ?s' = phys s" "procs ?s' = procs s" by simp_all
      have cond: "(k - Suc i < PIPESIZE - length (pipe_items (pipes ?s' pi)) \<or>
          (k = n \<and> k - Suc i = PIPESIZE - length (pipe_items (pipes ?s' pi)))) = (k - i < ?spc \<or> (k = n \<and> k - i = ?spc))"
        unfolding q' sp' by (rule c)
      show ?thesis
      proof (cases "k - i < ?spc \<or> (k = n \<and> k - i = ?spc)")
        case True
        from IH [unfolded cond, unfolded if_P [OF True] e1 up2 wk q' pipe_put_open] obtain q where
          q: "pipewrite_loop pi addr n (Suc i) ?s' = Ok (int k) (s\<lparr>held := [], pipes := (pipes s)(pi := q), procs := pipe_wake (PipeReadChan pi) s\<rparr>)"
          "pipe_ok q" "pipe_items q = pipe_items ?q' @ map (\<lambda>j. ubyte (phys s) ?root (addr + of_nat j)) [Suc i..<k]"
          "pi_readopen q" "pi_writeopen q = pi_writeopen ?q" by blast
        show ?thesis unfolding if_P [OF True] step by1
          using q it by (intro exI [of _ q] conjI) simp_all
      next
        case False
        from IH [unfolded cond, unfolded if_not_P [OF False] e1 up2 wk q' sp'] obtain q where
          q: "pipewrite_loop pi addr n (Suc i) ?s' = Swtch (s\<lparr>held := [ProcLock p], pipes := (pipes s)(pi := q),
            procs := (pipe_wake (PipeReadChan pi) s)[p := (procs s ! p)\<lparr>p_chan := PipeWriteChan pi, p_state := SLEEPING\<rparr>]\<rparr>)"
          "pipe_ok q" "pipe_items q = pipe_items ?q' @ map (\<lambda>j. ubyte (phys s) ?root (addr + of_nat j)) [Suc i..<Suc i + (?spc - 1)]"
          "length (pipe_items q) = PIPESIZE" by blast
        have "pipe_items q = pipe_items ?q @ map (\<lambda>j. ubyte (phys s) ?root (addr + of_nat j)) [i..<i + ?spc]"
          unfolding q(3) it by2 append_assoc append_Cons append_Nil ..
        then show ?thesis unfolding if_not_P [OF False] step
          using q by (intro exI [of _ q] conjI)
      qed
    qed
  qed
qed

section \<open>Reading\<close>

lemma user_pte_cong:
  assumes "\<forall>v. pte_in m 2 root v = pte_in m' 2 root v"
  shows "user_page m root v = user_page m' root v" "writable m root v = writable m' root v"
    "readable m root v = readable m' root v" "upa m root v = upa m' root v"
  using assms by (simp_all add: user_page_def writable_def readable_def)

lemma copyout_byte:
  fixes s :: "'z kmem_scheme"
  assumes "space_ok s F root"
  shows "\<exists>m. copyout root va [x] s = Ok (if writable (phys s) root va then 0 else -1) (s\<lparr>phys := m\<rparr>) \<and>
    space_ok (s\<lparr>phys := m\<rparr>) F root \<and> (\<forall>v. pte_in m 2 root v = pte_in (phys s) 2 root v) \<and>
    (\<forall>v. user_page (phys s) root v \<longrightarrow> ubyte m root v =
      (if v = va \<and> writable (phys s) root va then x else ubyte (phys s) root v))"
proof -
  from copyout_spec [OF assms, of "[x]" va] obtain k m where k: "k \<le> 1"
    "copyout root va [x] s = Ok (if k = 1 then 0 else -1) (s\<lparr>phys := m\<rparr>)"
    "space_ok (s\<lparr>phys := m\<rparr>) F root" "\<forall>v. pte_in m 2 root v = pte_in (phys s) 2 root v"
    "\<forall>i < k. writable (phys s) root (va + of_nat i)" "k < 1 \<longrightarrow> \<not> writable (phys s) root (va + of_nat k)"
    "\<forall>v. user_page (phys s) root v \<longrightarrow> ubyte m root v =
      (if in_range v va k then [x] ! unat (v - va) else ubyte (phys s) root v)" by auto
  have w: "k = 1 \<longleftrightarrow> writable (phys s) root va" using k(1,5,6) by (cases k) auto
  have r: "in_range v va 1 \<longleftrightarrow> v = va" "\<not> in_range v va 0" for v
    by (simp_all add: in_range_def unat_eq_0)
  have "ubyte m root v = (if v = va \<and> writable (phys s) root va then x else ubyte (phys s) root v)"
    if "user_page (phys s) root v" for v
    using k(7) [rule_format, OF that] w r k(1) by (cases k) auto
  then show ?thesis using k w by auto
qed


lemma sub_nth_step:
  assumes "in_range v (a + 1) n" "n < 2 ^ 64" "v \<noteq> a"
  shows "unat (v - a) = Suc (unat (v - (a + 1)))"
  using assms sub_step [of v a] by (auto simp: in_range_def)

lemma piperead_copy_spec:
  fixes s :: "'z pipe_st_scheme"
  assumes "cur s = Some p" "pipe_ok (pipes s pi)" "space_ok s F (p_pagetable (procs s ! p))"
    "w \<le> min (n - i) (length (pipe_items (pipes s pi)))"
    "\<forall>j < w. writable (phys s) (p_pagetable (procs s ! p)) (addr + of_nat (i + j))"
    "w < min (n - i) (length (pipe_items (pipes s pi))) \<longrightarrow>
       \<not> writable (phys s) (p_pagetable (procs s ! p)) (addr + of_nat (i + w))"
  shows "\<exists>q m. piperead_copy pi addr n i s = Ok (int (i + w)) (s\<lparr>pipes := (pipes s)(pi := q), phys := m\<rparr>) \<and>
    pipe_ok q \<and> pi_readopen q = pi_readopen (pipes s pi) \<and> pi_writeopen q = pi_writeopen (pipes s pi) \<and>
    pipe_items q = drop (if w < min (n - i) (length (pipe_items (pipes s pi))) then Suc w else w) (pipe_items (pipes s pi)) \<and>
    space_ok (s\<lparr>phys := m\<rparr>) F (p_pagetable (procs s ! p)) \<and>
    (\<forall>v. pte_in m 2 (p_pagetable (procs s ! p)) v = pte_in (phys s) 2 (p_pagetable (procs s ! p)) v) \<and>
    (\<forall>v. user_page (phys s) (p_pagetable (procs s ! p)) v \<longrightarrow> ubyte m (p_pagetable (procs s ! p)) v =
      (if in_range v (addr + of_nat i) w then pipe_items (pipes s pi) ! unat (v - (addr + of_nat i))
       else ubyte (phys s) (p_pagetable (procs s ! p)) v))"
  using assms
proof (induction "n - i" arbitrary: i s w)
  case (0 i s w)
  have w: "w = 0" using 0 by simp
  have "piperead_copy pi addr n i s = Ok (int i) s" using 0 by (simp add: piperead_copy.simps [of pi addr n i])
  moreover have e: "s\<lparr>pipes := (pipes s)(pi := pipes s pi), phys := phys s\<rparr> = s" by simp
  ultimately show ?case using "0.prems" "0.hyps" w
    by (intro exI [of _ "pipes s pi"] exI [of _ "phys s"]) (simp add: in_range_def)
next
  case (Suc r i s w)
  let ?q = "pipes s pi" and ?root = "p_pagetable (procs s ! p)" and ?L = "pipe_items (pipes s pi)"
  have i: "i < n" using Suc.hyps(2) by simp
  note unf = piperead_copy.simps [of pi addr n i]
  note ok = Suc.prems(2)
  show ?case
  proof (cases "pipe_empty ?q")
    case True
    then have L: "?L = []" using pq.empty_iff [OF ok] by simp
    then have w: "w = 0" using Suc.prems(4) by simp
    have "piperead_copy pi addr n i s = Ok (int i) s" using i True by (simp add: unf pipe_get_def)
    then show ?thesis using Suc.prems w L
      by (intro exI [of _ "pipes s pi"] exI [of _ "phys s"]) (simp add: in_range_def)
  next
    case ne: False
    let ?q' = "pipe_skip ?q" and ?x = "pipe_peek ?q"
    let ?s1 = "s\<lparr>pipes := (pipes s)(pi := ?q')\<rparr>"
    have ok': "pipe_ok ?q'" and L: "?L = ?x # pipe_items ?q'"
      using pq.skip_inv [OF ok ne] pq.skip_items [OF ok ne] by simp_all
    have sp1: "space_ok ?s1 F ?root"
      by (rule space_ok_cong [OF Suc.prems(3)]) (use Suc.prems(3) in \<open>auto simp: space_ok_def tables_ok_def free_pages_def\<close>)
    from copyout_byte [OF sp1, of "addr + of_nat i" ?x] obtain m where
      c: "copyout ?root (addr + of_nat i) [?x] ?s1 = Ok (if writable (phys s) ?root (addr + of_nat i) then 0 else -1) (?s1\<lparr>phys := m\<rparr>)"
      and sp2: "space_ok (?s1\<lparr>phys := m\<rparr>) F ?root" and pte: "\<forall>v. pte_in m 2 ?root v = pte_in (phys s) 2 ?root v"
      and ub: "\<forall>v. user_page (phys s) ?root v \<longrightarrow> ubyte m ?root v =
        (if v = addr + of_nat i \<and> writable (phys s) ?root (addr + of_nat i) then ?x else ubyte (phys s) ?root v)" by auto
    note same = user_pte_cong [OF pte]
    have sp3: "space_ok (s\<lparr>phys := m\<rparr>) F ?root"
      by (rule space_ok_cong [OF sp2]) (use sp2 in \<open>auto simp: space_ok_def tables_ok_def free_pages_def\<close>)
    show ?thesis
    proof (cases "writable (phys s) ?root (addr + of_nat i)")
      case False
      have w: "w = 0"
      proof (rule ccontr)
        assume "w \<noteq> 0"
        then show False using Suc.prems(5) [rule_format, of 0] False by simp
      qed
      have lt: "0 < min (n - i) (length ?L)" using i L by simp
      have "piperead_copy pi addr n i s = Ok (int i) (?s1\<lparr>phys := m\<rparr>)"
        using i ne Suc.prems(1) c False by (simp add: unf pipe_get_def pipe_upd_def myproc_def pget_def bnd_case)
      moreover have "pipe_items ?q' = drop (Suc 0) ?L" using L by (metis drop0 drop_Suc_Cons)
      ultimately show ?thesis using ok' pte sp3 ub False w lt
        by (intro exI [of _ ?q'] exI [of _ m]) (simp add: in_range_def)
    next
      case True
      have "length ?L \<noteq> 0" using L by (metis length_0_conv list.distinct(1))
      then have w: "0 < w" using Suc.prems(6) True i by (cases "w = 0") simp_all
      let ?s2 = "?s1\<lparr>phys := m\<rparr>"
      have step: "piperead_copy pi addr n i s = piperead_copy pi addr n (Suc i) ?s2"
        using i ne Suc.prems(1) c True by (simp add: unf pipe_get_def pipe_upd_def myproc_def pget_def bnd_case)
      have r: "r = n - Suc i" using Suc.hyps(2) by simp
      have min1: "min (n - i) (length ?L) = Suc (min (n - Suc i) (length (pipe_items ?q')))"
        using i L by (metis Suc_diff_Suc length_Cons min_Suc_Suc)
      have pre: "cur ?s2 = Some p" "pipe_ok (pipes ?s2 pi)" "space_ok ?s2 F (p_pagetable (procs ?s2 ! p))"
        "w - 1 \<le> min (n - Suc i) (length (pipe_items (pipes ?s2 pi)))"
        "\<forall>j < w - 1. writable (phys ?s2) (p_pagetable (procs ?s2 ! p)) (addr + of_nat (Suc i + j))"
        "w - 1 < min (n - Suc i) (length (pipe_items (pipes ?s2 pi))) \<longrightarrow>
          \<not> writable (phys ?s2) (p_pagetable (procs ?s2 ! p)) (addr + of_nat (Suc i + (w - 1)))"
      proof -
        show "\<forall>j < w - 1. writable (phys ?s2) (p_pagetable (procs ?s2 ! p)) (addr + of_nat (Suc i + j))"
        proof (intro allI impI)
          fix j assume "j < w - 1"
          then have "Suc j < w" by simp
          then have "writable (phys s) ?root (addr + of_nat (i + Suc j))" by (rule Suc.prems(5) [rule_format])
          then show "writable (phys ?s2) (p_pagetable (procs ?s2 ! p)) (addr + of_nat (Suc i + j))"
            using same(2) by simp
        qed
        have "Suc i + (w - 1) = i + w" using w by simp
        then show "w - 1 < min (n - Suc i) (length (pipe_items (pipes ?s2 pi))) \<longrightarrow>
          \<not> writable (phys ?s2) (p_pagetable (procs ?s2 ! p)) (addr + of_nat (Suc i + (w - 1)))"
          using Suc.prems(6) [unfolded min1] same(2) w by (cases w) simp_all
        show "w - 1 \<le> min (n - Suc i) (length (pipe_items (pipes ?s2 pi)))"
          using Suc.prems(4) [unfolded min1] w by (cases w) simp_all
      qed (use Suc.prems(1) ok' sp2 in simp_all)
      have a1: "addr + of_nat (Suc i) = addr + of_nat i + 1" by simp
      have q': "pipes ?s2 pi = ?q'" "phys ?s2 = m" "procs ?s2 = procs s" by simp_all
      obtain q m' where q: "piperead_copy pi addr n (Suc i) ?s2 = Ok (int (Suc i + (w - 1))) (?s2\<lparr>pipes := (pipes ?s2)(pi := q), phys := m'\<rparr>)"
        "pipe_ok q" "pi_readopen q = pi_readopen ?q'" "pi_writeopen q = pi_writeopen ?q'"
        "pipe_items q = drop (if w - 1 < min (n - Suc i) (length (pipe_items ?q')) then Suc (w - 1) else w - 1) (pipe_items ?q')"
        "space_ok (?s2\<lparr>phys := m'\<rparr>) F ?root" "\<forall>v. pte_in m' 2 ?root v = pte_in m 2 ?root v"
        and ub': "\<forall>v. user_page m ?root v \<longrightarrow> ubyte m' ?root v =
          (if in_range v (addr + of_nat i + 1) (w - 1) then pipe_items ?q' ! unat (v - (addr + of_nat i + 1)) else ubyte m ?root v)"
        using Suc.hyps(1) [OF r pre] unfolding a1 q' by blast
      have st: "?s2\<lparr>pipes := (pipes ?s2)(pi := q), phys := m'\<rparr> = s\<lparr>pipes := (pipes s)(pi := q), phys := m'\<rparr>"
        by (cases s) simp
      have sp4: "space_ok (s\<lparr>phys := m'\<rparr>) F ?root"
        by (rule space_ok_cong [OF q(6)]) (use q(6) in \<open>auto simp: space_ok_def tables_ok_def free_pages_def\<close>)
      have res: "piperead_copy pi addr n i s = Ok (int (i + w)) (s\<lparr>pipes := (pipes s)(pi := q), phys := m'\<rparr>)"
        unfolding step q(1) st using w by simp
      have "w - 1 \<le> 512" using pre(4) pq.bound [OF ok'] by (simp add: PIPESIZE_def)
      then have wl: "w - 1 < 2 ^ 64" by simp
      have final: "ubyte m' ?root v = (if in_range v (addr + of_nat i) w then ?L ! unat (v - (addr + of_nat i)) else ubyte (phys s) ?root v)"
        if u: "user_page (phys s) ?root v" for v
      proof -
        have rg: "in_range v (addr + of_nat i) w \<longleftrightarrow> v = addr + of_nat i \<or> in_range v (addr + of_nat i + 1) (w - 1)"
          using in_range_step [OF wl, of v "addr + of_nat i"] w by simp
        have u': "user_page m ?root v" using u same by simp
        show ?thesis
        proof (cases "v = addr + of_nat i")
          case True
          have "unat (-1 :: u64) = 2 ^ 64 - 1" by (simp add: unsigned_minus_1_eq_mask mask_eq_exp_minus_1)
          then have "\<not> in_range v (addr + of_nat i + 1) (w - 1)" using True \<open>w - 1 \<le> 512\<close> by (simp add: in_range_def)
          then show ?thesis
            using ub' [rule_format, OF u'] ub [rule_format, OF u] rg True \<open>writable (phys s) ?root (addr + of_nat i)\<close> L
            by (metis nth_Cons_0 cancel_comm_monoid_add_class.diff_cancel unat_0)
        next
          case False
          show ?thesis
          proof (cases "in_range v (addr + of_nat i + 1) (w - 1)")
            case True
            have "?L ! unat (v - (addr + of_nat i)) = pipe_items ?q' ! unat (v - (addr + of_nat i + 1))"
              using sub_nth_step [OF True wl False] L by (metis nth_Cons_Suc)
            then show ?thesis using ub' [rule_format, OF u'] True rg by simp
          next
            case nr: False
            then show ?thesis using ub' [rule_format, OF u'] ub [rule_format, OF u] False rg by simp
          qed
        qed
      qed
      have dr: "pipe_items q = drop (if w < min (n - i) (length ?L) then Suc w else w) ?L"
      proof -
        obtain w' where w': "w = Suc w'" using w by (cases w) auto
        show ?thesis unfolding q(5) min1 w' by (subst L) simp
      qed
      show ?thesis
        using res q(2,3,4) dr sp4 q(7) pte final
        by (intro exI [of _ q] exI [of _ m'] conjI) simp_all
    qed
  qed
qed


section \<open>Properties\<close>

text \<open>
  C9. Bytes leave a pipe in the order they entered it, and none is lost or made up, also when the 32-bit
  counters wrap around: whatever sequence of puts and takes is applied to a pipe, those that find it
  full or empty being refused, the bytes that were in it followed by those put are the
  bytes taken followed by those left, and at most \<open>PIPESIZE\<close> are left.
\<close>

theorem pipe_fifo:
  assumes "pipe_ok q" "qrun pipe_put pipe_peek pipe_skip pipe_full pipe_empty ops q = (ins, outs, q')"
  shows "pipe_ok q' \<and> pipe_items q @ ins = outs @ pipe_items q' \<and> length (pipe_items q') \<le> PIPESIZE"
  using pq.fifo [OF assms] .

definition pipe_wrap :: pipe where
  "pipe_wrap = \<lparr>pi_data = replicate PIPESIZE 0, pi_nread = -1, pi_nwrite = -1, pi_readopen = True, pi_writeopen = True\<rparr>"

lemma pipe_wrap_ok: "pipe_ok pipe_wrap"
  by (simp add: pipe_ok_def pipe_wrap_def ring_ok_def PIPESIZE_def)

theorem pipe_fifo_witness:
  "pipe_ok pipe_wrap \<and> pi_nwrite (snd (snd (qrun pipe_put pipe_peek pipe_skip pipe_full pipe_empty [QPut 7, QPut 8, QGet] pipe_wrap))) = 1 \<and>
   fst (snd (qrun pipe_put pipe_peek pipe_skip pipe_full pipe_empty [QPut 7, QPut 8, QGet] pipe_wrap)) = [7]"
proof -
  obtain ins outs q' where r: "qrun pipe_put pipe_peek pipe_skip pipe_full pipe_empty [QPut 7, QPut 8, QGet] pipe_wrap = (ins, outs, q')"
    by (metis prod_cases3)
  have a: "pi_nwrite q' = 1" "length outs = 1" "ins = [7, 8]"
    using r by (auto simp: pipe_wrap_def pipe_full_def pipe_empty_def pipe_put_def pipe_skip_def PIPESIZE_def split: if_splits)
  from pipe_fifo [OF pipe_wrap_ok r] have "[7, 8] = outs @ pipe_items q'"
    using a(3) by (simp add: pipe_wrap_def pipe_items_def ring_items_def)
  then have "outs = [7]" using a(2) by (cases outs) auto
  then show ?thesis using r a pipe_wrap_ok by simp
qed

text \<open>
  C35. \<open>pipewrite\<close>. Let the reading end be open, and let \<open>k\<close> be the number of bytes at \<open>addr\<close>, \<open>n\<close> at most,
  that the process can read. If they fit, the call returns \<open>k\<close> with these bytes appended to the pipe
  and the readers woken. If they do not fit, it has filled the pipe with the first of them and sleeps,
  the readers woken and the lock of the pipe released. With the reading end closed it
  returns -1 and changes nothing.
\<close>

theorem pipewrite_spec:
  fixes s :: "'z pipe_st_scheme"
  assumes "held s = []" "cur s = Some p" "p < NPROC" "length (procs s) = NPROC" "\<not> p_killed (procs s ! p)"
    "pipe_ok (pipes s pi)" "tables_ok s F 2 (p_pagetable (procs s ! p))" "0 \<le> n" "k \<le> nat n"
    "\<forall>j < k. readable (phys s) (p_pagetable (procs s ! p)) (addr + of_nat j)"
    "k < nat n \<longrightarrow> \<not> readable (phys s) (p_pagetable (procs s ! p)) (addr + of_nat k)"
  shows "(\<not> pi_readopen (pipes s pi) \<and> 0 < n \<longrightarrow> pipewrite pi addr n s = Ok (-1) s) \<and>
    (pi_readopen (pipes s pi) \<longrightarrow>
      (let spc = PIPESIZE - length (pipe_items (pipes s pi));
           bytes = (\<lambda>m. map (\<lambda>j. ubyte (phys s) (p_pagetable (procs s ! p)) (addr + of_nat j)) [0..<m]) in
       if k < spc \<or> (k = nat n \<and> k = spc)
       then \<exists>q. pipewrite pi addr n s = Ok (int k) (s\<lparr>pipes := (pipes s)(pi := q), procs := pipe_wake (PipeReadChan pi) s\<rparr>) \<and>
         pipe_items q = pipe_items (pipes s pi) @ bytes k
       else \<exists>q. pipewrite pi addr n s = Swtch (s\<lparr>held := [ProcLock p], pipes := (pipes s)(pi := q),
           procs := (pipe_wake (PipeReadChan pi) s)[p := (procs s ! p)\<lparr>p_chan := PipeWriteChan pi, p_state := SLEEPING\<rparr>]\<rparr>) \<and>
         pipe_items q = pipe_items (pipes s pi) @ bytes spc \<and> length (pipe_items q) = PIPESIZE))"
proof (intro conjI impI)
  assume "\<not> pi_readopen (pipes s pi) \<and> 0 < n"
  then show "pipewrite pi addr n s = Ok (-1) s"
    using assms(1,2) by (simp add: pipewrite_def bnd_case acquire_def pipewrite_loop.simps [of pi addr "nat n" 0]
      myproc_def pipe_get_def release_def held_same)
next
  assume ro: "pi_readopen (pipes s pi)"
  let ?s = "s\<lparr>held := [PipeLock pi]\<rparr>"
  have acq: "pipewrite pi addr n s = pipewrite_loop pi addr (nat n) 0 ?s"
    using assms(1) by (simp add: pipewrite_def bnd_case acquire_def)
  have ctx: "pipe_ctx pi p ?s" using assms by (simp add: pipe_ctx_def)
  have tb: "tables_ok ?s F 2 (p_pagetable (procs ?s ! p))" using tables_ok_cong [OF assms(7), of ?s] by simp
  have e: "?s\<lparr>held := a, pipes := b, procs := c\<rparr> = s\<lparr>held := a, pipes := b, procs := c\<rparr>" for a b c by (cases s) simp
  have e0: "s\<lparr>held := [], pipes := b, procs := c\<rparr> = s\<lparr>pipes := b, procs := c\<rparr>" for b c using assms(1) by (cases s) simp
  have pr: "phys ?s = phys s" "procs ?s = procs s" "pipes ?s = pipes s" "pipe_wake ch ?s = pipe_wake ch s" for ch
    by (simp_all add: pipe_wake_def)
  have ro': "pi_readopen (pipes ?s pi)" using ro by simp
  have rd: "\<forall>j < k. readable (phys ?s) (p_pagetable (procs ?s ! p)) (addr + of_nat j)"
    "k < nat n \<longrightarrow> \<not> readable (phys ?s) (p_pagetable (procs ?s ! p)) (addr + of_nat k)"
    using assms(10,11) by simp_all
  note sp = pipewrite_loop_spec [OF ctx tb ro' le0 assms(9) rd, unfolded e e0 pr diff_zero add_0]
  show "let spc = PIPESIZE - length (pipe_items (pipes s pi));
           bytes = (\<lambda>m. map (\<lambda>j. ubyte (phys s) (p_pagetable (procs s ! p)) (addr + of_nat j)) [0..<m]) in
       if k < spc \<or> (k = nat n \<and> k = spc)
       then \<exists>q. pipewrite pi addr n s = Ok (int k) (s\<lparr>pipes := (pipes s)(pi := q), procs := pipe_wake (PipeReadChan pi) s\<rparr>) \<and>
         pipe_items q = pipe_items (pipes s pi) @ bytes k
       else \<exists>q. pipewrite pi addr n s = Swtch (s\<lparr>held := [ProcLock p], pipes := (pipes s)(pi := q),
           procs := (pipe_wake (PipeReadChan pi) s)[p := (procs s ! p)\<lparr>p_chan := PipeWriteChan pi, p_state := SLEEPING\<rparr>]\<rparr>) \<and>
         pipe_items q = pipe_items (pipes s pi) @ bytes spc \<and> length (pipe_items q) = PIPESIZE"
    unfolding Let_def acq using sp by (cases "k < PIPESIZE - length (pipe_items (pipes s pi)) \<or>
      (k = nat n \<and> k = PIPESIZE - length (pipe_items (pipes s pi)))") (simp only: if_True if_False, blast)+
qed


definition pipe_example :: pipe_st where
  "pipe_example = fs_st.extend (log_st.extend
     (log_fresh (\<lambda>_. [])\<lparr>phys := vm_mem, freelist := freelist vm_example, kend := kend vm_example,
        procs := (procs sched_example)[0 := (procs sched_example ! 0)\<lparr>p_pagetable := 0x80030000\<rparr>]\<rparr>)
     \<lparr>sb = sb_example, inodes = []\<rparr>) \<lparr>pipes = (\<lambda>_. pipe_wrap)\<rparr>"

lemma pipe_example_simps [simp]:
  "held pipe_example = []" "cur pipe_example = Some 0" "length (procs pipe_example) = NPROC"
  "procs pipe_example ! 0 = (procs sched_example ! 0)\<lparr>p_pagetable := 0x80030000\<rparr>"
  "phys pipe_example = vm_mem" "freelist pipe_example = freelist vm_example" "kend pipe_example = kend vm_example"
  "pipes pipe_example = (\<lambda>_. pipe_wrap)"
  by (simp_all add: pipe_example_def fs_st.defs log_st.defs NPROC_def)

lemma pipe_example_space: "space_ok pipe_example {0x80010000, 0x80020000} 0x80030000"
  by (rule space_ok_cong [OF vm_example_space]) (simp_all add: vm_example_def)

lemma pipe_example_byte:
  "writable vm_mem 0x80030000 0x1000" "readable vm_mem 0x80030000 0x1000"
  by (simp_all add: writable_def user_page_def readable_def vm_mem_pte MAXVA_def PA2PTE_def
        PTE_V_def PTE_U_def PTE_W_def PTE2PA_def)

theorem pipewrite_spec_witness:
  "\<exists>q s. pipewrite 0 0x1000 1 pipe_example = Ok 1 s \<and> pipes s 0 = q \<and>
     pipe_items q = [ubyte vm_mem 0x80030000 0x1000]"
proof -
  have tb: "tables_ok pipe_example {0x80010000, 0x80020000} 2 (p_pagetable (procs pipe_example ! 0))"
    using pipe_example_space by (simp add: space_ok_def)
  have it: "pipe_items pipe_wrap = []" by (simp add: pipe_items_def pipe_wrap_def ring_items_def)
  have "pi_readopen pipe_wrap" by (simp add: pipe_wrap_def)
  then have "\<exists>q. pipewrite 0 0x1000 1 pipe_example = Ok (int 1)
      (pipe_example\<lparr>pipes := (pipes pipe_example)(0 := q), procs := pipe_wake (PipeReadChan 0) pipe_example\<rparr>) \<and>
      pipe_items q = pipe_items (pipes pipe_example 0) @
        map (\<lambda>j. ubyte (phys pipe_example) (p_pagetable (procs pipe_example ! 0)) (0x1000 + of_nat j)) [0..<1]"
    using pipewrite_spec [of pipe_example 0 0 _ 1 1 "0x1000", OF _ _ _ _ _ _ tb]
    by (simp add: pipe_wrap_ok pipe_example_byte it NPROC_def PIPESIZE_def proc0_def Let_def)
  then show ?thesis by (auto simp: it)
qed

text \<open>
  C36. \<open>piperead\<close> of a pipe with something in it, or whose writing end is closed. Let \<open>c\<close> be the number of
  bytes to copy, those in the pipe and \<open>n\<close> at most, and let \<open>w\<close> be the number of these whose
  destination the process can write. The call returns \<open>w\<close>; the first \<open>w\<close> bytes of the pipe are at \<open>addr\<close>,
  no other byte of the process changes, and the writers are woken. If all \<open>c\<close> could be stored,
  exactly these bytes have left the pipe; otherwise the byte after the last one stored has
  left it too.
\<close>

theorem piperead_spec:
  fixes s :: "'z pipe_st_scheme"
  assumes "held s = []" "cur s = Some p" "p < NPROC" "length (procs s) = NPROC" "pipe_ok (pipes s pi)"
    "space_ok s F (p_pagetable (procs s ! p))" "\<not> pipe_empty (pipes s pi) \<or> \<not> pi_writeopen (pipes s pi)"
    "c = min (nat n) (length (pipe_items (pipes s pi)))" "w \<le> c"
    "\<forall>j < w. writable (phys s) (p_pagetable (procs s ! p)) (addr + of_nat j)"
    "w < c \<longrightarrow> \<not> writable (phys s) (p_pagetable (procs s ! p)) (addr + of_nat w)"
  shows "\<exists>q m. piperead pi addr n s = Ok (int w) (s\<lparr>pipes := (pipes s)(pi := q), phys := m,
      procs := pipe_wake (PipeWriteChan pi) s\<rparr>) \<and>
    pipe_ok q \<and> pipe_items q = drop (if w < c then Suc w else w) (pipe_items (pipes s pi)) \<and>
    (\<forall>v. pte_in m 2 (p_pagetable (procs s ! p)) v = pte_in (phys s) 2 (p_pagetable (procs s ! p)) v) \<and>
    (\<forall>v. user_page (phys s) (p_pagetable (procs s ! p)) v \<longrightarrow> ubyte m (p_pagetable (procs s ! p)) v =
      (if in_range v addr w then pipe_items (pipes s pi) ! unat (v - addr)
       else ubyte (phys s) (p_pagetable (procs s ! p)) v))"
proof -
  let ?s = "s\<lparr>held := [PipeLock pi]\<rparr>" and ?root = "p_pagetable (procs s ! p)"
  have pr: "phys ?s = phys s" "procs ?s = procs s" "pipes ?s = pipes s" by simp_all
  have sp: "space_ok ?s F (p_pagetable (procs ?s ! p))" using space_ok_cong [OF assms(6), of ?s] by simp
  have cs: "cur ?s = Some p" "pipe_ok (pipes ?s pi)" using assms(2,5) by simp_all
  have pre: "w \<le> min (nat n - 0) (length (pipe_items (pipes ?s pi)))"
    "\<forall>j < w. writable (phys ?s) (p_pagetable (procs ?s ! p)) (addr + of_nat (0 + j))"
    "w < min (nat n - 0) (length (pipe_items (pipes ?s pi))) \<longrightarrow>
       \<not> writable (phys ?s) (p_pagetable (procs ?s ! p)) (addr + of_nat (0 + w))"
    using assms(8-11) by simp_all
  have z: "addr + of_nat 0 = addr" "nat n - 0 = nat n" "0 + w = w" by simp_all
  from piperead_copy_spec [OF cs sp pre, unfolded pr z, folded assms(8)] obtain q m where
    c: "piperead_copy pi addr (nat n) 0 ?s = Ok (int w) (?s\<lparr>pipes := (pipes s)(pi := q), phys := m\<rparr>)"
    "pipe_ok q" "pipe_items q = drop (if w < c then Suc w else w) (pipe_items (pipes s pi))"
    "\<forall>v. pte_in m 2 ?root v = pte_in (phys s) 2 ?root v"
    "\<forall>v. user_page (phys s) ?root v \<longrightarrow> ubyte m ?root v =
      (if in_range v addr w then pipe_items (pipes s pi) ! unat (v - addr) else ubyte (phys s) ?root v)"
    by blast
  let ?t = "?s\<lparr>pipes := (pipes s)(pi := q), phys := m\<rparr>"
  have wk: "wakeup (PipeWriteChan pi) ?t = Ok () (?t\<lparr>procs := pipe_wake (PipeWriteChan pi) s\<rparr>)"
    using wakeup_run [of ?t "PipeWriteChan pi"] assms(4) by (simp add: pipe_wake_def)
  have fin: "s\<lparr>held := [], pipes := a, phys := b, procs := d\<rparr> = s\<lparr>pipes := a, phys := b, procs := d\<rparr>" for a b d
    using assms(1) by (cases s) simp
  have "piperead pi addr n s = Ok (int w) (s\<lparr>held := [], pipes := (pipes s)(pi := q), phys := m,
      procs := pipe_wake (PipeWriteChan pi) s\<rparr>)"
    using assms(1,2,7) c(1) wk
    by (auto simp: piperead_def piperead_loop_def bnd_case acquire_def myproc_def pipe_get_def seq_ret_def release_def)
  then show ?thesis using c unfolding fin by blast
qed

theorem piperead_spec_witness:
  "\<exists>s. piperead 0 0x1000 5 (pipe_example\<lparr>pipes := (\<lambda>_. pipe_put 7 pipe_wrap)\<rparr>) = Ok 1 s \<and>
     ubyte (phys s) 0x80030000 0x1000 = 7 \<and> pipe_items (pipes s 0) = []"
proof -
  let ?s = "pipe_example\<lparr>pipes := (\<lambda>_. pipe_put 7 pipe_wrap)\<rparr>"
  have nf: "\<not> pipe_full pipe_wrap" by (simp add: pipe_full_def pipe_wrap_def PIPESIZE_def)
  have it: "pipe_items pipe_wrap = []" by (simp add: pipe_items_def pipe_wrap_def ring_items_def)
  have ok: "pipe_ok (pipe_put 7 pipe_wrap)" and it7: "pipe_items (pipe_put 7 pipe_wrap) = [7]"
    using pq.put_inv [OF pipe_wrap_ok nf] pq.put_items [OF pipe_wrap_ok nf] it by simp_all
  have ne: "\<not> pipe_empty (pipe_put 7 pipe_wrap)" using pq.empty_iff [OF ok] it7 by simp
  have sp: "space_ok ?s {0x80010000, 0x80020000} (p_pagetable (procs ?s ! 0))"
    using space_ok_cong [OF pipe_example_space, of ?s] by simp
  have pre: "held ?s = []" "cur ?s = Some 0" "0 < NPROC" "length (procs ?s) = NPROC" "pipe_ok (pipes ?s 0)"
    "\<not> pipe_empty (pipes ?s 0) \<or> \<not> pi_writeopen (pipes ?s 0)" "1 = min (nat 5) (length (pipe_items (pipes ?s 0)))"
    "\<forall>j < 1. writable (phys ?s) (p_pagetable (procs ?s ! 0)) (0x1000 + of_nat j)"
    using ok ne pipe_example_byte by (simp_all add: it7 NPROC_def)
  from piperead_spec [OF pre(1-5) sp pre(6,7) _ pre(8)] obtain q m where
    r: "piperead 0 0x1000 5 ?s = Ok (int 1) (?s\<lparr>pipes := (pipes ?s)(0 := q), phys := m, procs := pipe_wake (PipeWriteChan 0) ?s\<rparr>)"
      "pipe_items q = drop 1 (pipe_items (pipes ?s 0))"
    and u: "\<forall>v. user_page (phys ?s) (p_pagetable (procs ?s ! 0)) v \<longrightarrow> ubyte m (p_pagetable (procs ?s ! 0)) v =
      (if in_range v 0x1000 1 then pipe_items (pipes ?s 0) ! unat (v - 0x1000)
       else ubyte (phys ?s) (p_pagetable (procs ?s ! 0)) v)" by auto
  have "ubyte m 0x80030000 0x1000 = 7"
    using u [rule_format, of "0x1000"] pipe_example_byte(1) by (simp add: writable_def in_range_def it7)
  then show ?thesis using r by (simp add: it7)
qed

end
