(* ===== verification/Printf.thy ===== *)
theory Printf
  imports Cstring
begin

text \<open>
  Formatted output: kernel/printf.c and user/printf.c. The result is the list of bytes printed,
  one per call of \<open>consputc\<close> or \<open>putc\<close>; \<open>None\<close> stands for undefined behaviour, which is a write past
  the end of the array \<open>buf\<close> or an argument that is missing or of the wrong kind. A format is the
  list of its bytes without the NUL.
\<close>

section \<open>Digits\<close>

definition digits :: "byte list" where
  "digits = map of_char ''0123456789abcdef''"

definition udigits :: "byte list" where
  "udigits = map of_char ''0123456789ABCDEF''"

text \<open>
  The digits of \<open>x\<close>, least significant first: the \<open>do\<close> loop of \<open>printint\<close>. The base is 10 or 16;
  the test for a base below 2 only makes the recursion well founded.
\<close>

function digits_of :: "nat \<Rightarrow> nat \<Rightarrow> nat list" where
  "digits_of base x =
     (if x div base = 0 \<or> base < 2 then [x mod base] else x mod base # digits_of base (x div base))"
  by pat_completeness auto
termination
  by (relation "measure snd") (auto intro!: div_less_dividend gr0I)

declare digits_of.simps [simp del]

text \<open>
  What \<open>printint\<close> leaves in \<open>buf\<close>, printed from the end. There are 16 places in the array.
\<close>

definition print_digits :: "byte list \<Rightarrow> nat \<Rightarrow> bool \<Rightarrow> nat \<Rightarrow> byte list option" where
  "print_digits tab base neg x =
     (let buf = map (\<lambda>d. tab ! d) (digits_of base x) @ (if neg then [45] else []) in
      if length buf > 16 then None else Some (rev buf))"

section \<open>kernel/printf.c\<close>

definition printint :: "u64 \<Rightarrow> nat \<Rightarrow> bool \<Rightarrow> byte list option" where
  "printint xx base sign =
     (if sign \<and> sint xx < 0 then print_digits digits base True (unat (- xx))
      else print_digits digits base False (unat xx))"

fun hex_digits :: "byte list \<Rightarrow> nat \<Rightarrow> u64 \<Rightarrow> byte list" where
  "hex_digits tab 0 x = []"
| "hex_digits tab (Suc n) x = tab ! unat (drop_bit 60 x) # hex_digits tab n (push_bit 4 x)"

definition printptr :: "u64 \<Rightarrow> byte list" where
  "printptr x = [48, 120] @ hex_digits digits 16 x"

text \<open>Variable arguments: a register-sized integer or a string pointer, which may be null.\<close>

datatype va = VInt u64 | VStr "byte list option"

definition null_str :: "byte list" where
  "null_str = map of_char ''(null)''"

text \<open>
  The conversions: an integer with its base, signedness and whether it is 64 bits wide, with the
  number of characters after \<open>c0\<close> that belong to it.
\<close>

datatype conv = ConvInt nat bool bool nat | ConvPtr | ConvStr | ConvPercent | ConvUnknown

definition conv_of :: "byte \<Rightarrow> byte \<Rightarrow> byte \<Rightarrow> conv" where
  "conv_of c0 c1 c2 =
     (if c0 = 100 then ConvInt 10 True False 0
      else if c0 = 108 \<and> c1 = 100 then ConvInt 10 True True 1
      else if c0 = 108 \<and> c1 = 108 \<and> c2 = 100 then ConvInt 10 True True 2
      else if c0 = 117 then ConvInt 10 False False 0
      else if c0 = 108 \<and> c1 = 117 then ConvInt 10 False True 1
      else if c0 = 108 \<and> c1 = 108 \<and> c2 = 117 then ConvInt 10 False True 2
      else if c0 = 120 then ConvInt 16 False False 0
      else if c0 = 108 \<and> c1 = 120 then ConvInt 16 False True 1
      else if c0 = 108 \<and> c1 = 108 \<and> c2 = 120 then ConvInt 16 False True 2
      else if c0 = 112 then ConvPtr
      else if c0 = 115 then ConvStr
      else if c0 = 37 then ConvPercent
      else ConvUnknown)"

text \<open>\<open>fmt[i]\<close> of what is left of the format, with the NUL at its end.\<close>

definition fmt_at :: "nat \<Rightarrow> byte list \<Rightarrow> byte" where
  "fmt_at i fmt = (if i < length fmt then fmt ! i else 0)"

text \<open>
  The text for one conversion, with the arguments left over. \<open>va_arg(ap, int)\<close> takes the low 32
  bits of the argument as a signed number, which becomes 64 bits wide as the parameter of
  \<open>printint\<close>.
\<close>

fun kconvert :: "conv \<Rightarrow> byte \<Rightarrow> va list \<Rightarrow> (byte list \<times> va list) option" where
  "kconvert (ConvInt base sign long k) c0 (VInt v # ap) =
     map_option (\<lambda>out. (out, ap)) (printint (if long then v else scast (ucast v :: u32)) base sign)"
| "kconvert ConvPtr c0 (VInt v # ap) = Some (printptr v, ap)"
| "kconvert ConvStr c0 (VStr s # ap) = Some (case s of None \<Rightarrow> null_str | Some t \<Rightarrow> t, ap)"
| "kconvert ConvPercent c0 ap = Some ([37], ap)"
| "kconvert ConvUnknown c0 ap = Some ([37, c0], ap)"
| "kconvert cv c0 ap = None"

definition conv_skip :: "conv \<Rightarrow> nat" where
  "conv_skip cv = (case cv of ConvInt _ _ _ k \<Rightarrow> k | _ \<Rightarrow> 0)"

function kprintf :: "byte list \<Rightarrow> va list \<Rightarrow> byte list option" where
  "kprintf [] ap = Some []"
| "kprintf (cx # fmt) ap =
     (if cx \<noteq> 37 then map_option ((#) cx) (kprintf fmt ap)
      else case fmt of
        [] \<Rightarrow> Some []
      | c0 # rest \<Rightarrow>
          let cv = conv_of c0 (fmt_at 0 rest) (fmt_at 1 rest) in
          (case kconvert cv c0 ap of
             None \<Rightarrow> None
           | Some (out, ap') \<Rightarrow> map_option ((@) out) (kprintf (drop (conv_skip cv) rest) ap')))"
  by pat_completeness auto
termination
  by (relation "measure (length \<circ> fst)") auto

section \<open>user/printf.c\<close>

text \<open>The parameter \<open>xx\<close> of the user's \<open>printint\<close> is an \<open>int\<close>.\<close>

definition uprintint :: "u32 \<Rightarrow> nat \<Rightarrow> bool \<Rightarrow> byte list option" where
  "uprintint xx base sg =
     (if sg \<and> sint xx < 0 then print_digits udigits base True (unat (- xx))
      else print_digits udigits base False (unat xx))"

definition uprintptr :: "u64 \<Rightarrow> byte list" where
  "uprintptr x = [48, 120] @ hex_digits udigits 16 x"

fun uconvert :: "conv \<Rightarrow> byte \<Rightarrow> va list \<Rightarrow> (byte list \<times> va list) option" where
  "uconvert (ConvInt base sign long k) c0 (VInt v # ap) =
     map_option (\<lambda>out. (out, ap)) (uprintint (ucast v) base sign)"
| "uconvert ConvPtr c0 (VInt v # ap) = Some (uprintptr v, ap)"
| "uconvert ConvStr c0 (VStr s # ap) = Some (case s of None \<Rightarrow> null_str | Some t \<Rightarrow> t, ap)"
| "uconvert ConvPercent c0 ap = Some ([37], ap)"
| "uconvert ConvUnknown c0 ap = Some ([37, c0], ap)"
| "uconvert cv c0 ap = None"

text \<open>\<open>vprintf\<close>, with \<open>True\<close> for the state after a percent sign.\<close>

function vprintf :: "bool \<Rightarrow> byte list \<Rightarrow> va list \<Rightarrow> byte list option" where
  "vprintf state [] ap = Some []"
| "vprintf False (c0 # fmt) ap =
     (if c0 = 37 then vprintf True fmt ap else map_option ((#) c0) (vprintf False fmt ap))"
| "vprintf True (c0 # fmt) ap =
     (let cv = conv_of c0 (fmt_at 0 fmt) (fmt_at 1 fmt) in
      case uconvert cv c0 ap of
        None \<Rightarrow> None
      | Some (out, ap') \<Rightarrow> map_option ((@) out) (vprintf False (drop (conv_skip cv) fmt) ap'))"
  by pat_completeness auto
termination
  by (relation "measure (\<lambda>(_, fmt, _). length fmt)") auto

definition uprintf :: "byte list \<Rightarrow> va list \<Rightarrow> byte list option" where
  "uprintf fmt ap = vprintf False fmt ap"


section \<open>Digits and values\<close>

fun undigits :: "nat \<Rightarrow> nat list \<Rightarrow> nat" where
  "undigits base [] = 0"
| "undigits base (d # ds) = d + base * undigits base ds"

lemma undigits_digits_of: "2 \<le> base \<Longrightarrow> undigits base (digits_of base x) = x"
proof (induction base x rule: digits_of.induct)
  case (1 base x)
  show ?case
  proof (cases "x div base = 0")
    case True
    then show ?thesis using 1(2) by (simp add: digits_of.simps) (metis div_eq_0_iff mod_less not_numeral_le_zero)
  next
    case False
    then have "undigits base (digits_of base (x div base)) = x div base" using 1 by simp
    then show ?thesis using False 1(2) by (simp add: digits_of.simps [of base x])
  qed
qed

lemma digits_of_less: "2 \<le> base \<Longrightarrow> d \<in> set (digits_of base x) \<Longrightarrow> d < base"
proof (induction base x rule: digits_of.induct)
  case (1 base x)
  then show ?case by (auto simp: digits_of.simps [of base x] split: if_splits)
qed

lemma digits_of_ne: "digits_of base x \<noteq> []"
  by (simp add: digits_of.simps)

lemma length_digits_of_le:
  "2 \<le> base \<Longrightarrow> 0 < k \<Longrightarrow> length (digits_of base x) \<le> k \<longleftrightarrow> x < base ^ k"
proof (induction base x arbitrary: k rule: digits_of.induct)
  case (1 base x)
  show ?case
  proof (cases "x div base = 0")
    case True
    then have "x < base" using 1(2) by (simp add: div_eq_0_iff)
    moreover have "base ^ 1 \<le> base ^ k" using 1(2,3) by (intro power_increasing) auto
    ultimately show ?thesis using True 1(2,3) by (simp add: digits_of.simps)
  next
    case False
    then have eq: "length (digits_of base x) = Suc (length (digits_of base (x div base)))"
      using 1(2) by (simp add: digits_of.simps [of base x])
    show ?thesis
    proof (cases "k = 1")
      case True
      then show ?thesis using False eq 1(2) digits_of_ne [of base "x div base"]
        by (simp add: div_eq_0_iff)
    next
      case k: False
      then obtain j where j: "k = Suc j" "0 < j" using 1(3) by (cases k) auto
      have "length (digits_of base (x div base)) \<le> j \<longleftrightarrow> x div base < base ^ j"
        using False 1 j by simp
      moreover have "x div base < base ^ j \<longleftrightarrow> x < base ^ j * base"
        using 1(2) by (simp add: div_less_iff_less_mult)
      ultimately show ?thesis using eq j by (simp add: mult.commute)
    qed
  qed
qed

lemma print_digits_iff:
  assumes "2 \<le> base"
  shows "print_digits tab base neg x = None \<longleftrightarrow> base ^ (if neg then 15 else 16) \<le> x"
proof -
  have "print_digits tab base neg x = None \<longleftrightarrow> \<not> length (digits_of base x) \<le> (if neg then 15 else 16)"
    by (auto simp: print_digits_def Let_def)
  also have "\<dots> \<longleftrightarrow> base ^ (if neg then 15 else 16) \<le> x"
    using length_digits_of_le [OF assms, of "if neg then 15 else 16" x] by (simp add: not_less)
  finally show ?thesis .
qed

lemma print_digits_Some:
  "print_digits tab base neg x = Some out \<Longrightarrow>
     out = (if neg then [45] else []) @ rev (map (\<lambda>d. tab ! d) (digits_of base x))"
  by (auto simp: print_digits_def Let_def split: if_splits)

section \<open>Reading a number back\<close>

lemma digit_byte:
  assumes "d < 10"
  shows "48 \<le> udigits ! d" "udigits ! d \<le> 57" "udigits ! d \<noteq> 0" "uint (udigits ! d) = int d + 48"
proof -
  have "d \<in> {0, 1, 2, 3, 4, 5, 6, 7, 8, 9}" using assms by auto
  then show "48 \<le> udigits ! d" "udigits ! d \<le> 57" "udigits ! d \<noteq> 0" "uint (udigits ! d) = int d + 48"
    by (auto simp: udigits_def)
qed

text \<open>\<open>atoi\<close> after the digits of a number that is not within 48 of the largest \<open>int\<close>.\<close>

lemma atoi_prefix:
  assumes "\<forall>d \<in> set ds. d < 10" "\<forall>j < length ds. p j = rev (map (\<lambda>d. udigits ! d) ds) ! j"
    "ds \<noteq> [] \<longrightarrow> undigits 10 ds + 48 < 2 ^ 31"
  shows "atoi_from p 0 0 = atoi_from p (length ds) (int (undigits 10 ds))"
  using assms
proof (induction ds)
  case (Cons d ds)
  have "\<forall>j < length ds. p j = rev (map (\<lambda>d. udigits ! d) ds) ! j"
    using Cons.prems(2) by (auto simp: nth_append)
  then have "atoi_from p 0 0 = atoi_from p (length ds) (int (undigits 10 ds))"
    using Cons by simp
  moreover have "p (length ds) = udigits ! d" using Cons.prems(2) by (auto simp: nth_append)
  ultimately show ?case
    using digit_byte [of d] Cons.prems(1,3) by (simp add: atoi_from.simps [of p "length ds"] algebra_simps)
qed simp

lemma atoi_digits:
  assumes "\<forall>d \<in> set ds. d < 10" "ds \<noteq> []" "undigits 10 ds < 2 ^ 31"
  shows "atoi (cptr_of (rev (map (\<lambda>d. udigits ! d) ds))) =
    (if undigits 10 ds + 48 < 2 ^ 31 then Some (int (undigits 10 ds)) else None)"
proof -
  let ?p = "cptr_of (rev (map (\<lambda>d. udigits ! d) ds))"
  have p: "\<forall>j < length ds. ?p j = rev (map (\<lambda>d. udigits ! d) ds) ! j" by (simp add: cptr_of_def)
  show ?thesis
  proof (cases "undigits 10 ds + 48 < 2 ^ 31")
    case True
    have "?p (length ds) = 0" by (simp add: cptr_of_def)
    then show ?thesis
      using True atoi_prefix [OF assms(1) p] by (simp add: atoi_def atoi_from.simps [of ?p "length ds"])
  next
    case False
    obtain d es where ds: "ds = d # es" using assms(2) by (cases ds) auto
    have "\<forall>j < length es. ?p j = rev (map (\<lambda>d. udigits ! d) es) ! j" using p ds by (auto simp: nth_append)
    moreover have "undigits 10 es + 48 < 2 ^ 31" using assms(3) ds by simp
    ultimately have "atoi ?p = atoi_from ?p (length es) (int (undigits 10 es))"
      using assms(1) ds unfolding atoi_def by (intro atoi_prefix) simp_all
    also have "?p (length es) = udigits ! d" using ds by (simp add: cptr_of_def nth_append)
    then have "atoi_from ?p (length es) (int (undigits 10 es)) = None"
      using False digit_byte [of d] assms(1) ds by (subst atoi_from.simps) simp
    finally show ?thesis using False by simp
  qed
qed

lemma uprintint_defined:
  assumes "base = 10 \<or> base = 16"
  shows "uprintint x base sg \<noteq> None"
proof -
  have "unat y < 2 ^ 32" for y :: u32 using unat_bound [of y] by simp
  then have "unat y < base ^ (if neg then 15 else 16)" for y :: u32 and neg
    using assms by (fastforce intro: less_trans)
  then have "print_digits udigits base neg (unat y) \<noteq> None" for y :: u32 and neg
    using assms by (subst print_digits_iff) (auto simp: not_le)
  then show ?thesis unfolding uprintint_def by presburger
qed

text \<open>An \<open>int\<close> printed by the kernel with \<open>%d\<close> always fits the buffer.\<close>

lemma printint_int: "printint (scast (v :: u32)) 10 True \<noteq> None"
proof -
  show ?thesis
  proof (cases "unat v < 2 ^ 31")
    case True
    then have "\<not> sint v < 0" by (simp add: sint_u32_pos)
    then show ?thesis using True by (simp add: printint_def sint_scast_u32 print_digits_iff unat_scast_pos)
  next
    case False
    then have n: "2 ^ 31 \<le> unat v" by simp
    let ?k = "2 ^ 32 - unat v"
    have lt: "unat v < 2 ^ 32" using unat_bound [of v] by simp
    have "(scast v :: u64) = of_nat (2 ^ 64 - 2 ^ 32 + unat v)" unfolding unat_scast_neg [OF n, symmetric] by simp
    then have "(scast v :: u64) + of_nat ?k = of_nat (2 ^ 64 - 2 ^ 32 + unat v + ?k)" by (simp only: of_nat_add)
    also have "2 ^ 64 - 2 ^ 32 + unat v + ?k = (2 ^ 64 :: nat)" using lt by simp
    also have "(of_nat (2 ^ 64) :: u64) = 0" unfolding word_unat_eq_iff unat_of_nat by simp
    finally have "- (scast v :: u64) = of_nat ?k" by (simp only: add_eq_0_iff minus_minus)
    moreover have "?k < 2 ^ 64" by simp
    ultimately have "unat (- (scast v :: u64)) = ?k" by (simp only: unat_of_nat_u64)
    then have "unat (- (scast v :: u64)) < 10 ^ 15" by simp
    moreover have "sint v < 0" using uint_lt2p [of v] by (simp add: sint_u32_neg [OF n])
    ultimately show ?thesis by (simp add: printint_def sint_scast_u32 print_digits_iff)
  qed
qed

section \<open>Properties\<close>

text \<open>
  C30. Numbers survive printing and reading back: for every \<open>int\<close> that is not negative, the user library
  prints with \<open>%d\<close> a text from which its own \<open>atoi\<close> returns that number, except for the 48 largest ones, where
  \<open>atoi\<close> adds the character before it subtracts \<open>'0'\<close> and the sum overflows.
\<close>

theorem uprintf_atoi_roundtrip:
  assumes "unat (ucast v :: u32) < 2 ^ 31"
  shows "\<exists>out. uprintf [37, 100] [VInt v] = Some out \<and>
    atoi (cptr_of out) =
      (if unat (ucast v :: u32) + 48 < 2 ^ 31 then Some (int (unat (ucast v :: u32))) else None)"
proof -
  let ?x = "ucast v :: u32"
  have sg: "\<not> sint ?x < 0" using assms by (simp add: sint_u32_pos)
  obtain out where out: "uprintint ?x 10 True = Some out"
    using uprintint_defined [of 10 ?x True] by auto
  then have "out = rev (map (\<lambda>d. udigits ! d) (digits_of 10 (unat ?x)))"
    using print_digits_Some [of udigits 10 False "unat ?x" out] sg by (simp add: uprintint_def)
  then have "atoi (cptr_of out) = (if unat ?x + 48 < 2 ^ 31 then Some (int (unat ?x)) else None)"
    using atoi_digits [of "digits_of 10 (unat ?x)"] digits_of_less [of 10 _ "unat ?x"] digits_of_ne [of 10 "unat ?x"]
      undigits_digits_of [of 10 "unat ?x"] assms by simp
  moreover have "uprintf [37, 100] [VInt v] = Some out"
    using out by (simp add: uprintf_def conv_of_def conv_skip_def fmt_at_def Let_def)
  ultimately show ?thesis by blast
qed

theorem uprintf_atoi_roundtrip_witness:
  "(\<exists>out. uprintf [37, 100] [VInt 2026] = Some out \<and> atoi (cptr_of out) = Some 2026) \<and>
   (\<exists>out. uprintf [37, 100] [VInt 0x7fffffff] = Some out \<and> atoi (cptr_of out) = None)"
  using uprintf_atoi_roundtrip [of 2026] uprintf_atoi_roundtrip [of "0x7fffffff"] by simp

text \<open>
  C31. The 16 bytes of \<open>buf\<close> in the kernel's \<open>printint\<close> are not enough for \<open>%u\<close>: the 32-bit argument
  is sign-extended to 64 bits, and the digits overflow the array exactly when the argument is
  \<open>2^31\<close> or more. The user library, which prints 32 bits, is safe for every argument.
\<close>

theorem printf_u_overflow:
  "(kprintf [37, 117] [VInt v] = None \<longleftrightarrow> 2 ^ 31 \<le> unat (ucast v :: u32)) \<and>
   uprintf [37, 117] [VInt v] \<noteq> None"
proof -
  let ?x = "ucast v :: u32"
  have "kprintf [37, 117] [VInt v] = None \<longleftrightarrow> printint (scast ?x) 10 False = None"
    by (auto simp: conv_of_def conv_skip_def fmt_at_def Let_def split: option.splits)
  also have "\<dots> \<longleftrightarrow> 10 ^ 16 \<le> unat (scast ?x :: u64)"
    by (simp add: printint_def print_digits_iff)
  also have "\<dots> \<longleftrightarrow> 2 ^ 31 \<le> unat ?x"
  proof (cases "2 ^ 31 \<le> unat ?x")
    case True
    then have "unat (scast ?x :: u64) = 2 ^ 64 - 2 ^ 32 + unat ?x"
      by (rule unat_scast_neg)
    then show ?thesis using True by simp
  next
    case False
    then have "unat (scast ?x :: u64) = unat ?x" by (intro unat_scast_pos) simp
    then show ?thesis using False by simp
  qed
  finally show ?thesis
    using uprintint_defined [of 10 ?x False]
    by (auto simp: uprintf_def conv_of_def conv_skip_def fmt_at_def Let_def)
qed

text \<open>
  Text without percent signs is printed unchanged by both printf functions, and ends up in
  front of the rest of the output.
\<close>

lemma printf_plain_text:
  assumes "37 \<notin> set xs"
  shows "kprintf (xs @ fmt) ap = map_option ((@) xs) (kprintf fmt ap) \<and>
    uprintf (xs @ fmt) ap = map_option ((@) xs) (uprintf fmt ap)"
  using assms by (cases "kprintf fmt ap"; cases "vprintf False fmt ap"; induction xs)
    (simp_all add: uprintf_def)

lemma printf_plain_text_witness:
  "kprintf ([104, 105] @ [37, 37]) [] = Some [104, 105, 37]"
  using printf_plain_text [of "[104, 105]" "[37, 37]" "[]"]
  by (simp add: conv_of_def conv_skip_def fmt_at_def Let_def)

end
