(* ===== verification/Console.thy ===== *)
theory Console
  imports Pipe Printf
begin

text \<open>
  The console, kernel/console.c, on the UART driver, kernel/uart.c. Of the UART the model has
  what the driver uses: the bytes received and not yet read, how many bytes the transmitter
  accepts before it reports that it is busy, and the bytes sent. The test of \<open>panicked\<close>, after which a hart
  stops, is left out: a panic ends the computation. The listing of \<open>procdump\<close> is part of the console, which prints it.
\<close>

definition BACKSPACE :: int where "BACKSPACE = 0x100"
definition INPUT_BUF_SIZE :: nat where "INPUT_BUF_SIZE = 128"
definition UART_TX_BUF_SIZE :: nat where "UART_TX_BUF_SIZE = 32"

record cons_st = pipe_st +
  cons_buf :: "byte list"
  cons_r :: u32
  cons_w :: u32
  cons_e :: u32
  uart_tx_buf :: "byte list"
  uart_tx_w :: u64
  uart_tx_r :: u64
  uart_room :: nat
  uart_out :: "byte list"
  uart_in :: "byte list"

section \<open>kernel/uart.c\<close>

text \<open>
  The transmit buffer: \<open>uart_tx_buf[uart_tx_w % UART_TX_BUF_SIZE] = c\<close> with \<open>uart_tx_w += 1\<close>, the next
  byte to send, \<open>uart_tx_r += 1\<close>, and the tests for full and empty.
\<close>

definition uart_put :: "byte \<Rightarrow> 'z cons_st_scheme \<Rightarrow> 'z cons_st_scheme" where
  "uart_put c s =
     s\<lparr>uart_tx_buf := (uart_tx_buf s)[unat (uart_tx_w s mod of_nat UART_TX_BUF_SIZE) := c],
       uart_tx_w := uart_tx_w s + 1\<rparr>"

definition uart_front :: "'z cons_st_scheme \<Rightarrow> byte" where
  "uart_front s = uart_tx_buf s ! unat (uart_tx_r s mod of_nat UART_TX_BUF_SIZE)"

definition uart_skip :: "'z cons_st_scheme \<Rightarrow> 'z cons_st_scheme" where
  "uart_skip s = s\<lparr>uart_tx_r := uart_tx_r s + 1\<rparr>"

definition uart_full :: "'z cons_st_scheme \<Rightarrow> bool" where
  "uart_full s = (uart_tx_w s = uart_tx_r s + of_nat UART_TX_BUF_SIZE)"

definition uart_empty :: "'z cons_st_scheme \<Rightarrow> bool" where
  "uart_empty s = (uart_tx_w s = uart_tx_r s)"

text \<open>
  \<open>WriteReg(THR, c)\<close>. \<open>uartputc_sync\<close> waits until the transmitter is idle, which the thread
  does not see.
\<close>

definition write_THR :: "byte \<Rightarrow> ('z cons_st_scheme, unit) kmon" where
  "write_THR c = modify (\<lambda>s. s\<lparr>uart_room := uart_room s - 1, uart_out := uart_out s @ [c]\<rparr>)"

definition uartputc_sync :: "int \<Rightarrow> ('z cons_st_scheme, unit) kmon" where
  "uartputc_sync c = write_THR (of_int c)"

fun uartstart_loop :: "nat \<Rightarrow> ('z cons_st_scheme, unit) kmon" where
  "uartstart_loop 0 = ret ()"
| "uartstart_loop (Suc n) =
     bnd (gets uart_empty) (\<lambda>empty.
     bnd (gets (\<lambda>s. uart_room s = 0)) (\<lambda>busy.
     if empty \<or> busy then ret ()
     else
       bnd (gets uart_front) (\<lambda>c.
       bnd (modify uart_skip) (\<lambda>_.
       bnd (wakeup UartChan) (\<lambda>_.
       bnd (write_THR c) (\<lambda>_.
       uartstart_loop n))))))"

text \<open>The loop of \<open>uartstart\<close> runs while \<open>uart_tx_w != uart_tx_r\<close>, that many times at most.\<close>

definition uartstart :: "('z cons_st_scheme, unit) kmon" where
  "uartstart = bnd (gets (\<lambda>s. unat (uart_tx_w s - uart_tx_r s))) uartstart_loop"

definition uartputc_loop :: "byte \<Rightarrow> ('z cons_st_scheme, unit) kmon" where
  "uartputc_loop c =
     bnd (gets uart_full) (\<lambda>full.
     if full then sleep UartChan UartTxLock
     else
       seqM
        [modify (uart_put c),
         uartstart,
         release UartTxLock])"

definition uartputc :: "byte \<Rightarrow> ('z cons_st_scheme, unit) kmon" where
  "uartputc c = bnd (acquire UartTxLock) (\<lambda>_. uartputc_loop c)"

definition uartputc_resume :: "byte \<Rightarrow> ('z cons_st_scheme, unit) kmon" where
  "uartputc_resume c = bnd (sleep_resume UartTxLock) (\<lambda>_. uartputc_loop c)"

definition uartgetc :: "('z cons_st_scheme, int) kmon" where
  "uartgetc =
     bnd (gets uart_in) (\<lambda>q.
     case q of
       [] \<Rightarrow> ret (-1)
     | c # q' \<Rightarrow> bnd (modify (\<lambda>s. s\<lparr>uart_in := q'\<rparr>)) (\<lambda>_. ret (int (unat c))))"

section \<open>kernel/console.c\<close>

definition consputc :: "int \<Rightarrow> ('z cons_st_scheme, unit) kmon" where
  "consputc c =
     (if c = BACKSPACE then seqM [uartputc_sync 8, uartputc_sync 32, uartputc_sync 8]
      else uartputc_sync c)"

text \<open>
  \<open>printf\<close> of kernel/printf.c, with the text of \<open>kprintf\<close>, once \<open>printfinit\<close> has set \<open>pr.locking\<close>. Where that is
  undefined, a number does not fit the buffer of \<open>printint\<close> and the thread does not go on.
\<close>

definition printf :: "byte list \<Rightarrow> va list \<Rightarrow> ('z cons_st_scheme, unit) kmon" where
  "printf fmt ap =
     bnd (acquire PrLock) (\<lambda>_.
     bnd (case kprintf fmt ap of
            None \<Rightarrow> panic ''printint overruns its buffer''
          | Some out \<Rightarrow> forM out (\<lambda>c. consputc (uint c))) (\<lambda>_.
     release PrLock))"

text \<open>
  \<open>procdump\<close> of kernel/proc.c. A state is always in the table \<open>states\<close>, so question marks are never printed.
\<close>

fun state_text :: "procstate \<Rightarrow> byte list" where
  "state_text UNUSED = map of_char ''unused''"
| "state_text USED = map of_char ''used''"
| "state_text SLEEPING = map of_char ''sleep ''"
| "state_text RUNNABLE = map of_char ''runble''"
| "state_text RUNNING = map of_char ''run   ''"
| "state_text ZOMBIE = map of_char ''zombie''"

definition procdump :: "('z cons_st_scheme, unit) kmon" where
  "procdump =
     bnd (printf [10] []) (\<lambda>_.
     forM [0..<NPROC] (\<lambda>i.
       bnd (pget i) (\<lambda>p.
       if p_state p = UNUSED then ret ()
       else
         seqM
          [printf (map of_char ''%d %s %s'')
             [VInt (scast (p_pid p)), VStr (Some (state_text (p_state p))),
              VStr (Some (takeWhile (\<lambda>c. c \<noteq> 0) (p_name p)))],
           printf [10] []])))"

definition consolewrite_loop ::
  "bool \<Rightarrow> u64 \<Rightarrow> nat list \<Rightarrow> int \<Rightarrow> ('z cons_st_scheme, int) kmon" where
  "consolewrite_loop user_src src is n =
     bnd (findM is (\<lambda>i.
       bnd (either_copyin user_src (src + of_nat i) 1) (\<lambda>(r, c).
       if r = -1 then ret (Some (int i))
       else bnd (uartputc (hd c)) (\<lambda>_. ret None)))) (\<lambda>r.
     case r of Some i \<Rightarrow> ret i | None \<Rightarrow> ret (max n 0))"

definition consolewrite :: "bool \<Rightarrow> u64 \<Rightarrow> int \<Rightarrow> ('z cons_st_scheme, int) kmon" where
  "consolewrite user_src src n = consolewrite_loop user_src src [0..<nat n] n"

text \<open>After \<open>sleep\<close> in \<open>uartputc\<close>, with \<open>c\<close> the byte at \<open>i\<close>.\<close>

definition consolewrite_resume ::
  "bool \<Rightarrow> u64 \<Rightarrow> byte \<Rightarrow> nat \<Rightarrow> int \<Rightarrow> ('z cons_st_scheme, int) kmon" where
  "consolewrite_resume user_src src c i n =
     bnd (uartputc_resume c) (\<lambda>_. consolewrite_loop user_src src [Suc i..<nat n] n)"

text \<open>\<open>C('D')\<close>, \<open>C('P')\<close>, \<open>C('U')\<close>, \<open>C('H')\<close>.\<close>

definition ctrl_D :: byte where "ctrl_D = 4"
definition ctrl_P :: int where "ctrl_P = 16"
definition ctrl_U :: int where "ctrl_U = 21"
definition ctrl_H :: int where "ctrl_H = 8"

text \<open>
  \<open>consoleread\<close> from the head of its outer loop, with \<open>n\<close> of \<open>target\<close> bytes still to read.
  After \<open>sleep\<close> it comes back to the test of the inner loop, which is the same point.
\<close>

fun consoleread_loop :: "bool \<Rightarrow> u64 \<Rightarrow> nat \<Rightarrow> nat \<Rightarrow> ('z cons_st_scheme, int) kmon" where
  "consoleread_loop user_dst dst target 0 =
     bnd (release ConsLock) (\<lambda>_. ret (int target))"
| "consoleread_loop user_dst dst target (Suc n) =
     bnd (gets (\<lambda>s. cons_r s = cons_w s)) (\<lambda>empty.
     if empty then
       bnd myproc (\<lambda>p.
       bnd (killed p) (\<lambda>k.
       if k then bnd (release ConsLock) (\<lambda>_. ret (-1))
       else
         bnd (sleep ConsChan ConsLock) (\<lambda>_.
         panic ''sleep returned'')))
     else
       bnd (gets (\<lambda>s. cons_buf s ! unat (cons_r s mod of_nat INPUT_BUF_SIZE))) (\<lambda>c.
       bnd (modify (\<lambda>s. s\<lparr>cons_r := cons_r s + 1\<rparr>)) (\<lambda>_.
       if c = ctrl_D then
         bnd (whenM (Suc n < target) (modify (\<lambda>s. s\<lparr>cons_r := cons_r s - 1\<rparr>))) (\<lambda>_.
         bnd (release ConsLock) (\<lambda>_. ret (int target - int (Suc n))))
       else
         bnd (either_copyout user_dst dst [c]) (\<lambda>r.
         if r = -1 then bnd (release ConsLock) (\<lambda>_. ret (int target - int (Suc n)))
         else if c = 10 then bnd (release ConsLock) (\<lambda>_. ret (int target - int n))
         else consoleread_loop user_dst (dst + 1) target n))))"

definition consoleread :: "bool \<Rightarrow> u64 \<Rightarrow> int \<Rightarrow> ('z cons_st_scheme, int) kmon" where
  "consoleread user_dst dst n =
     bnd (acquire ConsLock) (\<lambda>_.
     if n > 0 then consoleread_loop user_dst dst (nat n) (nat n)
     else bnd (release ConsLock) (\<lambda>_. ret 0))"

definition consoleread_resume :: "bool \<Rightarrow> u64 \<Rightarrow> nat \<Rightarrow> nat \<Rightarrow> ('z cons_st_scheme, int) kmon" where
  "consoleread_resume user_dst dst target n =
     bnd (sleep_resume ConsLock) (\<lambda>_. consoleread_loop user_dst dst target n)"

text \<open>The loop for control-U; it runs at most \<open>cons.e - cons.w\<close> times.\<close>

fun kill_line :: "nat \<Rightarrow> ('z cons_st_scheme, unit) kmon" where
  "kill_line 0 = ret ()"
| "kill_line (Suc n) =
     bnd (gets (\<lambda>s. cons_buf s ! unat ((cons_e s - 1) mod of_nat INPUT_BUF_SIZE))) (\<lambda>c.
     if c = 10 then ret ()
     else
       bnd (modify (\<lambda>s. s\<lparr>cons_e := cons_e s - 1\<rparr>)) (\<lambda>_.
       bnd (consputc BACKSPACE) (\<lambda>_.
       kill_line n)))"

definition consoleintr :: "int \<Rightarrow> ('z cons_st_scheme, unit) kmon" where
  "consoleintr c =
     bnd (acquire ConsLock) (\<lambda>_.
     bnd (if c = ctrl_P then procdump
          else if c = ctrl_U then bnd (gets (\<lambda>s. unat (cons_e s - cons_w s))) kill_line
          else if c = ctrl_H \<or> c = 0x7f then
            bnd (gets (\<lambda>s. cons_e s \<noteq> cons_w s)) (\<lambda>b.
            whenM b (seqM [modify (\<lambda>s. s\<lparr>cons_e := cons_e s - 1\<rparr>), consputc BACKSPACE]))
          else
            bnd (gets (\<lambda>s. cons_e s - cons_r s < of_nat INPUT_BUF_SIZE)) (\<lambda>room.
            whenM (c \<noteq> 0 \<and> room)
              (let c = (if c = 13 then 10 else c) in
               seqM
                [consputc c,
                 modify (\<lambda>s. s\<lparr>cons_buf := (cons_buf s)[unat (cons_e s mod of_nat INPUT_BUF_SIZE) := of_int c]\<rparr>),
                 modify (\<lambda>s. s\<lparr>cons_e := cons_e s + 1\<rparr>),
                 bnd (gets (\<lambda>s. cons_e s - cons_r s = of_nat INPUT_BUF_SIZE)) (\<lambda>full.
                 whenM (c = 10 \<or> c = int (unat ctrl_D) \<or> full)
                   (seqM [modify (\<lambda>s. s\<lparr>cons_w := cons_e s\<rparr>), wakeup ConsChan]))]))) (\<lambda>_.
     release ConsLock))"

text \<open>\<open>uartintr\<close>: all characters that have arrived, then the transmit buffer.\<close>

definition uartintr :: "('z cons_st_scheme, unit) kmon" where
  "uartintr =
     bnd (gets uart_in) (\<lambda>q.
     seqM
      [forM q (\<lambda>_. bnd uartgetc consoleintr),
       acquire UartTxLock,
       uartstart,
       release UartTxLock])"

end
