(* ===== verification/Terminal.thy ===== *)
theory Terminal
  imports Console Ring Transaction
begin

text \<open>
  The two buffers between the kernel and the terminal. The input buffer of the console is read
  through the characters typed: the finished lines and the line being edited, on which
  \<open>consoleintr\<close> acts as a line editor. The transmit buffer of the serial port is an instance of
  the bounded queue of \<open>Ring\<close>, so that output leaves in the order it was written.
\<close>


lemma ring_unput:
  fixes r w :: "'a::len word"
  assumes "ring_ok buf r w" "r \<noteq> w"
  shows "ring_ok buf r (w - 1)" "ring_items buf r (w - 1) = butlast (ring_items buf r w)"
    "unat (w - 1 - r) = unat (w - r) - 1" "0 < unat (w - r)"
proof -
  have d: "w - r \<noteq> 0" using assms(2) by simp
  have e: "w - 1 - r = (w - r) - 1" by (simp add: algebra_simps)
  show u: "unat (w - 1 - r) = unat (w - r) - 1" "0 < unat (w - r)"
    unfolding e using d by (simp_all add: unat_sub_le word_le_nat_alt unat_gt_0 Suc_leI)
  then show "ring_ok buf r (w - 1)" using assms(1) unfolding ring_ok_def by linarith
  obtain n where n: "unat (w - r) = Suc n" using u(2) by (cases "unat (w - r)") auto
  show "ring_items buf r (w - 1) = butlast (ring_items buf r w)"
    unfolding ring_items_def u(1) n by (simp add: butlast_append)
qed

section \<open>The input buffer\<close>

text \<open>
  The characters typed and not yet read, and how many of them make up finished lines; the rest is
  the line being edited.
\<close>

definition cons_typed :: "'z cons_st_scheme \<Rightarrow> byte list" where
  "cons_typed s = ring_items (cons_buf s) (cons_r s) (cons_e s)"

definition cons_lines :: "'z cons_st_scheme \<Rightarrow> byte list" where
  "cons_lines s = take (unat (cons_w s - cons_r s)) (cons_typed s)"

definition cons_edit :: "'z cons_st_scheme \<Rightarrow> byte list" where
  "cons_edit s = drop (unat (cons_w s - cons_r s)) (cons_typed s)"

definition cons_ok :: "'z cons_st_scheme \<Rightarrow> bool" where
  "cons_ok s \<longleftrightarrow> length (cons_buf s) = INPUT_BUF_SIZE \<and> ring_ok (cons_buf s) (cons_r s) (cons_e s) \<and>
     unat (cons_w s - cons_r s) \<le> unat (cons_e s - cons_r s) \<and> 10 \<notin> set (cons_edit s)"

lemma lines_edit: "cons_lines s @ cons_edit s = cons_typed s"
  by (simp add: cons_lines_def cons_edit_def)

lemma length_typed: "length (cons_typed s) = unat (cons_e s - cons_r s)"
  by (simp add: cons_typed_def)

lemma cons_counts:
  assumes "cons_ok s"
  shows "cons_e s = cons_w s \<longleftrightarrow> cons_edit s = []" "unat (cons_e s - cons_w s) = length (cons_edit s)"
    "cons_e s - cons_r s < of_nat INPUT_BUF_SIZE \<longleftrightarrow> length (cons_typed s) < INPUT_BUF_SIZE"
    "cons_e s - cons_r s = of_nat INPUT_BUF_SIZE \<longleftrightarrow> length (cons_typed s) = INPUT_BUF_SIZE"
proof -
  let ?a = "cons_w s - cons_r s" and ?b = "cons_e s - cons_r s"
  have le: "unat ?a \<le> unat ?b" using assms by (simp add: cons_ok_def)
  have "cons_e s - cons_w s = ?b - ?a" by simp
  then show u: "unat (cons_e s - cons_w s) = length (cons_edit s)"
    using le unat_sub_le [of ?a ?b] by (simp add: cons_edit_def length_typed word_le_nat_alt)
  have "cons_e s = cons_w s \<longleftrightarrow> unat (cons_e s - cons_w s) = 0" by (simp add: unat_eq_0)
  then show "cons_e s = cons_w s \<longleftrightarrow> cons_edit s = []" using u by simp
  show "?b < of_nat INPUT_BUF_SIZE \<longleftrightarrow> length (cons_typed s) < INPUT_BUF_SIZE"
    by (simp add: length_typed word_less_nat_alt INPUT_BUF_SIZE_def)
  show "?b = of_nat INPUT_BUF_SIZE \<longleftrightarrow> length (cons_typed s) = INPUT_BUF_SIZE"
    by (simp add: length_typed INPUT_BUF_SIZE_def word_unat_eq_iff)
qed

text \<open>Deleting the last character of the line being edited.\<close>

lemma cons_back:
  assumes ok: "cons_ok s" and ne: "cons_edit s \<noteq> []"
  shows "cons_ok (s\<lparr>cons_e := cons_e s - 1\<rparr>)" "cons_lines (s\<lparr>cons_e := cons_e s - 1\<rparr>) = cons_lines s"
    "cons_edit (s\<lparr>cons_e := cons_e s - 1\<rparr>) = butlast (cons_edit s)"
    "cons_buf s ! unat ((cons_e s - 1) mod of_nat INPUT_BUF_SIZE) = last (cons_edit s)"
proof -
  let ?n = "unat (cons_w s - cons_r s)" and ?s = "s\<lparr>cons_e := cons_e s - 1\<rparr>"
  have r: "ring_ok (cons_buf s) (cons_r s) (cons_e s)" and le: "?n \<le> unat (cons_e s - cons_r s)"
    and len: "length (cons_buf s) = INPUT_BUF_SIZE"
    using ok by (simp_all add: cons_ok_def)
  have lt: "?n < unat (cons_e s - cons_r s)" using ne le by (simp add: cons_edit_def length_typed)
  then have re: "cons_r s \<noteq> cons_e s" by auto
  note u = ring_unput [OF r re]
  have t: "cons_typed ?s = butlast (cons_typed s)" using u(2) by (simp add: cons_typed_def)
  show l: "cons_lines ?s = cons_lines s" using lt t by (simp add: cons_lines_def take_butlast length_typed)
  show e: "cons_edit ?s = butlast (cons_edit s)" using t by (simp add: cons_edit_def drop_butlast)
  show "cons_ok ?s" using ok u e lt by (auto simp: cons_ok_def dest: in_set_butlastD)
  have "last (cons_edit s) = last (cons_typed s)" using ne by (simp add: cons_edit_def)
  also have "\<dots> = cons_buf s ! ring_pos (length (cons_buf s)) (cons_r s + of_nat (unat (cons_e s - cons_r s) - 1))"
    using u(4) by (simp add: cons_typed_def ring_items_def last_map)
  also have "cons_r s + of_nat (unat (cons_e s - cons_r s) - 1) = cons_e s - 1"
    using u(4) by (simp add: of_nat_diff Suc_le_eq)
  finally show "cons_buf s ! unat ((cons_e s - 1) mod of_nat INPUT_BUF_SIZE) = last (cons_edit s)"
    using len by (simp add: ring_pos_def)
qed


text \<open>Deleting the whole line.\<close>

lemma cons_kill:
  assumes "cons_ok s"
  shows "cons_ok (s\<lparr>cons_e := cons_w s\<rparr>) \<and> cons_lines (s\<lparr>cons_e := cons_w s\<rparr>) = cons_lines s \<and>
    cons_edit (s\<lparr>cons_e := cons_w s\<rparr>) = []"
proof -
  let ?n = "unat (cons_w s - cons_r s)" and ?t = "s\<lparr>cons_e := cons_w s\<rparr>"
  have le: "?n \<le> unat (cons_e s - cons_r s)" and r: "ring_ok (cons_buf s) (cons_r s) (cons_e s)"
    using assms by (simp_all add: cons_ok_def)
  have t: "cons_typed ?t = take ?n (cons_typed s)"
    using le by (simp add: cons_typed_def ring_items_def take_map take_upt)
  then have "cons_lines ?t = cons_lines s" "cons_edit ?t = []"
    using le by (simp_all add: cons_lines_def cons_edit_def length_typed)
  moreover have "ring_ok (cons_buf s) (cons_r s) (cons_w s)" using r le by (simp add: ring_ok_def)
  ultimately show ?thesis using assms by (simp add: cons_ok_def)
qed

text \<open>Storing a character.\<close>

lemma cons_store:
  fixes x :: byte
  assumes ok: "cons_ok s" and rm: "length (cons_typed s) < INPUT_BUF_SIZE"
  defines "t \<equiv> s\<lparr>cons_buf := (cons_buf s)[unat (cons_e s mod of_nat INPUT_BUF_SIZE) := x], cons_e := cons_e s + 1\<rparr>"
  shows "cons_typed t = cons_typed s @ [x]" "ring_ok (cons_buf t) (cons_r t) (cons_e t)"
    "length (cons_buf t) = INPUT_BUF_SIZE" "cons_lines t = cons_lines s" "cons_edit t = cons_edit s @ [x]"
    "unat (cons_w t - cons_r t) \<le> unat (cons_e t - cons_r t)"
proof -
  let ?n = "unat (cons_w s - cons_r s)"
  have r: "ring_ok (cons_buf s) (cons_r s) (cons_e s)" and le: "?n \<le> unat (cons_e s - cons_r s)"
    and len: "length (cons_buf s) = INPUT_BUF_SIZE" using ok by (simp_all add: cons_ok_def)
  have "cons_e s \<noteq> cons_r s + of_nat (length (cons_buf s))"
    using ring_full [OF r] rm len by (simp add: cons_typed_def)
  note p = ring_put [OF r this, of x, unfolded len ring_pos_def]
  show t: "cons_typed t = cons_typed s @ [x]" using p(2) by (simp add: t_def cons_typed_def)
  show "ring_ok (cons_buf t) (cons_r t) (cons_e t)" using p(1) by (simp add: t_def)
  show "length (cons_buf t) = INPUT_BUF_SIZE" using len by (simp add: t_def)
  have n: "unat (cons_w t - cons_r t) = ?n" by (simp add: t_def)
  show "cons_lines t = cons_lines s" "cons_edit t = cons_edit s @ [x]"
    unfolding cons_lines_def cons_edit_def n t using le by (simp_all add: length_typed)
  have "length (cons_typed t) = Suc (length (cons_typed s))" using t by simp
  then show "unat (cons_w t - cons_r t) \<le> unat (cons_e t - cons_r t)" using le n by (simp add: length_typed)
qed

text \<open>Finishing the line.\<close>

lemma cons_commit:
  assumes "length (cons_buf s) = INPUT_BUF_SIZE" "ring_ok (cons_buf s) (cons_r s) (cons_e s)"
  defines "t \<equiv> s\<lparr>cons_w := cons_e s\<rparr>"
  shows "cons_ok t" "cons_lines t = cons_typed s" "cons_edit t = []"
proof -
  have "cons_typed t = cons_typed s" by (simp add: t_def cons_typed_def)
  moreover have "unat (cons_w t - cons_r t) = length (cons_typed s)" by (simp add: t_def length_typed)
  ultimately show l: "cons_lines t = cons_typed s" and e: "cons_edit t = []" by (simp_all add: cons_lines_def cons_edit_def)
  show "cons_ok t" using assms e by (simp add: cons_ok_def t_def)
qed

section \<open>Line editing\<close>

text \<open>
  The specification: finished characters, the line being edited, and what is sent to the terminal
  when a character arrives, with \<open>listing\<close> the list of the processes.
\<close>

definition rub_out :: "byte list" where "rub_out = [8, 32, 8]"

definition type_char ::
  "byte list \<Rightarrow> int \<Rightarrow> byte list \<times> byte list \<Rightarrow> (byte list \<times> byte list) \<times> byte list" where
  "type_char listing c = (\<lambda>(done, line).
     if c = ctrl_P then ((done, line), listing)
     else if c = ctrl_U then ((done, []), concat (replicate (length line) rub_out))
     else if c = ctrl_H \<or> c = 0x7f then
       (if line = [] then ((done, line), []) else ((done, butlast line), rub_out))
     else if c \<noteq> 0 \<and> length done + length line < INPUT_BUF_SIZE then
       (let x = (if c = 13 then 10 else of_int c) in
        if x = 10 \<or> x = ctrl_D \<or> length done + length line + 1 = INPUT_BUF_SIZE
        then ((done @ line @ [x], []), [x]) else ((done, line @ [x]), [x]))
     else ((done, line), []))"

lemma putc_run:
  "uartputc_sync c s = Ok () (s\<lparr>uart_room := uart_room s - 1, uart_out := uart_out s @ [of_int c]\<rparr>)"
  by (simp add: uartputc_sync_def write_THR_def)

definition sent :: "'z cons_st_scheme \<Rightarrow> byte list \<Rightarrow> 'z cons_st_scheme" where
  "sent s out = s\<lparr>uart_room := uart_room s - length out, uart_out := uart_out s @ out\<rparr>"

lemma sent_sel [simp]:
  "cons_buf (sent s out) = cons_buf s" "cons_r (sent s out) = cons_r s" "cons_w (sent s out) = cons_w s"
  "cons_e (sent s out) = cons_e s" "held (sent s out) = held s" "procs (sent s out) = procs s" "cur (sent s out) = cur s"
  "uart_out (sent s out) = uart_out s @ out"
  by (simp_all add: sent_def)

lemma cons_sent [simp]:
  "cons_ok (sent s out) = cons_ok s" "cons_lines (sent s out) = cons_lines s" "cons_edit (sent s out) = cons_edit s"
  "cons_typed (sent s out) = cons_typed s"
  by (simp_all add: cons_ok_def cons_lines_def cons_edit_def cons_typed_def)

lemma sent_sent: "sent (sent s a) b = sent s (a @ b)"
  by (cases s) (simp add: sent_def)

lemma consputc_run:
  "consputc c s = Ok () (sent s (if c = BACKSPACE then rub_out else [of_int c]))"
  by (simp add: consputc_def putc_run bnd_case sent_def rub_out_def)

lemma kill_line_run:
  assumes "cons_ok s"
  shows "kill_line (length (cons_edit s)) s =
    Ok () (sent (s\<lparr>cons_e := cons_w s\<rparr>) (concat (replicate (length (cons_edit s)) rub_out)))"
  using assms
proof (induction "cons_edit s" arbitrary: s rule: rev_induct)
  case Nil
  then have "cons_e s = cons_w s" using cons_counts(1) [OF Nil.prems] by simp
  then show ?case using Nil by (cases s) (simp add: sent_def)
next
  case (snoc x xs)
  have ne: "cons_edit s \<noteq> []" and len: "length (cons_edit s) = Suc (length xs)" using snoc.hyps(2) by (metis snoc_eq_iff_butlast, metis length_append_singleton)
  note b = cons_back [OF snoc.prems ne]
  let ?t = "s\<lparr>cons_e := cons_e s - 1\<rparr>"
  have x: "x \<noteq> 10" using snoc.prems snoc.hyps(2) unfolding cons_ok_def by (metis in_set_conv_decomp)
  have l: "last (cons_edit s) = x" "cons_edit ?t = xs" using b(3) snoc.hyps(2) by (metis last_snoc, metis butlast_snoc)
  let ?u = "sent ?t rub_out"
  have e: "xs = cons_edit ?u" "cons_ok ?u" using l b(1) by simp_all
  have "kill_line (length (cons_edit ?u)) ?u =
      Ok () (sent (?u\<lparr>cons_e := cons_w ?u\<rparr>) (concat (replicate (length (cons_edit ?u)) rub_out)))"
    by (rule snoc.hyps(1) [OF e])
  moreover have "sent (?u\<lparr>cons_e := cons_w ?u\<rparr>) out = sent (s\<lparr>cons_e := cons_w s\<rparr>) (rub_out @ out)" for out
    by (cases s) (simp add: sent_def)
  ultimately have "kill_line (length xs) ?u = Ok () (sent (s\<lparr>cons_e := cons_w s\<rparr>) (rub_out @ concat (replicate (length xs) rub_out)))"
    using e(1) by simp
  then show ?case unfolding len
    using x l(1) b(4) by (simp add: consputc_run bnd_case)
qed


lemma cons_held [simp]:
  "cons_ok (s\<lparr>held := h\<rparr>) = cons_ok s" "cons_lines (s\<lparr>held := h\<rparr>) = cons_lines s"
  "cons_edit (s\<lparr>held := h\<rparr>) = cons_edit s" "cons_typed (s\<lparr>held := h\<rparr>) = cons_typed s"
  for s :: "'z cons_st_scheme"
  by (simp_all add: cons_ok_def cons_lines_def cons_edit_def cons_typed_def)

lemma cons_procs [simp]:
  "cons_ok (s\<lparr>procs := h\<rparr>) = cons_ok s" "cons_lines (s\<lparr>procs := h\<rparr>) = cons_lines s"
  "cons_edit (s\<lparr>procs := h\<rparr>) = cons_edit s" "cons_typed (s\<lparr>procs := h\<rparr>) = cons_typed s"
  for s :: "'z cons_st_scheme"
  by (simp_all add: cons_ok_def cons_lines_def cons_edit_def cons_typed_def)

text \<open>The listing that \<open>procdump\<close> prints: one line for each process in use, in the order of the table.\<close>

definition dump_line :: "proc \<Rightarrow> byte list" where
  "dump_line p =
     the (printint (scast (p_pid p)) 10 True) @ [32] @ state_text (p_state p) @ [32] @
     takeWhile (\<lambda>c. c \<noteq> 0) (p_name p) @ [10]"

definition proc_listing :: "proc list \<Rightarrow> byte list" where
  "proc_listing ps = 10 # concat (map dump_line (filter (\<lambda>p. p_state p \<noteq> UNUSED) ps))"

lemma print_bytes: "forM out (\<lambda>c. consputc (uint c)) s = Ok () (sent s out)"
proof (induction out arbitrary: s)
  case (Cons c out)
  have "uint c \<noteq> BACKSPACE" using uint_lt2p [of c] by (simp add: BACKSPACE_def)
  then show ?case using Cons by (simp add: consputc_run bnd_case sent_sent)
qed (simp add: sent_def)

lemma printf_run:
  assumes "kprintf fmt ap = Some out" "PrLock \<notin> set (held s)"
  shows "printf fmt ap s = Ok () (sent s out)"
  using assms by (simp add: printf_def print_bytes bnd_case acquire_def release_def) (simp add: sent_def)

lemma dump_format:
  "kprintf (map of_char ''%d %s %s'')
     [VInt (scast (p_pid p)), VStr (Some (state_text (p_state p))), VStr (Some (takeWhile (\<lambda>c. c \<noteq> 0) (p_name p)))] =
   Some (butlast (dump_line p))"
proof -
  obtain out where "printint (scast (p_pid p)) 10 True = Some out" using printint_int by blast
  then show ?thesis
    by (simp add: dump_line_def conv_of_def conv_skip_def fmt_at_def butlast_append)
qed

lemma procdump_run:
  assumes "PrLock \<notin> set (held s)" "length (procs s) = NPROC"
  shows "procdump s = Ok () (sent s (proc_listing (procs s)))"
proof -
  have nl: "printf [10] [] s = Ok () (sent s [10])" if "PrLock \<notin> set (held s)" for s :: "'z cons_st_scheme"
    using that by (intro printf_run) simp_all
  have line: "dump_line p = butlast (dump_line p) @ [10]" for p by (simp add: dump_line_def butlast_append)
  let ?f = "\<lambda>i. bnd (pget i) (\<lambda>p.
       if p_state p = UNUSED then ret ()
       else seqM
          [printf (map of_char ''%d %s %s'')
             [VInt (scast (p_pid p)), VStr (Some (state_text (p_state p))),
              VStr (Some (takeWhile (\<lambda>c. c \<noteq> 0) (p_name p)))],
           printf [10] []])"
  have loop: "forM js ?f s = Ok () (sent s (concat (map (\<lambda>i. dump_line (procs s ! i))
      (filter (\<lambda>i. p_state (procs s ! i) \<noteq> UNUSED) js))))" if "PrLock \<notin> set (held s)" for js and s :: "'z cons_st_scheme"
    using that
  proof (induction js arbitrary: s)
    case (Cons i js)
    have "?f i s = Ok () (sent s (if p_state (procs s ! i) = UNUSED then [] else dump_line (procs s ! i)))"
      using Cons.prems printf_run [OF dump_format, of s "procs s ! i"] line [of "procs s ! i"]
      by (simp add: pget_def bnd_case nl sent_sent) (simp add: sent_def)
    then show ?case using Cons by (simp add: bnd_case sent_sent)
  qed (simp add: sent_def)
  have "map (\<lambda>i. dump_line (procs s ! i)) (filter (\<lambda>i. p_state (procs s ! i) \<noteq> UNUSED) [0..<NPROC]) =
      map dump_line (filter (\<lambda>p. p_state p \<noteq> UNUSED) (procs s))"
    unfolding assms(2) [symmetric] by (subst (5) map_nth [symmetric]) (simp add: filter_map o_def)
  then show ?thesis
    using assms(1) loop [of "sent s [10]" "[0..<NPROC]"] by (simp add: procdump_def nl bnd_case sent_sent proc_listing_def)
qed

text \<open>The part of \<open>consoleintr\<close> between \<open>acquire\<close> and \<open>release\<close>.\<close>

definition intr_body :: "int \<Rightarrow> ('z cons_st_scheme, unit) kmon" where
  "intr_body c =
     (if c = ctrl_P then procdump
      else if c = ctrl_U then bnd (gets (\<lambda>s. unat (cons_e s - cons_w s))) kill_line
      else if c = ctrl_H \<or> c = 0x7f then
        bnd (gets (\<lambda>s. cons_e s \<noteq> cons_w s)) (\<lambda>b.
        whenM b (seqM [modify (\<lambda>s. s\<lparr>cons_e := cons_e s - 1\<rparr>), consputc BACKSPACE]))
      else
        bnd (gets (\<lambda>s. cons_e s - cons_r s < of_nat INPUT_BUF_SIZE)) (\<lambda>room.
        whenM (c \<noteq> 0 \<and> room)
          (let c = (if c = 13 then 10 else c) in
           seqM
            [consputc c,
             modify (\<lambda>s. s\<lparr>cons_buf := (cons_buf s)[unat (cons_e s mod of_nat INPUT_BUF_SIZE) := of_int c]\<rparr>),
             modify (\<lambda>s. s\<lparr>cons_e := cons_e s + 1\<rparr>),
             bnd (gets (\<lambda>s. cons_e s - cons_r s = of_nat INPUT_BUF_SIZE)) (\<lambda>full.
             whenM (c = 10 \<or> c = int (unat ctrl_D) \<or> full)
               (seqM [modify (\<lambda>s. s\<lparr>cons_w := cons_e s\<rparr>), wakeup ConsChan]))])))"

definition intr_post :: "int \<Rightarrow> 'z cons_st_scheme \<Rightarrow> 'z cons_st_scheme \<Rightarrow> bool" where
  "intr_post c s s' \<longleftrightarrow> cons_ok s' \<and> held s' = held s \<and>
     (\<exists>out. type_char (proc_listing (procs s)) c (cons_lines s, cons_edit s) = ((cons_lines s', cons_edit s'), out) \<and>
       uart_out s' = uart_out s @ out)"

lemma intr_char:
  fixes s :: "'z cons_st_scheme"
  assumes ok: "cons_ok s" and h: "\<forall>i. ProcLock i \<notin> set (held s)" "length (procs s) = NPROC"
    and c: "0 < c" "c < 256" "c \<noteq> ctrl_P" "c \<noteq> ctrl_U" "c \<noteq> ctrl_H" "c \<noteq> 0x7f"
    and rm: "length (cons_typed s) < INPUT_BUF_SIZE"
  shows "\<exists>s'. intr_body c s = Ok () s' \<and> intr_post c s s'"
proof -
  define d where "d = (if c = 13 then 10 else c)"
  define x :: byte where "x = of_int d"
  have d: "0 < d" "d < 256" using c by (auto simp: d_def)
  have uint: "uint x = d" using d by (simp add: x_def unsigned_of_int take_bit_int_eq_self)
  have d10: "d = 10 \<longleftrightarrow> x = 10" unfolding uint [symmetric] by (simp add: word_uint_eq_iff)
  have d4: "d = int (unat ctrl_D) \<longleftrightarrow> x = ctrl_D" unfolding uint [symmetric] by (simp add: word_uint_eq_iff)
  have nb: "d \<noteq> BACKSPACE" using d by (simp add: BACKSPACE_def)
  let ?s0 = "sent s [x]"
  let ?s1 = "?s0\<lparr>cons_buf := (cons_buf ?s0)[unat (cons_e ?s0 mod of_nat INPUT_BUF_SIZE) := x], cons_e := cons_e ?s0 + 1\<rparr>"
  have ok0: "cons_ok ?s0" "length (cons_typed ?s0) < INPUT_BUF_SIZE" using ok rm by simp_all
  note st = cons_store [OF ok0, of x]
  have len: "length (cons_lines s) + length (cons_edit s) = length (cons_typed s)"
    using arg_cong [OF lines_edit [of s], of length] by simp
  have full: "cons_e ?s1 - cons_r ?s1 = of_nat INPUT_BUF_SIZE \<longleftrightarrow> length (cons_typed s) + 1 = INPUT_BUF_SIZE"
  proof -
    have "length (cons_typed ?s1) = length (cons_typed s) + 1" using st(1) by simp
    then show ?thesis by (simp add: length_typed INPUT_BUF_SIZE_def word_unat_eq_iff)
  qed
  have rmw: "cons_e s - cons_r s < of_nat INPUT_BUF_SIZE" using cons_counts(3) [OF ok] rm by simp
  have tc: "type_char (proc_listing (procs s)) c (cons_lines s, cons_edit s) =
      (if x = 10 \<or> x = ctrl_D \<or> length (cons_typed s) + 1 = INPUT_BUF_SIZE
       then ((cons_lines s @ cons_edit s @ [x], []), [x]) else ((cons_lines s, cons_edit s @ [x]), [x]))"
    using c rm len by (auto simp: type_char_def Let_def x_def d_def)
  let ?k = "x = 10 \<or> x = ctrl_D \<or> length (cons_typed s) + 1 = INPUT_BUF_SIZE"
  have run: "intr_body c s = whenM ?k (seqM [modify (\<lambda>s. s\<lparr>cons_w := cons_e s\<rparr>), wakeup ConsChan]) ?s1"
    using c rmw full d10 d4 nb
    by (simp add: intr_body_def Let_def d_def [symmetric] consputc_run bnd_case x_def [symmetric])
  show ?thesis
  proof (cases ?k)
    case True
    let ?s2 = "?s1\<lparr>cons_w := cons_e ?s1\<rparr>"
    let ?s3 = "?s2\<lparr>procs := wake_all (cur ?s2) ConsChan (procs ?s2)\<rparr>"
    note cm = cons_commit [OF st(3,2)]
    have "wakeup ConsChan ?s2 = Ok () ?s3" using wakeup_run [of ?s2 ConsChan] h by simp
    then have "intr_body c s = Ok () ?s3" using run True by (simp add: bnd_case)
    moreover have "cons_ok ?s3" "cons_lines ?s3 = cons_lines s @ cons_edit s @ [x]" "cons_edit ?s3 = []"
      using cm st(1) lines_edit [of s] by simp_all
    moreover have "uart_out ?s3 = uart_out s @ [x]" "held ?s3 = held s" by simp_all
    ultimately show ?thesis using True tc by (auto simp: intr_post_def)
  next
    case False
    then have "10 \<notin> set (cons_edit ?s1)" using st(5) ok by (simp add: cons_ok_def)
    then have "cons_ok ?s1" using st by (simp add: cons_ok_def)
    moreover have "uart_out ?s1 = uart_out s @ [x]" "held ?s1 = held s" by simp_all
    ultimately show ?thesis using False tc run st(4,5) by (auto simp: intr_post_def)
  qed
qed

lemma intr_body_spec:
  fixes s :: "'z cons_st_scheme"
  assumes ok: "cons_ok s" and h: "\<forall>i. ProcLock i \<notin> set (held s)" "length (procs s) = NPROC" "PrLock \<notin> set (held s)"
    and c: "0 \<le> c" "c < 256"
  shows "\<exists>s'. intr_body c s = Ok () s' \<and> intr_post c s s'"
proof -
  consider (P) "c = ctrl_P" | (U) "c = ctrl_U" | (H) "c = ctrl_H \<or> c = 0x7f"
    | (no) "c \<noteq> ctrl_P" "c \<noteq> ctrl_U" "c \<noteq> ctrl_H" "c \<noteq> 0x7f" "c = 0 \<or> \<not> length (cons_typed s) < INPUT_BUF_SIZE"
    | (ch) "c \<noteq> ctrl_P" "c \<noteq> ctrl_U" "c \<noteq> ctrl_H" "c \<noteq> 0x7f" "0 < c" "length (cons_typed s) < INPUT_BUF_SIZE"
    using c by linarith
  then show ?thesis
  proof cases
    case P
    then show ?thesis using ok procdump_run [OF h(3,2)] by (auto simp: intr_body_def intr_post_def type_char_def)
  next
    case U
    let ?n = "length (cons_edit s)"
    let ?s' = "sent (s\<lparr>cons_e := cons_w s\<rparr>) (concat (replicate ?n rub_out))"
    have "intr_body c s = Ok () ?s'"
      using U kill_line_run [OF ok] cons_counts(2) [OF ok] by (simp add: intr_body_def ctrl_P_def ctrl_U_def)
    moreover have "cons_ok ?s' \<and> cons_lines ?s' = cons_lines s \<and> cons_edit ?s' = []"
      using cons_kill [OF ok] by simp
    ultimately show ?thesis using U by (auto simp: intr_post_def type_char_def ctrl_P_def ctrl_U_def)
  next
    case H
    then have ne: "c \<noteq> ctrl_P" "c \<noteq> ctrl_U" by (auto simp: ctrl_P_def ctrl_U_def ctrl_H_def)
    show ?thesis
    proof (cases "cons_edit s = []")
      case True
      then show ?thesis using H ne ok cons_counts(1) [OF ok] by (auto simp: intr_body_def intr_post_def type_char_def)
    next
      case False
      note b = cons_back [OF ok False]
      let ?s' = "sent (s\<lparr>cons_e := cons_e s - 1\<rparr>) rub_out"
      have "intr_body c s = Ok () ?s'"
        using H ne False cons_counts(1) [OF ok] by (auto simp: intr_body_def consputc_run)
      then show ?thesis using b H ne False by (auto simp: intr_post_def type_char_def)
    qed
  next
    case no
    have len: "length (cons_lines s) + length (cons_edit s) = length (cons_typed s)"
      using arg_cong [OF lines_edit [of s], of length] by simp
    have "intr_body c s = Ok () s" using no cons_counts(3) [OF ok] by (auto simp: intr_body_def)
    moreover have "type_char (proc_listing (procs s)) c (cons_lines s, cons_edit s) = ((cons_lines s, cons_edit s), [])"
      using no len by (auto simp: type_char_def)
    ultimately show ?thesis using ok by (auto simp: intr_post_def)
  next
    case ch
    show ?thesis by (rule intr_char [OF ok h(1,2) ch(5) c(2) ch(1-4,6)])
  qed
qed

section \<open>Properties\<close>

text \<open>
  C11. Line editing at the console. For every character that arrives, \<open>consoleintr\<close> returns and does to
  the finished lines, to the line being edited and to the terminal what the specification
  \<open>type_char\<close> says: a newline, an end-of-file or a full buffer finishes the line, backspace and
  control-U delete within the current line only, control-P prints the list of the processes and keeps the
  lines, a character for which there is no room is
  dropped without echo, and at most \<open>INPUT_BUF_SIZE\<close> characters are kept.
\<close>

theorem consoleintr_edits_line:
  fixes s :: "'z cons_st_scheme"
  assumes "cons_ok s" "held s = []" "length (procs s) = NPROC" "0 \<le> c" "c < 256"
  shows "\<exists>s' out. consoleintr c s = Ok () s' \<and> cons_ok s' \<and> held s' = [] \<and>
    type_char (proc_listing (procs s)) c (cons_lines s, cons_edit s) = ((cons_lines s', cons_edit s'), out) \<and>
    uart_out s' = uart_out s @ out \<and> length (cons_lines s' @ cons_edit s') \<le> INPUT_BUF_SIZE"
proof -
  let ?s = "s\<lparr>held := [ConsLock]\<rparr>"
  have "cons_ok ?s" "\<forall>i. ProcLock i \<notin> set (held ?s)" "length (procs ?s) = NPROC" "PrLock \<notin> set (held ?s)"
    using assms by simp_all
  from intr_body_spec [OF this assms(4,5)] obtain t where t: "intr_body c ?s = Ok () t" "intr_post c ?s t" by blast
  let ?t = "t\<lparr>held := []\<rparr>"
  have ht: "held t = [ConsLock]" "cons_ok t" using t(2) by (simp_all add: intr_post_def)
  have "consoleintr c s = bnd (acquire ConsLock) (\<lambda>_. bnd (intr_body c) (\<lambda>_. release ConsLock)) s"
    by (simp add: consoleintr_def intr_body_def)
  then have "consoleintr c s = Ok () ?t"
    using assms(2) t(1) ht by (simp add: bnd_case acquire_def release_def)
  moreover have "length (cons_lines ?t @ cons_edit ?t) \<le> INPUT_BUF_SIZE"
    using ht(2) by (simp add: lines_edit length_typed cons_ok_def ring_ok_def)
  ultimately show ?thesis using t(2) by (auto simp: intr_post_def)
qed


section \<open>The transmit buffer\<close>

definition uart_items :: "'z cons_st_scheme \<Rightarrow> byte list" where
  "uart_items s = ring_items (uart_tx_buf s) (uart_tx_r s) (uart_tx_w s)"

definition uart_ok :: "'z cons_st_scheme \<Rightarrow> bool" where
  "uart_ok s \<longleftrightarrow> length (uart_tx_buf s) = UART_TX_BUF_SIZE \<and> ring_ok (uart_tx_buf s) (uart_tx_r s) (uart_tx_w s)"

interpretation uq: bounded_queue uart_ok uart_items UART_TX_BUF_SIZE uart_put uart_front uart_skip uart_full uart_empty
proof unfold_locales
  fix q :: "'z cons_st_scheme" and x :: byte
  assume ok: "uart_ok q"
  then have len: "length (uart_tx_buf q) = UART_TX_BUF_SIZE" and r: "ring_ok (uart_tx_buf q) (uart_tx_r q) (uart_tx_w q)"
    by (simp_all add: uart_ok_def)
  show "length (uart_items q) \<le> UART_TX_BUF_SIZE" using len r by (simp add: uart_items_def ring_ok_def)
  show f: "uart_full q \<longleftrightarrow> length (uart_items q) = UART_TX_BUF_SIZE"
    using ring_full [OF r] len by (simp add: uart_full_def uart_items_def)
  show e: "uart_empty q \<longleftrightarrow> uart_items q = []" by (auto simp: uart_empty_def uart_items_def ring_empty)
  { assume "\<not> uart_full q"
    then have "uart_tx_w q \<noteq> uart_tx_r q + of_nat (length (uart_tx_buf q))" using len by (simp add: uart_full_def)
    note p = ring_put [OF r this, of x, unfolded len ring_pos_def]
    show "uart_ok (uart_put x q)" "uart_items (uart_put x q) = uart_items q @ [x]"
      using p len by (simp_all add: uart_ok_def uart_put_def uart_items_def) }
  { assume "\<not> uart_empty q"
    then have "uart_tx_r q \<noteq> uart_tx_w q" by (simp add: uart_empty_def)
    note p = ring_get [OF r this, unfolded len ring_pos_def]
    show "uart_ok (uart_skip q)" "uart_front q # uart_items (uart_skip q) = uart_items q"
      using p len by (simp_all add: uart_ok_def uart_skip_def uart_items_def uart_front_def) }
qed

lemma uart_same [simp]:
  "uart_ok (s\<lparr>held := h\<rparr>) = uart_ok s" "uart_items (s\<lparr>held := h\<rparr>) = uart_items s"
  "uart_ok (s\<lparr>procs := ps\<rparr>) = uart_ok s" "uart_items (s\<lparr>procs := ps\<rparr>) = uart_items s"
  "uart_ok (s\<lparr>uart_room := n, uart_out := o'\<rparr>) = uart_ok s" "uart_items (s\<lparr>uart_room := n, uart_out := o'\<rparr>) = uart_items s"
  for s :: "'z cons_st_scheme"
  by (simp_all add: uart_ok_def uart_items_def)

lemma uart_sel [simp]:
  "held (uart_skip s) = held s" "procs (uart_skip s) = procs s" "cur (uart_skip s) = cur s"
  "uart_room (uart_skip s) = uart_room s" "uart_out (uart_skip s) = uart_out s"
  "held (uart_put x s) = held s" "procs (uart_put x s) = procs s" "cur (uart_put x s) = cur s"
  "uart_room (uart_put x s) = uart_room s" "uart_out (uart_put x s) = uart_out s"
  by (simp_all add: uart_skip_def uart_put_def)

lemma uartstart_loop_run:
  fixes s :: "'z cons_st_scheme"
  assumes "uart_ok s" "length (uart_items s) \<le> n" "\<forall>i. ProcLock i \<notin> set (held s)" "length (procs s) = NPROC"
  defines "k \<equiv> min (uart_room s) (length (uart_items s))"
  shows "\<exists>t. uartstart_loop n s = Ok () t \<and> uart_ok t \<and> held t = held s \<and> length (procs t) = NPROC \<and>
    uart_out t = uart_out s @ take k (uart_items s) \<and> uart_items t = drop k (uart_items s) \<and> uart_room t = uart_room s - k"
  using assms(1-4) unfolding k_def
proof (induction n arbitrary: s)
  case 0
  then show ?case by simp
next
  case (Suc n)
  show ?case
  proof (cases "uart_empty s \<or> uart_room s = 0")
    case True
    then have "uartstart_loop (Suc n) s = Ok () s" by auto
    then show ?thesis using True Suc.prems uq.empty_iff [OF Suc.prems(1)] by auto
  next
    case False
    then have ne: "\<not> uart_empty s" and rm: "0 < uart_room s" by auto
    note it = uq.skip_items [OF Suc.prems(1) ne] and ok = uq.skip_inv [OF Suc.prems(1) ne]
    let ?s1 = "uart_skip s"
    let ?s2 = "?s1\<lparr>procs := wake_all (cur s) UartChan (procs s)\<rparr>"
    let ?s3 = "?s2\<lparr>uart_room := uart_room s - 1, uart_out := uart_out s @ [uart_front s]\<rparr>"
    have wk: "wakeup UartChan ?s1 = Ok () ?s2" using wakeup_run [of ?s1 UartChan] Suc.prems(3,4) by simp
    have step: "uartstart_loop (Suc n) s = uartstart_loop n ?s3"
      using False wk by (simp add: bnd_case write_THR_def)
    have i3: "uart_items ?s3 = uart_items ?s1" "uart_ok ?s3" using ok by simp_all
    have pre: "uart_ok ?s3" "length (uart_items ?s3) \<le> n" "\<forall>i. ProcLock i \<notin> set (held ?s3)" "length (procs ?s3) = NPROC"
      using i3 Suc.prems it [symmetric] by (simp_all add: length_wake_all)
    from Suc.IH [OF pre] obtain t where t: "uartstart_loop n ?s3 = Ok () t" "uart_ok t" "held t = held s" "length (procs t) = NPROC"
      "uart_out t = uart_out ?s3 @ take (min (uart_room ?s3) (length (uart_items ?s3))) (uart_items ?s3)"
      "uart_items t = drop (min (uart_room ?s3) (length (uart_items ?s3))) (uart_items ?s3)"
      "uart_room t = uart_room ?s3 - min (uart_room ?s3) (length (uart_items ?s3))" by auto
    have k: "min (uart_room s) (length (uart_items s)) = Suc (min (uart_room s - 1) (length (uart_items ?s1)))"
      unfolding it [symmetric] using rm by (cases "uart_room s") simp_all
    have out: "uart_out t = uart_out s @ take (Suc (min (uart_room s - 1) (length (uart_items ?s1)))) (uart_items s)"
      unfolding it [symmetric] using t(5) i3(1) by simp
    have rest: "uart_items t = drop (Suc (min (uart_room s - 1) (length (uart_items ?s1)))) (uart_items s)"
      unfolding it [symmetric] using t(6) i3(1) by simp
    have "uart_room t = uart_room s - Suc (min (uart_room s - 1) (length (uart_items ?s1)))"
      using t(7) i3(1) by simp
    then show ?thesis unfolding step k using t(1-4) out rest by (intro exI [of _ t]) simp
  qed
qed

text \<open>
  C37. Output order. A byte given to \<open>uartputc\<close> is sent after all bytes given before it: when there is room
  in the transmit buffer, the call returns, and the bytes sent followed by those waiting are the
  bytes before and then the new one; the buffer is a bounded queue throughout. When the buffer is
  full the process sleeps until \<open>uartstart\<close> wakes it, and nothing is sent or lost.
\<close>

theorem uartputc_in_order:
  fixes s :: "'z cons_st_scheme"
  assumes "uart_ok s" "held s = []" "cur s = Some p" "p < length (procs s)" "length (procs s) = NPROC"
  shows "(length (uart_items s) < UART_TX_BUF_SIZE \<longrightarrow>
      (\<exists>t. uartputc c s = Ok () t \<and> uart_ok t \<and> held t = [] \<and>
        uart_out t @ uart_items t = uart_out s @ uart_items s @ [c] \<and>
        (0 < uart_room t \<longrightarrow> uart_items t = []))) \<and>
    (length (uart_items s) = UART_TX_BUF_SIZE \<longrightarrow>
      uartputc c s = Swtch (s\<lparr>held := [ProcLock p], procs := (procs s)[p := (procs s ! p)\<lparr>p_chan := UartChan, p_state := SLEEPING\<rparr>]\<rparr>))"
proof (intro conjI impI)
  assume lt: "length (uart_items s) < UART_TX_BUF_SIZE"
  let ?s = "s\<lparr>held := [UartTxLock]\<rparr>"
  have ok: "uart_ok ?s" using assms(1) by simp
  have nf: "\<not> uart_full ?s" using uq.full_iff [OF ok] lt by simp
  note it = uq.put_items [OF ok nf, of c] and ok' = uq.put_inv [OF ok nf, of c]
  let ?u = "uart_put c ?s"
  have n: "unat (uart_tx_w ?u - uart_tx_r ?u) = length (uart_items ?u)" by (simp add: uart_items_def)
  from uartstart_loop_run [OF ok' order_refl] assms obtain t where t: "uartstart_loop (length (uart_items ?u)) ?u = Ok () t"
    "uart_ok t" "held t = [UartTxLock]" "uart_out t = uart_out s @ take (min (uart_room s) (length (uart_items ?u))) (uart_items ?u)"
    "uart_items t = drop (min (uart_room s) (length (uart_items ?u))) (uart_items ?u)"
    "uart_room t = uart_room s - min (uart_room s) (length (uart_items ?u))" by auto
  have "uartputc c s = Ok () (t\<lparr>held := []\<rparr>)"
    using assms(2) nf t(1,3) by (simp add: uartputc_def uartputc_loop_def uartstart_def acquire_def release_def bnd_case n)
  moreover have "uart_out t @ uart_items t = uart_out s @ uart_items s @ [c]" unfolding t(4,5) it by (simp only: append_assoc append_take_drop_id) simp
  moreover have "0 < uart_room t \<longrightarrow> uart_items t = []" using t(5,6) by auto
  ultimately show "\<exists>t. uartputc c s = Ok () t \<and> uart_ok t \<and> held t = [] \<and>
        uart_out t @ uart_items t = uart_out s @ uart_items s @ [c] \<and> (0 < uart_room t \<longrightarrow> uart_items t = [])"
    using t(2) by (intro exI [of _ "t\<lparr>held := []\<rparr>"]) simp
next
  assume "length (uart_items s) = UART_TX_BUF_SIZE"
  then have "uart_full (s\<lparr>held := [UartTxLock]\<rparr>)" using uq.full_iff [of "s\<lparr>held := [UartTxLock]\<rparr>"] assms(1) by simp
  then show "uartputc c s = Swtch (s\<lparr>held := [ProcLock p], procs := (procs s)[p := (procs s ! p)\<lparr>p_chan := UartChan, p_state := SLEEPING\<rparr>]\<rparr>)"
    using assms sleep_run [of "s\<lparr>held := [UartTxLock]\<rparr>" p UartTxLock UartChan]
    by (simp add: uartputc_def uartputc_loop_def acquire_def bnd_case)
qed

section \<open>An example\<close>

definition cons_example :: cons_st where
  "cons_example = pipe_st.extend (fs_st.extend (log_st.extend (log_fresh (\<lambda>_. []))
     \<lparr>sb = sb_example, inodes = []\<rparr>) \<lparr>pipes = (\<lambda>_. \<lparr>pi_data = replicate PIPESIZE 0, pi_nread = 0, pi_nwrite = 0, pi_readopen = False, pi_writeopen = False\<rparr>)\<rparr>)
     \<lparr>cons_buf = replicate INPUT_BUF_SIZE 0, cons_r = -1, cons_w = -1, cons_e = -1,
      uart_tx_buf = replicate UART_TX_BUF_SIZE 0, uart_tx_w = 0, uart_tx_r = 0,
      uart_room = 1, uart_out = [], uart_in = []\<rparr>"

lemma cons_example_simps [simp]:
  "held cons_example = []" "cur cons_example = Some 0" "procs cons_example = procs sched_example"
  "cons_ok cons_example" "cons_lines cons_example = []" "cons_edit cons_example = []" "uart_out cons_example = []"
  "uart_ok cons_example" "uart_items cons_example = []"
  by (simp_all add: cons_example_def pipe_st.defs fs_st.defs log_st.defs cons_ok_def cons_lines_def cons_edit_def
    cons_typed_def ring_items_def ring_ok_def INPUT_BUF_SIZE_def uart_ok_def uart_items_def UART_TX_BUF_SIZE_def)

theorem consoleintr_edits_line_witness:
  "\<exists>s. consoleintr 97 cons_example = Ok () s \<and> cons_edit s = [97] \<and> uart_out s = [97]"
  using consoleintr_edits_line [of cons_example 97]
  by (auto simp: type_char_def ctrl_P_def ctrl_U_def ctrl_H_def ctrl_D_def INPUT_BUF_SIZE_def)

theorem uartputc_in_order_witness:
  "\<exists>t. uartputc 65 cons_example = Ok () t \<and> uart_out t @ uart_items t = [65]"
  using uartputc_in_order [of cons_example 0 65] by (auto simp: NPROC_def UART_TX_BUF_SIZE_def)

end
