(* ===== verification/File.thy ===== *)
theory File
  imports Console
begin

text \<open>
  The file table, kernel/file.c, and \<open>pipealloc\<close> of kernel/pipe.c. A file is an index into the
  table. The device switch maps major numbers to drivers; the console is the only one.
\<close>

datatype ftype = FD_NONE | FD_PIPE | FD_INODE | FD_DEVICE

record kfile =
  f_type :: ftype
  f_ref :: int
  f_readable :: bool
  f_writable :: bool
  f_pipe :: u64
  f_ip :: nat
  f_off :: u32
  f_major :: u16

datatype device = ConsoleDev

definition CONSOLE :: nat where "CONSOLE = 1"

record file_st = cons_st +
  ftable :: "kfile list"
  devsw :: "nat \<Rightarrow> device option"

definition consoleinit :: "('z file_st_scheme, unit) kmon" where
  "consoleinit = modify (\<lambda>s. s\<lparr>devsw := (devsw s)(CONSOLE := Some ConsoleDev)\<rparr>)"

definition fget :: "nat \<Rightarrow> ('z file_st_scheme, kfile) kmon" where
  "fget f = gets (\<lambda>s. ftable s ! f)"

definition fupd :: "nat \<Rightarrow> (kfile \<Rightarrow> kfile) \<Rightarrow> ('z file_st_scheme, unit) kmon" where
  "fupd f g = modify (\<lambda>s. s\<lparr>ftable := (ftable s)[f := g (ftable s ! f)]\<rparr>)"

definition filealloc :: "('z file_st_scheme, nat option) kmon" where
  "filealloc =
     bnd (acquire FtableLock) (\<lambda>_.
     bnd (gets ftable) (\<lambda>tab.
     case first_idx (\<lambda>f. f_ref f = 0) tab of
       Some f \<Rightarrow>
         bnd (fupd f (\<lambda>x. x\<lparr>f_ref := 1\<rparr>)) (\<lambda>_.
         bnd (release FtableLock) (\<lambda>_.
         ret (Some f)))
     | None \<Rightarrow> bnd (release FtableLock) (\<lambda>_. ret None)))"

definition filedup :: "nat \<Rightarrow> ('z file_st_scheme, nat) kmon" where
  "filedup f =
     bnd (acquire FtableLock) (\<lambda>_.
     bnd (fget f) (\<lambda>x.
     bnd (panic_if (f_ref x < 1) ''filedup'') (\<lambda>_.
     bnd (fupd f (\<lambda>x. x\<lparr>f_ref := f_ref x + 1\<rparr>)) (\<lambda>_.
     bnd (release FtableLock) (\<lambda>_.
     ret f)))))"

definition fileclose :: "nat \<Rightarrow> ('z file_st_scheme, unit) kmon" where
  "fileclose f =
     bnd (acquire FtableLock) (\<lambda>_.
     bnd (fget f) (\<lambda>x.
     bnd (panic_if (f_ref x < 1) ''fileclose'') (\<lambda>_.
     bnd (fupd f (\<lambda>x. x\<lparr>f_ref := f_ref x - 1\<rparr>)) (\<lambda>_.
     if f_ref x - 1 > 0 then release FtableLock
     else
       bnd (fget f) (\<lambda>ff.
       bnd (fupd f (\<lambda>x. x\<lparr>f_ref := 0, f_type := FD_NONE\<rparr>)) (\<lambda>_.
       bnd (release FtableLock) (\<lambda>_.
       case f_type ff of
         FD_PIPE \<Rightarrow> pipeclose (f_pipe ff) (f_writable ff)
       | FD_INODE \<Rightarrow> seqM [begin_op, iput (f_ip ff), end_op]
       | FD_DEVICE \<Rightarrow> seqM [begin_op, iput (f_ip ff), end_op]
       | FD_NONE \<Rightarrow> ret ())))))))"

text \<open>The bytes of a \<open>struct stat\<close>, including the padding before its 64-bit field.\<close>

definition stat_bytes :: "stat \<Rightarrow> byte list" where
  "stat_bytes st =
     to_le (st_dev st) @ to_le (st_ino st) @ to_le (st_type st) @ to_le (st_nlink st) @
     replicate 4 0 @ to_le (st_size st)"

definition filestat :: "nat \<Rightarrow> u64 \<Rightarrow> ('z file_st_scheme, int) kmon" where
  "filestat f addr =
     bnd myproc (\<lambda>p.
     bnd (fget f) (\<lambda>x.
     if f_type x = FD_INODE \<or> f_type x = FD_DEVICE then
       bnd (ilock (f_ip x)) (\<lambda>_.
       bnd (stati (f_ip x)) (\<lambda>st.
       bnd (iunlock (f_ip x)) (\<lambda>_.
       bnd (pget p) (\<lambda>pr.
       bnd (copyout (p_pagetable pr) addr (stat_bytes st)) (\<lambda>r.
       ret (if r < 0 then -1 else 0))))))
     else ret (-1)))"

text \<open>\<open>f->major < 0 || f->major >= NDEV || !devsw[f->major].read\<close>, for a 16-bit signed \<open>major\<close>.\<close>

definition dev_of :: "u16 \<Rightarrow> ('z file_st_scheme, device option) kmon" where
  "dev_of major =
     (if sint major < 0 \<or> sint major \<ge> int NDEV then ret None
      else gets (\<lambda>s. devsw s (unat major)))"

definition fileread :: "nat \<Rightarrow> u64 \<Rightarrow> int \<Rightarrow> ('z file_st_scheme, int) kmon" where
  "fileread f addr n =
     bnd (fget f) (\<lambda>x.
     if \<not> f_readable x then ret (-1)
     else case f_type x of
       FD_PIPE \<Rightarrow> piperead (f_pipe x) addr n
     | FD_DEVICE \<Rightarrow>
         bnd (dev_of (f_major x)) (\<lambda>d.
         case d of None \<Rightarrow> ret (-1) | Some ConsoleDev \<Rightarrow> consoleread True addr n)
     | FD_INODE \<Rightarrow>
         bnd (ilock (f_ip x)) (\<lambda>_.
         bnd (readi (f_ip x) True addr (f_off x) (of_int n)) (\<lambda>r.
         bnd (whenM (r > 0) (fupd f (\<lambda>x. x\<lparr>f_off := f_off x + of_int r\<rparr>))) (\<lambda>_.
         bnd (iunlock (f_ip x)) (\<lambda>_.
         ret r))))
     | FD_NONE \<Rightarrow> panic ''fileread'')"

definition write_max :: int where
  "write_max = int ((MAXOPBLOCKS - 1 - 1 - 2) div 2 * BSIZE)"

function filewrite_loop :: "nat \<Rightarrow> nat \<Rightarrow> u64 \<Rightarrow> int \<Rightarrow> int \<Rightarrow> ('z file_st_scheme, int) kmon" where
  "filewrite_loop f ip addr n i =
     (if i < n then
        let n1 = min (n - i) write_max in
        bnd begin_op (\<lambda>_.
        bnd (ilock ip) (\<lambda>_.
        bnd (fget f) (\<lambda>x.
        bnd (writei ip True (addr + of_int i) (f_off x) (of_int n1)) (\<lambda>r.
        bnd (whenM (r > 0) (fupd f (\<lambda>x. x\<lparr>f_off := f_off x + of_int r\<rparr>))) (\<lambda>_.
        bnd (iunlock ip) (\<lambda>_.
        bnd end_op (\<lambda>_.
        if r \<noteq> n1 then ret (if i = n then n else -1)
        else filewrite_loop f ip addr n (i + n1))))))))
      else ret (if i = n then n else -1))"
  by pat_completeness auto
termination
  by (relation "measure (\<lambda>(_, _, _, n, i). nat (n - i))")
    (auto simp: write_max_def MAXOPBLOCKS_def BSIZE_def)

declare filewrite_loop.simps [simp del]

definition filewrite :: "nat \<Rightarrow> u64 \<Rightarrow> int \<Rightarrow> ('z file_st_scheme, int) kmon" where
  "filewrite f addr n =
     bnd (fget f) (\<lambda>x.
     if \<not> f_writable x then ret (-1)
     else case f_type x of
       FD_PIPE \<Rightarrow> pipewrite (f_pipe x) addr n
     | FD_DEVICE \<Rightarrow>
         bnd (dev_of (f_major x)) (\<lambda>d.
         case d of None \<Rightarrow> ret (-1) | Some ConsoleDev \<Rightarrow> consolewrite True addr n)
     | FD_INODE \<Rightarrow> filewrite_loop f (f_ip x) addr n 0
     | FD_NONE \<Rightarrow> panic ''filewrite'')"

section \<open>\<open>pipealloc\<close> (kernel/pipe.c)\<close>

definition pipealloc :: "('z file_st_scheme, (nat \<times> nat) option) kmon" where
  "pipealloc =
     bnd filealloc (\<lambda>f0.
     case f0 of
       None \<Rightarrow> ret None
     | Some f0 \<Rightarrow>
         bnd filealloc (\<lambda>f1.
         case f1 of
           None \<Rightarrow> bnd (fileclose f0) (\<lambda>_. ret None)
         | Some f1 \<Rightarrow>
             bnd kalloc (\<lambda>pi.
             if pi = 0 then bnd (seqM [fileclose f0, fileclose f1]) (\<lambda>_. ret None)
             else
               seq_ret
                [pipe_upd pi (\<lambda>p. p\<lparr>pi_readopen := True, pi_writeopen := True, pi_nwrite := 0, pi_nread := 0\<rparr>),
                 fupd f0 (\<lambda>x. x\<lparr>f_type := FD_PIPE, f_readable := True, f_writable := False, f_pipe := pi\<rparr>),
                 fupd f1 (\<lambda>x. x\<lparr>f_type := FD_PIPE, f_readable := False, f_writable := True, f_pipe := pi\<rparr>)]
                (Some (f0, f1)))))"

end
