(* ===== verification/Proc.thy ===== *)
theory Proc
  imports File
begin

text \<open>
  Processes, the rest of kernel/proc.c: allocation, memory, \<open>fork\<close>, \<open>exit\<close> and \<open>wait\<close>. The
  trapframe is in the physical page \<open>p->trapframe\<close>, at the offsets of kernel/proc.h.
\<close>

section \<open>The trapframe (kernel/proc.h)\<close>

definition TF_SIZE :: nat where "TF_SIZE = 288"

definition tf_kernel_satp :: u64 where "tf_kernel_satp = 0"
definition tf_kernel_sp :: u64 where "tf_kernel_sp = 8"
definition tf_kernel_trap :: u64 where "tf_kernel_trap = 16"
definition tf_epc :: u64 where "tf_epc = 24"
definition tf_kernel_hartid :: u64 where "tf_kernel_hartid = 32"
definition tf_sp :: u64 where "tf_sp = 48"
definition tf_a :: "nat \<Rightarrow> u64" where "tf_a n = 112 + 8 * of_nat n"

definition tf_get :: "nat \<Rightarrow> u64 \<Rightarrow> ('z sched_st_scheme, u64) kmon" where
  "tf_get p off = gets (\<lambda>s. load64 (phys s) (p_trapframe (procs s ! p) + off))"

definition tf_set :: "nat \<Rightarrow> u64 \<Rightarrow> u64 \<Rightarrow> ('z sched_st_scheme, unit) kmon" where
  "tf_set p off v =
     modify (\<lambda>s. s\<lparr>phys := store64 (phys s) (p_trapframe (procs s ! p) + off) v\<rparr>)"

section \<open>Address spaces of processes\<close>

text \<open>\<open>forkret_addr\<close> is the address of \<open>forkret\<close>, \<open>first\<close> its static variable.\<close>

record proc_st = file_st +
  forkret_addr :: u64
  first :: bool

definition proc_pagetable :: "nat \<Rightarrow> ('z sched_st_scheme, u64) kmon" where
  "proc_pagetable p =
     bnd uvmcreate (\<lambda>pagetable.
     if pagetable = 0 then ret 0
     else
       bnd (gets trampoline) (\<lambda>tr.
       bnd (mappages pagetable TRAMPOLINE PGSIZE tr (PTE_R OR PTE_X)) (\<lambda>r.
       if r < 0 then bnd (uvmfree pagetable 0) (\<lambda>_. ret 0)
       else
         bnd (pget p) (\<lambda>pr.
         bnd (mappages pagetable TRAPFRAME PGSIZE (p_trapframe pr) (PTE_R OR PTE_W)) (\<lambda>r.
         if r < 0 then
           bnd (uvmunmap pagetable TRAMPOLINE 1 False) (\<lambda>_.
           bnd (uvmfree pagetable 0) (\<lambda>_. ret 0))
         else ret pagetable)))))"

definition proc_freepagetable :: "u64 \<Rightarrow> u64 \<Rightarrow> ('z sched_st_scheme, unit) kmon" where
  "proc_freepagetable pagetable sz =
     seqM
      [uvmunmap pagetable TRAMPOLINE 1 False,
       uvmunmap pagetable TRAPFRAME 1 False,
       uvmfree pagetable sz]"

section \<open>Allocation\<close>

definition freeproc :: "nat \<Rightarrow> ('z sched_st_scheme, unit) kmon" where
  "freeproc p =
     bnd (pget p) (\<lambda>pr.
     seqM
      [whenM (p_trapframe pr \<noteq> 0) (kfree (p_trapframe pr)),
       pupd p (\<lambda>pr. pr\<lparr>p_trapframe := 0\<rparr>),
       whenM (p_pagetable pr \<noteq> 0) (proc_freepagetable (p_pagetable pr) (p_sz pr)),
       pupd p (\<lambda>pr. pr\<lparr>p_pagetable := 0, p_sz := 0, p_pid := 0, p_parent := None,
         p_name := (p_name pr)[0 := 0], p_chan := NoChan, p_killed := False, p_xstate := 0,
         p_state := UNUSED\<rparr>)])"

text \<open>The search of \<open>allocproc\<close>, up to \<open>found\<close> with the lock held.\<close>

definition find_unused :: "('z sched_st_scheme, nat option) kmon" where
  "find_unused =
     findM [0..<NPROC] (\<lambda>i.
       bnd (acquire (ProcLock i)) (\<lambda>_.
       bnd (pget i) (\<lambda>p.
       if p_state p = UNUSED then ret (Some i)
       else bnd (release (ProcLock i)) (\<lambda>_. ret None))))"

definition allocproc :: "('z proc_st_scheme, nat option) kmon" where
  "allocproc =
     bnd find_unused (\<lambda>r.
     case r of
       None \<Rightarrow> ret None
     | Some p \<Rightarrow>
         bnd allocpid (\<lambda>pid.
         bnd (pupd p (\<lambda>pr. pr\<lparr>p_pid := pid, p_state := USED\<rparr>)) (\<lambda>_.
         bnd kalloc (\<lambda>tf.
         bnd (pupd p (\<lambda>pr. pr\<lparr>p_trapframe := tf\<rparr>)) (\<lambda>_.
         if tf = 0 then seq_ret [freeproc p, release (ProcLock p)] None
         else
           bnd (proc_pagetable p) (\<lambda>pt.
           bnd (pupd p (\<lambda>pr. pr\<lparr>p_pagetable := pt\<rparr>)) (\<lambda>_.
           if pt = 0 then seq_ret [freeproc p, release (ProcLock p)] None
           else
             bnd (gets forkret_addr) (\<lambda>fr.
             bnd (pupd p (\<lambda>pr. pr\<lparr>p_context :=
               \<lparr>ctx_ra = fr, ctx_sp = p_kstack pr + PGSIZE, ctx_s = replicate 12 0\<rparr>\<rparr>)) (\<lambda>_.
             ret (Some p))))))))))"

definition initcode :: "byte list" where
  "initcode =
     [0x17, 0x05, 0x00, 0x00, 0x13, 0x05, 0x45, 0x02,
      0x97, 0x05, 0x00, 0x00, 0x93, 0x85, 0x35, 0x02,
      0x93, 0x08, 0x70, 0x00, 0x73, 0x00, 0x00, 0x00,
      0x93, 0x08, 0x20, 0x00, 0x73, 0x00, 0x00, 0x00,
      0xef, 0xf0, 0x9f, 0xff, 0x2f, 0x69, 0x6e, 0x69,
      0x74, 0x00, 0x00, 0x24, 0x00, 0x00, 0x00, 0x00,
      0x00, 0x00, 0x00, 0x00]"

text \<open>The string \<open>initcode\<close>, the name of the first process.\<close>

definition initcode_name :: "byte list" where
  "initcode_name = map of_char ''initcode''"

definition userinit :: "('z proc_st_scheme, unit) kmon" where
  "userinit =
     bnd allocproc (\<lambda>r.
     bnd (modify (\<lambda>s. s\<lparr>initproc := r\<rparr>)) (\<lambda>_.
     case r of
       None \<Rightarrow> panic ''kerneltrap''
     | Some p \<Rightarrow>
         bnd (pget p) (\<lambda>pr.
         bnd (uvmfirst (p_pagetable pr) initcode) (\<lambda>_.
         bnd (pupd p (\<lambda>pr. pr\<lparr>p_sz := PGSIZE\<rparr>)) (\<lambda>_.
         bnd (tf_set p tf_epc 0) (\<lambda>_.
         bnd (tf_set p tf_sp PGSIZE) (\<lambda>_.
         bnd (pupd p (\<lambda>pr. pr\<lparr>p_name := safestrcpy (p_name pr) (cptr_of initcode_name) 16\<rparr>)) (\<lambda>_.
         bnd (namei [slash]) (\<lambda>cwd.
         seqM
          [pupd p (\<lambda>pr. pr\<lparr>p_cwd := cwd\<rparr>),
           pupd p (\<lambda>pr. pr\<lparr>p_state := RUNNABLE\<rparr>),
           release (ProcLock p)])))))))))"

text \<open>\<open>n\<close> is the 32-bit argument; \<open>sz + n\<close> sign-extends it to 64 bits.\<close>

definition growproc :: "u32 \<Rightarrow> ('z sched_st_scheme, int) kmon" where
  "growproc n =
     bnd myproc (\<lambda>p.
     bnd (pget p) (\<lambda>pr.
     let sz = p_sz pr in
     if sint n > 0 then
       bnd (uvmalloc (p_pagetable pr) sz (sz + scast n) PTE_W) (\<lambda>sz'.
       if sz' = 0 then ret (-1)
       else bnd (pupd p (\<lambda>pr. pr\<lparr>p_sz := sz'\<rparr>)) (\<lambda>_. ret 0))
     else if sint n < 0 then
       bnd (uvmdealloc (p_pagetable pr) sz (sz + scast n)) (\<lambda>sz'.
       bnd (pupd p (\<lambda>pr. pr\<lparr>p_sz := sz'\<rparr>)) (\<lambda>_. ret 0))
     else ret 0))"

section \<open>\<open>fork\<close>, \<open>exit\<close>, \<open>wait\<close>\<close>

definition fork :: "('z proc_st_scheme, int) kmon" where
  "fork =
     bnd myproc (\<lambda>p.
     bnd allocproc (\<lambda>r.
     case r of
       None \<Rightarrow> ret (-1)
     | Some np \<Rightarrow>
         bnd (pget p) (\<lambda>pr.
         bnd (pget np) (\<lambda>npr.
         bnd (uvmcopy (p_pagetable pr) (p_pagetable npr) (p_sz pr)) (\<lambda>c.
         if c < 0 then seq_ret [freeproc np, release (ProcLock np)] (-1)
         else
           bnd (pupd np (\<lambda>x. x\<lparr>p_sz := p_sz pr\<rparr>)) (\<lambda>_.
           bnd (modify (\<lambda>s. s\<lparr>phys := memmove (phys s) (p_trapframe npr) (p_trapframe pr) TF_SIZE\<rparr>)) (\<lambda>_.
           bnd (tf_set np (tf_a 0) 0) (\<lambda>_.
           bnd (forM [0..<NOFILE] (\<lambda>i.
             case p_ofile pr ! i of
               None \<Rightarrow> ret ()
             | Some f \<Rightarrow>
                 bnd (filedup f) (\<lambda>f'.
                 pupd np (\<lambda>x. x\<lparr>p_ofile := (p_ofile x)[i := Some f']\<rparr>)))) (\<lambda>_.
           bnd (case p_cwd pr of None \<Rightarrow> panic ''kerneltrap'' | Some c \<Rightarrow> idup c) (\<lambda>cwd.
           seq_ret
            [pupd np (\<lambda>x. x\<lparr>p_cwd := Some cwd\<rparr>),
             pupd np (\<lambda>x. x\<lparr>p_name := safestrcpy (p_name x) (cptr_of (p_name pr)) 16\<rparr>),
             release (ProcLock np),
             acquire WaitLock,
             pupd np (\<lambda>x. x\<lparr>p_parent := Some p\<rparr>),
             release WaitLock,
             acquire (ProcLock np),
             pupd np (\<lambda>x. x\<lparr>p_state := RUNNABLE\<rparr>),
             release (ProcLock np)]
            (sint (p_pid npr))))))))))))"

definition reparent :: "nat \<Rightarrow> ('z sched_st_scheme, unit) kmon" where
  "reparent p =
     forM [0..<NPROC] (\<lambda>i.
       bnd (pget i) (\<lambda>pp.
       whenM (p_parent pp = Some p)
         (bnd (gets initproc) (\<lambda>ip.
          seqM [pupd i (\<lambda>x. x\<lparr>p_parent := ip\<rparr>), wakeup (proc_chan ip)]))))"

definition exit_close :: "nat \<Rightarrow> ('z file_st_scheme, unit) kmon" where
  "exit_close p =
     forM [0..<NOFILE] (\<lambda>fd.
       bnd (pget p) (\<lambda>pr.
       case p_ofile pr ! fd of
         None \<Rightarrow> ret ()
       | Some f \<Rightarrow> seqM [fileclose f, pupd p (\<lambda>x. x\<lparr>p_ofile := (p_ofile x)[fd := None]\<rparr>)]))"

text \<open>\<open>exit\<close> from the point where it takes \<open>wait_lock\<close>.\<close>

definition exit_tail :: "nat \<Rightarrow> u32 \<Rightarrow> ('z sched_st_scheme, unit) kmon" where
  "exit_tail p status =
     seqM
      [acquire WaitLock,
       reparent p,
       bnd (pget p) (\<lambda>pr. wakeup (proc_chan (p_parent pr))),
       acquire (ProcLock p),
       pupd p (\<lambda>x. x\<lparr>p_xstate := status\<rparr>),
       pupd p (\<lambda>x. x\<lparr>p_state := ZOMBIE\<rparr>),
       release WaitLock,
       sched,
       panic ''zombie exit'']"

definition exit :: "u32 \<Rightarrow> ('z file_st_scheme, unit) kmon" where
  "exit status =
     bnd myproc (\<lambda>p.
     bnd (gets initproc) (\<lambda>ip.
     bnd (panic_if (Some p = ip) ''init exiting'') (\<lambda>_.
     seqM
      [exit_close p,
       begin_op,
       bnd (pget p) (\<lambda>pr. case p_cwd pr of None \<Rightarrow> panic ''kerneltrap'' | Some c \<Rightarrow> iput c),
       end_op,
       pupd p (\<lambda>x. x\<lparr>p_cwd := None\<rparr>),
       exit_tail p status])))"

text \<open>
  The scan of \<open>wait\<close>: the value to return, or whether there are children. \<open>Inl\<close> is the early
  return, which has released both locks.
\<close>

fun wait_scan :: "nat \<Rightarrow> u64 \<Rightarrow> bool \<Rightarrow> nat list \<Rightarrow> ('z sched_st_scheme, int + bool) kmon" where
  "wait_scan p addr havekids [] = ret (Inr havekids)"
| "wait_scan p addr havekids (i # is') =
     bnd (pget i) (\<lambda>pp.
     if p_parent pp = Some p then
       bnd (acquire (ProcLock i)) (\<lambda>_.
       bnd (pget i) (\<lambda>pp.
       if p_state pp = ZOMBIE then
         bnd (pget p) (\<lambda>pr.
         bnd (if addr \<noteq> 0 then copyout (p_pagetable pr) addr (to_le (p_xstate pp)) else ret 0) (\<lambda>r.
         if r < 0 then seq_ret [release (ProcLock i), release WaitLock] (Inl (-1))
         else
           seq_ret [freeproc i, release (ProcLock i), release WaitLock] (Inl (sint (p_pid pp)))))
       else bnd (release (ProcLock i)) (\<lambda>_. wait_scan p addr True is')))
     else wait_scan p addr havekids is')"

text \<open>\<open>wait\<close> from the head of its loop.\<close>

definition wait_loop :: "u64 \<Rightarrow> ('z sched_st_scheme, int) kmon" where
  "wait_loop addr =
     bnd myproc (\<lambda>p.
     bnd (wait_scan p addr False [0..<NPROC]) (\<lambda>r.
     case r of
       Inl v \<Rightarrow> ret v
     | Inr havekids \<Rightarrow>
         bnd (if \<not> havekids then ret True else killed p) (\<lambda>stop.
         if stop then bnd (release WaitLock) (\<lambda>_. ret (-1))
         else
           bnd (sleep (ProcChan p) WaitLock) (\<lambda>_.
           panic ''sleep returned''))))"

definition wait :: "u64 \<Rightarrow> ('z sched_st_scheme, int) kmon" where
  "wait addr = bnd (acquire WaitLock) (\<lambda>_. wait_loop addr)"

definition wait_resume :: "u64 \<Rightarrow> ('z sched_st_scheme, int) kmon" where
  "wait_resume addr = bnd (sleep_resume WaitLock) (\<lambda>_. wait_loop addr)"

end
