(* ===== verification/Exec.thy ===== *)
theory Exec
  imports Proc
begin

text \<open>
  \<open>exec\<close>, kernel/exec.c. The structures \<open>elf\<close> and \<open>ph\<close> are read into the local buffer of the
  thread and taken apart at the offsets of kernel/elf.h. \<open>argv\<close> is an array of addresses of
  strings in kernel memory.
\<close>

section \<open>ELF headers (kernel/elf.h)\<close>

definition ELF_MAGIC :: u32 where "ELF_MAGIC = 0x464C457F"
definition ELF_PROG_LOAD :: u32 where "ELF_PROG_LOAD = 1"

record elfhdr =
  e_magic :: u32
  e_entry :: u64
  e_phoff :: u64
  e_phnum :: u16

record proghdr =
  ph_type :: u32
  ph_flags :: u32
  ph_off :: u64
  ph_vaddr :: u64
  ph_filesz :: u64
  ph_memsz :: u64

definition elfhdr_of :: "byte list \<Rightarrow> elfhdr" where
  "elfhdr_of b =
     \<lparr>e_magic = get_le 0 b, e_entry = get_le 24 b, e_phoff = get_le 32 b, e_phnum = get_le 56 b\<rparr>"

definition proghdr_of :: "byte list \<Rightarrow> proghdr" where
  "proghdr_of b =
     \<lparr>ph_type = get_le 0 b, ph_flags = get_le 4 b, ph_off = get_le 8 b, ph_vaddr = get_le 16 b,
      ph_filesz = get_le 32 b, ph_memsz = get_le 40 b\<rparr>"

text \<open>\<open>readi\<close> of \<open>len\<close> bytes into a local variable at \<open>kvar + at\<close>; \<open>None\<close> if fewer were read.\<close>

definition read_local :: "nat \<Rightarrow> u64 \<Rightarrow> u32 \<Rightarrow> nat \<Rightarrow> ('z fs_st_scheme, byte list option) kmon" where
  "read_local ip at off len =
     bnd (gets (\<lambda>s. kvar s + at)) (\<lambda>v.
     bnd (readi ip False v off (of_nat len)) (\<lambda>r.
     if r \<noteq> int len then ret None
     else gets (\<lambda>s. Some (load_bytes (phys s) v len))))"

section \<open>Loading\<close>

definition flags2perm :: "u32 \<Rightarrow> u64" where
  "flags2perm flags =
     (let perm = (if flags AND 1 \<noteq> 0 then PTE_X else 0) in
      if flags AND 2 \<noteq> 0 then perm OR PTE_W else perm)"

text \<open>
  The loop of \<open>loadseg\<close> over the page offsets below \<open>sz\<close>. A file is much shorter than 4 GiB, so
  \<open>readi\<close> comes up short before the 32-bit loop variable could wrap.
\<close>

fun loadseg_loop ::
  "nat list \<Rightarrow> u64 \<Rightarrow> u64 \<Rightarrow> nat \<Rightarrow> u32 \<Rightarrow> u32 \<Rightarrow> ('z fs_st_scheme, int) kmon" where
  "loadseg_loop [] pagetable va ip offset sz = ret 0"
| "loadseg_loop (i # is') pagetable va ip offset sz =
     bnd (walkaddr pagetable (va + of_nat i)) (\<lambda>pa.
     bnd (panic_if (pa = 0) ''loadseg: address should exist'') (\<lambda>_.
     let n = min (unat sz - i) 4096 in
     bnd (readi ip False pa (offset + of_nat i) (of_nat n)) (\<lambda>r.
     if r \<noteq> int n then ret (-1)
     else loadseg_loop is' pagetable va ip offset sz)))"

definition loadseg :: "u64 \<Rightarrow> u64 \<Rightarrow> nat \<Rightarrow> u32 \<Rightarrow> u32 \<Rightarrow> ('z fs_st_scheme, int) kmon" where
  "loadseg pagetable va ip offset sz =
     loadseg_loop (map (\<lambda>k. 4096 * k) [0..<(unat sz + 4095) div 4096]) pagetable va ip offset sz"

text \<open>
  The loop over the program headers, \<open>n\<close> of them still to do. It returns whether to go on (and
  not to \<open>bad\<close>) and the value of \<open>sz\<close> at that point.
\<close>

fun load_segments ::
  "nat \<Rightarrow> nat \<Rightarrow> u64 \<Rightarrow> u32 \<Rightarrow> u64 \<Rightarrow> ('z fs_st_scheme, bool \<times> u64) kmon" where
  "load_segments 0 ip pagetable off sz = ret (True, sz)"
| "load_segments (Suc n) ip pagetable off sz =
     bnd (read_local ip 64 off 56) (\<lambda>b.
     case b of
       None \<Rightarrow> ret (False, sz)
     | Some b \<Rightarrow>
         let ph = proghdr_of b in
         if ph_type ph \<noteq> ELF_PROG_LOAD then load_segments n ip pagetable (off + 56) sz
         else if ph_memsz ph < ph_filesz ph then ret (False, sz)
         else if ph_vaddr ph + ph_memsz ph < ph_vaddr ph then ret (False, sz)
         else if ph_vaddr ph mod PGSIZE \<noteq> 0 then ret (False, sz)
         else
           bnd (uvmalloc pagetable sz (ph_vaddr ph + ph_memsz ph) (flags2perm (ph_flags ph))) (\<lambda>sz1.
           if sz1 = 0 then ret (False, sz)
           else
             bnd (loadseg pagetable (ph_vaddr ph) ip (ucast (ph_off ph)) (ucast (ph_filesz ph))) (\<lambda>r.
             if r < 0 then ret (False, sz1)
             else load_segments n ip pagetable (off + 56) sz1)))"

section \<open>The stack and the arguments\<close>

text \<open>A string in kernel memory and its length; \<open>strlen\<close> does not return without a NUL.\<close>

definition kstr :: "('z kmem_scheme) \<Rightarrow> u64 \<Rightarrow> cptr" where
  "kstr s p = (\<lambda>i. phys s (p + of_nat i))"

definition kstrlen :: "cptr \<Rightarrow> ('s, nat) kmon" where
  "kstrlen p = (case strlen p of None \<Rightarrow> panic ''undefined: string without NUL'' | Some n \<Rightarrow> ret n)"

text \<open>
  The loop that pushes the argument strings: \<open>None\<close> is \<open>goto bad\<close>. \<open>argv\<close> is the part of the
  array still to read; reading past its end is undefined.
\<close>

fun push_args ::
  "u64 list \<Rightarrow> u64 \<Rightarrow> u64 \<Rightarrow> u64 list \<Rightarrow> u64 \<Rightarrow> ('z kmem_scheme, (u64 list \<times> u64) option) kmon" where
  "push_args [] pagetable stackbase ustack sp = panic ''undefined: argv''"
| "push_args (a # as) pagetable stackbase ustack sp =
     (if a = 0 then ret (Some (ustack, sp))
      else if length ustack \<ge> MAXARG then ret None
      else
        bnd (gets (\<lambda>s. kstr s a)) (\<lambda>str.
        bnd (kstrlen str) (\<lambda>len.
        let sp = sp - of_nat (len + 1); sp = sp - sp mod 16 in
        if sp < stackbase then ret None
        else
          bnd (copyout pagetable sp (map str [0..<len + 1])) (\<lambda>r.
          if r < 0 then ret None
          else push_args as pagetable stackbase (ustack @ [sp]) sp))))"

text \<open>The program name: what follows the last slash.\<close>

fun last_elem :: "byte list \<Rightarrow> byte list \<Rightarrow> byte list" where
  "last_elem l [] = l"
| "last_elem l (c # s) = (if c = slash then last_elem s s else last_elem l s)"

definition exec_bad :: "u64 \<Rightarrow> u64 \<Rightarrow> nat option \<Rightarrow> ('z fs_st_scheme, int) kmon" where
  "exec_bad pagetable sz ip =
     seq_ret
      [whenM (pagetable \<noteq> 0) (proc_freepagetable pagetable sz),
       case ip of None \<Rightarrow> ret () | Some ip \<Rightarrow> seqM [iunlockput ip, end_op]]
      (-1)"

text \<open>From the allocation of the stack to the end, after the file is closed.\<close>

definition exec_image ::
  "nat \<Rightarrow> byte list \<Rightarrow> u64 list \<Rightarrow> u64 \<Rightarrow> u64 \<Rightarrow> u64 \<Rightarrow> ('z fs_st_scheme, int) kmon" where
  "exec_image p path argv pagetable sz entry =
     bnd (pget p) (\<lambda>pr.
     let oldsz = p_sz pr; sz = PGROUNDUP sz in
     bnd (uvmalloc pagetable sz (sz + (of_nat USERSTACK + 1) * PGSIZE) PTE_W) (\<lambda>sz1.
     if sz1 = 0 then exec_bad pagetable sz None
     else
       bnd (uvmclear pagetable (sz1 - (of_nat USERSTACK + 1) * PGSIZE)) (\<lambda>_.
       let stackbase = sz1 - of_nat USERSTACK * PGSIZE in
       bnd (push_args argv pagetable stackbase [] sz1) (\<lambda>r.
       case r of
         None \<Rightarrow> exec_bad pagetable sz1 None
       | Some (ustack, sp) \<Rightarrow>
           bnd (panic_if (length ustack \<ge> MAXARG) ''undefined: ustack'') (\<lambda>_.
           let argc = length ustack; sp = sp - of_nat ((argc + 1) * 8); sp = sp - sp mod 16 in
           if sp < stackbase then exec_bad pagetable sz1 None
           else
             bnd (copyout pagetable sp (concat (map to_le (ustack @ [0])))) (\<lambda>c.
             if c < 0 then exec_bad pagetable sz1 None
             else
               seq_ret
                [tf_set p (tf_a 1) sp,
                 pupd p (\<lambda>x. x\<lparr>p_name := safestrcpy (p_name x) (cptr_of (last_elem path path)) 16\<rparr>),
                 pupd p (\<lambda>x. x\<lparr>p_pagetable := pagetable, p_sz := sz1\<rparr>),
                 tf_set p tf_epc entry,
                 tf_set p tf_sp sp,
                 proc_freepagetable (p_pagetable pr) oldsz]
                (int argc)))))))"

definition exec :: "byte list \<Rightarrow> u64 list \<Rightarrow> ('z fs_st_scheme, int) kmon" where
  "exec path argv =
     bnd myproc (\<lambda>p.
     bnd begin_op (\<lambda>_.
     bnd (namei path) (\<lambda>r.
     case r of
       None \<Rightarrow> seq_ret [end_op] (-1)
     | Some ip \<Rightarrow>
         bnd (ilock ip) (\<lambda>_.
         bnd (read_local ip 0 0 64) (\<lambda>b.
         case b of
           None \<Rightarrow> exec_bad 0 0 (Some ip)
         | Some b \<Rightarrow>
             let elf = elfhdr_of b in
             if e_magic elf \<noteq> ELF_MAGIC then exec_bad 0 0 (Some ip)
             else
               bnd (proc_pagetable p) (\<lambda>pagetable.
               if pagetable = 0 then exec_bad 0 0 (Some ip)
               else
                 bnd (load_segments (unat (e_phnum elf)) ip pagetable (ucast (e_phoff elf)) 0) (\<lambda>(ok, sz).
                 if \<not> ok then exec_bad pagetable sz (Some ip)
                 else
                   bnd (seqM [iunlockput ip, end_op]) (\<lambda>_.
                   exec_image p path argv pagetable sz (e_entry elf)))))))))"

end
