(* ===== verification/Sysfile.thy ===== *)
theory Sysfile
  imports Exec
begin

text \<open>
  System calls: fetching arguments (kernel/syscall.c), the file-system calls (kernel/sysfile.c),
  the process calls (kernel/sysproc.c) and the dispatch. A result is the 64-bit value that goes
  into \<open>a0\<close>; \<open>-1\<close> is an error.
\<close>

section \<open>Arguments (kernel/syscall.c)\<close>

text \<open>\<open>fetchaddr\<close>: the word, or \<open>None\<close> for the result \<open>-1\<close>.\<close>

definition fetchaddr :: "u64 \<Rightarrow> ('z sched_st_scheme, u64 option) kmon" where
  "fetchaddr addr =
     bnd myproc (\<lambda>p.
     bnd (pget p) (\<lambda>pr.
     if addr \<ge> p_sz pr \<or> addr + 8 > p_sz pr then ret None
     else
       bnd (copyin (p_pagetable pr) addr 8) (\<lambda>(r, bs).
       ret (if r \<noteq> 0 then None else Some (get_le 0 bs)))))"

text \<open>\<open>fetchstr\<close>: the result and the bytes stored in \<open>buf\<close>.\<close>

definition fetchstr :: "u64 \<Rightarrow> nat \<Rightarrow> ('z sched_st_scheme, int \<times> byte list) kmon" where
  "fetchstr addr mx =
     bnd myproc (\<lambda>p.
     bnd (pget p) (\<lambda>pr.
     bnd (copyinstr (p_pagetable pr) addr mx) (\<lambda>(r, buf).
     if r < 0 then ret (-1, buf)
     else bnd (kstrlen (cptr_of buf)) (\<lambda>n. ret (int n, buf)))))"

definition argraw :: "nat \<Rightarrow> ('z sched_st_scheme, u64) kmon" where
  "argraw n =
     bnd myproc (\<lambda>p.
     if n < 6 then tf_get p (tf_a n) else panic ''argraw'')"

definition argint :: "nat \<Rightarrow> ('z sched_st_scheme, u32) kmon" where
  "argint n = bnd (argraw n) (\<lambda>v. ret (ucast v))"

definition argaddr :: "nat \<Rightarrow> ('z sched_st_scheme, u64) kmon" where
  "argaddr n = argraw n"

text \<open>\<open>argstr\<close>: the string without its NUL, \<open>None\<close> for an error.\<close>

definition argstr :: "nat \<Rightarrow> nat \<Rightarrow> ('z sched_st_scheme, byte list option) kmon" where
  "argstr n mx =
     bnd (argaddr n) (\<lambda>addr.
     bnd (fetchstr addr mx) (\<lambda>(r, buf).
     ret (if r < 0 then None else Some (take (nat r) buf))))"

section \<open>File descriptors (kernel/sysfile.c)\<close>

definition argfd :: "nat \<Rightarrow> ('z sched_st_scheme, (nat \<times> nat) option) kmon" where
  "argfd n =
     bnd (argint n) (\<lambda>fd.
     if sint fd < 0 \<or> sint fd \<ge> int NOFILE then ret None
     else
       bnd myproc (\<lambda>p.
       bnd (pget p) (\<lambda>pr.
       ret (case p_ofile pr ! unat fd of None \<Rightarrow> None | Some f \<Rightarrow> Some (unat fd, f)))))"

definition fdalloc :: "nat \<Rightarrow> ('z sched_st_scheme, int) kmon" where
  "fdalloc f =
     bnd myproc (\<lambda>p.
     bnd (pget p) (\<lambda>pr.
     case find (\<lambda>fd. p_ofile pr ! fd = None) [0..<NOFILE] of
       Some fd \<Rightarrow>
         bnd (pupd p (\<lambda>x. x\<lparr>p_ofile := (p_ofile x)[fd := Some f]\<rparr>)) (\<lambda>_. ret (int fd))
     | None \<Rightarrow> ret (-1)))"

definition sys_dup :: "('z file_st_scheme, u64) kmon" where
  "sys_dup =
     bnd (argfd 0) (\<lambda>r.
     case r of
       None \<Rightarrow> ret (-1)
     | Some (_, f) \<Rightarrow>
         bnd (fdalloc f) (\<lambda>fd.
         if fd < 0 then ret (-1)
         else bnd (filedup f) (\<lambda>_. ret (of_int fd))))"

definition sys_read :: "('z file_st_scheme, u64) kmon" where
  "sys_read =
     bnd (argaddr 1) (\<lambda>p.
     bnd (argint 2) (\<lambda>n.
     bnd (argfd 0) (\<lambda>r.
     case r of
       None \<Rightarrow> ret (-1)
     | Some (_, f) \<Rightarrow> bnd (fileread f p (sint n)) (\<lambda>v. ret (of_int v)))))"

definition sys_write :: "('z file_st_scheme, u64) kmon" where
  "sys_write =
     bnd (argaddr 1) (\<lambda>p.
     bnd (argint 2) (\<lambda>n.
     bnd (argfd 0) (\<lambda>r.
     case r of
       None \<Rightarrow> ret (-1)
     | Some (_, f) \<Rightarrow> bnd (filewrite f p (sint n)) (\<lambda>v. ret (of_int v)))))"

definition sys_close :: "('z file_st_scheme, u64) kmon" where
  "sys_close =
     bnd (argfd 0) (\<lambda>r.
     case r of
       None \<Rightarrow> ret (-1)
     | Some (fd, f) \<Rightarrow>
         bnd myproc (\<lambda>p.
         seq_ret [pupd p (\<lambda>x. x\<lparr>p_ofile := (p_ofile x)[fd := None]\<rparr>), fileclose f] 0))"

definition sys_fstat :: "('z file_st_scheme, u64) kmon" where
  "sys_fstat =
     bnd (argaddr 1) (\<lambda>st.
     bnd (argfd 0) (\<lambda>r.
     case r of
       None \<Rightarrow> ret (-1)
     | Some (_, f) \<Rightarrow> bnd (filestat f st) (\<lambda>v. ret (of_int v))))"

section \<open>Links and directories\<close>

text \<open>The label \<open>bad\<close> of \<open>sys_link\<close>.\<close>

definition link_bad :: "nat \<Rightarrow> ('z fs_st_scheme, u64) kmon" where
  "link_bad ip =
     seq_ret
      [ilock ip, iupd ip (\<lambda>i. i\<lparr>i_nlink := i_nlink i - 1\<rparr>), iupdate ip, iunlockput ip, end_op] (-1)"

definition sys_link :: "('z fs_st_scheme, u64) kmon" where
  "sys_link =
     bnd (argstr 0 MAXPATH) (\<lambda>old.
     case old of None \<Rightarrow> ret (-1) | Some old \<Rightarrow>
     bnd (argstr 1 MAXPATH) (\<lambda>new.
     case new of None \<Rightarrow> ret (-1) | Some new \<Rightarrow>
     bnd begin_op (\<lambda>_.
     bnd (namei old) (\<lambda>r.
     case r of
       None \<Rightarrow> seq_ret [end_op] (-1)
     | Some ip \<Rightarrow>
         bnd (ilock ip) (\<lambda>_.
         bnd (iget_ino ip) (\<lambda>i.
         if i_type i = T_DIR then seq_ret [iunlockput ip, end_op] (-1)
         else
           bnd (seqM [iupd ip (\<lambda>i. i\<lparr>i_nlink := i_nlink i + 1\<rparr>), iupdate ip, iunlock ip]) (\<lambda>_.
           bnd (nameiparent new) (\<lambda>r.
           case r of
             None \<Rightarrow> link_bad ip
           | Some (dp, name) \<Rightarrow>
               bnd (ilock dp) (\<lambda>_.
               bnd (iget_ino dp) (\<lambda>d.
               bnd (iget_ino ip) (\<lambda>i.
               bnd (if i_dev d \<noteq> i_dev i then ret (-1) else dirlink dp name (i_inum i)) (\<lambda>l.
               if l < 0 then bnd (iunlockput dp) (\<lambda>_. link_bad ip)
               else seq_ret [iunlockput dp, iput ip, end_op] 0))))))))))))"

definition isdirempty :: "nat \<Rightarrow> ('z fs_st_scheme, bool) kmon" where
  "isdirempty dp =
     bnd (iget_ino dp) (\<lambda>i.
     bnd (findM (filter (\<lambda>off. 32 \<le> off) (dirent_offs (i_size i))) (\<lambda>off.
       bnd (read_dirent dp off ''isdirempty: readi'') (\<lambda>de.
       ret (if de_inum de \<noteq> 0 then Some () else None)))) (\<lambda>r.
     ret (r = None)))"

definition dot :: "byte list" where "dot = [46]"
definition dotdot :: "byte list" where "dotdot = [46, 46]"

definition sys_unlink :: "('z fs_st_scheme, u64) kmon" where
  "sys_unlink =
     bnd (argstr 0 MAXPATH) (\<lambda>path.
     case path of None \<Rightarrow> ret (-1) | Some path \<Rightarrow>
     bnd begin_op (\<lambda>_.
     bnd (nameiparent path) (\<lambda>r.
     case r of
       None \<Rightarrow> seq_ret [end_op] (-1)
     | Some (dp, name) \<Rightarrow>
         bnd (ilock dp) (\<lambda>_.
         if namecmp name dot = 0 \<or> namecmp name dotdot = 0 then seq_ret [iunlockput dp, end_op] (-1)
         else
           bnd (dirlookup dp name) (\<lambda>l.
           case l of
             None \<Rightarrow> seq_ret [iunlockput dp, end_op] (-1)
           | Some (ip, off) \<Rightarrow>
               bnd (ilock ip) (\<lambda>_.
               bnd (iget_ino ip) (\<lambda>i.
               bnd (panic_if (sint (i_nlink i) < 1) ''unlink: nlink < 1'') (\<lambda>_.
               bnd (if i_type i = T_DIR then isdirempty ip else ret True) (\<lambda>ok.
               if \<not> ok then seq_ret [iunlockput ip, iunlockput dp, end_op] (-1)
               else
                 bnd (gets kvar) (\<lambda>de.
                 bnd (modify (\<lambda>s. s\<lparr>phys := memset (phys s) de 0 16\<rparr>)) (\<lambda>_.
                 bnd (writei dp False de (of_nat off) 16) (\<lambda>w.
                 bnd (panic_if (w \<noteq> 16) ''unlink: writei'') (\<lambda>_.
                 bnd (iget_ino ip) (\<lambda>i.
                 seq_ret
                  [whenM (i_type i = T_DIR)
                     (seqM [iupd dp (\<lambda>d. d\<lparr>i_nlink := i_nlink d - 1\<rparr>), iupdate dp]),
                   iunlockput dp,
                   iupd ip (\<lambda>i. i\<lparr>i_nlink := i_nlink i - 1\<rparr>),
                   iupdate ip,
                   iunlockput ip,
                   end_op] 0))))))))))))))"

text \<open>The last part of \<open>create\<close>, with both inodes locked; the label \<open>fail\<close> is at its end.\<close>

definition create_link ::
  "nat \<Rightarrow> nat \<Rightarrow> byte list \<Rightarrow> u16 \<Rightarrow> ('z fs_st_scheme, nat option) kmon" where
  "create_link dp ip name type =
     bnd (iget_ino ip) (\<lambda>i.
     bnd (iget_ino dp) (\<lambda>d.
     bnd (if type = T_DIR then
            bnd (dirlink ip dot (i_inum i)) (\<lambda>r.
            if r < 0 then ret False
            else bnd (dirlink ip dotdot (i_inum d)) (\<lambda>r. ret (r \<ge> 0)))
          else ret True) (\<lambda>ok.
     bnd (if ok then bnd (dirlink dp name (i_inum i)) (\<lambda>r. ret (r \<ge> 0)) else ret False) (\<lambda>ok.
     if ok then
       seq_ret
        [whenM (type = T_DIR)
           (seqM [iupd dp (\<lambda>d. d\<lparr>i_nlink := i_nlink d + 1\<rparr>), iupdate dp]),
         iunlockput dp] (Some ip)
     else
       seq_ret
        [iupd ip (\<lambda>i. i\<lparr>i_nlink := 0\<rparr>), iupdate ip, iunlockput ip, iunlockput dp] None))))"

definition create ::
  "byte list \<Rightarrow> u16 \<Rightarrow> u16 \<Rightarrow> u16 \<Rightarrow> ('z fs_st_scheme, nat option) kmon" where
  "create path type major minor =
     bnd (nameiparent path) (\<lambda>r.
     case r of
       None \<Rightarrow> ret None
     | Some (dp, name) \<Rightarrow>
         bnd (ilock dp) (\<lambda>_.
         bnd (dirlookup dp name) (\<lambda>l.
         case l of
           Some (ip, _) \<Rightarrow>
             bnd (iunlockput dp) (\<lambda>_.
             bnd (ilock ip) (\<lambda>_.
             bnd (iget_ino ip) (\<lambda>i.
             if type = T_FILE \<and> (i_type i = T_FILE \<or> i_type i = T_DEVICE) then ret (Some ip)
             else seq_ret [iunlockput ip] None)))
         | None \<Rightarrow>
             bnd (iget_ino dp) (\<lambda>d.
             bnd (ialloc (i_dev d) type) (\<lambda>a.
             case a of
               None \<Rightarrow> seq_ret [iunlockput dp] None
             | Some ip \<Rightarrow>
                 bnd (seqM
                  [ilock ip,
                   iupd ip (\<lambda>i. i\<lparr>i_major := major, i_minor := minor, i_nlink := 1\<rparr>),
                   iupdate ip]) (\<lambda>_.
                 create_link dp ip name type))))))"

section \<open>\<open>open\<close> and the rest\<close>

definition O_RDONLY :: u32 where "O_RDONLY = 0"
definition O_WRONLY :: u32 where "O_WRONLY = 1"
definition O_RDWR :: u32 where "O_RDWR = 2"
definition O_CREATE :: u32 where "O_CREATE = 0x200"
definition O_TRUNC :: u32 where "O_TRUNC = 0x400"

text \<open>The inode \<open>sys_open\<close> opens, locked; \<open>None\<close> after the early returns.\<close>

definition open_inode :: "byte list \<Rightarrow> u32 \<Rightarrow> ('z fs_st_scheme, nat option) kmon" where
  "open_inode path omode =
     (if omode AND O_CREATE \<noteq> 0 then
        bnd (create path T_FILE 0 0) (\<lambda>r.
        case r of None \<Rightarrow> seq_ret [end_op] None | Some ip \<Rightarrow> ret (Some ip))
      else
        bnd (namei path) (\<lambda>r.
        case r of
          None \<Rightarrow> seq_ret [end_op] None
        | Some ip \<Rightarrow>
            bnd (ilock ip) (\<lambda>_.
            bnd (iget_ino ip) (\<lambda>i.
            if i_type i = T_DIR \<and> omode \<noteq> O_RDONLY then seq_ret [iunlockput ip, end_op] None
            else ret (Some ip)))))"

definition sys_open :: "('z file_st_scheme, u64) kmon" where
  "sys_open =
     bnd (argint 1) (\<lambda>omode.
     bnd (argstr 0 MAXPATH) (\<lambda>path.
     case path of None \<Rightarrow> ret (-1) | Some path \<Rightarrow>
     bnd begin_op (\<lambda>_.
     bnd (open_inode path omode) (\<lambda>r.
     case r of
       None \<Rightarrow> ret (-1)
     | Some ip \<Rightarrow>
         bnd (iget_ino ip) (\<lambda>i.
         if i_type i = T_DEVICE \<and> (sint (i_major i) < 0 \<or> sint (i_major i) \<ge> int NDEV) then
           seq_ret [iunlockput ip, end_op] (-1)
         else
           bnd filealloc (\<lambda>fo.
           case fo of
             None \<Rightarrow> seq_ret [iunlockput ip, end_op] (-1)
           | Some f \<Rightarrow>
               bnd (fdalloc f) (\<lambda>fd.
               if fd < 0 then seq_ret [fileclose f, iunlockput ip, end_op] (-1)
               else
                 seq_ret
                  [if i_type i = T_DEVICE
                   then fupd f (\<lambda>x. x\<lparr>f_type := FD_DEVICE, f_major := i_major i\<rparr>)
                   else fupd f (\<lambda>x. x\<lparr>f_type := FD_INODE, f_off := 0\<rparr>),
                   fupd f (\<lambda>x. x\<lparr>f_ip := ip, f_readable := (omode AND O_WRONLY = 0),
                     f_writable := (omode AND O_WRONLY \<noteq> 0 \<or> omode AND O_RDWR \<noteq> 0)\<rparr>),
                   whenM (omode AND O_TRUNC \<noteq> 0 \<and> i_type i = T_FILE) (itrunc ip),
                   iunlock ip,
                   end_op]
                  (of_int fd))))))))"

definition sys_mkdir :: "('z fs_st_scheme, u64) kmon" where
  "sys_mkdir =
     bnd begin_op (\<lambda>_.
     bnd (argstr 0 MAXPATH) (\<lambda>path.
     bnd (case path of None \<Rightarrow> ret None | Some path \<Rightarrow> create path T_DIR 0 0) (\<lambda>r.
     case r of
       None \<Rightarrow> seq_ret [end_op] (-1)
     | Some ip \<Rightarrow> seq_ret [iunlockput ip, end_op] 0)))"

definition sys_mknod :: "('z fs_st_scheme, u64) kmon" where
  "sys_mknod =
     bnd begin_op (\<lambda>_.
     bnd (argint 1) (\<lambda>major.
     bnd (argint 2) (\<lambda>minor.
     bnd (argstr 0 MAXPATH) (\<lambda>path.
     bnd (case path of None \<Rightarrow> ret None | Some path \<Rightarrow>
            create path T_DEVICE (ucast major) (ucast minor)) (\<lambda>r.
     case r of
       None \<Rightarrow> seq_ret [end_op] (-1)
     | Some ip \<Rightarrow> seq_ret [iunlockput ip, end_op] 0)))))"

definition sys_chdir :: "('z fs_st_scheme, u64) kmon" where
  "sys_chdir =
     bnd myproc (\<lambda>p.
     bnd begin_op (\<lambda>_.
     bnd (argstr 0 MAXPATH) (\<lambda>path.
     bnd (case path of None \<Rightarrow> ret None | Some path \<Rightarrow> namei path) (\<lambda>r.
     case r of
       None \<Rightarrow> seq_ret [end_op] (-1)
     | Some ip \<Rightarrow>
         bnd (ilock ip) (\<lambda>_.
         bnd (iget_ino ip) (\<lambda>i.
         if i_type i \<noteq> T_DIR then seq_ret [iunlockput ip, end_op] (-1)
         else
           seq_ret
            [iunlock ip,
             bnd (pget p) (\<lambda>pr. case p_cwd pr of None \<Rightarrow> panic ''kerneltrap'' | Some c \<Rightarrow> iput c),
             end_op,
             pupd p (\<lambda>x. x\<lparr>p_cwd := Some ip\<rparr>)] 0))))))"

text \<open>
  The loop of \<open>sys_exec\<close> that fetches the argument strings into fresh pages: the array \<open>argv\<close> and
  whether it ended at the null pointer and not at \<open>bad\<close>.
\<close>

fun fetch_args :: "nat list \<Rightarrow> u64 \<Rightarrow> u64 list \<Rightarrow> ('z sched_st_scheme, bool \<times> u64 list) kmon" where
  "fetch_args [] uargv argv = ret (False, argv)"
| "fetch_args (i # is') uargv argv =
     bnd (fetchaddr (uargv + of_nat (8 * i))) (\<lambda>r.
     case r of
       None \<Rightarrow> ret (False, argv)
     | Some uarg \<Rightarrow>
         if uarg = 0 then ret (True, argv)
         else
           bnd kalloc (\<lambda>a.
           if a = 0 then ret (False, argv)
           else
             bnd (fetchstr uarg (unat PGSIZE)) (\<lambda>(r, buf).
             bnd (modify (\<lambda>s. s\<lparr>phys := store_bytes (phys s) a buf\<rparr>)) (\<lambda>_.
             if r < 0 then ret (False, argv @ [a])
             else fetch_args is' uargv (argv @ [a])))))"

definition sys_exec :: "('z fs_st_scheme, u64) kmon" where
  "sys_exec =
     bnd (argaddr 1) (\<lambda>uargv.
     bnd (argstr 0 MAXPATH) (\<lambda>path.
     case path of None \<Rightarrow> ret (-1) | Some path \<Rightarrow>
     bnd (fetch_args [0..<MAXARG] uargv []) (\<lambda>(ok, argv).
     bnd (if ok then exec path (argv @ replicate (MAXARG - length argv) 0) else ret (-1)) (\<lambda>r.
     bnd (forM argv kfree) (\<lambda>_.
     ret (of_int r))))))"

definition sys_pipe :: "('z file_st_scheme, u64) kmon" where
  "sys_pipe =
     bnd myproc (\<lambda>p.
     bnd (argaddr 0) (\<lambda>fdarray.
     bnd pipealloc (\<lambda>r.
     case r of
       None \<Rightarrow> ret (-1)
     | Some (rfile, wfile) \<Rightarrow>
         bnd (fdalloc rfile) (\<lambda>fd0.
         if fd0 < 0 then seq_ret [fileclose rfile, fileclose wfile] (-1)
         else
           bnd (fdalloc wfile) (\<lambda>fd1.
           let clear = (\<lambda>fd. pupd p (\<lambda>x. x\<lparr>p_ofile := (p_ofile x)[nat fd := None]\<rparr>)) in
           if fd1 < 0 then seq_ret [clear fd0, fileclose rfile, fileclose wfile] (-1)
           else
             bnd (pget p) (\<lambda>pr.
             bnd (copyout (p_pagetable pr) fdarray (to_le (of_int fd0 :: u32))) (\<lambda>c.
             bnd (if c < 0 then ret c
                  else copyout (p_pagetable pr) (fdarray + 4) (to_le (of_int fd1 :: u32))) (\<lambda>c.
             if c < 0 then seq_ret [clear fd0, clear fd1, fileclose rfile, fileclose wfile] (-1)
             else ret 0))))))))"

section \<open>Processes (kernel/sysproc.c)\<close>

text \<open>\<open>ticks\<close> counts the clock interrupts (kernel/trap.c).\<close>

record sys_st = proc_st +
  ticks :: u32

definition sys_exit :: "('z file_st_scheme, u64) kmon" where
  "sys_exit = bnd (argint 0) (\<lambda>n. bnd (exit n) (\<lambda>_. ret 0))"

definition sys_getpid :: "('z sched_st_scheme, u64) kmon" where
  "sys_getpid = bnd myproc (\<lambda>p. bnd (pget p) (\<lambda>pr. ret (scast (p_pid pr))))"

definition sys_fork :: "('z proc_st_scheme, u64) kmon" where
  "sys_fork = bnd fork (\<lambda>r. ret (of_int r))"

definition sys_wait :: "('z sched_st_scheme, u64) kmon" where
  "sys_wait = bnd (argaddr 0) (\<lambda>p. bnd (wait p) (\<lambda>r. ret (of_int r)))"

definition sys_sbrk :: "('z sched_st_scheme, u64) kmon" where
  "sys_sbrk =
     bnd (argint 0) (\<lambda>n.
     bnd myproc (\<lambda>p.
     bnd (pget p) (\<lambda>pr.
     bnd (growproc n) (\<lambda>r.
     ret (if r < 0 then -1 else p_sz pr)))))"

definition sys_sleep_loop :: "u32 \<Rightarrow> u32 \<Rightarrow> ('z sys_st_scheme, u64) kmon" where
  "sys_sleep_loop ticks0 n =
     bnd (gets (\<lambda>s. ticks s - ticks0 < n)) (\<lambda>more.
     if more then
       bnd myproc (\<lambda>p.
       bnd (killed p) (\<lambda>k.
       if k then seq_ret [release TicksLock] (-1)
       else
         bnd (sleep TicksChan TicksLock) (\<lambda>_.
         panic ''sleep returned'')))
     else seq_ret [release TicksLock] 0)"

definition sys_sleep :: "('z sys_st_scheme, u64) kmon" where
  "sys_sleep =
     bnd (argint 0) (\<lambda>n.
     let n = (if sint n < 0 then 0 else n) in
     bnd (acquire TicksLock) (\<lambda>_.
     bnd (gets ticks) (\<lambda>ticks0.
     sys_sleep_loop ticks0 n)))"

definition sys_sleep_resume :: "u32 \<Rightarrow> u32 \<Rightarrow> ('z sys_st_scheme, u64) kmon" where
  "sys_sleep_resume ticks0 n = bnd (sleep_resume TicksLock) (\<lambda>_. sys_sleep_loop ticks0 n)"

definition sys_kill :: "('z sched_st_scheme, u64) kmon" where
  "sys_kill = bnd (argint 0) (\<lambda>pid. bnd (kill pid) (\<lambda>r. ret (of_int r)))"

definition sys_uptime :: "('z sys_st_scheme, u64) kmon" where
  "sys_uptime =
     bnd (acquire TicksLock) (\<lambda>_.
     bnd (gets ticks) (\<lambda>xticks.
     seq_ret [release TicksLock] (ucast xticks)))"

definition sys_halt :: "('z sys_st_scheme, u64) kmon" where
  "sys_halt = ret 0"

section \<open>Dispatch (kernel/syscall.c, kernel/syscall.h)\<close>

definition syscalls :: "('z sys_st_scheme, u64) kmon list" where
  "syscalls =
     [sys_fork, sys_exit, sys_wait, sys_pipe, sys_read, sys_kill, sys_exec, sys_fstat, sys_chdir,
      sys_dup, sys_getpid, sys_sbrk, sys_sleep, sys_uptime, sys_open, sys_write, sys_mknod,
      sys_unlink, sys_link, sys_mkdir, sys_close, sys_halt]"

text \<open>Numbers start at 1; entry 0 of the C array is a null pointer.\<close>

definition syscall :: "('z sys_st_scheme, unit) kmon" where
  "syscall =
     bnd myproc (\<lambda>p.
     bnd (tf_get p (tf_a 7)) (\<lambda>a7.
     let num = sint (ucast a7 :: u32) in
     if 0 < num \<and> num < int (length (syscalls :: ('z sys_st_scheme, u64) kmon list)) + 1 then
       bnd (syscalls ! (nat num - 1)) (\<lambda>v. tf_set p (tf_a 0) v)
     else tf_set p (tf_a 0) (-1)))"

end
