(* ===== verification/Virtio.thy ===== *)
theory Virtio
  imports Sysfile
begin

text \<open>
  The driver of the virtio disk, kernel/virtio_disk.c. Descriptors name the memory the device
  reads and writes by what is there: a request header, the data of a buffer or a status byte. The
  rings and the status bytes are the state shared with the device; what the device does is not
  part of the driver.
\<close>

section \<open>Data (kernel/virtio.h)\<close>

definition NUM :: nat where "NUM = 8"
definition VRING_DESC_F_NEXT :: u16 where "VRING_DESC_F_NEXT = 1"
definition VRING_DESC_F_WRITE :: u16 where "VRING_DESC_F_WRITE = 2"
definition VIRTIO_BLK_T_IN :: u32 where "VIRTIO_BLK_T_IN = 0"
definition VIRTIO_BLK_T_OUT :: u32 where "VIRTIO_BLK_T_OUT = 1"

datatype dma = NoDma | OpsDma nat | DataDma nat | StatusDma nat

record virtq_desc =
  vq_addr :: dma
  vq_len :: u32
  vq_flags :: u16
  vq_next :: u16

record virtio_blk_req =
  rq_type :: u32
  rq_reserved :: u32
  rq_sector :: u64

text \<open>
  \<open>struct disk\<close> with the three rings. \<open>vd_mmio\<close> is what the device answers when a register is
  read, \<open>vd_writes\<close> the registers written.
\<close>

record virtio_st = sys_st +
  vd_desc :: "virtq_desc list"
  vd_avail_idx :: u16
  vd_avail_ring :: "u16 list"
  vd_used_ring_idx :: u16
  vd_used_ring :: "u32 list"
  vd_free :: "bool list"
  vd_used_idx :: u16
  vd_info_b :: "nat option list"
  vd_status :: "byte list"
  vd_ops :: "virtio_blk_req list"
  vd_queue :: "u64 \<times> u64 \<times> u64"
  vd_mmio :: "nat \<Rightarrow> u32"
  vd_writes :: "(nat \<times> u32) list"

section \<open>Initialization\<close>

definition read_reg :: "nat \<Rightarrow> ('z virtio_st_scheme, u32) kmon" where
  "read_reg r = gets (\<lambda>s. vd_mmio s r)"

definition write_reg :: "nat \<Rightarrow> u32 \<Rightarrow> ('z virtio_st_scheme, unit) kmon" where
  "write_reg r v = modify (\<lambda>s. s\<lparr>vd_writes := vd_writes s @ [(r, v)]\<rparr>)"

text \<open>The feature bits the driver does not accept.\<close>

definition VIRTIO_REFUSED :: "nat list" where
  "VIRTIO_REFUSED = [5, 7, 11, 12, 27, 29, 28]"

definition negotiate :: "u32 \<Rightarrow> u32" where
  "negotiate features = foldl (\<lambda>f b. f AND NOT (push_bit b 1)) features VIRTIO_REFUSED"

definition no_desc :: virtq_desc where
  "no_desc = \<lparr>vq_addr = NoDma, vq_len = 0, vq_flags = 0, vq_next = 0\<rparr>"

definition virtio_disk_init :: "('z virtio_st_scheme, unit) kmon" where
  "virtio_disk_init =
     bnd (read_reg 0x000) (\<lambda>magic.
     bnd (read_reg 0x004) (\<lambda>version.
     bnd (read_reg 0x008) (\<lambda>device_id.
     bnd (read_reg 0x00c) (\<lambda>vendor_id.
     bnd (panic_if (magic \<noteq> 0x74726976 \<or> version \<noteq> 2 \<or> device_id \<noteq> 2 \<or> vendor_id \<noteq> 0x554d4551)
       ''could not find virtio disk'') (\<lambda>_.
     bnd (seqM [write_reg 0x070 0, write_reg 0x070 1, write_reg 0x070 3]) (\<lambda>_.
     bnd (read_reg 0x010) (\<lambda>features.
     bnd (seqM [write_reg 0x020 (negotiate features), write_reg 0x070 11]) (\<lambda>_.
     bnd (read_reg 0x070) (\<lambda>status.
     bnd (panic_if (status AND 8 = 0) ''virtio disk FEATURES_OK unset'') (\<lambda>_.
     bnd (write_reg 0x030 0) (\<lambda>_.
     bnd (read_reg 0x044) (\<lambda>ready.
     bnd (panic_if (ready \<noteq> 0) ''virtio disk should not be ready'') (\<lambda>_.
     bnd (read_reg 0x034) (\<lambda>mx.
     bnd (panic_if (mx = 0) ''virtio disk has no queue 0'') (\<lambda>_.
     bnd (panic_if (mx < of_nat NUM) ''virtio disk max queue too short'') (\<lambda>_.
     bnd kalloc (\<lambda>desc.
     bnd kalloc (\<lambda>avail.
     bnd kalloc (\<lambda>used.
     bnd (panic_if (desc = 0 \<or> avail = 0 \<or> used = 0) ''virtio disk kalloc'') (\<lambda>_.
     seqM
      [modify (\<lambda>s. s\<lparr>phys := memset (phys s) desc 0 (unat PGSIZE)\<rparr>),
       modify (\<lambda>s. s\<lparr>phys := memset (phys s) avail 0 (unat PGSIZE)\<rparr>),
       modify (\<lambda>s. s\<lparr>phys := memset (phys s) used 0 (unat PGSIZE)\<rparr>),
       modify (\<lambda>s. s\<lparr>vd_queue := (desc, avail, used), vd_desc := replicate NUM no_desc,
         vd_avail_idx := 0, vd_avail_ring := replicate NUM 0,
         vd_used_ring_idx := 0, vd_used_ring := replicate NUM 0\<rparr>),
       write_reg 0x038 (of_nat NUM),
       write_reg 0x080 (ucast desc), write_reg 0x084 (ucast (drop_bit 32 desc)),
       write_reg 0x090 (ucast avail), write_reg 0x094 (ucast (drop_bit 32 avail)),
       write_reg 0x0a0 (ucast used), write_reg 0x0a4 (ucast (drop_bit 32 used)),
       write_reg 0x044 1,
       modify (\<lambda>s. s\<lparr>vd_free := replicate NUM True\<rparr>),
       write_reg 0x070 (status OR 4)]))))))))))))))))))))"

section \<open>Descriptors\<close>

definition alloc_desc :: "('z virtio_st_scheme, nat option) kmon" where
  "alloc_desc =
     bnd (gets vd_free) (\<lambda>fr.
     case find (\<lambda>i. fr ! i) [0..<NUM] of
       None \<Rightarrow> ret None
     | Some i \<Rightarrow>
         bnd (modify (\<lambda>s. s\<lparr>vd_free := (vd_free s)[i := False]\<rparr>)) (\<lambda>_. ret (Some i)))"

definition free_desc :: "nat \<Rightarrow> ('z virtio_st_scheme, unit) kmon" where
  "free_desc i =
     bnd (panic_if (i \<ge> NUM) ''free_desc 1'') (\<lambda>_.
     bnd (gets (\<lambda>s. vd_free s ! i)) (\<lambda>f.
     bnd (panic_if f ''free_desc 2'') (\<lambda>_.
     seqM
      [modify (\<lambda>s. s\<lparr>vd_desc := (vd_desc s)[i := no_desc]\<rparr>),
       modify (\<lambda>s. s\<lparr>vd_free := (vd_free s)[i := True]\<rparr>),
       wakeup DiskFreeChan])))"

text \<open>
  \<open>free_chain\<close>: every round frees a descriptor that was not free, or panics, so \<open>NUM + 1\<close> rounds
  are enough; the number of rounds left is the first argument.
\<close>

fun free_chain_from :: "nat \<Rightarrow> nat \<Rightarrow> ('z virtio_st_scheme, unit) kmon" where
  "free_chain_from 0 i = panic ''free_desc 2''"
| "free_chain_from (Suc n) i =
     bnd (gets (\<lambda>s. vd_desc s ! i)) (\<lambda>d.
     bnd (free_desc i) (\<lambda>_.
     if vq_flags d AND VRING_DESC_F_NEXT \<noteq> 0 then free_chain_from n (unat (vq_next d))
     else ret ()))"

definition free_chain :: "nat \<Rightarrow> ('z virtio_st_scheme, unit) kmon" where
  "free_chain i = free_chain_from (NUM + 1) i"

text \<open>\<open>alloc3_desc\<close>, with the descriptors found so far.\<close>

fun alloc_descs :: "nat \<Rightarrow> nat list \<Rightarrow> ('z virtio_st_scheme, nat list option) kmon" where
  "alloc_descs 0 idx = ret (Some idx)"
| "alloc_descs (Suc n) idx =
     bnd alloc_desc (\<lambda>d.
     case d of
       None \<Rightarrow> bnd (forM idx free_desc) (\<lambda>_. ret None)
     | Some i \<Rightarrow> alloc_descs n (idx @ [i]))"

definition alloc3_desc :: "('z virtio_st_scheme, nat list option) kmon" where
  "alloc3_desc = alloc_descs 3 []"

section \<open>Requests\<close>

definition set_desc :: "nat \<Rightarrow> virtq_desc \<Rightarrow> ('z virtio_st_scheme, unit) kmon" where
  "set_desc i d = modify (\<lambda>s. s\<lparr>vd_desc := (vd_desc s)[i := d]\<rparr>)"

text \<open>The three descriptors and the entry in the avail ring.\<close>

definition virtio_submit :: "nat \<Rightarrow> bool \<Rightarrow> nat \<Rightarrow> nat \<Rightarrow> nat \<Rightarrow> ('z virtio_st_scheme, unit) kmon" where
  "virtio_submit b write i0 i1 i2 =
     bnd (bget_buf b) (\<lambda>x.
     seqM
      [modify (\<lambda>s. s\<lparr>vd_ops := (vd_ops s)[i0 :=
         \<lparr>rq_type = (if write then VIRTIO_BLK_T_OUT else VIRTIO_BLK_T_IN), rq_reserved = 0,
          rq_sector = ucast (b_blockno x * of_nat (BSIZE div 512))\<rparr>]\<rparr>),
       set_desc i0 \<lparr>vq_addr = OpsDma i0, vq_len = 16, vq_flags = VRING_DESC_F_NEXT, vq_next = of_nat i1\<rparr>,
       set_desc i1 \<lparr>vq_addr = DataDma b, vq_len = of_nat BSIZE,
         vq_flags = (if write then 0 else VRING_DESC_F_WRITE) OR VRING_DESC_F_NEXT, vq_next = of_nat i2\<rparr>,
       modify (\<lambda>s. s\<lparr>vd_status := (vd_status s)[i0 := 0xff]\<rparr>),
       set_desc i2 \<lparr>vq_addr = StatusDma i0, vq_len = 1, vq_flags = VRING_DESC_F_WRITE, vq_next = 0\<rparr>,
       bupd b (\<lambda>x. x\<lparr>b_disk := True\<rparr>),
       modify (\<lambda>s. s\<lparr>vd_info_b := (vd_info_b s)[i0 := Some b]\<rparr>),
       modify (\<lambda>s. s\<lparr>vd_avail_ring := (vd_avail_ring s)[unat (vd_avail_idx s) mod NUM := of_nat i0]\<rparr>),
       modify (\<lambda>s. s\<lparr>vd_avail_idx := vd_avail_idx s + 1\<rparr>),
       write_reg 0x050 0])"

text \<open>From the loop that waits for the interrupt handler to the end.\<close>

definition virtio_wait :: "nat \<Rightarrow> nat \<Rightarrow> ('z virtio_st_scheme, unit) kmon" where
  "virtio_wait b i0 =
     bnd (bget_buf b) (\<lambda>x.
     if b_disk x then sleep (DiskBufChan b) VdiskLock
     else
       seqM
        [modify (\<lambda>s. s\<lparr>vd_info_b := (vd_info_b s)[i0 := None]\<rparr>),
         free_chain i0,
         release VdiskLock])"

definition virtio_disk_rw_loop :: "nat \<Rightarrow> bool \<Rightarrow> ('z virtio_st_scheme, unit) kmon" where
  "virtio_disk_rw_loop b write =
     bnd alloc3_desc (\<lambda>idx.
     case idx of
       Some [i0, i1, i2] \<Rightarrow> bnd (virtio_submit b write i0 i1 i2) (\<lambda>_. virtio_wait b i0)
     | _ \<Rightarrow> sleep DiskFreeChan VdiskLock)"

definition virtio_disk_rw :: "nat \<Rightarrow> bool \<Rightarrow> ('z virtio_st_scheme, unit) kmon" where
  "virtio_disk_rw b write = bnd (acquire VdiskLock) (\<lambda>_. virtio_disk_rw_loop b write)"

text \<open>Woken at \<open>sleep(&disk.free[0], ...)\<close> and at \<open>sleep(b, ...)\<close>.\<close>

definition virtio_disk_rw_resume :: "nat \<Rightarrow> bool \<Rightarrow> ('z virtio_st_scheme, unit) kmon" where
  "virtio_disk_rw_resume b write = bnd (sleep_resume VdiskLock) (\<lambda>_. virtio_disk_rw_loop b write)"

definition virtio_wait_resume :: "nat \<Rightarrow> nat \<Rightarrow> ('z virtio_st_scheme, unit) kmon" where
  "virtio_wait_resume b i0 = bnd (sleep_resume VdiskLock) (\<lambda>_. virtio_wait b i0)"

text \<open>One round of the loop in \<open>virtio_disk_intr\<close>.\<close>

definition virtio_complete :: "('z virtio_st_scheme, unit) kmon" where
  "virtio_complete =
     bnd (gets (\<lambda>s. unat (vd_used_ring s ! (unat (vd_used_idx s) mod NUM)))) (\<lambda>id.
     bnd (panic_if (id \<ge> NUM) ''undefined: disk.info'') (\<lambda>_.
     bnd (gets (\<lambda>s. vd_status s ! id)) (\<lambda>st.
     bnd (panic_if (st \<noteq> 0) ''virtio_disk_intr status'') (\<lambda>_.
     bnd (gets (\<lambda>s. vd_info_b s ! id)) (\<lambda>ob.
     case ob of
       None \<Rightarrow> panic ''kerneltrap''
     | Some b \<Rightarrow>
         seqM
          [bupd b (\<lambda>x. x\<lparr>b_disk := False\<rparr>),
           wakeup (DiskBufChan b),
           modify (\<lambda>s. s\<lparr>vd_used_idx := vd_used_idx s + 1\<rparr>)])))))"

definition virtio_disk_intr :: "('z virtio_st_scheme, unit) kmon" where
  "virtio_disk_intr =
     bnd (acquire VdiskLock) (\<lambda>_.
     bnd (read_reg 0x060) (\<lambda>st.
     bnd (write_reg 0x064 (st AND 3)) (\<lambda>_.
     bnd (gets (\<lambda>s. unat (vd_used_ring_idx s - vd_used_idx s))) (\<lambda>n.
     bnd (forM [0..<n] (\<lambda>_. virtio_complete)) (\<lambda>_.
     release VdiskLock)))))"

end
