(* ===== verification/Trap.thy ===== *)
theory Trap
  imports Virtio
begin

text \<open>
  Traps, kernel/trap.c, with the interrupt controller, kernel/plic.c, and \<open>forkret\<close> of
  kernel/proc.c, the first code of a new process. Control registers are fields of the state; the
  addresses of assembly routines and of \<open>usertrap\<close>, which the linker sets, are too.
\<close>

record trap_st = virtio_st +
  r_sepc :: u64
  r_scause :: u64
  r_stval :: u64
  r_sstatus :: u64
  r_stvec :: u64
  r_time :: u64
  r_stimecmp :: u64
  r_tp :: u64
  uservec_addr :: u64
  userret_addr :: u64
  usertrap_addr :: u64
  kernelvec_addr :: u64
  plic_pending :: "u32 list"
  plic_served :: "u32 list"

section \<open>Interrupt controller (kernel/plic.c)\<close>

definition UART0_IRQ :: u32 where "UART0_IRQ = 10"
definition VIRTIO0_IRQ :: u32 where "VIRTIO0_IRQ = 1"

text \<open>Reading the claim register takes the next pending interrupt, 0 if there is none.\<close>

definition plic_claim :: "('z trap_st_scheme, u32) kmon" where
  "plic_claim =
     bnd (gets plic_pending) (\<lambda>q.
     case q of
       [] \<Rightarrow> ret 0
     | irq # q' \<Rightarrow> bnd (modify (\<lambda>s. s\<lparr>plic_pending := q'\<rparr>)) (\<lambda>_. ret irq))"

definition plic_complete :: "u32 \<Rightarrow> ('z trap_st_scheme, unit) kmon" where
  "plic_complete irq = modify (\<lambda>s. s\<lparr>plic_served := plic_served s @ [irq]\<rparr>)"

section \<open>Device interrupts\<close>

definition trapinithart :: "('z trap_st_scheme, unit) kmon" where
  "trapinithart = modify (\<lambda>s. s\<lparr>r_stvec := kernelvec_addr s\<rparr>)"

definition clockintr :: "('z trap_st_scheme, unit) kmon" where
  "clockintr =
     bnd (gets (\<lambda>s. r_tp s = 0)) (\<lambda>hart0.
     bnd (whenM hart0
       (seqM
         [acquire TicksLock,
          modify (\<lambda>s. s\<lparr>ticks := ticks s + 1\<rparr>),
          wakeup TicksChan,
          release TicksLock])) (\<lambda>_.
     modify (\<lambda>s. s\<lparr>r_stimecmp := r_time s + 1000000\<rparr>)))"

definition devintr :: "('z trap_st_scheme, nat) kmon" where
  "devintr =
     bnd (gets r_scause) (\<lambda>scause.
     if scause = 0x8000000000000009 then
       bnd plic_claim (\<lambda>irq.
       bnd (if irq = UART0_IRQ then uartintr
            else if irq = VIRTIO0_IRQ then virtio_disk_intr
            else ret ()) (\<lambda>_.
       bnd (whenM (irq \<noteq> 0) (plic_complete irq)) (\<lambda>_.
       ret 1)))
     else if scause = 0x8000000000000005 then seq_ret [clockintr] 2
     else ret 0)"

section \<open>To and from user space\<close>

text \<open>
  \<open>usertrapret\<close> ends with a jump into the trampoline: its result is the target and the argument
  of the jump.
\<close>

definition usertrapret :: "('z trap_st_scheme, u64 \<times> u64) kmon" where
  "usertrapret =
     bnd myproc (\<lambda>p.
     bnd (pget p) (\<lambda>pr.
     bnd (gets id) (\<lambda>s.
     bnd (seqM
      [modify (\<lambda>s. s\<lparr>r_sstatus := r_sstatus s AND NOT SSTATUS_SIE\<rparr>),
       modify (\<lambda>s. s\<lparr>r_stvec := TRAMPOLINE + (uservec_addr s - trampoline s)\<rparr>),
       tf_set p tf_kernel_satp (satp s),
       tf_set p tf_kernel_sp (p_kstack pr + PGSIZE),
       tf_set p tf_kernel_trap (usertrap_addr s),
       tf_set p tf_kernel_hartid (r_tp s),
       modify (\<lambda>s. s\<lparr>r_sstatus := (r_sstatus s AND NOT SSTATUS_SPP) OR SSTATUS_SPIE\<rparr>),
       bnd (tf_get p tf_epc) (\<lambda>epc. modify (\<lambda>s. s\<lparr>r_sepc := epc\<rparr>))]) (\<lambda>_.
     ret (TRAMPOLINE + (userret_addr s - trampoline s), MAKE_SATP (p_pagetable pr))))))"

text \<open>
  The end of \<open>usertrap\<close>, after the trap has been handled. \<open>exit\<close> does not return; after \<open>yield\<close>
  the process goes on at \<open>usertrap_resume\<close>.
\<close>

definition usertrap_end :: "nat \<Rightarrow> nat \<Rightarrow> ('z trap_st_scheme, u64 \<times> u64) kmon" where
  "usertrap_end p which_dev =
     bnd (killed p) (\<lambda>k.
     bnd (whenM k (exit (-1))) (\<lambda>_.
     bnd (whenM (which_dev = 2) yield) (\<lambda>_.
     usertrapret)))"

definition usertrap :: "('z trap_st_scheme, u64 \<times> u64) kmon" where
  "usertrap =
     bnd (gets r_sstatus) (\<lambda>sst.
     bnd (panic_if (sst AND SSTATUS_SPP \<noteq> 0) ''usertrap: not from user mode'') (\<lambda>_.
     bnd trapinithart (\<lambda>_.
     bnd myproc (\<lambda>p.
     bnd (gets r_sepc) (\<lambda>epc.
     bnd (tf_set p tf_epc epc) (\<lambda>_.
     bnd (gets r_scause) (\<lambda>scause.
     if scause = 8 then
       bnd (killed p) (\<lambda>k.
       bnd (whenM k (exit (-1))) (\<lambda>_.
       bnd (tf_get p tf_epc) (\<lambda>epc.
       bnd (tf_set p tf_epc (epc + 4)) (\<lambda>_.
       bnd (modify (\<lambda>s. s\<lparr>r_sstatus := r_sstatus s OR SSTATUS_SIE\<rparr>)) (\<lambda>_.
       bnd syscall (\<lambda>_.
       usertrap_end p 0))))))
     else
       bnd devintr (\<lambda>which_dev.
       bnd (whenM (which_dev = 0) (setkilled p)) (\<lambda>_.
       usertrap_end p which_dev)))))))))"

definition usertrap_resume :: "('z trap_st_scheme, u64 \<times> u64) kmon" where
  "usertrap_resume = bnd yield_resume (\<lambda>_. usertrapret)"

text \<open>The last two lines of \<open>kerneltrap\<close>, also run when it gets the CPU back after \<open>yield\<close>.\<close>

definition kerneltrap_end :: "u64 \<Rightarrow> u64 \<Rightarrow> ('z trap_st_scheme, unit) kmon" where
  "kerneltrap_end sepc sst = modify (\<lambda>s. s\<lparr>r_sepc := sepc, r_sstatus := sst\<rparr>)"

definition kerneltrap :: "('z trap_st_scheme, unit) kmon" where
  "kerneltrap =
     bnd (gets r_sepc) (\<lambda>sepc.
     bnd (gets r_sstatus) (\<lambda>sst.
     bnd (panic_if (sst AND SSTATUS_SPP = 0) ''kerneltrap: not from supervisor mode'') (\<lambda>_.
     bnd (panic_if (sst AND SSTATUS_SIE \<noteq> 0) ''kerneltrap: interrupts enabled'') (\<lambda>_.
     bnd devintr (\<lambda>which_dev.
     bnd (panic_if (which_dev = 0) ''kerneltrap'') (\<lambda>_.
     bnd (gets cur) (\<lambda>c.
     bnd (whenM (which_dev = 2 \<and> c \<noteq> None) yield) (\<lambda>_.
     kerneltrap_end sepc sst))))))))"

definition kerneltrap_resume :: "u64 \<Rightarrow> u64 \<Rightarrow> ('z trap_st_scheme, unit) kmon" where
  "kerneltrap_resume sepc sst = bnd yield_resume (\<lambda>_. kerneltrap_end sepc sst)"

text \<open>\<open>forkret\<close> (kernel/proc.c); the flag \<open>first\<close> starts out true.\<close>

definition forkret :: "('z trap_st_scheme, u64 \<times> u64) kmon" where
  "forkret =
     bnd myproc (\<lambda>p.
     bnd (release (ProcLock p)) (\<lambda>_.
     bnd (gets first) (\<lambda>fi.
     bnd (whenM fi (seqM [fsinit ROOTDEV, modify (\<lambda>s. s\<lparr>first := False\<rparr>)])) (\<lambda>_.
     usertrapret))))"

section \<open>Start-up (kernel/main.c)\<close>

text \<open>
  What the first hart does before \<open>scheduler()\<close>. The calls that only initialize locks and device
  registers have no effect on the modelled state.
\<close>

definition kmain :: "('z trap_st_scheme, unit) kmon" where
  "kmain =
     seqM
      [consoleinit,
       kinit,
       kvminit,
       kvminithart,
       procinit,
       trapinithart,
       binit,
       iinit,
       virtio_disk_init,
       userinit]"

end
