(* ===== verification/Exit.thy ===== *)
theory Exit
  imports Proc
begin

text \<open>
  The end of a process, \<open>exit\<close> and \<open>reparent\<close> of kernel/proc.c: what is left in the process table
  when the process gives up the CPU for the last time.
\<close>

section \<open>Giving the children to init\<close>

definition is_child :: "nat \<Rightarrow> proc \<Rightarrow> bool" where
  "is_child p x \<longleftrightarrow> p_parent x = Some p"

text \<open>The entry of process \<open>i\<close> after the first \<open>n\<close> rounds of \<open>reparent\<close>.\<close>

definition adopted :: "nat \<Rightarrow> nat option \<Rightarrow> nat option \<Rightarrow> nat \<Rightarrow> proc list \<Rightarrow> nat \<Rightarrow> proc" where
  "adopted p ip me n ps i =
     (let x = (if i < n \<and> is_child p (ps ! i) then (ps ! i)\<lparr>p_parent := ip\<rparr> else ps ! i) in
      if (\<exists>j < n. is_child p (ps ! j)) \<and> Some i \<noteq> me then wake_proc (proc_chan ip) x else x)"

lemma wake_proc_simps [simp]:
  "p_parent (wake_proc ch x) = p_parent x" "wake_proc ch (wake_proc ch x) = wake_proc ch x"
  "wake_proc ch (x\<lparr>p_parent := q\<rparr>) = (wake_proc ch x)\<lparr>p_parent := q\<rparr>"
  by (simp_all add: wake_proc_def)

lemma adopted_Suc:
  assumes "n < length ps"
  shows "map (adopted p ip me (Suc n) ps) [0..<length ps] =
    (let qs = map (adopted p ip me n ps) [0..<length ps] in
     if is_child p (qs ! n) then wake_all me (proc_chan ip) (qs[n := (qs ! n)\<lparr>p_parent := ip\<rparr>]) else qs)"
proof -
  let ?qs = "map (adopted p ip me n ps) [0..<length ps]"
  have c: "is_child p (?qs ! n) \<longleftrightarrow> is_child p (ps ! n)"
    using assms by (simp add: adopted_def Let_def is_child_def)
  show ?thesis
  proof (cases "is_child p (ps ! n)")
    case True
    have "adopted p ip me (Suc n) ps i = (wake_all me (proc_chan ip) (?qs[n := (?qs ! n)\<lparr>p_parent := ip\<rparr>])) ! i"
      if i: "i < length ps" for i
      using True assms i by (auto simp: adopted_def Let_def wake_all_def nth_list_update less_Suc_eq is_child_def)
    then show ?thesis using True c by (intro nth_equalityI) (simp_all add: Let_def)
  next
    case False
    then have "adopted p ip me (Suc n) ps i = adopted p ip me n ps i" for i
      by (auto simp: adopted_def Let_def less_Suc_eq)
    then show ?thesis using False c by (simp add: Let_def)
  qed
qed

lemma reparent_rounds:
  assumes "\<forall>i. ProcLock i \<notin> set (held s)" "length (procs s) = NPROC" "n \<le> NPROC"
  shows "forM [0..<n] (\<lambda>i. bnd (pget i) (\<lambda>pp. whenM (p_parent pp = Some p)
      (bnd (gets initproc) (\<lambda>ip. seqM [pupd i (\<lambda>x. x\<lparr>p_parent := ip\<rparr>), wakeup (proc_chan ip)])))) s =
    Ok () (s\<lparr>procs := map (adopted p (initproc s) (cur s) n (procs s)) [0..<NPROC]\<rparr>)"
    (is "forM _ ?f _ = _")
  using assms(3)
proof (induction n)
  case 0
  have "map (adopted p (initproc s) (cur s) 0 (procs s)) [0..<NPROC] = procs s"
    using assms(2) by (intro nth_equalityI) (simp_all add: adopted_def)
  then show ?case by simp
next
  case (Suc n)
  let ?qs = "map (adopted p (initproc s) (cur s) n (procs s)) [0..<NPROC]"
  have n: "n < length (procs s)" "n \<le> NPROC" using Suc.prems assms(2) by simp_all
  note step = adopted_Suc [OF n(1), of p "initproc s" "cur s", unfolded assms(2)]
  show ?case unfolding upt_Suc_append [OF le0] forM_snoc
      bnd_Ok [where m = "forM [0..<n] ?f" and s = s, OF Suc.IH [OF n(2)]] step
    using n wakeup_run [of "s\<lparr>procs := ?qs[n := (?qs ! n)\<lparr>p_parent := initproc s\<rparr>]\<rparr>" "proc_chan (initproc s)"] assms(1)
    by (cases "is_child p (?qs ! n)") (simp_all add: bnd_case pget_def pupd_def is_child_def Let_def)
qed

lemma reparent_run:
  assumes "\<forall>i. ProcLock i \<notin> set (held s)" "length (procs s) = NPROC"
  shows "reparent p s = Ok () (s\<lparr>procs := map (adopted p (initproc s) (cur s) NPROC (procs s)) [0..<NPROC]\<rparr>)"
  unfolding reparent_def by (rule reparent_rounds [OF assms order_refl])

section \<open>Exit\<close>

text \<open>
  C17. What a process leaves behind when it exits, from the point on where its files are closed. It gives
  up the CPU holding only its own lock, is a zombie with the status for its parent, and keeps its entry
  otherwise. Each of its children, and no other process, has the init process as parent now. A parent
  asleep in \<open>wait\<close> can run, and so can init if it was asleep in \<open>wait\<close> and got a child. Nothing else has
  changed: not another field of a process, and nothing outside of the process table.
\<close>

theorem exit_leaves_zombie:
  fixes s :: "'z sched_st_scheme"
  assumes "held s = []" "cur s = Some p" "p < NPROC" "length (procs s) = NPROC"
    "p_parent (procs s ! p) = Some q" "q \<noteq> p" "initproc s = Some ip"
  shows "\<exists>ps. exit_tail p status s = Swtch (s\<lparr>held := [ProcLock p], procs := ps\<rparr>) \<and> length ps = NPROC \<and>
    ps ! p = (procs s ! p)\<lparr>p_xstate := status, p_state := ZOMBIE\<rparr> \<and>
    (\<forall>i < NPROC. i \<noteq> p \<longrightarrow> ps ! i = (procs s ! i)
       \<lparr>p_parent := (if p_parent (procs s ! i) = Some p then Some ip else p_parent (procs s ! i)),
        p_state := (if p_state (procs s ! i) = SLEEPING \<and> (p_chan (procs s ! i) = ProcChan q \<or>
            p_chan (procs s ! i) = ProcChan ip \<and> (\<exists>j < NPROC. p_parent (procs s ! j) = Some p))
          then RUNNABLE else p_state (procs s ! i))\<rparr>)"
proof -
  let ?A = "map (adopted p (initproc s) (cur s) NPROC (procs s)) [0..<NPROC]"
  let ?B = "wake_all (cur s) (ProcChan q) ?A"
  let ?C = "?B[p := (?B ! p)\<lparr>p_xstate := status, p_state := ZOMBIE\<rparr>]"
  let ?s1 = "s\<lparr>held := [WaitLock], procs := ?A\<rparr>"
  have r: "reparent p (s\<lparr>held := [WaitLock]\<rparr>) = Ok () ?s1" using reparent_run [of "s\<lparr>held := [WaitLock]\<rparr>" p] assms(4) by simp
  have Ap: "?A ! p = procs s ! p" using assms(2,3,5,6) by (simp add: adopted_def is_child_def)
  have w: "wakeup (ProcChan q) ?s1 = Ok () (?s1\<lparr>procs := ?B\<rparr>)" using wakeup_run [of ?s1 "ProcChan q"] by simp
  have "exit_tail p status s = Swtch (s\<lparr>held := [ProcLock p], procs := ?C\<rparr>)"
    using assms(1-5) r w Ap
    by (simp add: exit_tail_def bnd_case acquire_def release_def pget_def pupd_def sched_def myproc_def proc_chan_def)
  moreover have "?B ! p = procs s ! p" using Ap assms(2,3) by (simp add: wake_all_def)
  moreover have "?B ! i = (procs s ! i)
       \<lparr>p_parent := (if p_parent (procs s ! i) = Some p then Some ip else p_parent (procs s ! i)),
        p_state := (if p_state (procs s ! i) = SLEEPING \<and> (p_chan (procs s ! i) = ProcChan q \<or>
            p_chan (procs s ! i) = ProcChan ip \<and> (\<exists>j < NPROC. p_parent (procs s ! j) = Some p))
          then RUNNABLE else p_state (procs s ! i))\<rparr>" if "i < NPROC" "i \<noteq> p" for i
    using that assms(2,7) by (auto simp: wake_all_def adopted_def Let_def is_child_def wake_proc_def proc_chan_def)
  ultimately show ?thesis using assms(3) by (intro exI [of _ ?C]) simp
qed

text \<open>Process 2 exits; process 1 is its parent and sleeps in \<open>wait\<close>, process 3 is its child, and process 0 is init.\<close>

definition exit_example :: sched_st where
  "exit_example = sched_example\<lparr>held := [], cur := Some 2, initproc := Some 0, procs := (replicate NPROC proc0)
     [1 := proc0\<lparr>p_state := SLEEPING, p_chan := ProcChan 1\<rparr>,
      2 := proc0\<lparr>p_state := RUNNING, p_parent := Some 1\<rparr>,
      3 := proc0\<lparr>p_state := RUNNABLE, p_parent := Some 2\<rparr>]\<rparr>"

theorem exit_leaves_zombie_witness:
  "\<exists>ps. exit_tail 2 7 exit_example = Swtch (exit_example\<lparr>held := [ProcLock 2], procs := ps\<rparr>) \<and>
     p_state (ps ! 2) = ZOMBIE \<and> p_xstate (ps ! 2) = 7 \<and> p_state (ps ! 1) = RUNNABLE \<and> p_parent (ps ! 3) = Some 0"
proof -
  let ?s = exit_example
  have h: "held ?s = []" "cur ?s = Some 2" "2 < NPROC" "length (procs ?s) = NPROC"
    "p_parent (procs ?s ! 2) = Some 1" "(1 :: nat) \<noteq> 2" "initproc ?s = Some 0"
    by (simp_all add: exit_example_def NPROC_def)
  have p: "procs ?s ! 1 = proc0\<lparr>p_state := SLEEPING, p_chan := ProcChan 1\<rparr>" "procs ?s ! 3 = proc0\<lparr>p_state := RUNNABLE, p_parent := Some 2\<rparr>"
    "1 < NPROC" "3 < NPROC" by (simp_all add: exit_example_def NPROC_def)
  obtain ps where e: "exit_tail 2 7 ?s = Swtch (?s\<lparr>held := [ProcLock 2], procs := ps\<rparr>)"
    and z: "ps ! 2 = (procs ?s ! 2)\<lparr>p_xstate := 7, p_state := ZOMBIE\<rparr>"
    and o: "\<forall>i < NPROC. i \<noteq> 2 \<longrightarrow> ps ! i = (procs ?s ! i)
       \<lparr>p_parent := (if p_parent (procs ?s ! i) = Some 2 then Some 0 else p_parent (procs ?s ! i)),
        p_state := (if p_state (procs ?s ! i) = SLEEPING \<and> (p_chan (procs ?s ! i) = ProcChan 1 \<or>
            p_chan (procs ?s ! i) = ProcChan 0 \<and> (\<exists>j < NPROC. p_parent (procs ?s ! j) = Some 2))
          then RUNNABLE else p_state (procs ?s ! i))\<rparr>"
    using exit_leaves_zombie [OF h, of 7] by blast
  show ?thesis using e z o [rule_format, of 1] o [rule_format, of 3] p by (intro exI [of _ ps]) simp
qed

end
