(* ===== verification/Disk.thy ===== *)
theory Disk
  imports Virtio
begin

text \<open>
  The requests of the disk driver, kernel/virtio_disk.c. Every request in flight owns a chain of three
  descriptors; a descriptor is free exactly when no request owns it. The invariant is kept by
  submitting a request, by the interrupt handler and by taking the result, and none of them panics.
\<close>

section \<open>The invariant\<close>

text \<open>
  A request in flight: its three descriptors, the buffer, whether it writes, and the block. The memory that
  the device sees for it: a header with the kind and the first of the two sectors of the block, the
  data of the buffer, and a status byte.
\<close>

type_synonym dreq = "nat \<times> nat \<times> nat \<times> nat \<times> bool \<times> u32"

fun req_ids :: "dreq \<Rightarrow> nat list" where
  "req_ids (i0, i1, i2, b, w, bn) = [i0, i1, i2]"

definition head_desc :: "nat \<Rightarrow> nat \<Rightarrow> virtq_desc" where
  "head_desc i0 i1 = \<lparr>vq_addr = OpsDma i0, vq_len = 16, vq_flags = VRING_DESC_F_NEXT, vq_next = of_nat i1\<rparr>"

definition data_desc :: "nat \<Rightarrow> bool \<Rightarrow> nat \<Rightarrow> virtq_desc" where
  "data_desc b w i2 = \<lparr>vq_addr = DataDma b, vq_len = 1024,
     vq_flags = (if w then VRING_DESC_F_NEXT else VRING_DESC_F_WRITE OR VRING_DESC_F_NEXT), vq_next = of_nat i2\<rparr>"

definition status_desc :: "nat \<Rightarrow> virtq_desc" where
  "status_desc i0 = \<lparr>vq_addr = StatusDma i0, vq_len = 1, vq_flags = VRING_DESC_F_WRITE, vq_next = 0\<rparr>"

definition req_head :: "bool \<Rightarrow> u32 \<Rightarrow> virtio_blk_req" where
  "req_head w bn = \<lparr>rq_type = (if w then 1 else 0), rq_reserved = 0, rq_sector = ucast (2 * bn)\<rparr>"

fun req_ok :: "'z virtio_st_scheme \<Rightarrow> dreq \<Rightarrow> bool" where
  "req_ok s (i0, i1, i2, b, w, bn) \<longleftrightarrow>
     vd_desc s ! i0 = head_desc i0 i1 \<and> vd_desc s ! i1 = data_desc b w i2 \<and> vd_desc s ! i2 = status_desc i0 \<and>
     vd_ops s ! i0 = req_head w bn \<and> vd_info_b s ! i0 = Some b \<and> b < length (bufs s)"

abbreviation owned_ids :: "dreq list \<Rightarrow> nat list" where
  "owned_ids R \<equiv> concat (map req_ids R)"

definition disk_inv :: "dreq list \<Rightarrow> 'z virtio_st_scheme \<Rightarrow> bool" where
  "disk_inv R s \<longleftrightarrow>
     length (vd_desc s) = NUM \<and> length (vd_free s) = NUM \<and> length (vd_info_b s) = NUM \<and>
     length (vd_avail_ring s) = NUM \<and> length (vd_status s) = NUM \<and> length (vd_ops s) = NUM \<and>
     distinct (owned_ids R) \<and> set (owned_ids R) \<subseteq> {..<NUM} \<and>
     (\<forall>i < NUM. vd_free s ! i \<longleftrightarrow> i \<notin> set (owned_ids R)) \<and> (\<forall>r \<in> set R. req_ok s r)"

definition free_ids :: "'z virtio_st_scheme \<Rightarrow> nat set" where
  "free_ids s = {i. i < NUM \<and> vd_free s ! i}"

text \<open>A thread in the driver, holding only its lock.\<close>

definition in_driver :: "nat \<Rightarrow> 'z virtio_st_scheme \<Rightarrow> bool" where
  "in_driver p s \<longleftrightarrow> held s = [VdiskLock] \<and> cur s = Some p \<and> p < NPROC \<and> length (procs s) = NPROC"

section \<open>Descriptors\<close>

lemma wake_all_idem [simp]: "wake_all me ch (wake_all me ch ps) = wake_all me ch ps"
  by (auto simp: wake_all_def wake_proc_def intro!: nth_equalityI)

lemma alloc_desc_run:
  assumes "length (vd_free s) = NUM"
  shows "free_ids s = {} \<and> alloc_desc s = Ok None s \<or>
    (\<exists>i \<in> free_ids s. alloc_desc s = Ok (Some i) (s\<lparr>vd_free := (vd_free s)[i := False]\<rparr>))"
proof (cases "find (\<lambda>i. vd_free s ! i) [0..<NUM]")
  case None
  then have "free_ids s = {}" by (auto simp: find_None_iff free_ids_def)
  moreover have "alloc_desc s = Ok None s" using None by (simp add: alloc_desc_def)
  ultimately show ?thesis by blast
next
  case (Some i)
  then have "i \<in> free_ids s" by (auto simp: find_Some_iff free_ids_def)
  moreover have "alloc_desc s = Ok (Some i) (s\<lparr>vd_free := (vd_free s)[i := False]\<rparr>)" using Some by (simp add: alloc_desc_def)
  ultimately show ?thesis by blast
qed

lemma free_desc_run:
  assumes "i < NUM" "\<not> vd_free s ! i" "in_driver p s"
  shows "free_desc i s = Ok () (s\<lparr>vd_desc := (vd_desc s)[i := no_desc], vd_free := (vd_free s)[i := True],
    procs := wake_all (cur s) DiskFreeChan (procs s)\<rparr>)"
  using assms wakeup_run [of "s\<lparr>vd_desc := (vd_desc s)[i := no_desc], vd_free := (vd_free s)[i := True]\<rparr>" DiskFreeChan]
  by (simp add: free_desc_def bnd_case in_driver_def)

text \<open>Freeing a list of descriptors; \<open>marked fr is b\<close> sets the flags of \<open>is\<close>.\<close>

definition marked :: "bool list \<Rightarrow> nat list \<Rightarrow> bool \<Rightarrow> bool list" where
  "marked fr ids b = map (\<lambda>i. if i \<in> set ids then b else fr ! i) [0..<length fr]"

definition cleared :: "virtq_desc list \<Rightarrow> nat list \<Rightarrow> virtq_desc list" where
  "cleared ds ids = map (\<lambda>i. if i \<in> set ids then no_desc else ds ! i) [0..<length ds]"

lemma length_marked [simp]: "length (marked fr ids b) = length fr" "length (cleared ds ids) = length ds"
  by (simp_all add: marked_def cleared_def)

lemma marked_nth [simp]: "i < length fr \<Longrightarrow> marked fr ids b ! i = (if i \<in> set ids then b else fr ! i)"
  "i < length ds \<Longrightarrow> cleared ds ids ! i = (if i \<in> set ids then no_desc else ds ! i)"
  by (simp_all add: marked_def cleared_def)

lemma marked_Nil [simp]: "marked fr [] b = fr" "cleared ds [] = ds"
  by (rule nth_equalityI; simp)+

lemma marked_Cons: "marked fr (i # ids) b = marked (fr[i := b]) ids b" "cleared ds (i # ids) = cleared (ds[i := no_desc]) ids"
  by (rule nth_equalityI; auto simp: nth_list_update)+

lemma free_descs_run:
  assumes "set ids \<subseteq> {..<NUM}" "distinct ids" "\<forall>i \<in> set ids. \<not> vd_free s ! i" "in_driver p s" "ids \<noteq> []"
  shows "forM ids free_desc s = Ok () (s\<lparr>vd_desc := cleared (vd_desc s) ids, vd_free := marked (vd_free s) ids True,
    procs := wake_all (cur s) DiskFreeChan (procs s)\<rparr>)"
  using assms
proof (induction ids arbitrary: s)
  case Nil
  then show ?case by blast
next
  case (Cons i ids)
  let ?t = "s\<lparr>vd_desc := (vd_desc s)[i := no_desc], vd_free := (vd_free s)[i := True],
    procs := wake_all (cur s) DiskFreeChan (procs s)\<rparr>"
  have f: "free_desc i s = Ok () ?t" using Cons.prems by (intro free_desc_run) auto
  have d: "in_driver p ?t" "\<forall>j \<in> set ids. \<not> vd_free ?t ! j" using Cons.prems by (auto simp: in_driver_def nth_list_update_if)
  show ?case
  proof (cases "ids = []")
    case True
    then show ?thesis using f by (simp add: bnd_Ok marked_Cons)
  next
    case False
    then have "forM ids free_desc ?t = Ok () (?t\<lparr>vd_desc := cleared (vd_desc ?t) ids, vd_free := marked (vd_free ?t) ids True,
      procs := wake_all (cur ?t) DiskFreeChan (procs ?t)\<rparr>)" using Cons.prems d by (intro Cons.IH) auto
    then show ?thesis using f by (simp add: bnd_Ok marked_Cons)
  qed
qed

text \<open>\<open>alloc3_desc\<close> takes descriptors that are free, or gives back those it has taken.\<close>

lemma alloc_descs_run:
  assumes "length (vd_free s) = NUM" "in_driver p s" "set ids \<subseteq> {..<NUM}" "distinct ids" "\<forall>i \<in> set ids. \<not> vd_free s ! i"
  shows "(\<exists>js. length js = n \<and> distinct (ids @ js) \<and> set js \<subseteq> free_ids s \<and>
      alloc_descs n ids s = Ok (Some (ids @ js)) (s\<lparr>vd_free := marked (vd_free s) js False\<rparr>)) \<or>
    (card (free_ids s) < n \<and> (\<exists>ks ps. set ks \<subseteq> set ids \<union> free_ids s \<and> (ps = procs s \<or> ps = wake_all (cur s) DiskFreeChan (procs s)) \<and>
      alloc_descs n ids s = Ok None (s\<lparr>vd_desc := cleared (vd_desc s) ks, vd_free := marked (vd_free s) ids True, procs := ps\<rparr>)))"
  using assms
proof (induction n arbitrary: ids s)
  case 0
  then show ?case by (intro disjI1 exI [of _ "[]"]) simp
next
  case (Suc n)
  consider "free_ids s = {}" "alloc_desc s = Ok None s"
    | i where "i \<in> free_ids s" "alloc_desc s = Ok (Some i) (s\<lparr>vd_free := (vd_free s)[i := False]\<rparr>)"
    using alloc_desc_run [OF Suc.prems(1)] by blast
  then show ?case
  proof cases
    case 1
    show ?thesis
    proof (cases "ids = []")
      case True
      show ?thesis by (rule disjI2, intro conjI exI [of _ "[] :: nat list"] exI [of _ "procs s"]) (use 1 True in \<open>simp_all add: bnd_Ok\<close>)
    next
      case False
      show ?thesis by (rule disjI2, intro conjI exI [of _ ids] exI [of _ "wake_all (cur s) DiskFreeChan (procs s)"])
          (use 1 False free_descs_run [OF Suc.prems(3-5,2)] in \<open>simp_all add: bnd_Ok\<close>)
    qed
  next
    case 2
    let ?t = "s\<lparr>vd_free := (vd_free s)[i := False]\<rparr>"
    have i: "i < NUM" "vd_free s ! i" "i \<notin> set ids" using 2(1) Suc.prems(5) by (auto simp: free_ids_def)
    have ft: "free_ids ?t = free_ids s - {i}" using Suc.prems(1) by (auto simp: free_ids_def nth_list_update_if split: if_splits)
    have fin: "finite (free_ids s)" by (simp add: free_ids_def)
    have step: "alloc_descs (Suc n) ids s = alloc_descs n (ids @ [i]) ?t" using 2(2) by (simp add: bnd_Ok)
    have pre: "length (vd_free ?t) = NUM" "in_driver p ?t" "set (ids @ [i]) \<subseteq> {..<NUM}" "distinct (ids @ [i])"
        "\<forall>j \<in> set (ids @ [i]). \<not> vd_free ?t ! j"
      using Suc.prems i by (auto simp: in_driver_def nth_list_update_if)
    consider js where "length js = n" "distinct ((ids @ [i]) @ js)" "set js \<subseteq> free_ids ?t"
        "alloc_descs n (ids @ [i]) ?t = Ok (Some ((ids @ [i]) @ js)) (?t\<lparr>vd_free := marked (vd_free ?t) js False\<rparr>)"
      | ks ps where "card (free_ids ?t) < n" "set ks \<subseteq> set (ids @ [i]) \<union> free_ids ?t"
        "ps = procs ?t \<or> ps = wake_all (cur ?t) DiskFreeChan (procs ?t)"
        "alloc_descs n (ids @ [i]) ?t = Ok None (?t\<lparr>vd_desc := cleared (vd_desc ?t) ks, vd_free := marked (vd_free ?t) (ids @ [i]) True, procs := ps\<rparr>)"
      using Suc.IH [OF pre] by blast
    then show ?thesis
    proof cases
      case 1
      then show ?thesis using 2(1) step ft by (intro disjI1 exI [of _ "i # js"]) (auto simp: marked_Cons)
    next
      case a: 2
      have mk: "marked (vd_free ?t) (ids @ [i]) True = marked (vd_free s) ids True"
        using i Suc.prems(1) by (intro nth_equalityI) (auto simp: nth_list_update)
      have cd: "card (free_ids s) < Suc n" using a(1) 2(1) fin unfolding ft by simp
      show ?thesis by (rule disjI2, intro conjI exI [of _ ks] exI [of _ ps]) (use a(2-4) mk cd step 2(1) ft in auto)
    qed
  qed
qed


section \<open>Requests\<close>

lemma disk_inv_cong:
  assumes "disk_inv R s" "vd_desc t = vd_desc s" "vd_free t = vd_free s" "vd_info_b t = vd_info_b s" "vd_ops t = vd_ops s"
    "length (bufs t) = length (bufs s)" "length (vd_avail_ring t) = NUM" "length (vd_status t) = NUM"
  shows "disk_inv R t"
proof -
  have "req_ok t r = req_ok s r" for r using assms(2-6) by (cases r) simp
  then show ?thesis using assms by (simp add: disk_inv_def)
qed

text \<open>Descriptors that no request owns may change.\<close>

lemma req_ok_cong:
  assumes "req_ok s (i0, i1, i2, b, w, bn)" "\<forall>i \<in> {i0, i1, i2}. vd_desc t ! i = vd_desc s ! i" "vd_info_b t ! i0 = vd_info_b s ! i0"
    "vd_ops t ! i0 = vd_ops s ! i0" "length (bufs t) = length (bufs s)"
  shows "req_ok t (i0, i1, i2, b, w, bn)"
  using assms by simp

lemma disk_inv_owned:
  assumes "disk_inv R s" "r \<in> set R" "i \<in> set (req_ids r)"
  shows "i \<in> set (owned_ids R)" "i < NUM" "\<not> vd_free s ! i"
proof -
  show o: "i \<in> set (owned_ids R)" using assms(2,3) by auto
  have "set (owned_ids R) \<subseteq> {..<NUM}" using assms(1) by (simp add: disk_inv_def)
  then show lt: "i < NUM" using o by blast
  show "\<not> vd_free s ! i" using assms(1) o lt unfolding disk_inv_def by blast
qed

lemma virtio_submit_run:
  "virtio_submit b write i0 i1 i2 s = Ok () (s\<lparr>
     vd_ops := (vd_ops s)[i0 := req_head write (b_blockno (bufs s ! b))],
     vd_desc := (vd_desc s)[i0 := head_desc i0 i1, i1 := data_desc b write i2, i2 := status_desc i0],
     vd_status := (vd_status s)[i0 := 0xff],
     bufs := (bufs s)[b := (bufs s ! b)\<lparr>b_disk := True\<rparr>],
     vd_info_b := (vd_info_b s)[i0 := Some b],
     vd_avail_ring := (vd_avail_ring s)[unat (vd_avail_idx s) mod NUM := of_nat i0],
     vd_avail_idx := vd_avail_idx s + 1,
     vd_writes := vd_writes s @ [(0x050, 0)]\<rparr>)"
proof -
  have "of_nat (BSIZE div 512) = (2 :: u32)" "of_nat BSIZE = (1024 :: u32)" by (simp_all add: BSIZE_def)
  then show ?thesis
    by (simp add: virtio_submit_def bnd_case bget_buf_def set_desc_def bupd_def write_reg_def head_desc_def data_desc_def
      status_desc_def req_head_def VIRTIO_BLK_T_OUT_def VIRTIO_BLK_T_IN_def mult.commute)
qed

text \<open>A new request: its descriptors were free.\<close>

lemma disk_inv_submit:
  assumes inv: "disk_inv R s" and ids: "distinct [i0, i1, i2]" "{i0, i1, i2} \<subseteq> free_ids s" and b: "b < length (bufs s)"
    and t: "virtio_submit b write i0 i1 i2 (s\<lparr>vd_free := marked (vd_free s) [i0, i1, i2] False\<rparr>) = Ok () t"
  shows "disk_inv ((i0, i1, i2, b, write, b_blockno (bufs s ! b)) # R) t"
proof -
  let ?r = "(i0, i1, i2, b, write, b_blockno (bufs s ! b))"
  note T = t [unfolded virtio_submit_run]
  have len: "length (vd_desc s) = NUM" "length (vd_free s) = NUM" "length (vd_info_b s) = NUM" "length (vd_avail_ring s) = NUM"
      "length (vd_status s) = NUM" "length (vd_ops s) = NUM" using inv by (simp_all add: disk_inv_def)
  have lt: "i0 < NUM" "i1 < NUM" "i2 < NUM" and fr: "i0 \<notin> set (owned_ids R)" "i1 \<notin> set (owned_ids R)" "i2 \<notin> set (owned_ids R)"
    using ids(2) inv unfolding disk_inv_def free_ids_def by auto
  have ne: "i0 \<noteq> i1" "i0 \<noteq> i2" "i1 \<noteq> i2" using ids(1) by auto
  have sel: "vd_desc t = (vd_desc s)[i0 := head_desc i0 i1, i1 := data_desc b write i2, i2 := status_desc i0]"
    "vd_info_b t = (vd_info_b s)[i0 := Some b]" "bufs t = (bufs s)[b := (bufs s ! b)\<lparr>b_disk := True\<rparr>]"
    "vd_free t = marked (vd_free s) [i0, i1, i2] False" "vd_ops t = (vd_ops s)[i0 := req_head write (b_blockno (bufs s ! b))]"
    "length (vd_avail_ring t) = length (vd_avail_ring s)" "length (vd_status t) = length (vd_status s)"
    using T by auto
  have new: "req_ok t ?r" using sel lt ne len b by simp
  have "req_ok t r" if r: "r \<in> set R" for r
  proof (cases r)
    case (fields j0 j1 j2 c w bn)
    have j: "j \<noteq> i0 \<and> j \<noteq> i1 \<and> j \<noteq> i2" if "j \<in> {j0, j1, j2}" for j using disk_inv_owned(1) [OF inv r, of j] fr that fields by auto
    show ?thesis unfolding fields
    proof (rule req_ok_cong)
      show "req_ok s (j0, j1, j2, c, w, bn)" using inv r unfolding disk_inv_def fields by blast
      show "\<forall>i \<in> {j0, j1, j2}. vd_desc t ! i = vd_desc s ! i"
      proof
        fix i assume "i \<in> {j0, j1, j2}"
        then have "i \<noteq> i0 \<and> i \<noteq> i1 \<and> i \<noteq> i2" by (rule j)
        then show "vd_desc t ! i = vd_desc s ! i" unfolding sel(1) by simp
      qed
      show "vd_info_b t ! j0 = vd_info_b s ! j0" "length (bufs t) = length (bufs s)" "vd_ops t ! j0 = vd_ops s ! j0"
        unfolding sel(2,3,5) using j [of j0] by simp_all
    qed
  qed
  then have reqs: "\<forall>r \<in> set (?r # R). req_ok t r" using new by simp
  have free: "vd_free t ! i \<longleftrightarrow> i \<notin> set (owned_ids (?r # R))" if "i < NUM" for i
    using sel(4) that len inv by (auto simp: disk_inv_def)
  have ids': "distinct (owned_ids (?r # R))" "set (owned_ids (?r # R)) \<subseteq> {..<NUM}" using inv ne fr lt by (auto simp: disk_inv_def)
  show "disk_inv (?r # R) t" using reqs free ids' sel len unfolding disk_inv_def by auto
qed

lemma disk_inv_noroom:
  assumes inv: "disk_inv R s" and ks: "set ks \<subseteq> free_ids s"
  shows "disk_inv R (s\<lparr>vd_desc := cleared (vd_desc s) ks, procs := ps\<rparr>)"
proof -
  let ?t = "s\<lparr>vd_desc := cleared (vd_desc s) ks, procs := ps\<rparr>"
  have "req_ok ?t r" if r: "r \<in> set R" for r
  proof (cases r)
    case (fields j0 j1 j2 c w bn)
    have "j < NUM \<and> j \<notin> set ks" if "j \<in> {j0, j1, j2}" for j
      using disk_inv_owned(2,3) [OF inv r, of j] ks that fields by (auto simp: free_ids_def)
    note j = this
    have len: "length (vd_desc s) = NUM" using inv by (simp add: disk_inv_def)
    show ?thesis unfolding fields
    proof (rule req_ok_cong)
      show "req_ok s (j0, j1, j2, c, w, bn)" using inv r unfolding disk_inv_def fields by blast
      show "\<forall>i \<in> {j0, j1, j2}. vd_desc ?t ! i = vd_desc s ! i" using j len by simp
    qed simp_all
  qed
  then show ?thesis using inv by (auto simp: disk_inv_def)
qed


text \<open>\<open>virtio_disk_rw\<close> up to the point where the process sleeps.\<close>

definition asleep :: "nat \<Rightarrow> chan \<Rightarrow> 'z virtio_st_scheme \<Rightarrow> bool" where
  "asleep p ch s \<longleftrightarrow> held s = [ProcLock p] \<and> p_state (procs s ! p) = SLEEPING \<and> p_chan (procs s ! p) = ch"

lemma sleep_inv:
  assumes "disk_inv R s" "in_driver p s"
  shows "\<exists>ps. sleep ch VdiskLock s = Swtch (s\<lparr>held := [ProcLock p], procs := ps\<rparr>) \<and>
    disk_inv R (s\<lparr>held := [ProcLock p], procs := ps\<rparr>) \<and> asleep p ch (s\<lparr>held := [ProcLock p], procs := ps\<rparr>) \<and> length ps = NPROC"
proof -
  have d: "cur s = Some p" "held s = [VdiskLock]" "p < length (procs s)" using assms(2) by (simp_all add: in_driver_def)
  let ?ps = "(procs s)[p := (procs s ! p)\<lparr>p_chan := ch, p_state := SLEEPING\<rparr>]"
  let ?t = "s\<lparr>held := [ProcLock p], procs := ?ps\<rparr>"
  have "sleep ch VdiskLock s = Swtch ?t" using d by (intro sleep_run) simp_all
  moreover have "disk_inv R ?t" by (rule disk_inv_cong [OF assms(1)]) (use assms(1) in \<open>simp_all add: disk_inv_def\<close>)
  moreover have "asleep p ch ?t" using d by (simp add: asleep_def)
  ultimately show ?thesis using assms(2) by (intro exI [of _ ?ps]) (simp add: in_driver_def)
qed

text \<open>What the interrupt and the other requests see of a change: buffers, status bytes and rings.\<close>

definition submitted :: "nat \<Rightarrow> nat \<Rightarrow> 'z virtio_st_scheme \<Rightarrow> 'z virtio_st_scheme \<Rightarrow> bool" where
  "submitted b i0 s t \<longleftrightarrow>
     bufs t = (bufs s)[b := (bufs s ! b)\<lparr>b_disk := True\<rparr>] \<and> vd_status t = (vd_status s)[i0 := 0xff] \<and>
     vd_avail_ring t = (vd_avail_ring s)[unat (vd_avail_idx s) mod NUM := of_nat i0] \<and>
     vd_avail_idx t = vd_avail_idx s + 1 \<and> vd_writes t = vd_writes s @ [(0x050, 0)] \<and>
     vd_used_ring t = vd_used_ring s \<and> vd_used_idx t = vd_used_idx s \<and> vd_used_ring_idx t = vd_used_ring_idx s"

definition untouched :: "'z virtio_st_scheme \<Rightarrow> 'z virtio_st_scheme \<Rightarrow> bool" where
  "untouched s t \<longleftrightarrow>
     bufs t = bufs s \<and> vd_status t = vd_status s \<and> vd_avail_ring t = vd_avail_ring s \<and> vd_avail_idx t = vd_avail_idx s \<and>
     vd_used_ring t = vd_used_ring s \<and> vd_used_idx t = vd_used_idx s \<and> vd_used_ring_idx t = vd_used_ring_idx s"

lemma disk_rw_submits:
  assumes inv: "disk_inv R s" and s: "held s = []" "cur s = Some p" "p < NPROC" "length (procs s) = NPROC" "b < length (bufs s)"
  shows "(\<exists>i0 i1 i2 t. virtio_disk_rw b write s = Swtch t \<and> {i0, i1, i2} \<subseteq> free_ids s \<and>
      disk_inv ((i0, i1, i2, b, write, b_blockno (bufs s ! b)) # R) t \<and>
      asleep p (DiskBufChan b) t \<and> length (procs t) = NPROC \<and> submitted b i0 s t) \<or>
    (card (free_ids s) < 3 \<and> (\<exists>t. virtio_disk_rw b write s = Swtch t \<and> disk_inv R t \<and> asleep p DiskFreeChan t \<and>
      length (procs t) = NPROC \<and> untouched s t))"
proof -
  let ?s = "s\<lparr>held := [VdiskLock]\<rparr>"
  have i1: "disk_inv R ?s" by (rule disk_inv_cong [OF inv]) (use inv in \<open>simp_all add: disk_inv_def\<close>)
  have dr: "in_driver p ?s" using s by (simp add: in_driver_def)
  have len: "length (vd_free ?s) = NUM" using inv by (simp add: disk_inv_def)
  have rw: "virtio_disk_rw b write s = virtio_disk_rw_loop b write ?s" using s(1) by (simp add: virtio_disk_rw_def bnd_case acquire_def)
  have fs: "free_ids ?s = free_ids s" by (simp add: free_ids_def)
  consider js where "length js = 3" "distinct js" "set js \<subseteq> free_ids ?s"
      "alloc3_desc ?s = Ok (Some js) (?s\<lparr>vd_free := marked (vd_free ?s) js False\<rparr>)"
    | ks ps where "card (free_ids ?s) < 3" "set ks \<subseteq> free_ids ?s" "ps = procs ?s \<or> ps = wake_all (cur ?s) DiskFreeChan (procs ?s)"
      "alloc3_desc ?s = Ok None (?s\<lparr>vd_desc := cleared (vd_desc ?s) ks, vd_free := vd_free ?s, procs := ps\<rparr>)"
    using alloc_descs_run [OF len dr, of "[]" 3] unfolding alloc3_desc_def by auto
  then show ?thesis
  proof cases
    case 1
    then obtain i0 i1 i2 where js: "js = [i0, i1, i2]" by (auto simp: numeral_3_eq_3 length_Suc_conv)
    let ?u = "?s\<lparr>vd_free := marked (vd_free ?s) [i0, i1, i2] False\<rparr>"
    obtain u where u: "virtio_submit b write i0 i1 i2 ?u = Ok () u" using virtio_submit_run by blast
    have sub: "submitted b i0 s u" "in_driver p u" "b_disk (bufs u ! b)"
      using u [unfolded virtio_submit_run] dr s(5) by (auto simp: submitted_def in_driver_def)
    have d: "distinct [i0, i1, i2]" "{i0, i1, i2} \<subseteq> free_ids ?s" "b < length (bufs ?s)" using 1 js s(5) by simp_all
    have "disk_inv ((i0, i1, i2, b, write, b_blockno (bufs s ! b)) # R) u"
      using disk_inv_submit [OF \<open>disk_inv R ?s\<close> d u] by simp
    from sleep_inv [OF this sub(2), of "DiskBufChan b"] obtain ps where
      t: "sleep (DiskBufChan b) VdiskLock u = Swtch (u\<lparr>held := [ProcLock p], procs := ps\<rparr>)"
        "disk_inv ((i0, i1, i2, b, write, b_blockno (bufs s ! b)) # R) (u\<lparr>held := [ProcLock p], procs := ps\<rparr>)"
        "asleep p (DiskBufChan b) (u\<lparr>held := [ProcLock p], procs := ps\<rparr>)" "length ps = NPROC" by blast
    let ?t = "u\<lparr>held := [ProcLock p], procs := ps\<rparr>"
    have "virtio_disk_rw_loop b write ?s = virtio_wait b i0 u" using 1(4) u unfolding js virtio_disk_rw_loop_def by (simp add: bnd_Ok)
    also have "\<dots> = Swtch ?t" using t(1) sub(3) by (simp add: virtio_wait_def bget_buf_def bnd_case)
    finally have "virtio_disk_rw b write s = Swtch ?t" using rw by simp
    moreover have "submitted b i0 s ?t" using sub(1) by (simp add: submitted_def)
    moreover have "{i0, i1, i2} \<subseteq> free_ids s" using d(2) fs by simp
    ultimately show ?thesis using t(2-4)
      by (intro disjI1 exI [of _ i0] exI [of _ i1] exI [of _ i2] exI [of _ ?t]) simp
  next
    case 2
    let ?u = "?s\<lparr>vd_desc := cleared (vd_desc ?s) ks, procs := ps\<rparr>"
    have iu: "disk_inv R ?u" by (rule disk_inv_noroom [OF i1 2(2)])
    have "in_driver p ?u" using 2(3) dr by (auto simp: in_driver_def)
    from sleep_inv [OF iu this, of DiskFreeChan] obtain qs where
      t: "sleep DiskFreeChan VdiskLock ?u = Swtch (?u\<lparr>held := [ProcLock p], procs := qs\<rparr>)"
        "disk_inv R (?u\<lparr>held := [ProcLock p], procs := qs\<rparr>)" "asleep p DiskFreeChan (?u\<lparr>held := [ProcLock p], procs := qs\<rparr>)"
        "length qs = NPROC" by blast
    let ?t = "?u\<lparr>held := [ProcLock p], procs := qs\<rparr>"
    have "alloc3_desc ?s = Ok None ?u" using 2(4) by simp
    then have "virtio_disk_rw_loop b write ?s = Swtch ?t" using t(1) unfolding virtio_disk_rw_loop_def by (simp add: bnd_Ok)
    moreover have "untouched s ?t" by (simp add: untouched_def)
    moreover have "length (procs ?t) = NPROC" using t(4) by simp
    ultimately show ?thesis using rw t(2,3) 2(1) fs by (intro disjI2 conjI exI [of _ ?t]) simp_all
  qed
qed

section \<open>Taking the result\<close>

lemma free_chain_run:
  assumes chain: "vq_flags (vd_desc s ! i0) AND VRING_DESC_F_NEXT \<noteq> 0" "unat (vq_next (vd_desc s ! i0)) = i1"
      "vq_flags (vd_desc s ! i1) AND VRING_DESC_F_NEXT \<noteq> 0" "unat (vq_next (vd_desc s ! i1)) = i2"
      "vq_flags (vd_desc s ! i2) AND VRING_DESC_F_NEXT = 0"
    and ne: "i0 \<noteq> i1" "i0 \<noteq> i2" "i1 \<noteq> i2" and o: "\<forall>i \<in> {i0, i1, i2}. i < NUM \<and> \<not> vd_free s ! i" and dr: "in_driver p s"
  shows "free_chain i0 s = Ok () (s\<lparr>vd_desc := (vd_desc s)[i0 := no_desc, i1 := no_desc, i2 := no_desc],
    vd_free := (vd_free s)[i0 := True, i1 := True, i2 := True], procs := wake_all (cur s) DiskFreeChan (procs s)\<rparr>)"
proof -
  let ?f = "\<lambda>i s. s\<lparr>vd_desc := (vd_desc s)[i := no_desc], vd_free := (vd_free s)[i := True],
    procs := wake_all (cur s) DiskFreeChan (procs s)\<rparr>"
  have d: "in_driver p (?f i0 s)" "in_driver p (?f i1 (?f i0 s))" using dr by (simp_all add: in_driver_def)
  have f0: "free_desc i0 s = Ok () (?f i0 s)" by (rule free_desc_run [OF _ _ dr]) (use o in simp_all)
  have f1: "free_desc i1 (?f i0 s) = Ok () (?f i1 (?f i0 s))" by (rule free_desc_run [OF _ _ d(1)]) (use o ne in simp_all)
  have f2: "free_desc i2 (?f i1 (?f i0 s)) = Ok () (?f i2 (?f i1 (?f i0 s)))"
    by (rule free_desc_run [OF _ _ d(2)]) (use o ne in simp_all)
  have n: "NUM + 1 = Suc (Suc (Suc 6))" by (simp add: NUM_def)
  show ?thesis unfolding free_chain_def n free_chain_from.simps using f0 f1 f2 chain ne by (simp add: bnd_case)
qed

lemma disk_inv_finish:
  assumes inv: "disk_inv (R1 @ (i0, i1, i2, b, w, bn) # R2) s"
  shows "disk_inv (R1 @ R2) (s\<lparr>vd_info_b := (vd_info_b s)[i0 := None], vd_desc := (vd_desc s)[i0 := no_desc, i1 := no_desc, i2 := no_desc],
    vd_free := (vd_free s)[i0 := True, i1 := True, i2 := True], procs := ps, held := h\<rparr>)" (is "disk_inv _ ?t")
proof -
  let ?R = "R1 @ (i0, i1, i2, b, w, bn) # R2"
  have len: "length (vd_desc s) = NUM" "length (vd_free s) = NUM" "length (vd_info_b s) = NUM" "length (vd_avail_ring s) = NUM"
      "length (vd_status s) = NUM" "length (vd_ops s) = NUM" using inv by (simp_all add: disk_inv_def)
  have dist: "distinct (owned_ids ?R)" "set (owned_ids ?R) \<subseteq> {..<NUM}" using inv by (simp_all add: disk_inv_def)
  then have out: "i0 \<notin> set (owned_ids (R1 @ R2))" "i1 \<notin> set (owned_ids (R1 @ R2))" "i2 \<notin> set (owned_ids (R1 @ R2))" by auto
  have "req_ok ?t r" if r: "r \<in> set (R1 @ R2)" for r
  proof (cases r)
    case (fields j0 j1 j2 c x xn)
    have j: "j \<noteq> i0 \<and> j \<noteq> i1 \<and> j \<noteq> i2" if "j \<in> {j0, j1, j2}" for j
    proof -
      have "j \<in> set (req_ids r)" using fields that by auto
      then have "j \<in> set (owned_ids (R1 @ R2))" unfolding set_concat set_map using r by blast
      then show ?thesis using out by blast
    qed
    have "r \<in> set ?R" using r by auto
    then have ok: "req_ok s (j0, j1, j2, c, x, xn)" using inv unfolding disk_inv_def fields by blast
    have e: "vd_desc ?t ! i = vd_desc s ! i" if "i \<in> {j0, j1, j2}" for i using j [OF that] by simp
    show ?thesis unfolding fields by (rule req_ok_cong [OF ok]) (use e j [of j0] in auto)
  qed
  moreover have "vd_free ?t ! i \<longleftrightarrow> i \<notin> set (owned_ids (R1 @ R2))" if i: "i < NUM" for i
  proof -
    have "vd_free s ! i \<longleftrightarrow> i \<notin> set (owned_ids ?R)" using inv i unfolding disk_inv_def by blast
    then show ?thesis using out len i by (cases "i = i0 \<or> i = i1 \<or> i = i2") (auto simp: nth_list_update_if)
  qed
  moreover have "distinct (owned_ids (R1 @ R2))" "set (owned_ids (R1 @ R2)) \<subseteq> {..<NUM}" using dist by auto
  ultimately show ?thesis using len unfolding disk_inv_def by simp
qed

lemma disk_wait_finishes:
  assumes inv: "disk_inv (R1 @ (i0, i1, i2, b, w, bn) # R2) s" and s: "held s = [ProcLock p]" "cur s = Some p" "p < NPROC"
    "length (procs s) = NPROC" "\<not> b_disk (bufs s ! b)"
  shows "\<exists>t. virtio_wait_resume b i0 s = Ok () t \<and> disk_inv (R1 @ R2) t \<and> held t = [] \<and> untouched s t \<and>
    free_ids t = free_ids s \<union> {i0, i1, i2}"
proof -
  let ?R = "R1 @ (i0, i1, i2, b, w, bn) # R2"
  let ?p1 = "(procs s)[p := (procs s ! p)\<lparr>p_chan := NoChan\<rparr>]"
  let ?u = "s\<lparr>held := [VdiskLock], procs := ?p1, vd_info_b := (vd_info_b s)[i0 := None]\<rparr>"
  let ?t = "\<lambda>s h. s\<lparr>vd_desc := (vd_desc s)[i0 := no_desc, i1 := no_desc, i2 := no_desc],
    vd_free := (vd_free s)[i0 := True, i1 := True, i2 := True], procs := wake_all (Some p) DiskFreeChan ?p1, held := h\<rparr>"
  have rq: "req_ok s (i0, i1, i2, b, w, bn)" "distinct (owned_ids ?R)" using inv unfolding disk_inv_def by simp_all
  have "i1 < NUM" "i2 < NUM" using disk_inv_owned(2) [OF inv, of "(i0, i1, i2, b, w, bn)"] by simp_all
  then have "unat (of_nat i1 :: u16) = i1" "unat (of_nat i2 :: u16) = i2" by (auto intro!: unat_of_nat_small simp: NUM_def)
  with rq have chain: "vq_flags (vd_desc ?u ! i0) AND VRING_DESC_F_NEXT \<noteq> 0" "unat (vq_next (vd_desc ?u ! i0)) = i1"
      "vq_flags (vd_desc ?u ! i1) AND VRING_DESC_F_NEXT \<noteq> 0" "unat (vq_next (vd_desc ?u ! i1)) = i2"
      "vq_flags (vd_desc ?u ! i2) AND VRING_DESC_F_NEXT = 0" "i0 \<noteq> i1" "i0 \<noteq> i2" "i1 \<noteq> i2"
    by (auto simp: head_desc_def data_desc_def status_desc_def VRING_DESC_F_NEXT_def VRING_DESC_F_WRITE_def)
  have "\<forall>i \<in> {i0, i1, i2}. i < NUM \<and> \<not> vd_free ?u ! i"
    using disk_inv_owned(2,3) [OF inv, of "(i0, i1, i2, b, w, bn)"] by simp
  from free_chain_run [OF chain this, of p] have fc: "free_chain i0 ?u = Ok () (?t ?u [VdiskLock])"
    using s by (simp add: in_driver_def)
  have sr: "sleep_resume VdiskLock s = Ok () (s\<lparr>held := [VdiskLock], procs := ?p1\<rparr>)"
    using s by (simp add: sleep_resume_def myproc_def bnd_case pupd_def acquire_def release_def)
  have "virtio_wait_resume b i0 s = Ok () (?t ?u [])" unfolding virtio_wait_resume_def bnd_Ok [where m = "sleep_resume VdiskLock", OF sr]
    using s(5) fc by (simp add: virtio_wait_def bnd_case release_def bget_buf_def)
  moreover have "disk_inv (R1 @ R2) (?t ?u [])"
    using disk_inv_finish [OF inv, where ps = "wake_all (Some p) DiskFreeChan ?p1" and h = "[]"] by simp
  moreover have "free_ids (?t ?u []) = free_ids s \<union> {i0, i1, i2}"
  proof -
    have "{i0, i1, i2} \<subseteq> {..<NUM}" "length (vd_free s) = NUM" using inv by (auto simp: disk_inv_def)
    then show ?thesis by (auto simp: free_ids_def nth_list_update_if)
  qed
  moreover have "untouched s (?t ?u [])" by (simp add: untouched_def)
  ultimately show ?thesis by (intro exI [of _ "?t ?u []"]) simp
qed


section \<open>The interrupt\<close>

text \<open>The number of the request that entry \<open>k\<close> behind \<open>used_idx\<close> of the used ring reports.\<close>

definition reported :: "'z virtio_st_scheme \<Rightarrow> nat \<Rightarrow> nat" where
  "reported s k = unat (vd_used_ring s ! (unat (vd_used_idx s + of_nat k) mod NUM))"

text \<open>What the device does: it reports requests in flight, with status 0.\<close>

definition device_ok :: "dreq list \<Rightarrow> 'z virtio_st_scheme \<Rightarrow> nat \<Rightarrow> bool" where
  "device_ok R s n \<longleftrightarrow> (\<forall>k < n. (\<exists>r \<in> set R. reported s k = fst r) \<and> vd_status s ! reported s k = 0)"

lemma complete_round:
  assumes inv: "disk_inv R s" and d: "held s = [VdiskLock]" "length (procs s) = NPROC" and dev: "device_ok R s 1"
  shows "\<exists>c. vd_info_b s ! reported s 0 = Some c \<and> c < length (bufs s) \<and>
    virtio_complete s = Ok () (s\<lparr>bufs := (bufs s)[c := (bufs s ! c)\<lparr>b_disk := False\<rparr>],
      procs := wake_all (cur s) (DiskBufChan c) (procs s), vd_used_idx := vd_used_idx s + 1\<rparr>)"
proof -
  obtain r where r: "r \<in> set R" "reported s 0 = fst r" "vd_status s ! reported s 0 = 0" using dev by (auto simp: device_ok_def)
  obtain i0 i1 i2 c w bn where rr: "r = (i0, i1, i2, c, w, bn)" by (cases r)
  have ok: "req_ok s (i0, i1, i2, c, w, bn)" using inv r(1) unfolding disk_inv_def rr by blast
  have lt: "i0 < NUM" using disk_inv_owned(2) [OF inv r(1)] rr by simp
  have id: "unat (vd_used_ring s ! (unat (vd_used_idx s) mod NUM)) = i0" using r(2) rr by (simp add: reported_def)
  let ?u = "s\<lparr>bufs := (bufs s)[c := (bufs s ! c)\<lparr>b_disk := False\<rparr>]\<rparr>"
  have w: "wakeup (DiskBufChan c) ?u = Ok () (?u\<lparr>procs := wake_all (cur ?u) (DiskBufChan c) (procs ?u)\<rparr>)"
    using d by (intro wakeup_run) simp_all
  have "virtio_complete s = Ok () (s\<lparr>bufs := (bufs s)[c := (bufs s ! c)\<lparr>b_disk := False\<rparr>],
      procs := wake_all (cur s) (DiskBufChan c) (procs s), vd_used_idx := vd_used_idx s + 1\<rparr>)"
    using id lt r(2,3) rr ok w by (simp add: virtio_complete_def bnd_case bupd_def)
  then show ?thesis using ok r(2) rr by auto
qed

lemma complete_rounds:
  assumes inv: "disk_inv R s" and d: "held s = [VdiskLock]" "length (procs s) = NPROC" and dev: "device_ok R s n"
  shows "\<exists>t. forM [0..<n] (\<lambda>_. virtio_complete) s = Ok () t \<and> disk_inv R t \<and> held t = [VdiskLock] \<and>
    length (procs t) = NPROC \<and> vd_used_idx t = vd_used_idx s + of_nat n \<and> vd_used_ring t = vd_used_ring s \<and>
    vd_used_ring_idx t = vd_used_ring_idx s \<and> vd_status t = vd_status s \<and> vd_info_b t = vd_info_b s \<and>
    vd_avail_ring t = vd_avail_ring s \<and> vd_avail_idx t = vd_avail_idx s \<and> length (bufs t) = length (bufs s) \<and>
    (\<forall>b. bufs t ! b = (bufs s ! b)\<lparr>b_disk := b_disk (bufs s ! b) \<and> (\<forall>k < n. vd_info_b s ! reported s k \<noteq> Some b)\<rparr>)"
  using dev
proof (induction n)
  case 0
  then show ?case using inv d by simp
next
  case (Suc n)
  have "device_ok R s n" using Suc.prems by (simp add: device_ok_def)
  from Suc.IH [OF this] obtain t where t: "forM [0..<n] (\<lambda>_. virtio_complete) s = Ok () t" "disk_inv R t" "held t = [VdiskLock]"
    "length (procs t) = NPROC" "vd_used_idx t = vd_used_idx s + of_nat n" "vd_used_ring t = vd_used_ring s"
    "vd_used_ring_idx t = vd_used_ring_idx s" "vd_status t = vd_status s" "vd_info_b t = vd_info_b s"
    "\<forall>b. bufs t ! b = (bufs s ! b)\<lparr>b_disk := b_disk (bufs s ! b) \<and> (\<forall>k < n. vd_info_b s ! reported s k \<noteq> Some b)\<rparr>"
    "vd_avail_ring t = vd_avail_ring s" "vd_avail_idx t = vd_avail_idx s" "length (bufs t) = length (bufs s)" by blast
  have rep: "reported t 0 = reported s n" using t(5,6) by (simp add: reported_def)
  then have "device_ok R t 1" using Suc.prems t(8) by (simp add: device_ok_def)
  from complete_round [OF t(2-4) this] obtain c where c: "vd_info_b t ! reported t 0 = Some c" "c < length (bufs t)"
    "virtio_complete t = Ok () (t\<lparr>bufs := (bufs t)[c := (bufs t ! c)\<lparr>b_disk := False\<rparr>],
      procs := wake_all (cur t) (DiskBufChan c) (procs t), vd_used_idx := vd_used_idx t + 1\<rparr>)" (is "_ = Ok () ?u") by blast
  have "forM [0..<Suc n] (\<lambda>_. virtio_complete) s = Ok () ?u"
    unfolding upt_Suc_append [OF le0] forM_snoc bnd_Ok [where m = "forM [0..<n] (\<lambda>_. virtio_complete)", OF t(1)] by (rule c(3))
  moreover have "disk_inv R ?u" by (rule disk_inv_cong [OF t(2)]) (use t(2) in \<open>simp_all add: disk_inv_def\<close>)
  moreover have "bufs ?u ! b = (bufs s ! b)\<lparr>b_disk := b_disk (bufs s ! b) \<and> (\<forall>k < Suc n. vd_info_b s ! reported s k \<noteq> Some b)\<rparr>" for b
  proof (cases "b = c")
    case True
    then have "\<not> (\<forall>k < Suc n. vd_info_b s ! reported s k \<noteq> Some b)" using c(1) rep t(9) by auto
    then show ?thesis using True t(10) c(2) by simp
  next
    case False
    then have "(\<forall>k < Suc n. vd_info_b s ! reported s k \<noteq> Some b) \<longleftrightarrow> (\<forall>k < n. vd_info_b s ! reported s k \<noteq> Some b)"
      using c(1) rep t(9) by (auto simp: less_Suc_eq)
    then show ?thesis using False t(10) by simp
  qed
  ultimately show ?case using t by (intro exI [of _ ?u]) (simp add: add.assoc)
qed

lemma disk_intr_completes:
  assumes inv: "disk_inv R s" and d: "held s = []" "length (procs s) = NPROC"
    and dev: "device_ok R s (unat (vd_used_ring_idx s - vd_used_idx s))"
  shows "\<exists>t. virtio_disk_intr s = Ok () t \<and> disk_inv R t \<and> held t = [] \<and> length (procs t) = NPROC \<and>
    vd_used_idx t = vd_used_ring_idx s \<and> vd_status t = vd_status s \<and> vd_avail_ring t = vd_avail_ring s \<and>
    vd_avail_idx t = vd_avail_idx s \<and> length (bufs t) = length (bufs s) \<and>
    (\<forall>b. bufs t ! b = (bufs s ! b)\<lparr>b_disk := b_disk (bufs s ! b) \<and>
      (\<forall>k < unat (vd_used_ring_idx s - vd_used_idx s). vd_info_b s ! reported s k \<noteq> Some b)\<rparr>)"
proof -
  let ?n = "unat (vd_used_ring_idx s - vd_used_idx s)"
  let ?s = "s\<lparr>held := [VdiskLock], vd_writes := vd_writes s @ [(0x064, vd_mmio s 0x060 AND 3)]\<rparr>"
  have i: "disk_inv R ?s" by (rule disk_inv_cong [OF inv]) (use inv in \<open>simp_all add: disk_inv_def\<close>)
  have rep: "reported ?s k = reported s k" for k by (simp add: reported_def)
  have "device_ok R ?s ?n" using dev by (simp add: device_ok_def rep)
  from complete_rounds [OF i _ _ this] d(2) obtain t where t: "forM [0..<?n] (\<lambda>_. virtio_complete) ?s = Ok () t" "disk_inv R t"
    "held t = [VdiskLock]" "vd_used_idx t = vd_used_idx s + of_nat ?n" "length (procs t) = NPROC" "vd_status t = vd_status s"
    "vd_avail_ring t = vd_avail_ring s" "vd_avail_idx t = vd_avail_idx s" "length (bufs t) = length (bufs s)"
    "\<forall>b. bufs t ! b = (bufs s ! b)\<lparr>b_disk := b_disk (bufs s ! b) \<and> (\<forall>k < ?n. vd_info_b s ! reported s k \<noteq> Some b)\<rparr>"
    by (auto simp: rep)
  let ?t = "t\<lparr>held := []\<rparr>"
  have "disk_inv R ?t" by (rule disk_inv_cong [OF t(2)]) (use t(2) in \<open>simp_all add: disk_inv_def\<close>)
  moreover have "virtio_disk_intr s = Ok () ?t"
    using d t(1,3) by (simp add: virtio_disk_intr_def bnd_case acquire_def release_def read_reg_def write_reg_def)
  moreover have "vd_used_idx t = vd_used_ring_idx s" using t(4) by (simp add: word_of_unat)
  ultimately show ?thesis using t(5-10) by (intro exI [of _ ?t]) simp
qed


section \<open>The driver\<close>

text \<open>
  C15. Requests to the disk. Whenever each request in flight owns a chain of three descriptors, with the header, the
  buffer and the status byte that it names, and all other descriptors are free: a new request takes
  three of the free ones, describes the transfer of its block in them, enters the chain into the avail ring,
  notifies the device and sleeps until the interrupt; or, when fewer than three are free, it gives back what it
  took and sleeps until some are freed. The interrupt handler marks exactly the buffers as done that the
  device reports. The process of a buffer that is done frees exactly its three descriptors and returns.
  All three keep the descriptors, headers, status bytes and buffers of the other requests, and
  none of them panics. Of the device it is assumed that it reports requests in flight, with status 0.
\<close>

theorem disk_requests_kept:
  fixes s :: "'z virtio_st_scheme"
  assumes inv: "disk_inv R s" and np: "length (procs s) = NPROC"
  shows "(held s = [] \<and> cur s = Some p \<and> p < NPROC \<and> b < length (bufs s) \<longrightarrow>
      (\<exists>i0 i1 i2 t. virtio_disk_rw b write s = Swtch t \<and> {i0, i1, i2} \<subseteq> free_ids s \<and>
        disk_inv ((i0, i1, i2, b, write, b_blockno (bufs s ! b)) # R) t \<and>
        asleep p (DiskBufChan b) t \<and> length (procs t) = NPROC \<and> submitted b i0 s t) \<or>
      (card (free_ids s) < 3 \<and> (\<exists>t. virtio_disk_rw b write s = Swtch t \<and> disk_inv R t \<and> asleep p DiskFreeChan t \<and>
        length (procs t) = NPROC \<and> untouched s t))) \<and>
    (held s = [] \<and> device_ok R s (unat (vd_used_ring_idx s - vd_used_idx s)) \<longrightarrow>
      (\<exists>t. virtio_disk_intr s = Ok () t \<and> disk_inv R t \<and> held t = [] \<and> length (procs t) = NPROC \<and>
        vd_used_idx t = vd_used_ring_idx s \<and> vd_status t = vd_status s \<and> vd_avail_ring t = vd_avail_ring s \<and>
        vd_avail_idx t = vd_avail_idx s \<and> length (bufs t) = length (bufs s) \<and>
        (\<forall>c. bufs t ! c = (bufs s ! c)\<lparr>b_disk := b_disk (bufs s ! c) \<and>
          (\<forall>k < unat (vd_used_ring_idx s - vd_used_idx s). vd_info_b s ! reported s k \<noteq> Some c)\<rparr>))) \<and>
    (R = R1 @ (j0, j1, j2, b, w, bn) # R2 \<and> held s = [ProcLock p] \<and> cur s = Some p \<and> p < NPROC \<and> \<not> b_disk (bufs s ! b) \<longrightarrow>
      (\<exists>t. virtio_wait_resume b j0 s = Ok () t \<and> disk_inv (R1 @ R2) t \<and> held t = [] \<and> untouched s t \<and>
        free_ids t = free_ids s \<union> {j0, j1, j2}))"
    (is "(?A \<longrightarrow> ?X) \<and> (?B \<longrightarrow> ?Y) \<and> (?C \<longrightarrow> ?Z)")
proof (intro conjI impI)
  show ?X if ?A using disk_rw_submits [OF inv _ _ _ np] that by blast
  show ?Y if ?B using disk_intr_completes [OF inv _ np] that by blast
  assume a: ?C
  then have "disk_inv (R1 @ (j0, j1, j2, b, w, bn) # R2) s" using inv by simp
  from disk_wait_finishes [OF this _ _ _ np] a show ?Z by blast
qed

text \<open>
  A driver with no request in flight, in any kernel, and a device that serves the requests in the order of the
  avail ring: for the next one it stores status 0 and enters the chain into the used ring.
\<close>

definition disk_idle :: "'z virtio_st_scheme \<Rightarrow> 'z virtio_st_scheme" where
  "disk_idle s = s\<lparr>held := [], cur := Some 0, procs := replicate NPROC proc0,
     bufs := replicate NBUF \<lparr>b_valid = False, b_disk = False, b_dev = 0, b_blockno = 5, b_refcnt = 0,
       b_prev = 0, b_next = 0, b_data = []\<rparr>,
     vd_desc := replicate NUM no_desc, vd_free := replicate NUM True, vd_info_b := replicate NUM None,
     vd_avail_ring := replicate NUM 0, vd_avail_idx := 0, vd_used_ring := replicate NUM 0, vd_used_idx := 0,
     vd_used_ring_idx := 0, vd_status := replicate NUM 0,
     vd_ops := replicate NUM \<lparr>rq_type = 0, rq_reserved = 0, rq_sector = 0\<rparr>\<rparr>"

definition device_serve :: "'z virtio_st_scheme \<Rightarrow> 'z virtio_st_scheme" where
  "device_serve s =
     (let k = unat (vd_used_ring_idx s) mod NUM; id = vd_avail_ring s ! k in
      s\<lparr>vd_status := (vd_status s)[unat id := 0], vd_used_ring := (vd_used_ring s)[k := ucast id],
        vd_used_ring_idx := vd_used_ring_idx s + 1\<rparr>)"

text \<open>A request from the call to its end: submitted, served, reported by the interrupt, taken.\<close>

theorem disk_requests_kept_witness:
  "\<forall>s :: virtio_st. \<exists>i0 t u v.
     virtio_disk_rw 1 True (disk_idle s) = Swtch t \<and> b_disk (bufs t ! 1) \<and>
     virtio_disk_intr (device_serve (t\<lparr>held := []\<rparr>)) = Ok () u \<and> \<not> b_disk (bufs u ! 1) \<and>
     virtio_wait_resume 1 i0 (u\<lparr>held := [ProcLock 0], cur := Some 0\<rparr>) = Ok () v \<and> disk_inv [] v"
proof
  fix s :: virtio_st
  let ?s = "disk_idle s"
  have inv: "disk_inv [] ?s" "length (procs ?s) = NPROC" by (simp_all add: disk_inv_def disk_idle_def)
  have h: "held ?s = [] \<and> cur ?s = Some 0 \<and> 0 < NPROC \<and> 1 < length (bufs ?s)" by (simp add: disk_idle_def NPROC_def NBUF_def MAXOPBLOCKS_def)
  have "free_ids ?s = {..<NUM}" by (auto simp: free_ids_def disk_idle_def)
  then have "\<not> card (free_ids ?s) < 3" by (simp add: NUM_def)
  with conjunct1 [OF disk_requests_kept [OF inv, of 0 1 True], THEN mp, OF h]
  obtain i0 i1 i2 t where t: "virtio_disk_rw 1 True ?s = Swtch t" "{i0, i1, i2} \<subseteq> free_ids ?s"
    "disk_inv [(i0, i1, i2, 1, True, b_blockno (bufs ?s ! 1))] t" "length (procs t) = NPROC" "submitted 1 i0 ?s t"
    by (elim disjE exE conjE) auto
  let ?R = "[(i0, i1, i2, 1, True, b_blockno (bufs ?s ! 1))]"
  let ?t = "device_serve (t\<lparr>held := []\<rparr>)"
  have lt: "i0 < NUM" using t(2) by (auto simp: free_ids_def)
  have N: "0 < NUM" by (simp add: NUM_def)
  have id: "unat (of_nat i0 :: u16) = i0" "unat (ucast (of_nat i0 :: u16) :: u32) = i0"
    using lt by (auto simp: NUM_def unat_of_nat unsigned_ucast_eq take_bit_nat_eq_self)
  have st: "vd_used_ring_idx t = 0" "vd_used_idx t = 0" "vd_avail_ring t ! 0 = of_nat i0" "length (vd_used_ring t) = NUM"
    "length (vd_status t) = NUM" "b_disk (bufs t ! 1)"
    using t(5) h N by (auto simp: submitted_def disk_idle_def)
  have serve: "?t = t\<lparr>held := [], vd_status := (vd_status t)[i0 := 0], vd_used_ring := (vd_used_ring t)[0 := ucast (of_nat i0 :: u16)],
      vd_used_ring_idx := 1\<rparr>"
    unfolding device_serve_def using st(1,3) id(1) by simp
  have inv1: "disk_inv ?R ?t"
    unfolding serve by (rule disk_inv_cong [OF t(3)]) (use t(3) in \<open>simp_all add: disk_inv_def\<close>)
  have rep: "reported ?t 0 = i0" unfolding serve reported_def using st(2,4) id(2) N by simp
  have "device_ok ?R ?t 1" using rep st(5) lt unfolding device_ok_def serve by simp
  then have B: "held ?t = [] \<and> device_ok ?R ?t (unat (vd_used_ring_idx ?t - vd_used_idx ?t))" unfolding serve using st(2) by simp
  have "length (procs ?t) = NPROC" using t(4) by (simp add: serve)
  from conjunct1 [OF conjunct2 [OF disk_requests_kept [OF inv1 this]], THEN mp, OF B] obtain u where
    u: "virtio_disk_intr ?t = Ok () u" "disk_inv ?R u" "length (procs u) = NPROC"
      "\<forall>c. bufs u ! c = (bufs ?t ! c)\<lparr>b_disk := b_disk (bufs ?t ! c) \<and>
        (\<forall>k < unat (vd_used_ring_idx ?t - vd_used_idx ?t). vd_info_b ?t ! reported ?t k \<noteq> Some c)\<rparr>" by blast
  have one: "unat (vd_used_ring_idx ?t - vd_used_idx ?t) = 1" unfolding serve using st(2) by simp
  have "vd_info_b ?t ! i0 = Some 1" using inv1 by (simp add: disk_inv_def)
  then have nb: "\<not> b_disk (bufs u ! 1)" using u(4) [rule_format, of 1] rep one by auto
  let ?u = "u\<lparr>held := [ProcLock 0], cur := Some 0\<rparr>"
  have inv2: "disk_inv ?R ?u" by (rule disk_inv_cong [OF u(2)]) (use u(2) in \<open>simp_all add: disk_inv_def\<close>)
  have np2: "length (procs ?u) = NPROC" using u(3) by simp
  have C: "?R = [] @ (i0, i1, i2, 1, True, b_blockno (bufs ?s ! 1)) # [] \<and> held ?u = [ProcLock 0] \<and> cur ?u = Some 0 \<and>
      0 < NPROC \<and> \<not> b_disk (bufs ?u ! 1)" using nb by (simp add: NPROC_def)
  from conjunct2 [OF conjunct2 [OF disk_requests_kept [OF inv2 np2]], THEN mp, OF C] obtain v where
    "virtio_wait_resume 1 i0 ?u = Ok () v" "disk_inv ([] @ []) v" by blast
  then show "\<exists>i0 t u v. virtio_disk_rw 1 True (disk_idle s) = Swtch t \<and> b_disk (bufs t ! 1) \<and>
     virtio_disk_intr (device_serve (t\<lparr>held := []\<rparr>)) = Ok () u \<and> \<not> b_disk (bufs u ! 1) \<and>
     virtio_wait_resume 1 i0 (u\<lparr>held := [ProcLock 0], cur := Some 0\<rparr>) = Ok () v \<and> disk_inv [] v"
    using t(1) st(6) u(1) nb by auto
qed

end
