(* ===== verification/Machine.thy ===== *)
theory Machine
  imports Trap
begin

text \<open>
  The first instructions of a hart, kernel/start.c, with the register accesses of kernel/riscv.h, and the
  set-up of the UART and of the interrupt controller. A register holds what was last written to it: the
  architecture's read-only bits, and registers that are views of other ones, are part of the hardware
  and not of the model. Only \<open>mret\<close> changes the mode and the program counter.
\<close>

section \<open>Registers (kernel/riscv.h)\<close>

datatype reg = MHARTID | MSTATUS | MEPC | SSTATUS | SIP | SIE | MIE | SEPC
  | MEDELEG | MIDELEG | STVEC | STIMECMP | MENVCFG | PMPCFG0 | PMPADDR0 | SATP
  | SCAUSE | STVAL | MCOUNTEREN | TIME | SP_reg | TP_reg | RA_reg

datatype mode = UserMode | SupervisorMode | MachineMode

record hart =
  h_reg :: "reg \<Rightarrow> u64"
  h_mode :: mode
  h_pc :: u64

definition csrr :: "reg \<Rightarrow> (hart, u64) kmon" where
  "csrr r = gets (\<lambda>s. h_reg s r)"

definition csrw :: "reg \<Rightarrow> u64 \<Rightarrow> (hart, unit) kmon" where
  "csrw r x = modify (\<lambda>s. s\<lparr>h_reg := (h_reg s)(r := x)\<rparr>)"

definition r_mhartid :: "(hart, u64) kmon" where "r_mhartid = csrr MHARTID"
definition r_mstatus :: "(hart, u64) kmon" where "r_mstatus = csrr MSTATUS"
definition w_mstatus :: "u64 \<Rightarrow> (hart, unit) kmon" where "w_mstatus = csrw MSTATUS"
definition w_mepc :: "u64 \<Rightarrow> (hart, unit) kmon" where "w_mepc = csrw MEPC"
definition r_sstatus :: "(hart, u64) kmon" where "r_sstatus = csrr SSTATUS"
definition w_sstatus :: "u64 \<Rightarrow> (hart, unit) kmon" where "w_sstatus = csrw SSTATUS"
definition r_sip :: "(hart, u64) kmon" where "r_sip = csrr SIP"
definition w_sip :: "u64 \<Rightarrow> (hart, unit) kmon" where "w_sip = csrw SIP"
definition r_sie :: "(hart, u64) kmon" where "r_sie = csrr SIE"
definition w_sie :: "u64 \<Rightarrow> (hart, unit) kmon" where "w_sie = csrw SIE"
definition r_mie :: "(hart, u64) kmon" where "r_mie = csrr MIE"
definition w_mie :: "u64 \<Rightarrow> (hart, unit) kmon" where "w_mie = csrw MIE"
definition w_sepc :: "u64 \<Rightarrow> (hart, unit) kmon" where "w_sepc = csrw SEPC"
definition r_sepc :: "(hart, u64) kmon" where "r_sepc = csrr SEPC"
definition r_medeleg :: "(hart, u64) kmon" where "r_medeleg = csrr MEDELEG"
definition w_medeleg :: "u64 \<Rightarrow> (hart, unit) kmon" where "w_medeleg = csrw MEDELEG"
definition r_mideleg :: "(hart, u64) kmon" where "r_mideleg = csrr MIDELEG"
definition w_mideleg :: "u64 \<Rightarrow> (hart, unit) kmon" where "w_mideleg = csrw MIDELEG"
definition w_stvec :: "u64 \<Rightarrow> (hart, unit) kmon" where "w_stvec = csrw STVEC"
definition r_stvec :: "(hart, u64) kmon" where "r_stvec = csrr STVEC"
definition r_stimecmp :: "(hart, u64) kmon" where "r_stimecmp = csrr STIMECMP"
definition w_stimecmp :: "u64 \<Rightarrow> (hart, unit) kmon" where "w_stimecmp = csrw STIMECMP"
definition r_menvcfg :: "(hart, u64) kmon" where "r_menvcfg = csrr MENVCFG"
definition w_menvcfg :: "u64 \<Rightarrow> (hart, unit) kmon" where "w_menvcfg = csrw MENVCFG"
definition w_pmpcfg0 :: "u64 \<Rightarrow> (hart, unit) kmon" where "w_pmpcfg0 = csrw PMPCFG0"
definition w_pmpaddr0 :: "u64 \<Rightarrow> (hart, unit) kmon" where "w_pmpaddr0 = csrw PMPADDR0"
definition w_satp :: "u64 \<Rightarrow> (hart, unit) kmon" where "w_satp = csrw SATP"
definition r_satp :: "(hart, u64) kmon" where "r_satp = csrr SATP"
definition r_scause :: "(hart, u64) kmon" where "r_scause = csrr SCAUSE"
definition r_stval :: "(hart, u64) kmon" where "r_stval = csrr STVAL"
definition w_mcounteren :: "u64 \<Rightarrow> (hart, unit) kmon" where "w_mcounteren = csrw MCOUNTEREN"
definition r_mcounteren :: "(hart, u64) kmon" where "r_mcounteren = csrr MCOUNTEREN"
definition r_time :: "(hart, u64) kmon" where "r_time = csrr TIME"
definition r_sp :: "(hart, u64) kmon" where "r_sp = csrr SP_reg"
definition r_tp :: "(hart, u64) kmon" where "r_tp = csrr TP_reg"
definition w_tp :: "u64 \<Rightarrow> (hart, unit) kmon" where "w_tp = csrw TP_reg"
definition r_ra :: "(hart, u64) kmon" where "r_ra = csrr RA_reg"

lemmas reg_defs = csrr_def csrw_def r_mhartid_def r_mstatus_def w_mstatus_def w_mepc_def r_sstatus_def w_sstatus_def r_sip_def w_sip_def r_sie_def
  w_sie_def r_mie_def w_mie_def w_sepc_def r_sepc_def r_medeleg_def w_medeleg_def r_mideleg_def w_mideleg_def
  w_stvec_def r_stvec_def r_stimecmp_def w_stimecmp_def r_menvcfg_def w_menvcfg_def w_pmpcfg0_def w_pmpaddr0_def w_satp_def
  r_satp_def r_scause_def r_stval_def w_mcounteren_def r_mcounteren_def r_time_def r_sp_def r_tp_def w_tp_def
  r_ra_def

definition MSTATUS_MPP_MASK :: u64 where "MSTATUS_MPP_MASK = push_bit 11 3"
definition MSTATUS_MPP_M :: u64 where "MSTATUS_MPP_M = push_bit 11 3"
definition MSTATUS_MPP_S :: u64 where "MSTATUS_MPP_S = push_bit 11 1"
definition MSTATUS_MPP_U :: u64 where "MSTATUS_MPP_U = push_bit 11 0"
definition SIE_SEIE :: u64 where "SIE_SEIE = push_bit 9 1"
definition SIE_STIE :: u64 where "SIE_STIE = push_bit 5 1"
definition SIE_SSIE :: u64 where "SIE_SSIE = push_bit 1 1"
definition MIE_STIE :: u64 where "MIE_STIE = push_bit 5 1"

section \<open>Start (kernel/start.c)\<close>

text \<open>The instruction \<open>mret\<close>: to the address in \<open>mepc\<close>, in the mode in the field \<open>MPP\<close> of \<open>mstatus\<close>.\<close>

definition mret :: "(hart, unit) kmon" where
  "mret = modify (\<lambda>s. s\<lparr>h_pc := h_reg s MEPC,
     h_mode := (let m = h_reg s MSTATUS AND MSTATUS_MPP_MASK in
       if m = MSTATUS_MPP_M then MachineMode else if m = MSTATUS_MPP_S then SupervisorMode else UserMode)\<rparr>)"

definition timerinit :: "(hart, unit) kmon" where
  "timerinit =
     bnd r_mie (\<lambda>x. bnd (w_mie (x OR MIE_STIE)) (\<lambda>_.
     bnd r_menvcfg (\<lambda>x. bnd (w_menvcfg (x OR push_bit 63 1)) (\<lambda>_.
     bnd r_mcounteren (\<lambda>x. bnd (w_mcounteren (x OR 2)) (\<lambda>_.
     bnd r_time (\<lambda>x. w_stimecmp (x + 1000000))))))))"

text \<open>\<open>start\<close>; the address of \<open>main\<close> is fixed by the linker. \<open>id\<close> is an \<open>int\<close>.\<close>

definition start :: "u64 \<Rightarrow> (hart, unit) kmon" where
  "start main_addr =
     bnd r_mstatus (\<lambda>x.
     bnd (w_mstatus (x AND NOT MSTATUS_MPP_MASK OR MSTATUS_MPP_S)) (\<lambda>_.
     bnd (w_mepc main_addr) (\<lambda>_.
     bnd (w_satp 0) (\<lambda>_.
     bnd (w_medeleg 0xffff) (\<lambda>_.
     bnd (w_mideleg 0xffff) (\<lambda>_.
     bnd r_sie (\<lambda>sie.
     bnd (w_sie (sie OR SIE_SEIE OR SIE_STIE OR SIE_SSIE)) (\<lambda>_.
     bnd (w_pmpaddr0 0x3fffffffffffff) (\<lambda>_.
     bnd (w_pmpcfg0 0xf) (\<lambda>_.
     bnd timerinit (\<lambda>_.
     bnd r_mhartid (\<lambda>hartid.
     bnd (w_tp (scast (ucast hartid :: u32))) (\<lambda>_.
     mret)))))))))))))"

text \<open>\<open>cpuid\<close> of kernel/proc.c reads \<open>tp\<close>, as an \<open>int\<close>.\<close>

definition cpuid :: "(hart, u32) kmon" where
  "cpuid = bnd r_tp (\<lambda>id. ret (ucast id))"

text \<open>
  \<open>start\<close> always returns to \<open>main\<close> in supervisor mode, with paging off, all traps delegated, the three kinds of
  interrupts enabled in \<open>sie\<close>, and a number in \<open>tp\<close> that \<open>cpuid\<close> reads back.
\<close>

lemma mpp_supervisor: "(x AND NOT MSTATUS_MPP_MASK OR MSTATUS_MPP_S) AND MSTATUS_MPP_MASK = MSTATUS_MPP_S"
proof -
  have "MSTATUS_MPP_S AND MSTATUS_MPP_MASK = MSTATUS_MPP_S" by (simp add: MSTATUS_MPP_S_def MSTATUS_MPP_MASK_def)
  moreover have "(x AND NOT MSTATUS_MPP_MASK) AND MSTATUS_MPP_MASK = 0" by (simp add: and.assoc)
  ultimately show ?thesis by (simp add: bit.conj_disj_distrib2)
qed

lemma start_enters_main:
  "\<exists>t. start main_addr s = Ok () t \<and> h_pc t = main_addr \<and> h_mode t = SupervisorMode \<and> h_reg t SATP = 0 \<and>
     h_reg t MEDELEG = 0xffff \<and> h_reg t MIDELEG = 0xffff \<and> h_reg t STIMECMP = h_reg s TIME + 1000000 \<and>
     h_reg t SIE AND (SIE_SEIE OR SIE_STIE OR SIE_SSIE) = SIE_SEIE OR SIE_STIE OR SIE_SSIE \<and>
     cpuid t = Ok (ucast (h_reg s MHARTID)) t"
proof -
  have m: "MSTATUS_MPP_S \<noteq> MSTATUS_MPP_M" by (simp add: MSTATUS_MPP_S_def MSTATUS_MPP_M_def)
  have c: "ucast (scast (y :: u32) :: u64) = y" for y by (rule bit_word_eqI) (simp add: bit_simps)
  show ?thesis
    by (simp add: start_def timerinit_def mret_def cpuid_def bnd_case reg_defs mpp_supervisor m c Let_def)
qed

section \<open>Devices\<close>

text \<open>The stores of \<open>uartinit\<close> to the registers of the UART, and of \<open>plicinit\<close> and \<open>plicinithart\<close> to memory.\<close>

definition IER :: nat where "IER = 1"
definition FCR :: nat where "FCR = 2"
definition LCR :: nat where "LCR = 3"

definition uartinit :: "(nat \<times> byte) list" where
  "uartinit =
     [(IER, 0), (LCR, push_bit 7 1), (0, 3), (1, 0), (LCR, 3), (FCR, push_bit 0 1 OR push_bit 1 3),
      (IER, push_bit 1 1 OR push_bit 0 1)]"

definition plicinit :: "(u64 \<times> u32) list" where
  "plicinit = [(PLIC + ucast UART0_IRQ * 4, 1), (PLIC + ucast VIRTIO0_IRQ * 4, 1)]"

definition PLIC_SENABLE :: "u32 \<Rightarrow> u64" where
  "PLIC_SENABLE hart = PLIC + 0x2080 + scast (hart * 0x100)"

definition PLIC_SPRIORITY :: "u32 \<Rightarrow> u64" where
  "PLIC_SPRIORITY hart = PLIC + 0x201000 + scast (hart * 0x2000)"

definition plicinithart :: "(hart, (u64 \<times> u32) list) kmon" where
  "plicinithart =
     bnd cpuid (\<lambda>hart.
     ret [(PLIC_SENABLE hart, push_bit (unat UART0_IRQ) 1 OR push_bit (unat VIRTIO0_IRQ) 1),
          (PLIC_SPRIORITY hart, 0)])"

end
