(* ===== verification/Files.thy ===== *)
theory Files
  imports Transaction Fs
begin

text \<open>
  Reading files and directories through the buffer cache: \<open>bmap\<close>, \<open>readi\<close> and \<open>dirlookup\<close> of
  kernel/fs.c against the contents of a file as its inode and the blocks describe them. Reading moves
  buffers about but changes neither the contents of a block nor the disk.
\<close>

section \<open>Reading one block\<close>

text \<open>\<open>t\<close> is \<open>s\<close> after some reading: only the cache, its locks and the states of waiting processes differ.\<close>

definition moved :: "'z bio_st_scheme \<Rightarrow> 'z bio_st_scheme \<Rightarrow> bool" where
  "moved s t \<longleftrightarrow> (\<exists>bs sl ps. t = s\<lparr>bufs := bs, slocks := sl, procs := ps\<rparr>) \<and> ready t \<and> content t = content s"

lemma moved_refl: "ready s \<Longrightarrow> moved s s"
  unfolding moved_def by (intro conjI exI [of _ "bufs s"] exI [of _ "slocks s"] exI [of _ "procs s"]) simp_all

lemma moved_trans: "moved s t \<Longrightarrow> moved t u \<Longrightarrow> moved s u"
  unfolding moved_def by (elim conjE exE, intro conjI) (simp_all, blast)

lemma ready_phys [simp]: "ready (s\<lparr>phys := m\<rparr>) = ready s"
  by (simp add: ready_def bc_def thr_ok_def my_pid_def)

lemma moved_phys:
  assumes "moved s t"
  shows "moved (s\<lparr>phys := m\<rparr>) (t\<lparr>phys := m\<rparr>)"
proof -
  obtain bs sl ps where t: "t = s\<lparr>bufs := bs, slocks := sl, procs := ps\<rparr>" using assms by (auto simp: moved_def)
  then have "t\<lparr>phys := m\<rparr> = s\<lparr>phys := m\<rparr>\<lparr>bufs := bs, slocks := sl, procs := ps\<rparr>" by (cases s) simp
  moreover have "ready (t\<lparr>phys := m\<rparr>)" "content (t\<lparr>phys := m\<rparr>) = content (s\<lparr>phys := m\<rparr>)" using assms by (simp_all add: moved_def)
  ultimately show ?thesis unfolding moved_def by blast
qed

lemma moved_sel:
  fixes s :: "'z fs_st_scheme"
  assumes "moved s t"
  shows "inodes t = inodes s" "phys t = phys s" "disk t = disk s" "kvar t = kvar s" "content t = content s" "ready t"
    "cur t = cur s" "held t = []"
  using assms by (auto simp: moved_def ready_def bc_def thr_ok_def)

lemma read_session:
  assumes "ready s"
  obtains b s1 where "bread ROOTDEV bn s = Ok b s1" "b_data (bufs s1 ! b) = content s bn"
    "\<exists>bs sl. s1 = s\<lparr>bufs := bs, slocks := sl\<rparr>" "\<And>m. \<exists>t. brelse b (s1\<lparr>phys := m\<rparr>) = Ok () t \<and> moved (s\<lparr>phys := m\<rparr>) t"
proof -
  from one_bread [OF assms, of bn] obtain x bs sl where
    r: "bread ROOTDEV bn s = Ok x (s\<lparr>bufs := bs, slocks := sl\<rparr>)" and x: "x < NBUF"
    and bc: "bc {x} (s\<lparr>bufs := bs, slocks := sl\<rparr>)" and cl: "clean bs (disk s)"
    and v: "b_valid (bs ! x)" "b_blockno (bs ! x) = bn" "b_data (bs ! x) = content s bn"
    and c: "content_of bs (disk s) = content s" and o: "\<forall>c < NBUF. c \<noteq> x \<longrightarrow> bs ! c = bufs s ! c"
    and rf: "b_refcnt (bs ! x) = b_refcnt (bufs s ! x) + 1"
    and k: "b_refcnt (bufs s ! x) \<noteq> 0 \<longrightarrow> holds_block bn (bufs s ! x)" by blast
  have ok: "bufs_ok {x} bs" and ok0: "bufs_ok {} (bufs s)" using bc assms by (simp_all add: bc_def ready_def)
  have len: "length bs = NBUF + 1" by (rule bufs_ok_length [OF ok])
  have dv: "b_dev (bs ! x) = ROOTDEV" using ok v x by (auto simp: bufs_ok_def)
  have last: "b_data (bs ! x) = disk s bn" if "b_refcnt (bs ! x) = 1"
  proof -
    have z: "b_refcnt (bufs s ! x) = 0" using rf that by simp
    have "\<not> pinned (bufs s) bn"
    proof
      assume "pinned (bufs s) bn"
      then obtain c where c: "c < NBUF" "holds_block bn (bufs s ! c)" "b_refcnt (bufs s ! c) \<noteq> 0" by (auto simp: pinned_def)
      then have cx: "c \<noteq> x" using z by auto
      then have "holds_block bn (bs ! c)" using o c by simp
      moreover have "holds_block bn (bs ! x)" using v dv by (simp add: holds_block_def)
      ultimately show False using bufs_ok_unique [OF ok] c(1) x cx by blast
    qed
    then show ?thesis using clean_content [OF ok0] assms v by (simp add: ready_def)
  qed
  have "\<exists>t. brelse x (s\<lparr>bufs := bs, slocks := sl\<rparr>\<lparr>phys := m\<rparr>) = Ok () t \<and> moved (s\<lparr>phys := m\<rparr>) t" for m
  proof -
    let ?s1 = "s\<lparr>bufs := bs, slocks := sl\<rparr>\<lparr>phys := m\<rparr>"
    have bc1: "bc {x} ?s1" using bc by (simp add: bc_def thr_ok_def my_pid_def)
    have cl1: "clean (bufs ?s1) (disk ?s1)" using cl by simp
    have xH: "x \<in> {x}" by simp
    have "b_data (bufs ?s1 ! x) = disk ?s1 (b_blockno (bufs ?s1 ! x))" if "b_refcnt (bufs ?s1 ! x) = 1" using v last that by simp
    from brelse_spec [OF bc1 xH cl1 this] obtain bs3 sl3 ps3 where
      q: "brelse x ?s1 = Ok () (?s1\<lparr>bufs := bs3, slocks := sl3, procs := ps3\<rparr>)"
        "bc {} (?s1\<lparr>bufs := bs3, slocks := sl3, procs := ps3\<rparr>)"
        "clean bs3 (disk s)" "content_of bs3 (disk s) = content s"
      and same3: "same_bufs (bs[x := (bs ! x)\<lparr>b_refcnt := b_refcnt (bs ! x) - 1\<rparr>]) bs3"
      using c by auto
    have e3: "?s1\<lparr>bufs := bs3, slocks := sl3, procs := ps3\<rparr> = s\<lparr>phys := m\<rparr>\<lparr>bufs := bs3, slocks := sl3, procs := ps3\<rparr>"
      by (cases s) simp
    have "\<forall>c < NBUF. b_dev (bs3 ! c) = b_dev (bs ! c) \<and> b_blockno (bs3 ! c) = b_blockno (bs ! c) \<and>
        b_valid (bs3 ! c) = b_valid (bs ! c) \<and> b_refcnt (bs3 ! c) = b_refcnt (bs ! c) - (if c = x then 1 else 0)"
      using same_bufs_D [OF same3] len by (auto simp: nth_list_update_if)
    from one_keeps [OF o x k v(1,2) dv rf this] have "pins_but {} (bufs s) bs3" .
    then have "one_free bs3" using assms by (simp add: pins_but_def ready_def)
    then have "moved (s\<lparr>phys := m\<rparr>) (s\<lparr>phys := m\<rparr>\<lparr>bufs := bs3, slocks := sl3, procs := ps3\<rparr>)"
      using q(2-4) unfolding moved_def e3 by (intro conjI) (auto simp: ready_def)
    then show ?thesis using q(1) e3 by (intro exI conjI) simp_all
  qed
  note rel = this
  show ?thesis
  proof (rule that [OF r _ _ rel])
    show "b_data (bufs (s\<lparr>bufs := bs, slocks := sl\<rparr>) ! x) = content s bn" using v(3) by simp
    show "\<exists>bs' sl'. s\<lparr>bufs := bs, slocks := sl\<rparr> = s\<lparr>bufs := bs', slocks := sl'\<rparr>" by blast
  qed
qed


section \<open>Contents of a file\<close>

text \<open>
  The block with the bytes from \<open>bn * BSIZE\<close> on, by the addresses of the inode and, behind the direct
  ones, by the indirect block; and the bytes of the file.
\<close>

definition fblock :: "(u32 \<Rightarrow> byte list) \<Rightarrow> u32 list \<Rightarrow> nat \<Rightarrow> u32" where
  "fblock C addrs bn = (if bn < NDIRECT then addrs ! bn else get_le (4 * (bn - NDIRECT)) (C (addrs ! NDIRECT)))"

definition file_bytes :: "(u32 \<Rightarrow> byte list) \<Rightarrow> u32 list \<Rightarrow> nat \<Rightarrow> nat \<Rightarrow> byte list" where
  "file_bytes C addrs off n = map (\<lambda>k. C (fblock C addrs (k div BSIZE)) ! (k mod BSIZE)) [off..<off + n]"

text \<open>Every block below the size is there.\<close>

definition file_ok :: "(u32 \<Rightarrow> byte list) \<Rightarrow> u32 list \<Rightarrow> nat \<Rightarrow> bool" where
  "file_ok C addrs sz \<longleftrightarrow> sz \<le> MAXFILE * BSIZE \<and>
     (\<forall>bn. bn * BSIZE < sz \<longrightarrow> fblock C addrs bn \<noteq> 0 \<and> length (C (fblock C addrs bn)) = BSIZE \<and>
       (NDIRECT \<le> bn \<longrightarrow> addrs ! NDIRECT \<noteq> 0))"

lemma bmap_mapped:
  fixes s :: "'z fs_st_scheme"
  assumes rd: "ready s" and dev: "i_dev (inodes s ! ip) = ROOTDEV"
    and ok: "file_ok (content s) (i_addrs (inodes s ! ip)) sz" and bn: "bn * BSIZE < sz"
  shows "\<exists>t. bmap ip bn s = Ok (fblock (content s) (i_addrs (inodes s ! ip)) bn) t \<and> moved s t"
proof -
  let ?i = "inodes s ! ip" and ?C = "content s"
  let ?a = "fblock ?C (i_addrs ?i) bn"
  have nz: "?a \<noteq> 0" "NDIRECT \<le> bn \<longrightarrow> i_addrs ?i ! NDIRECT \<noteq> 0" and szm: "sz \<le> MAXFILE * BSIZE"
    using ok bn by (auto simp: file_ok_def)
  have "bn * BSIZE < MAXFILE * BSIZE" using bn szm by linarith
  then have mx: "bn < NDIRECT + NINDIRECT" by (simp add: MAXFILE_def)
  show ?thesis
  proof (cases "bn < NDIRECT")
    case True
    then have "bmap ip bn s = Ok ?a s" using nz by (simp add: bmap_def iget_ino_def fblock_def)
    then show ?thesis using moved_refl [OF rd] by blast
  next
    case False
    let ?ind = "i_addrs ?i ! NDIRECT"
    obtain b s1 where r: "bread ROOTDEV ?ind s = Ok b s1" "b_data (bufs s1 ! b) = ?C ?ind"
      "\<exists>bs sl. s1 = s\<lparr>bufs := bs, slocks := sl\<rparr>" "\<And>m. \<exists>t. brelse b (s1\<lparr>phys := m\<rparr>) = Ok () t \<and> moved (s\<lparr>phys := m\<rparr>) t"
      using read_session [OF rd, of ?ind] by metis
    have mx': "bn - NDIRECT < NINDIRECT" using mx False by simp
    have a: "?a = get_le (4 * (bn - NDIRECT)) (?C ?ind)" using False by (simp add: fblock_def)
    have "bmap ip bn s = bnd (brelse b) (\<lambda>_. ret ?a) s1"
      using False mx' nz r dev a by (simp add: bmap_def iget_ino_def bget_buf_def bnd_case)
    moreover have "s1\<lparr>phys := phys s\<rparr> = s1" "s\<lparr>phys := phys s\<rparr> = s" using r(3) by auto
    then obtain t where "brelse b s1 = Ok () t" "moved s t" using r(4) [of "phys s"] by auto
    ultimately show ?thesis by (auto simp: bnd_case)
  qed
qed


section \<open>\<open>readi\<close>\<close>

lemma store_bytes_append:
  assumes "length xs + length ys \<le> 2 ^ 64"
  shows "store_bytes (store_bytes m a xs) (a + of_nat (length xs)) ys = store_bytes m a (xs @ ys)"
proof
  fix x
  show "store_bytes (store_bytes m a xs) (a + of_nat (length xs)) ys x = store_bytes m a (xs @ ys) x"
  proof (cases "length ys = 0")
    case False
    let ?n = "length xs"
    have n: "?n < 2 ^ 64" using assms False by linarith
    have un: "unat (of_nat ?n :: u64) = ?n" using n by (simp add: unat_of_nat)
    show ?thesis
    proof (cases "?n \<le> unat (x - a)")
      case True
      have "unat (x - a - of_nat ?n) = unat (x - a) - ?n"
        using unat_sub_le [of "of_nat ?n" "x - a"] True un by (simp add: word_le_nat_alt)
      then have "unat (x - (a + of_nat ?n)) = unat (x - a) - ?n" by (simp add: diff_diff_add)
      then show ?thesis using True by (auto simp: store_bytes_def in_range_def nth_append)
    next
      case False
      then have lt: "unat (x - a) < ?n" by simp
      have e: "x - (a + of_nat ?n) = (x - a) - of_nat ?n" by (simp add: diff_diff_add)
      have "\<not> in_range x (a + of_nat ?n) (length ys)"
      proof
        assume "in_range x (a + of_nat ?n) (length ys)"
        then have l: "unat (x - a - of_nat ?n) < length ys" by (simp add: in_range_def e)
        have "unat (x - a) = unat ((x - a - of_nat ?n) + of_nat ?n)" by simp
        also have "\<dots> = unat (x - a - of_nat ?n) + ?n"
          using unat_add_small [of "x - a - of_nat ?n" "of_nat ?n"] l assms un by simp
        finally show False using lt by simp
      qed
      then show ?thesis using lt by (simp add: store_bytes_def in_range_def nth_append)
    qed
  qed (simp add: store_bytes_def in_range_def)
qed

lemma length_file_bytes [simp]: "length (file_bytes C addrs off n) = n"
  by (simp add: file_bytes_def)

lemma file_bytes_append: "file_bytes C addrs off (m + n) = file_bytes C addrs off m @ file_bytes C addrs (off + m) n"
  unfolding file_bytes_def map_append [symmetric]
  by (simp only: add.assoc [symmetric] upt_add_eq_append [OF le_add1])

lemma file_bytes_block:
  assumes "off mod BSIZE + m \<le> BSIZE" "length (C (fblock C addrs (off div BSIZE))) = BSIZE"
  shows "take m (drop (off mod BSIZE) (C (fblock C addrs (off div BSIZE)))) = file_bytes C addrs off m"
proof (rule nth_equalityI)
  show "length (take m (drop (off mod BSIZE) (C (fblock C addrs (off div BSIZE))))) = length (file_bytes C addrs off m)"
    using assms by simp
  fix i assume "i < length (take m (drop (off mod BSIZE) (C (fblock C addrs (off div BSIZE)))))"
  then have i: "i < m" by simp
  then have lt: "off mod BSIZE + i < BSIZE" using assms(1) by simp
  have "off + i = (off mod BSIZE + i) + off div BSIZE * BSIZE" by simp
  then have "(off + i) div BSIZE = off div BSIZE" "(off + i) mod BSIZE = off mod BSIZE + i"
    using lt by (simp_all only: div_mult_self1 mod_mult_self1 div_less mod_less add_0_right BSIZE_def)
  then show "take m (drop (off mod BSIZE) (C (fblock C addrs (off div BSIZE)))) ! i = file_bytes C addrs off m ! i"
    using i assms by (simp add: file_bytes_def)
qed

lemma readi_loop_spec:
  fixes s :: "'z fs_st_scheme"
  assumes "ready s" "i_dev (inodes s ! ip) = ROOTDEV" "file_ok (content s) (i_addrs (inodes s ! ip)) sz"
    "off + (n - tot) \<le> sz" "tot \<le> n"
  shows "\<exists>t. readi_loop ip False dst off n tot s = Ok (int n) t \<and>
    moved (s\<lparr>phys := store_bytes (phys s) dst (file_bytes (content s) (i_addrs (inodes s ! ip)) off (n - tot))\<rparr>) t"
  using assms
proof (induction "n - tot" arbitrary: s dst off tot rule: less_induct)
  case less
  let ?C = "content s" and ?as = "i_addrs (inodes s ! ip)"
  show ?case
  proof (cases "tot < n")
    case False
    then have "n = tot" using less.prems(5) by simp
    then show ?thesis using moved_refl [OF less.prems(1)]
      by (simp add: readi_loop.simps file_bytes_def store_bytes_def in_range_def)
  next
    case True
    let ?bn = "off div BSIZE" and ?m = "min (n - tot) (BSIZE - off mod BSIZE)"
    have B: "BSIZE > 0" by (simp add: BSIZE_def)
    have "?bn * BSIZE \<le> off" by simp
    then have bn: "?bn * BSIZE < sz" using less.prems(4) True by linarith
    from bmap_mapped [OF less.prems(1-3) bn] obtain s1 where
      b: "bmap ip ?bn s = Ok (fblock ?C ?as ?bn) s1" "moved s s1" by blast
    note s1 = moved_sel [OF b(2)]
    have blk: "fblock ?C ?as ?bn \<noteq> 0" "length (?C (fblock ?C ?as ?bn)) = BSIZE"
      using less.prems(3) bn by (auto simp: file_ok_def)
    let ?a = "fblock ?C ?as ?bn"
    obtain x s2 where r: "bread ROOTDEV ?a s1 = Ok x s2" "b_data (bufs s2 ! x) = content s1 ?a"
      "\<exists>bs sl. s2 = s1\<lparr>bufs := bs, slocks := sl\<rparr>"
      "\<And>m. \<exists>t. brelse x (s2\<lparr>phys := m\<rparr>) = Ok () t \<and> moved (s1\<lparr>phys := m\<rparr>) t"
      using read_session [OF s1(6), of ?a] by metis
    have m: "0 < ?m" "?m \<le> n - tot" "off mod BSIZE + ?m \<le> BSIZE"
      using True B mod_less_divisor [OF B, of off] by auto
    let ?bs = "file_bytes ?C ?as off ?m"
    have bytes: "take ?m (drop (off mod BSIZE) (b_data (bufs s2 ! x))) = ?bs"
      using file_bytes_block [where C = ?C and addrs = ?as, OF m(3) blk(2)] r(2) s1(5) by simp
    let ?m2 = "store_bytes (phys s) dst ?bs"
    have p2: "phys s2 = phys s" "cur s2 = cur s" using r(3) s1 by auto
    obtain p where p: "cur s = Some p" using less.prems(1) by (auto simp: ready_def bc_def thr_ok_def)
    obtain t where t: "brelse x (s2\<lparr>phys := ?m2\<rparr>) = Ok () t" "moved (s1\<lparr>phys := ?m2\<rparr>) t" using r(4) by blast
    have mv: "moved (s\<lparr>phys := ?m2\<rparr>) t" by (rule moved_trans [OF moved_phys [OF b(2)] t(2)])
    note ts = moved_sel [OF mv]
    have cp: "either_copyout False dst ?bs s2 = Ok 0 (s2\<lparr>phys := ?m2\<rparr>)"
      using p p2 by (simp add: either_copyout_def myproc_def bnd_case)
    have step: "readi_loop ip False dst off n tot s = readi_loop ip False (dst + of_nat ?m) (off + ?m) n (tot + ?m) t"
      using True b(1) blk(1) s1(1) less.prems(2) r(1) bytes cp t(1)
      by (subst readi_loop.simps) (simp add: bnd_case iget_ino_def bget_buf_def Let_def)
    have "\<exists>u. readi_loop ip False (dst + of_nat ?m) (off + ?m) n (tot + ?m) t = Ok (int n) u \<and>
      moved (t\<lparr>phys := store_bytes (phys t) (dst + of_nat ?m) (file_bytes (content t) (i_addrs (inodes t ! ip)) (off + ?m) (n - (tot + ?m)))\<rparr>) u"
    proof (rule less.hyps)
      have ar: "n - (tot + k) < n - tot" "off + k + (n - (tot + k)) \<le> sz" "tot + k \<le> n" if "0 < k" "k \<le> n - tot" for k
        using that True less.prems(4) by linarith+
      show "n - (tot + ?m) < n - tot" "off + ?m + (n - (tot + ?m)) \<le> sz" "tot + ?m \<le> n" by (rule ar [OF m(1,2)])+
      have sel: "content t = ?C" "inodes t = inodes s" "ready t" using ts(1,5,6) by simp_all
      show "ready t" by (rule sel)
      show "i_dev (inodes t ! ip) = ROOTDEV" "file_ok (content t) (i_addrs (inodes t ! ip)) sz"
        unfolding sel(1,2) by (rule less.prems)+
    qed
    then obtain u where u: "readi_loop ip False (dst + of_nat ?m) (off + ?m) n (tot + ?m) t = Ok (int n) u"
      "moved (t\<lparr>phys := store_bytes ?m2 (dst + of_nat ?m) (file_bytes ?C ?as (off + ?m) (n - (tot + ?m)))\<rparr>) u"
      using ts by auto
    let ?r = "file_bytes ?C ?as (off + ?m) (n - (tot + ?m))"
    have "k + (n - (tot + k)) = n - tot" if "k \<le> n - tot" for k using that by simp
    note sum = this [OF m(2)]
    have all: "file_bytes ?C ?as off (n - tot) = ?bs @ ?r"
      using file_bytes_append [of ?C ?as off ?m "n - (tot + ?m)"] unfolding sum .
    have "n - tot \<le> MAXFILE * BSIZE" using less.prems(3,4) by (simp add: file_ok_def)
    also have "\<dots> \<le> 2 ^ 64" by (simp add: MAXFILE_def NDIRECT_def NINDIRECT_def BSIZE_def)
    finally have "length ?bs + length ?r \<le> 2 ^ 64" unfolding length_file_bytes sum .
    from store_bytes_append [OF this, of "phys s" dst]
    have "store_bytes ?m2 (dst + of_nat ?m) ?r = store_bytes (phys s) dst (?bs @ ?r)" unfolding length_file_bytes .
    then have "moved (s\<lparr>phys := store_bytes (phys s) dst (?bs @ ?r)\<rparr>) u"
      using moved_trans [OF moved_phys [OF mv] u(2)] by simp
    then show ?thesis using step u(1) all by auto
  qed
qed

text \<open>How many bytes a read at an offset returns.\<close>

definition read_count :: "u32 \<Rightarrow> u32 \<Rightarrow> u32 \<Rightarrow> nat" where
  "read_count sz off n = (if off > sz \<or> off + n < off then 0 else min (unat n) (unat sz - unat off))"

lemma readi_spec:
  fixes s :: "'z fs_st_scheme"
  assumes "ready s" "i_dev (inodes s ! ip) = ROOTDEV"
    "file_ok (content s) (i_addrs (inodes s ! ip)) (unat (i_size (inodes s ! ip)))"
  shows "\<exists>t. readi ip False dst off n s = Ok (int (read_count (i_size (inodes s ! ip)) off n)) t \<and>
    moved (s\<lparr>phys := store_bytes (phys s) dst
      (file_bytes (content s) (i_addrs (inodes s ! ip)) (unat off) (read_count (i_size (inodes s ! ip)) off n))\<rparr>) t"
proof (cases "off > i_size (inodes s ! ip) \<or> off + n < off")
  case True
  then show ?thesis using moved_refl [OF assms(1)]
    by (auto simp: readi_def iget_ino_def read_count_def file_bytes_def store_bytes_def in_range_def)
next
  case False
  let ?sz = "i_size (inodes s ! ip)"
  let ?n = "if off + n > ?sz then ?sz - off else n"
  have le: "off \<le> ?sz" "off \<le> off + n" using False by (simp_all add: not_less)
  have u: "unat (off + n) = unat off + unat n" using le(2) by (metis unat_plus_simple)
  have n: "unat ?n = read_count ?sz off n"
    using False u unat_sub_le [OF le(1)] by (auto simp: read_count_def word_less_nat_alt)
  have "unat off + (read_count ?sz off n - 0) \<le> unat ?sz" using le(1) by (auto simp: read_count_def word_le_nat_alt)
  from readi_loop_spec [OF assms this] n show ?thesis using False by (simp add: readi_def iget_ino_def Let_def)
qed


section \<open>\<open>dirlookup\<close>\<close>

text \<open>The \<open>k\<close>-th entry of a directory.\<close>

definition dirent :: "(u32 \<Rightarrow> byte list) \<Rightarrow> u32 list \<Rightarrow> nat \<Rightarrow> byte list" where
  "dirent C addrs k = file_bytes C addrs (16 * k) 16"

definition entry_for :: "byte list \<Rightarrow> byte list \<Rightarrow> bool" where
  "entry_for name de \<longleftrightarrow> de_inum de \<noteq> 0 \<and> namecmp name (de_name de) = 0"

text \<open>Only the local variable \<open>de\<close> of the caller is written.\<close>

definition local_only :: "'z sched_st_scheme \<Rightarrow> mem \<Rightarrow> bool" where
  "local_only s m \<longleftrightarrow> (\<forall>x. \<not> in_range x (kvar s) 16 \<longrightarrow> m x = phys s x)"

lemma read_dirent_spec:
  fixes s :: "'z fs_st_scheme"
  assumes rd: "ready s" and dev: "i_dev (inodes s ! dp) = ROOTDEV"
    and ok: "file_ok (content s) (i_addrs (inodes s ! dp)) (unat (i_size (inodes s ! dp)))"
    and k: "16 * k + 16 \<le> unat (i_size (inodes s ! dp))"
  shows "\<exists>t m. read_dirent dp (16 * k) msg s = Ok (dirent (content s) (i_addrs (inodes s ! dp)) k) t \<and>
    moved (s\<lparr>phys := m\<rparr>) t \<and> local_only s m"
proof -
  let ?i = "inodes s ! dp" and ?off = "of_nat (16 * k) :: u32"
  let ?de = "dirent (content s) (i_addrs (inodes s ! dp)) k"
  have b: "unat (i_size ?i) < 2 ^ 32" using unat_bound [of "i_size ?i"] by simp
  have u: "unat ?off = 16 * k" by (rule unat_of_nat_small) (use k b in simp)
  have un: "unat (?off + 16) = 16 * k + 16" using k unat_add_small [of ?off 16] u b by (cases "16 * k + 16 < 2 ^ 32") auto
  have cnt: "read_count (i_size ?i) ?off 16 = 16"
    using k u un by (simp add: read_count_def word_less_nat_alt)
  from readi_spec [OF rd dev ok, of "kvar s" ?off 16] obtain t where
    t: "readi dp False (kvar s) ?off 16 s = Ok 16 t" "moved (s\<lparr>phys := store_bytes (phys s) (kvar s) ?de\<rparr>) t"
    unfolding cnt u dirent_def by auto
  have "load_bytes (phys t) (kvar s) 16 = ?de"
    using moved_sel(2) [OF t(2)] load_store_bytes [of ?de "phys s" "kvar s"] by (simp add: dirent_def)
  then have "read_dirent dp (16 * k) msg s = Ok ?de t" using t(1) by (simp add: read_dirent_def bnd_case)
  moreover have "local_only s (store_bytes (phys s) (kvar s) ?de)" by (simp add: local_only_def store_bytes_def dirent_def)
  ultimately show ?thesis using t(2) by blast
qed

text \<open>The body of the loop of \<open>dirlookup\<close>; \<open>f\<close> gets the inode of an entry.\<close>

definition dir_body :: "nat \<Rightarrow> string \<Rightarrow> byte list \<Rightarrow> (byte list \<Rightarrow> ('z fs_st_scheme, nat) kmon) \<Rightarrow> nat \<Rightarrow>
    ('z fs_st_scheme, (nat \<times> nat) option) kmon" where
  "dir_body dp msg name f off = bnd (read_dirent dp off msg) (\<lambda>de.
     if de_inum de \<noteq> 0 \<and> namecmp name (de_name de) = 0 then bnd (f de) (\<lambda>ip. ret (Some (ip, off))) else ret None)"

lemma dir_body_run:
  "read_dirent dp off msg s = Ok de t \<Longrightarrow> dir_body dp msg name f off s =
    (if entry_for name de then bnd (f de) (\<lambda>ip. ret (Some (ip, off))) t else Ok None t)"
  by (simp add: dir_body_def bnd_case entry_for_def)

lemma dir_scan:
  fixes s :: "'z fs_st_scheme"
  assumes "ready s" "i_dev (inodes s ! dp) = ROOTDEV"
    "file_ok (content s) (i_addrs (inodes s ! dp)) (unat (i_size (inodes s ! dp)))"
    "\<forall>k \<in> set ks. 16 * k + 16 \<le> unat (i_size (inodes s ! dp))"
  shows "\<exists>t m. moved (s\<lparr>phys := m\<rparr>) t \<and> local_only s m \<and>
    findM (map (\<lambda>k. 16 * k) ks) (dir_body dp msg name f) s =
    (case find (\<lambda>k. entry_for name (dirent (content s) (i_addrs (inodes s ! dp)) k)) ks of
       None \<Rightarrow> Ok None t
     | Some k \<Rightarrow> bnd (f (dirent (content s) (i_addrs (inodes s ! dp)) k)) (\<lambda>ip. ret (Some (ip, 16 * k))) t)"
  using assms
proof (induction ks arbitrary: s)
  case Nil
  have "local_only s (phys s)" by (simp add: local_only_def)
  then show ?case using moved_refl [OF Nil.prems(1)] by (intro exI [of _ s] exI [of _ "phys s"]) simp
next
  case (Cons k ks)
  let ?C = "content s" and ?as = "i_addrs (inodes s ! dp)"
  from read_dirent_spec [OF Cons.prems(1-3), of k msg] Cons.prems(4) obtain t m where
    r: "read_dirent dp (16 * k) msg s = Ok (dirent ?C ?as k) t" and mv: "moved (s\<lparr>phys := m\<rparr>) t" and lo: "local_only s m" by auto
  note ts = moved_sel [OF mv]
  show ?case
  proof (cases "entry_for name (dirent ?C ?as k)")
    case True
    then show ?thesis using dir_body_run [OF r, of name f] mv lo
      by (intro exI [of _ t] exI [of _ m] conjI) (simp_all add: bnd_def split: result.split)
  next
    case False
    have t': "content t = ?C" "inodes t = inodes s" "kvar t = kvar s" "phys t = m" using ts by auto
    have p: "i_dev (inodes t ! dp) = ROOTDEV"
      "file_ok (content t) (i_addrs (inodes t ! dp)) (unat (i_size (inodes t ! dp)))"
      "\<forall>k \<in> set ks. 16 * k + 16 \<le> unat (i_size (inodes t ! dp))"
      using Cons.prems unfolding t' by simp_all
    from Cons.IH [OF ts(6) p, unfolded t'(1,2)] obtain u m' where u: "moved (t\<lparr>phys := m'\<rparr>) u" "local_only t m'"
      "findM (map (\<lambda>k. 16 * k) ks) (dir_body dp msg name f) t =
      (case find (\<lambda>k. entry_for name (dirent ?C ?as k)) ks of
         None \<Rightarrow> Ok None u
       | Some k \<Rightarrow> bnd (f (dirent ?C ?as k)) (\<lambda>ip. ret (Some (ip, 16 * k))) u)"
      by blast
    have "moved (s\<lparr>phys := m'\<rparr>) u" using moved_trans [OF moved_phys [OF mv] u(1)] by simp
    moreover have "local_only s m'" using u(2) lo t' by (simp add: local_only_def)
    ultimately show ?thesis using u(3) dir_body_run [OF r, of name f] False
      by (intro exI [of _ u] exI [of _ m']) (simp add: bnd_def)
  qed
qed

lemma iget_spec:
  fixes s :: "'z fs_st_scheme"
  assumes "held s = []" "\<exists>i \<in> set (inodes s). i_ref i = 0"
  shows "\<exists>ip t. iget dev inum s = Ok ip t \<and> ip < length (inodes s) \<and>
    t = s\<lparr>inodes := (inodes s)[ip := inodes t ! ip]\<rparr> \<and> 0 < i_ref (inodes t ! ip) \<and> i_dev (inodes t ! ip) = dev \<and>
    i_inum (inodes t ! ip) = inum \<and>
    (inodes s ! ip = (inodes t ! ip)\<lparr>i_ref := i_ref (inodes t ! ip) - 1\<rparr> \<and> 0 < i_ref (inodes s ! ip) \<or>
     i_ref (inodes s ! ip) = 0 \<and> i_ref (inodes t ! ip) = 1 \<and> \<not> i_valid (inodes t ! ip) \<and>
       (\<forall>j \<in> set (inodes s). \<not> (i_ref j > 0 \<and> i_dev j = dev \<and> i_inum j = inum)))"
proof (cases "first_idx (\<lambda>ip. i_ref ip > 0 \<and> i_dev ip = dev \<and> i_inum ip = inum) (inodes s)")
  case (Some ip)
  then have ip: "ip < length (inodes s)" "i_ref (inodes s ! ip) > 0" "i_dev (inodes s ! ip) = dev" "i_inum (inodes s ! ip) = inum"
    by (auto simp: first_idx_Some)
  let ?x = "(inodes s ! ip)\<lparr>i_ref := i_ref (inodes s ! ip) + 1\<rparr>"
  have "iget dev inum s = Ok ip (s\<lparr>inodes := (inodes s)[ip := ?x]\<rparr>)"
    using assms(1) Some by (simp add: iget_def iupd_def acquire_def release_def bnd_case held_same)
  then show ?thesis using ip by (intro exI [of _ ip] exI [of _ "s\<lparr>inodes := (inodes s)[ip := ?x]\<rparr>"]) simp
next
  case None
  obtain ip where f: "first_idx (\<lambda>ip. i_ref ip = 0) (inodes s) = Some ip"
    using assms(2) by (cases "first_idx (\<lambda>ip. i_ref ip = 0) (inodes s)") (auto simp: first_idx_None)
  then have ip: "ip < length (inodes s)" "i_ref (inodes s ! ip) = 0" by (auto simp: first_idx_Some)
  let ?x = "(inodes s ! ip)\<lparr>i_dev := dev, i_inum := inum, i_ref := 1, i_valid := False\<rparr>"
  have "iget dev inum s = Ok ip (s\<lparr>inodes := (inodes s)[ip := ?x]\<rparr>)"
    using assms(1) None f by (simp add: iget_def iupd_def acquire_def release_def bnd_case held_same)
  then show ?thesis using ip None
    by (intro exI [of _ ip] exI [of _ "s\<lparr>inodes := (inodes s)[ip := ?x]\<rparr>"]) (simp add: first_idx_None)
qed

section \<open>Properties\<close>

text \<open>
  C13. \<open>readi\<close> returns the contents of the file. For a file whose blocks are all there, and for every
  offset and length, it returns the number of bytes from the offset to the end of the file, at most
  the length asked for (0 when the offset is behind the end, or offset and length overflow); it
  copies exactly these bytes, across direct and indirect blocks, to the destination in kernel
  memory, and changes no other memory, no block and nothing on the disk.
\<close>

theorem readi_reads_file:
  fixes s :: "'z fs_st_scheme"
  assumes "ready s" "i_dev (inodes s ! ip) = ROOTDEV"
    "file_ok (content s) (i_addrs (inodes s ! ip)) (unat (i_size (inodes s ! ip)))"
  shows "\<exists>t. readi ip False dst off n s = Ok (int (read_count (i_size (inodes s ! ip)) off n)) t \<and>
    moved (s\<lparr>phys := store_bytes (phys s) dst
      (file_bytes (content s) (i_addrs (inodes s ! ip)) (unat off) (read_count (i_size (inodes s ! ip)) off n))\<rparr>) t"
  by (rule readi_spec [OF assms])

text \<open>
  C14. \<open>dirlookup\<close> finds the first entry with the name. It returns a null pointer exactly when no entry
  in use has the name; otherwise it returns the offset of the first such entry and an inode in memory
  for the number of the entry: the one in use if there is one, with one more reference, or else a
  free one, marked as not yet read. Nothing else changes but the local variable of the scan.
\<close>

theorem dirlookup_finds_first:
  fixes s :: "'z fs_st_scheme"
  assumes "ready s" "i_dev (inodes s ! dp) = ROOTDEV" "i_type (inodes s ! dp) = T_DIR"
    "file_ok (content s) (i_addrs (inodes s ! dp)) (unat (i_size (inodes s ! dp)))"
    "16 dvd unat (i_size (inodes s ! dp))" "\<exists>i \<in> set (inodes s). i_ref i = 0"
  defines "de \<equiv> dirent (content s) (i_addrs (inodes s ! dp))" and "n \<equiv> unat (i_size (inodes s ! dp)) div 16"
  shows "((\<forall>k < n. \<not> entry_for name (de k)) \<longrightarrow>
      (\<exists>t m. dirlookup dp name s = Ok None t \<and> moved (s\<lparr>phys := m\<rparr>) t \<and> local_only s m)) \<and>
    (\<forall>k < n. entry_for name (de k) \<and> (\<forall>j < k. \<not> entry_for name (de j)) \<longrightarrow>
      (\<exists>t u m ip. dirlookup dp name s = Ok (Some (ip, 16 * k)) t \<and> ip < length (inodes s) \<and>
        moved (s\<lparr>phys := m\<rparr>) u \<and> local_only s m \<and> t = u\<lparr>inodes := (inodes s)[ip := inodes t ! ip]\<rparr> \<and>
        i_dev (inodes t ! ip) = ROOTDEV \<and> i_inum (inodes t ! ip) = ucast (de_inum (de k)) \<and>
        (inodes s ! ip = (inodes t ! ip)\<lparr>i_ref := i_ref (inodes t ! ip) - 1\<rparr> \<and> 0 < i_ref (inodes s ! ip) \<or>
         i_ref (inodes s ! ip) = 0 \<and> i_ref (inodes t ! ip) = 1 \<and> \<not> i_valid (inodes t ! ip))))"
proof -
  let ?f = "\<lambda>e. iget (i_dev (inodes s ! dp)) (ucast (de_inum e))"
  have sz: "unat (i_size (inodes s ! dp)) = 16 * n" using assms(5) by (auto simp: n_def)
  have offs: "dirent_offs (i_size (inodes s ! dp)) = map (\<lambda>k. 16 * k) [0..<n]" using sz by (simp add: dirent_offs_def)
  have "\<forall>k \<in> set [0..<n]. 16 * k + 16 \<le> unat (i_size (inodes s ! dp))" using sz by auto
  from dir_scan [OF assms(1,2,4) this, of "''dirlookup read''" name ?f] obtain u m where
    mv: "moved (s\<lparr>phys := m\<rparr>) u" and lo: "local_only s m"
    and r: "findM (map (\<lambda>k. 16 * k) [0..<n]) (dir_body dp ''dirlookup read'' name ?f) s =
      (case find (\<lambda>k. entry_for name (de k)) [0..<n] of None \<Rightarrow> Ok None u
       | Some k \<Rightarrow> bnd (?f (de k)) (\<lambda>ip. ret (Some (ip, 16 * k))) u)"
    unfolding de_def by blast
  have run: "dirlookup dp name s = findM (map (\<lambda>k. 16 * k) [0..<n]) (dir_body dp ''dirlookup read'' name ?f) s"
    using assms(3) by (simp add: dirlookup_def iget_ino_def offs dir_body_def [abs_def])
  note us = moved_sel [OF mv]
  show ?thesis
  proof (intro conjI allI impI)
    assume "\<forall>k < n. \<not> entry_for name (de k)"
    then have "find (\<lambda>k. entry_for name (de k)) [0..<n] = None" by (auto simp: find_None_iff)
    then show "\<exists>t m. dirlookup dp name s = Ok None t \<and> moved (s\<lparr>phys := m\<rparr>) t \<and> local_only s m"
      using run r mv lo by auto
  next
    fix k assume k: "k < n" "entry_for name (de k) \<and> (\<forall>j < k. \<not> entry_for name (de j))"
    then have f: "find (\<lambda>k. entry_for name (de k)) [0..<n] = Some k" by (auto simp: find_Some_iff intro!: exI [of _ k])
    have iu: "inodes u = inodes s" using us(1) by simp
    from iget_spec [OF us(8), of "i_dev (inodes s ! dp)" "ucast (de_inum (de k))"] assms(6) obtain ip t where
      g: "?f (de k) u = Ok ip t" "ip < length (inodes s)" "t = u\<lparr>inodes := (inodes s)[ip := inodes t ! ip]\<rparr>"
        "i_dev (inodes t ! ip) = i_dev (inodes s ! dp)" "i_inum (inodes t ! ip) = ucast (de_inum (de k))"
        "inodes s ! ip = (inodes t ! ip)\<lparr>i_ref := i_ref (inodes t ! ip) - 1\<rparr> \<and> 0 < i_ref (inodes s ! ip) \<or>
         i_ref (inodes s ! ip) = 0 \<and> i_ref (inodes t ! ip) = 1 \<and> \<not> i_valid (inodes t ! ip)"
      unfolding iu by blast
    have "dirlookup dp name s = Ok (Some (ip, 16 * k)) t" using run r f g(1) by (simp add: bnd_case)
    then show "\<exists>t u m ip. dirlookup dp name s = Ok (Some (ip, 16 * k)) t \<and> ip < length (inodes s) \<and>
        moved (s\<lparr>phys := m\<rparr>) u \<and> local_only s m \<and> t = u\<lparr>inodes := (inodes s)[ip := inodes t ! ip]\<rparr> \<and>
        i_dev (inodes t ! ip) = ROOTDEV \<and> i_inum (inodes t ! ip) = ucast (de_inum (de k)) \<and>
        (inodes s ! ip = (inodes t ! ip)\<lparr>i_ref := i_ref (inodes t ! ip) - 1\<rparr> \<and> 0 < i_ref (inodes s ! ip) \<or>
         i_ref (inodes s ! ip) = 0 \<and> i_ref (inodes t ! ip) = 1 \<and> \<not> i_valid (inodes t ! ip))"
      using g(2-6) mv lo assms(2) by metis
  qed
qed

section \<open>An example\<close>

text \<open>A file in block 50 and a directory in block 60 with the entries \<open>.\<close> and \<open>ab\<close>.\<close>

definition dir_data :: "byte list" where
  "dir_data = [1, 0, 46] @ replicate 13 0 @ [5, 0, 97, 98] @ replicate 12 0 @ replicate 992 0"

definition fs_disk :: "u32 \<Rightarrow> byte list" where
  "fs_disk bn = (if bn = 50 then [104, 105] @ replicate 1022 0 else if bn = 60 then dir_data else replicate BSIZE 0)"

definition ino_example :: "u32 \<Rightarrow> int \<Rightarrow> u16 \<Rightarrow> u32 \<Rightarrow> u32 \<Rightarrow> inode" where
  "ino_example inum ref type sz a =
     \<lparr>i_dev = ROOTDEV, i_inum = inum, i_ref = ref, i_valid = True, i_type = type, i_major = 0, i_minor = 0,
      i_nlink = 1, i_size = sz, i_addrs = a # replicate 12 0\<rparr>"

definition fs_example :: fs_st where
  "fs_example = log_st.extend (log_fresh fs_disk)
     \<lparr>sb = sb_example, inodes = [ino_example 2 1 T_FILE 2 50, ino_example 1 1 T_DIR 32 60, ino_example 0 0 0 0 0]\<rparr>"

lemma fs_example_ok:
  "ready fs_example" "content fs_example = fs_disk"
  "inodes fs_example = [ino_example 2 1 T_FILE 2 50, ino_example 1 1 T_DIR 32 60, ino_example 0 0 0 0 0]"
  "phys fs_example = phys (log_fresh fs_disk)"
proof -
  note f = log_fresh_ok(1-3) [of fs_disk] log_fresh_ok(4)
  have "bc {} fs_example" using f(1) by (simp add: fs_example_def log_st.defs bc_def thr_ok_def my_pid_def)
  moreover have "two_free (bufs fs_example) \<longrightarrow> one_free (bufs fs_example)" by (auto simp: two_free_def one_free_def)
  ultimately show "ready fs_example" using f(2,4) by (simp add: ready_def fs_example_def log_st.defs)
  show "content fs_example = fs_disk" using f(3) by (simp add: fs_example_def log_st.defs)
qed (simp_all add: fs_example_def log_st.defs)

lemma file_ok_example:
  "file_ok fs_disk (50 # replicate 12 0) 2" "file_ok fs_disk (60 # replicate 12 0) 32"
  by (auto simp: file_ok_def fblock_def MAXFILE_def NDIRECT_def BSIZE_def NINDIRECT_def fs_disk_def dir_data_def)

theorem readi_reads_file_witness:
  "\<exists>t. readi 0 False 0x80001000 1 10 fs_example = Ok 1 t \<and> phys t 0x80001000 = 105"
proof -
  have c: "read_count 2 1 10 = 1" by (simp add: read_count_def)
  have b: "file_bytes fs_disk (50 # replicate 12 0) 1 1 = [105]"
    by (simp add: file_bytes_def fblock_def fs_disk_def BSIZE_def NDIRECT_def)
  have "\<exists>t. readi 0 False 0x80001000 1 10 fs_example = Ok 1 t \<and>
      moved (fs_example\<lparr>phys := store_bytes (phys fs_example) 0x80001000 [105]\<rparr>) t"
    using readi_reads_file [of fs_example 0 "0x80001000" 1 10] fs_example_ok file_ok_example c b by (simp add: ino_example_def)
  then show ?thesis by (auto dest!: moved_sel(2) simp: store_bytes_def in_range_def)
qed

theorem dirlookup_finds_first_witness:
  "\<exists>t ip. dirlookup 1 [97, 98] fs_example = Ok (Some (ip, 16)) t \<and> i_inum (inodes t ! ip) = 5"
proof -
  have d: "dirent fs_disk (60 # replicate 12 0) 1 = [5, 0, 97, 98, 0, 0, 0, 0, 0, 0, 0, 0, 0, 0, 0, 0]"
    "dirent fs_disk (60 # replicate 12 0) 0 = [1, 0, 46, 0, 0, 0, 0, 0, 0, 0, 0, 0, 0, 0, 0, 0]" by code_simp+
  have e: "entry_for [97, 98] [5, 0, 97, 98, 0, 0, 0, 0, 0, 0, 0, 0, 0, 0, 0, 0]"
    "\<not> entry_for [97, 98] [1, 0, 46, 0, 0, 0, 0, 0, 0, 0, 0, 0, 0, 0, 0, 0]"
    "de_inum [5, 0, 97, 98, 0, 0, 0, 0, 0, 0, 0, 0, 0, 0, 0, 0] = 5" by code_simp+
  have sel: "i_dev (inodes fs_example ! 1) = ROOTDEV" "i_type (inodes fs_example ! 1) = T_DIR"
    "i_addrs (inodes fs_example ! 1) = 60 # replicate 12 0" "i_size (inodes fs_example ! 1) = 32"
    "\<exists>i \<in> set (inodes fs_example). i_ref i = 0"
    by (simp_all add: fs_example_ok(3) ino_example_def)
  have sz: "unat (32 :: u32) = 32" by simp
  note th = dirlookup_finds_first [where s = fs_example and dp = 1 and name = "[97, 98]", unfolded sel(3,4) fs_example_ok(2) sz,
    OF fs_example_ok(1) sel(1,2) file_ok_example(2) _ sel(5)]
  have "(16 :: nat) dvd 32" by simp
  from conjunct2 [OF th [OF this], rule_format, of 1] d e obtain t ip where
    "dirlookup 1 [97, 98] fs_example = Ok (Some (ip, 16 * 1)) t" "i_inum (inodes t ! ip) = 5" by auto
  then show ?thesis by auto
qed

end
