(* ===== verification/User.thy ===== *)
theory User
  imports Printf Sysfile
begin

text \<open>
  User programs as the kernel sees them: a program makes system calls one after the other, and what
  it does next depends on the answers. A program is a function from the list of the answers it gets
  to the list of the calls it makes; when the answers are used up it waits in its last call. After
  \<open>fork\<close> the answer decides which of the two processes is followed. Loops take an answer in each
  round, so all definitions are recursive in the list of answers, also of programs that never end.
\<close>

section \<open>System calls (user/user.h)\<close>

datatype call =
    Fork
  | Exit int
  | Wait
  | PipeC
  | Read int nat
  | Write int "byte list"
  | Close int
  | Kill int
  | Exec "byte list" "byte list list"
  | Open "byte list" u32
  | Mknod "byte list" int int
  | Unlink "byte list"
  | Fstat int
  | Link "byte list" "byte list"
  | Mkdir "byte list"
  | Chdir "byte list"
  | Dup int
  | Sleep int

text \<open>
  An answer: the value returned, the bytes \<open>read\<close> stored, the descriptors of \<open>pipe\<close> and the result of
  \<open>fstat\<close>.
\<close>

record answer =
  a_val :: int
  a_buf :: "byte list"
  a_fds :: "int \<times> int"
  a_stat :: stat

type_synonym prog = "answer list \<Rightarrow> call list"

definition sys :: "call \<Rightarrow> (answer \<Rightarrow> prog) \<Rightarrow> prog" where
  "sys c k as = (case as of [] \<Rightarrow> [c] | a # as \<Rightarrow> c # k a as)"

definition uexit :: "int \<Rightarrow> prog" where
  "uexit status as = [Exit status]"

lemma sys_cong [fundef_cong]:
  "c = c' \<Longrightarrow> as = as' \<Longrightarrow> (\<And>a bs. as' = a # bs \<Longrightarrow> k a bs = k' a bs) \<Longrightarrow> sys c k as = sys c' k' as'"
  by (simp add: sys_def split: list.split)

lemma sys_simps [simp]: "sys c k [] = [c]" "sys c k (a # as) = c # k a as"
  by (simp_all add: sys_def)

text \<open>The bytes a \<open>read\<close> stored.\<close>

definition data :: "answer \<Rightarrow> byte list" where
  "data a = take (nat (a_val a)) (a_buf a)"

section \<open>Printing\<close>

text \<open>A string literal; \<open>putc\<close> of user/printf.c writes one byte at a time.\<close>

definition str :: "string \<Rightarrow> byte list" where
  "str s = map (\<lambda>c. of_nat (of_char c)) s"

fun putcs :: "int \<Rightarrow> byte list \<Rightarrow> prog \<Rightarrow> prog" where
  "putcs fd [] k = k"
| "putcs fd (c # cs) k = sys (Write fd [c]) (\<lambda>_. putcs fd cs k)"

text \<open>\<open>fprintf\<close>; formats and arguments that do not fit together are undefined in C, and do not occur.\<close>

definition fprintf :: "int \<Rightarrow> byte list \<Rightarrow> va list \<Rightarrow> prog \<Rightarrow> prog" where
  "fprintf fd fmt ap k = (case uprintf fmt ap of Some out \<Rightarrow> putcs fd out k | None \<Rightarrow> (\<lambda>_. []))"

abbreviation vstr :: "byte list \<Rightarrow> va" where
  "vstr s \<equiv> VStr (Some s)"

text \<open>An answer list shorter than the one at hand, for the loops below.\<close>

lemma putcs_cong [fundef_cong]:
  assumes "fd = fd'" "cs = cs'" "as = as'" "\<And>bs. length bs \<le> length as' \<Longrightarrow> k bs = k' bs"
  shows "putcs fd cs k as = putcs fd' cs' k' as'"
  using assms(4) unfolding assms(1-3)
proof (induction cs' arbitrary: as')
  case (Cons c cs)
  then show ?case by (cases as') auto
qed simp

lemma fprintf_cong [fundef_cong]:
  assumes "fd = fd'" "fmt = fmt'" "ap = ap'" "as = as'" "\<And>bs. length bs \<le> length as' \<Longrightarrow> k bs = k' bs"
  shows "fprintf fd fmt ap k as = fprintf fd' fmt' ap' k' as'"
  using assms by (auto simp: fprintf_def split: option.split intro!: putcs_cong)

section \<open>user/ulib.c\<close>

text \<open>
  \<open>memset\<close> and \<open>strlen\<close> are, line for line, the routines of kernel/string.c; \<open>memcpy\<close> passes its unsigned
  count on as an \<open>int\<close>.
\<close>

definition umemset :: "mem \<Rightarrow> u64 \<Rightarrow> byte \<Rightarrow> nat \<Rightarrow> mem" where
  "umemset m dst c n = memset m dst c n"

definition ustrlen :: "cptr \<Rightarrow> nat option" where
  "ustrlen s = strlen s"

definition umemcpy :: "mem \<Rightarrow> u64 \<Rightarrow> u64 \<Rightarrow> u32 \<Rightarrow> mem" where
  "umemcpy m dst src n = umemmove m dst src n"

text \<open>\<open>gets\<close>, with the bytes in the buffer so far; the result is the string.\<close>

function gets_loop :: "nat \<Rightarrow> byte list \<Rightarrow> (byte list \<Rightarrow> prog) \<Rightarrow> prog" where
  "gets_loop mx buf k as =
     (if length buf + 1 < mx then
        sys (Read 0 1) (\<lambda>a as.
        if a_val a < 1 then k buf as
        else
          let c = hd (a_buf a); buf = buf @ [c] in
          if c = 10 \<or> c = 13 then k buf as else gets_loop mx buf k as) as
      else k buf as)"
  by pat_completeness auto
termination by (relation "measure (\<lambda>(_, _, _, as). length as)") auto

declare gets_loop.simps [simp del]

definition ugets :: "nat \<Rightarrow> (byte list \<Rightarrow> prog) \<Rightarrow> prog" where
  "ugets mx k = gets_loop mx [] k"

text \<open>\<open>stat\<close>: the result and the structure it fills.\<close>

definition ustat :: "byte list \<Rightarrow> (int \<Rightarrow> stat \<Rightarrow> prog) \<Rightarrow> stat \<Rightarrow> prog" where
  "ustat n k st =
     sys (Open n O_RDONLY) (\<lambda>a.
     let fd = a_val a in
     if fd < 0 then k (-1) st
     else
       sys (Fstat fd) (\<lambda>b.
       sys (Close fd) (\<lambda>_.
       k (a_val b) (if a_val b < 0 then st else a_stat b))))"

text \<open>\<open>start\<close>: \<open>main\<close> may return.\<close>

definition ustart :: "(prog \<Rightarrow> prog) \<Rightarrow> prog" where
  "ustart main = main (uexit 0)"

end
