(* ===== verification/Programs.thy ===== *)
theory Programs
  imports User
begin

text \<open>
  The small programs of user/, each as the system calls it makes. \<open>argv\<close> is the list of the
  arguments, the name of the program first; \<open>k\<close> is what follows a function when it returns.
\<close>

definition newline :: "byte list" where "newline = [10]"

section \<open>user/cat.c\<close>

function cat :: "int \<Rightarrow> prog \<Rightarrow> prog" where
  "cat fd k as =
     sys (Read fd 512) (\<lambda>a as.
     if a_val a > 0 then
       sys (Write 1 (data a)) (\<lambda>b as.
       if a_val b \<noteq> a_val a then fprintf 2 (str ''cat: write error'' @ newline) [] (uexit 1) as
       else cat fd k as) as
     else if a_val a < 0 then fprintf 2 (str ''cat: read error'' @ newline) [] (uexit 1) as
     else k as) as"
  by pat_completeness auto
termination by (relation "measure (\<lambda>(_, _, as). length as)") auto

fun cat_files :: "byte list list \<Rightarrow> prog" where
  "cat_files [] = uexit 0"
| "cat_files (f # fs) =
     sys (Open f O_RDONLY) (\<lambda>a.
     if a_val a < 0 then fprintf 2 (str ''cat: cannot open %s'' @ newline) [vstr f] (uexit 1)
     else cat (a_val a) (sys (Close (a_val a)) (\<lambda>_. cat_files fs)))"

definition cat_main :: "byte list list \<Rightarrow> prog" where
  "cat_main argv = (if length argv \<le> 1 then cat 0 (uexit 0) else cat_files (tl argv))"

section \<open>user/echo.c\<close>

fun echo_args :: "byte list list \<Rightarrow> prog" where
  "echo_args [] = uexit 0"
| "echo_args (arg # args) =
     sys (Write 1 arg) (\<lambda>_.
     sys (Write 1 (if args \<noteq> [] then [32] else newline)) (\<lambda>_. echo_args args))"

definition echo_main :: "byte list list \<Rightarrow> prog" where
  "echo_main argv = echo_args (tl argv)"

section \<open>user/kill.c, user/sleep.c\<close>

text \<open>\<open>atoi\<close> of an argument. Where the arithmetic in \<open>int\<close> overflows, C leaves open what follows; no call is listed.\<close>

definition uatoi :: "byte list \<Rightarrow> (int \<Rightarrow> prog) \<Rightarrow> prog" where
  "uatoi s k = (case atoi (cptr_of s) of Some v \<Rightarrow> k v | None \<Rightarrow> (\<lambda>_. []))"

fun kill_args :: "byte list list \<Rightarrow> prog" where
  "kill_args [] = uexit 0"
| "kill_args (arg # args) = uatoi arg (\<lambda>pid. sys (Kill pid) (\<lambda>_. kill_args args))"

definition kill_main :: "byte list list \<Rightarrow> prog" where
  "kill_main argv =
     (if length argv < 2 then fprintf 2 (str ''usage: kill pid...'' @ newline) [] (uexit 1)
      else kill_args (tl argv))"

definition sleep_main :: "byte list list \<Rightarrow> prog" where
  "sleep_main argv =
     (if length argv \<noteq> 2 then fprintf 2 (str ''Usage: sleep <seconds>'' @ newline) [] (uexit 1)
      else
        uatoi (argv ! 1) (\<lambda>seconds.
        if 0 > seconds then fprintf 2 (str ''Invalid argument: must be a positive number'' @ newline) [] (uexit 1)
        else if seconds * 10 < 2 ^ 31 then sys (Sleep (seconds * 10)) (\<lambda>_. uexit 0)
        else (\<lambda>_. [])))"

section \<open>user/ln.c, user/mkdir.c, user/rm.c\<close>

definition ln_main :: "byte list list \<Rightarrow> prog" where
  "ln_main argv =
     (if length argv \<noteq> 3 then fprintf 2 (str ''Usage: ln old new'' @ newline) [] (uexit 1)
      else
        sys (Link (argv ! 1) (argv ! 2)) (\<lambda>a.
        if a_val a < 0 then
          fprintf 2 (str ''link %s %s: failed'' @ newline) [vstr (argv ! 1), vstr (argv ! 2)] (uexit 0)
        else uexit 0))"

fun mkdir_args :: "byte list list \<Rightarrow> prog" where
  "mkdir_args [] = uexit 0"
| "mkdir_args (arg # args) =
     sys (Mkdir arg) (\<lambda>a.
     if a_val a < 0 then fprintf 2 (str ''mkdir: %s failed to create'' @ newline) [vstr arg] (uexit 0)
     else mkdir_args args)"

definition mkdir_main :: "byte list list \<Rightarrow> prog" where
  "mkdir_main argv =
     (if 2 > length argv then fprintf 2 (str ''Usage: mkdir files...'' @ newline) [] (uexit 1)
      else mkdir_args (tl argv))"

fun rm_args :: "byte list list \<Rightarrow> prog" where
  "rm_args [] = uexit 0"
| "rm_args (arg # args) =
     sys (Unlink arg) (\<lambda>a.
     if a_val a < 0 then fprintf 2 (str ''rm: %s failed to delete'' @ newline) [vstr arg] (uexit 0)
     else rm_args args)"

definition rm_main :: "byte list list \<Rightarrow> prog" where
  "rm_main argv =
     (if length argv < 2 then fprintf 2 (str ''Usage: rm files...'' @ newline) [] (uexit 1)
      else rm_args (tl argv))"

section \<open>user/wc.c\<close>

record counts =
  wc_l :: u32
  wc_w :: u32
  wc_c :: u32
  wc_inword :: bool

definition wc_space :: "byte \<Rightarrow> bool" where
  "wc_space b \<longleftrightarrow> b \<in> {32, 13, 9, 10, 11}"

definition wc_byte :: "byte \<Rightarrow> counts \<Rightarrow> counts" where
  "wc_byte b n =
     (let n = n\<lparr>wc_c := wc_c n + 1\<rparr>;
          n = (if b = 10 then n\<lparr>wc_l := wc_l n + 1\<rparr> else n)
      in if wc_space b then n\<lparr>wc_inword := False\<rparr>
         else if \<not> wc_inword n then n\<lparr>wc_w := wc_w n + 1, wc_inword := True\<rparr>
         else n)"

function wc_loop :: "int \<Rightarrow> byte list \<Rightarrow> counts \<Rightarrow> prog \<Rightarrow> prog" where
  "wc_loop fd name n k as =
     sys (Read fd 512) (\<lambda>a as.
     if a_val a > 0 then wc_loop fd name (fold wc_byte (data a) n) k as
     else if a_val a < 0 then fprintf 1 (str ''wc: read error'' @ newline) [] (uexit 1) as
     else
       fprintf 1 (str ''%d %d %d %s'' @ newline)
         [VInt (scast (wc_l n)), VInt (scast (wc_w n)), VInt (scast (wc_c n)), vstr name] k as) as"
  by pat_completeness auto
termination by (relation "measure (\<lambda>(_, _, _, _, as). length as)") auto

definition wc :: "int \<Rightarrow> byte list \<Rightarrow> prog \<Rightarrow> prog" where
  "wc fd name k = wc_loop fd name \<lparr>wc_l = 0, wc_w = 0, wc_c = 0, wc_inword = False\<rparr> k"

fun wc_files :: "byte list list \<Rightarrow> prog" where
  "wc_files [] = uexit 0"
| "wc_files (f # fs) =
     sys (Open f O_RDONLY) (\<lambda>a.
     if a_val a < 0 then fprintf 1 (str ''wc: cannot open %s'' @ newline) [vstr f] (uexit 1)
     else wc (a_val a) f (sys (Close (a_val a)) (\<lambda>_. wc_files fs)))"

definition wc_main :: "byte list list \<Rightarrow> prog" where
  "wc_main argv = (if length argv \<le> 1 then wc 0 [] (uexit 0) else wc_files (tl argv))"

section \<open>user/ls.c\<close>

definition fmtname :: "byte list \<Rightarrow> byte list" where
  "fmtname path =
     (let p = rev (takeWhile (\<lambda>c. c \<noteq> slash) (rev path)) in
      if length p \<ge> DIRSIZ then p else p @ replicate (DIRSIZ - length p) 32)"

definition ls_line :: "byte list \<Rightarrow> stat \<Rightarrow> prog \<Rightarrow> prog" where
  "ls_line path st k =
     fprintf 1 (str ''%s %d %d %d'' @ newline)
       [vstr (fmtname path), VInt (scast (st_type st)), VInt (ucast (st_ino st)), VInt (st_size st)] k"

text \<open>The path of an entry: at most \<open>DIRSIZ\<close> bytes of the name, up to a NUL.\<close>

definition entry_path :: "byte list \<Rightarrow> byte list \<Rightarrow> byte list" where
  "entry_path path de = path @ [slash] @ takeWhile (\<lambda>c. c \<noteq> 0) (de_name de)"

lemma ustat_cong [fundef_cong]:
  assumes "n = n'" "st = st'" "as = as'" "\<And>r s bs. length bs \<le> length as' \<Longrightarrow> k r s bs = k' r s bs"
  shows "ustat n k st as = ustat n' k' st' as'"
  using assms by (auto simp: ustat_def Let_def intro!: sys_cong)

lemma ls_line_cong [fundef_cong]:
  assumes "path = path'" "st = st'" "as = as'" "\<And>bs. length bs \<le> length as' \<Longrightarrow> k bs = k' bs"
  shows "ls_line path st k as = ls_line path' st' k' as'"
  using assms by (auto simp: ls_line_def intro!: fprintf_cong)

function ls_dir :: "byte list \<Rightarrow> int \<Rightarrow> stat \<Rightarrow> prog \<Rightarrow> prog" where
  "ls_dir path fd st k as =
     sys (Read fd 16) (\<lambda>a as.
     if a_val a \<noteq> 16 then k as
     else
       let de = data a in
       if de_inum de = 0 then ls_dir path fd st k as
       else
         ustat (entry_path path de) (\<lambda>r st as.
         if r < 0 then
           fprintf 1 (str ''ls: cannot stat %s'' @ newline) [vstr (entry_path path de)] (\<lambda>as. ls_dir path fd st k as) as
         else ls_line (entry_path path de) st (\<lambda>as. ls_dir path fd st k as) as) st as) as"
  by pat_completeness auto
termination by (relation "measure (\<lambda>(_, _, _, _, as). length as)") auto

definition ls :: "byte list \<Rightarrow> prog \<Rightarrow> prog" where
  "ls path k =
     sys (Open path O_RDONLY) (\<lambda>a.
     let fd = a_val a in
     if fd < 0 then fprintf 2 (str ''ls: cannot open %s'' @ newline) [vstr path] k
     else
       sys (Fstat fd) (\<lambda>b.
       if a_val b < 0 then
         fprintf 2 (str ''ls: cannot stat %s'' @ newline) [vstr path] (sys (Close fd) (\<lambda>_. k))
       else
         let st = a_stat b; close = sys (Close fd) (\<lambda>_. k) in
         if st_type st = T_DEVICE \<or> st_type st = T_FILE then ls_line path st close
         else if st_type st = T_DIR then
           if length path + 1 + DIRSIZ + 1 > 512 then fprintf 1 (str ''ls: path too long'' @ newline) [] close
           else ls_dir path fd st close
         else close))"

fun ls_args :: "byte list list \<Rightarrow> prog" where
  "ls_args [] = uexit 0"
| "ls_args (arg # args) = ls arg (ls_args args)"

definition ls_main :: "byte list list \<Rightarrow> prog" where
  "ls_main argv = (if length argv < 2 then ls (str ''.'') (uexit 0) else ls_args (tl argv))"

section \<open>user/init.c\<close>

text \<open>The inner loop: wait until the shell, process \<open>pid\<close>, exits; orphans are collected on the way.\<close>

function init_wait :: "int \<Rightarrow> prog \<Rightarrow> prog" where
  "init_wait pid k as =
     sys Wait (\<lambda>a as.
     if a_val a = pid then k as
     else if a_val a < 0 then fprintf 1 (str ''init: wait returned an error'' @ newline) [] (uexit 1) as
     else init_wait pid k as) as"
  by pat_completeness auto
termination by (relation "measure (\<lambda>(_, _, as). length as)") auto

lemma init_wait_cong [fundef_cong]:
  assumes "pid = pid'" "as = as'" "\<And>bs. length bs < length as' \<Longrightarrow> k bs = k' bs"
  shows "init_wait pid k as = init_wait pid' k' as'"
  using assms(3) unfolding assms(1,2)
proof (induction "length as'" arbitrary: as' rule: less_induct)
  case less
  then show ?case by (cases as') (simp_all add: init_wait.simps [of _ _ "_ # _"] init_wait.simps [of _ _ "[]"])
qed

function init_loop :: prog where
  "init_loop as =
     fprintf 1 (str ''init: starting sh'' @ newline) [] (\<lambda>as.
     sys Fork (\<lambda>a as.
     if a_val a < 0 then fprintf 1 (str ''init: fork failed'' @ newline) [] (uexit 1) as
     else if a_val a = 0 then
       sys (Exec (str ''sh'') [str ''sh'']) (\<lambda>_.
       fprintf 1 (str ''init: exec sh failed'' @ newline) [] (uexit 1)) as
     else init_wait (a_val a) (\<lambda>as. init_loop as) as) as) as"
  by pat_completeness auto
termination by (relation "measure length") auto

definition init_main :: prog where
  "init_main =
     sys (Open (str ''console'') O_RDWR) (\<lambda>a.
     (if a_val a < 0 then
        (\<lambda>k. sys (Mknod (str ''console'') (int CONSOLE) 0) (\<lambda>_. sys (Open (str ''console'') O_RDWR) (\<lambda>_. k)))
      else (\<lambda>k. k))
     (sys (Dup 0) (\<lambda>_. sys (Dup 0) (\<lambda>_. init_loop))))"

section \<open>user/zombie.c, user/clear.c, user/halt.c, user/forktest.c, user/stressfs.c\<close>

definition zombie_main :: prog where
  "zombie_main = sys Fork (\<lambda>a. if a_val a > 0 then sys (Sleep 5) (\<lambda>_. uexit 0) else uexit 0)"

definition clear_main :: prog where
  "clear_main = fprintf 1 ([27] @ str ''[H'' @ [27] @ str ''[J'') [] (uexit 0)"

definition halt_main :: "prog \<Rightarrow> prog" where
  "halt_main k = fprintf 1 (str ''halt system not implemented... (Ctrl-a x to shutdown QEMU)'' @ newline) [] k"

definition print :: "byte list \<Rightarrow> prog \<Rightarrow> prog" where
  "print s k = sys (Write 1 s) (\<lambda>_. k)"

text \<open>The first loop, with the number of rounds left, and the second.\<close>

fun forktest_forks :: "nat \<Rightarrow> nat \<Rightarrow> (nat \<Rightarrow> prog) \<Rightarrow> prog" where
  "forktest_forks 0 n k = k n"
| "forktest_forks (Suc i) n k =
     sys Fork (\<lambda>a.
     if a_val a < 0 then k n
     else if a_val a = 0 then uexit 0
     else forktest_forks i (n + 1) k)"

fun forktest_waits :: "nat \<Rightarrow> prog \<Rightarrow> prog" where
  "forktest_waits 0 k = k"
| "forktest_waits (Suc n) k =
     sys Wait (\<lambda>a.
     if a_val a < 0 then print (str ''wait stopped early'' @ newline) (uexit 1)
     else forktest_waits n k)"

definition forktest :: "prog \<Rightarrow> prog" where
  "forktest k =
     print (str ''fork test'' @ newline)
     (forktest_forks 1000 0 (\<lambda>n.
     if n = 1000 then print (str ''fork claimed to work N times!'' @ newline) (uexit 1)
     else
       forktest_waits n
       (sys Wait (\<lambda>a.
       if a_val a \<noteq> -1 then print (str ''wait got too many'' @ newline) (uexit 1)
       else print (str ''fork test OK'' @ newline) k))))"

fun repeat_call :: "nat \<Rightarrow> call \<Rightarrow> prog \<Rightarrow> prog" where
  "repeat_call 0 c k = k"
| "repeat_call (Suc n) c k = sys c (\<lambda>_. repeat_call n c k)"

fun stressfs_forks :: "nat \<Rightarrow> nat \<Rightarrow> (nat \<Rightarrow> prog) \<Rightarrow> prog" where
  "stressfs_forks 0 i k = k i"
| "stressfs_forks (Suc n) i k = sys Fork (\<lambda>a. if a_val a > 0 then k i else stressfs_forks n (i + 1) k)"

definition stressfs_main :: prog where
  "stressfs_main =
     fprintf 1 (str ''stressfs starting'' @ newline) []
     (stressfs_forks 4 0 (\<lambda>i.
     fprintf 1 (str ''write %d'' @ newline) [VInt (of_nat i)]
     (let path = str ''stressfs'' @ [48 + of_nat i] in
      sys (Open path (O_CREATE + O_RDWR)) (\<lambda>a.
      repeat_call 20 (Write (a_val a) (replicate 512 97))
      (sys (Close (a_val a)) (\<lambda>_.
      fprintf 1 (str ''read'' @ newline) []
      (sys (Open path O_RDONLY) (\<lambda>b.
      repeat_call 20 (Read (a_val b) 512)
      (sys (Close (a_val b)) (\<lambda>_.
      sys Wait (\<lambda>_. uexit 0))))))))))) "

end
