(* ===== verification/Grep.thy ===== *)
theory Grep
  imports Cstring
begin

text \<open>
  The matcher and the loop of user/grep.c. Regular expressions, lines and texts are C strings,
  given as lists of bytes without the NUL.
\<close>

section \<open>The matcher\<close>

function (sequential) matchhere :: "byte list \<Rightarrow> byte list \<Rightarrow> bool"
  and matchstar :: "byte \<Rightarrow> byte list \<Rightarrow> byte list \<Rightarrow> bool" where
  "matchhere [] tx = True"
| "matchhere (r # re) tx =
     (if re \<noteq> [] \<and> hd re = 42 then matchstar r (tl re) tx
      else if r = 36 \<and> re = [] then tx = []
      else if tx \<noteq> [] \<and> (r = 46 \<or> r = hd tx) then matchhere re (tl tx)
      else False)"
| "matchstar c re tx =
     (if matchhere re tx then True
      else if tx \<noteq> [] \<and> (hd tx = c \<or> c = 46) then matchstar c re (tl tx)
      else False)"
  by pat_completeness auto
termination
  by (relation "measures
        [case_sum (\<lambda>(re, _). length re) (\<lambda>(_, re, _). Suc (length re)),
         case_sum (\<lambda>(_, tx). length tx) (\<lambda>(_, _, tx). length tx)]")
    (auto simp: neq_Nil_conv)

declare matchhere.simps(2) [simp del] matchstar.simps [simp del]

text \<open>The \<open>do\<close> loop of \<open>match\<close> looks at the empty rest of the text as well.\<close>

fun match_from :: "byte list \<Rightarrow> byte list \<Rightarrow> bool" where
  "match_from re [] = matchhere re []"
| "match_from re (c # tx) = (if matchhere re (c # tx) then True else match_from re tx)"

definition match :: "byte list \<Rightarrow> byte list \<Rightarrow> bool" where
  "match re tx =
     (if re \<noteq> [] \<and> hd re = 94 then matchhere (tl re) tx else match_from re tx)"

section \<open>The loop over the input\<close>

text \<open>
  The inner loop of \<open>grep\<close> on \<open>p\<close>, the bytes of the buffer still to look at: what is written and
  what is left when \<open>strchr\<close> finds no newline. \<open>strchr\<close> does not see past a NUL.
\<close>

function grep_lines :: "byte list \<Rightarrow> byte list \<Rightarrow> byte list \<times> byte list" where
  "grep_lines pattern p =
     (case strchr (cptr_of p) 10 of
        Some (Some q) \<Rightarrow>
          if q < length p then
            let line = take q p; (out, rest) = grep_lines pattern (drop (Suc q) p) in
            ((if match pattern line then line @ [10] else []) @ out, rest)
          else ([], p)
      | _ \<Rightarrow> ([], p))"
  by pat_completeness auto
termination by (relation "measure (length \<circ> snd)") auto

declare grep_lines.simps [simp del]

text \<open>
  The outer loop, with \<open>m\<close> the bytes in the buffer, \<open>inp\<close> the input not yet read and \<open>rd\<close> the
  number of bytes the \<open>i\<close>-th \<open>read\<close> returns when asked for \<open>n\<close>.
\<close>

definition GREP_BUF :: nat where "GREP_BUF = 1024"

function grep :: "(nat \<Rightarrow> nat \<Rightarrow> nat) \<Rightarrow> nat \<Rightarrow> byte list \<Rightarrow> byte list \<Rightarrow> byte list \<Rightarrow> byte list" where
  "grep rd i pattern m inp =
     (let n = min (min (rd i (GREP_BUF - length m - 1)) (GREP_BUF - length m - 1)) (length inp) in
      if n > 0 then
        let (out, rest) = grep_lines pattern (m @ take n inp) in
        out @ grep rd (Suc i) pattern rest (drop n inp)
      else [])"
  by pat_completeness auto
termination by (relation "measure (\<lambda>(_, _, _, _, inp). length inp)") auto

declare grep.simps [simp del]


section \<open>What a pattern means\<close>

text \<open>A pattern as a list of items, and the texts it matches with what may follow them.\<close>

datatype item = One byte | Star byte | Eol

function parse_re :: "byte list \<Rightarrow> item list" where
  "parse_re [] = []"
| "parse_re (r # re) =
     (if re \<noteq> [] \<and> hd re = 42 then Star r # parse_re (tl re)
      else if r = 36 \<and> re = [] then [Eol]
      else One r # parse_re re)"
  by pat_completeness auto
termination by (relation "measure length") (auto simp: neq_Nil_conv)

declare parse_re.simps(2) [simp del]

definition accepts :: "byte \<Rightarrow> byte \<Rightarrow> bool" where
  "accepts c b = (c = 46 \<or> c = b)"

inductive matches :: "item list \<Rightarrow> byte list \<Rightarrow> byte list \<Rightarrow> bool" where
  matches_Nil: "matches [] [] rest"
| matches_One: "accepts c b \<Longrightarrow> matches its u rest \<Longrightarrow> matches (One c # its) (b # u) rest"
| matches_Star: "(\<forall>b \<in> set v. accepts c b) \<Longrightarrow> matches its u rest \<Longrightarrow> matches (Star c # its) (v @ u) rest"
| matches_Eol: "matches [Eol] [] []"

inductive_simps matches_Nil_iff [simp]: "matches [] u rest"
inductive_simps matches_One_iff: "matches (One c # its) u rest"
inductive_simps matches_Star_iff: "matches (Star c # its) u rest"
inductive_simps matches_Eol_iff: "matches (Eol # its) u rest"

definition matches_prefix :: "item list \<Rightarrow> byte list \<Rightarrow> bool" where
  "matches_prefix its tx = (\<exists>u rest. tx = u @ rest \<and> matches its u rest)"

lemma matches_prefix_Nil [simp]: "matches_prefix [] tx"
  by (simp add: matches_prefix_def)

lemma matches_prefix_Eol: "matches_prefix [Eol] tx \<longleftrightarrow> tx = []"
  by (auto simp: matches_prefix_def matches_Eol_iff)

lemma matches_prefix_One:
  "matches_prefix (One c # its) tx \<longleftrightarrow>
     tx \<noteq> [] \<and> accepts c (hd tx) \<and> matches_prefix its (tl tx)"
proof (cases tx)
  case (Cons b t)
  have "(\<exists>u rest. b # t = u @ rest \<and> (\<exists>b' u'. u = b' # u' \<and> accepts c b' \<and> matches its u' rest)) \<longleftrightarrow>
      accepts c b \<and> (\<exists>u rest. t = u @ rest \<and> matches its u rest)"
    by (metis append_Cons list.inject)
  then show ?thesis by (simp add: matches_prefix_def matches_One_iff Cons)
qed (simp add: matches_prefix_def matches_One_iff)

lemma matches_prefix_Star:
  "matches_prefix (Star c # its) tx \<longleftrightarrow>
     matches_prefix its tx \<or>
     tx \<noteq> [] \<and> accepts c (hd tx) \<and> matches_prefix (Star c # its) (tl tx)"
    (is "?l \<longleftrightarrow> ?a \<or> ?b")
proof
  assume ?l
  then obtain v u rest where t: "tx = (v @ u) @ rest" "\<forall>b \<in> set v. accepts c b" "matches its u rest"
    by (auto simp: matches_prefix_def matches_Star_iff)
  show "?a \<or> ?b"
  proof (cases v)
    case Nil
    then show ?thesis using t by (auto simp: matches_prefix_def)
  next
    case (Cons b v')
    then have "matches (Star c # its) (v' @ u) rest" using t by (simp add: matches_Star)
    then have "matches_prefix (Star c # its) (v' @ u @ rest)"
      unfolding matches_prefix_def by (metis append_assoc)
    then show ?thesis using t Cons by simp
  qed
next
  assume "?a \<or> ?b"
  then show ?l
  proof
    assume ?a
    then obtain u rest where "tx = u @ rest" "matches its u rest" by (auto simp: matches_prefix_def)
    then show ?l using matches_Star [of "[]" c its u rest] by (auto simp: matches_prefix_def)
  next
    assume b: ?b
    then obtain v u rest where "tl tx = (v @ u) @ rest" "\<forall>b \<in> set v. accepts c b" "matches its u rest"
      by (auto simp: matches_prefix_def matches_Star_iff)
    then have "matches (Star c # its) ((hd tx # v) @ u) rest"
      using b by (intro matches_Star) auto
    moreover have "tx = ((hd tx # v) @ u) @ rest"
      using b \<open>tl tx = (v @ u) @ rest\<close> by (metis append_Cons append_assoc list.collapse)
    ultimately show ?l unfolding matches_prefix_def by blast
  qed
qed

lemma matchhere_matchstar:
  "matchhere re tx = matches_prefix (parse_re re) tx"
  "matchstar c re tx = matches_prefix (Star c # parse_re re) tx"
proof (induction re tx and c re tx rule: matchhere_matchstar.induct)
  case (2 r re tx)
  then show ?case
    by (auto simp: matchhere.simps parse_re.simps matches_prefix_Eol matches_prefix_One accepts_def)
next
  case (3 c re tx)
  then show ?case
    by (auto simp: matchstar.simps matches_prefix_Star [of c _ tx] accepts_def)
qed simp

lemma match_from_iff:
  "match_from re tx \<longleftrightarrow> (\<exists>pre mid. tx = pre @ mid \<and> matchhere re mid)"
proof (induction tx)
  case (Cons c tx)
  then show ?case by (auto simp: Cons_eq_append_conv)
qed simp

section \<open>Lines\<close>

text \<open>The complete lines of a text, without their newlines, and what follows the last of them.\<close>

function lines_of :: "byte list \<Rightarrow> byte list list" where
  "lines_of p =
     (if 10 \<in> set p then takeWhile (\<lambda>c. c \<noteq> 10) p # lines_of (tl (dropWhile (\<lambda>c. c \<noteq> 10) p)) else [])"
  by pat_completeness auto
termination
proof (relation "measure length")
  fix p :: "byte list" assume "10 \<in> set p"
  then have "dropWhile (\<lambda>c. c \<noteq> 10) p \<noteq> []" by (auto simp: dropWhile_eq_Nil_conv)
  then show "(tl (dropWhile (\<lambda>c. c \<noteq> 10) p), p) \<in> measure length"
    using length_dropWhile_le [of "\<lambda>c. c \<noteq> 10" p] by (cases "dropWhile (\<lambda>c. c \<noteq> 10) p") auto
qed simp

declare lines_of.simps [simp del]

definition residue :: "byte list \<Rightarrow> byte list" where
  "residue p = rev (takeWhile (\<lambda>c. c \<noteq> 10) (rev p))"

lemma takeWhile_rev_all: "10 \<notin> set p \<Longrightarrow> takeWhile (\<lambda>c. c \<noteq> 10) (rev p) = rev p"
  by (rule takeWhile_eq_all_conv [THEN iffD2]) auto

lemma lines_of_none: "10 \<notin> set p \<Longrightarrow> lines_of p = []" "10 \<notin> set p \<Longrightarrow> residue p = p"
  by (simp_all add: lines_of.simps residue_def takeWhile_rev_all)

lemma lines_of_line: "10 \<notin> set l \<Longrightarrow> lines_of (l @ 10 # p) = l # lines_of p"
  by (simp add: lines_of.simps [of "l @ 10 # p"] takeWhile_append dropWhile_append)

lemma residue_line: "residue (l @ 10 # p) = residue p"
  by (auto simp: residue_def takeWhile_append takeWhile_rev_all)

lemma residue_no_newline: "10 \<notin> set (residue p)"
  by (auto simp: residue_def dest: set_takeWhileD)

lemma line_split:
  assumes "10 \<in> set p"
  obtains l p' where "p = l @ 10 # p'" "10 \<notin> set l"
  using split_list_first [OF assms] by blast

lemma lines_of_append: "lines_of (a @ b) = lines_of a @ lines_of (residue a @ b)"
proof (induction a rule: length_induct)
  case (1 a)
  show ?case
  proof (cases "10 \<in> set a")
    case True
    then obtain l p where "a = l @ 10 # p" "10 \<notin> set l" by (rule line_split)
    then show ?thesis using 1 [THEN spec, of p] by (simp add: lines_of_line residue_line)
  qed (simp add: lines_of_none)
qed

lemma residue_length: "length (residue p) \<le> length p"
  using length_takeWhile_le [of _ "rev p"] by (simp add: residue_def)

lemma set_residue: "set (residue p) \<subseteq> set p"
  by (auto simp: residue_def dest: set_takeWhileD)


text \<open>Where \<open>strchr\<close> finds the newline in a text without NUL.\<close>

lemma strchr_from_newline:
  assumes "10 \<notin> set (drop n l)" "0 \<notin> set l" "n \<le> length l"
  shows "strchr_from (cptr_of (l @ 10 # p)) 10 n = Some (Some (length l))"
  using assms
proof (induction "length l - n" arbitrary: n)
  case 0
  then show ?case by (subst strchr_from.simps) (simp add: cptr_of_def nth_append)
next
  case (Suc k)
  then have n: "n < length l" by simp
  have d: "drop n l = l ! n # drop (Suc n) l" using n by (simp add: Cons_nth_drop_Suc)
  have "l ! n \<noteq> 0" "l ! n \<noteq> 10" using Suc(3,4) n d by (auto simp: in_set_conv_nth)
  moreover have "strchr_from (cptr_of (l @ 10 # p)) 10 (Suc n) = Some (Some (length l))"
    using Suc n d by (intro Suc(1)) auto
  ultimately show ?case using n by (subst strchr_from.simps) (simp add: cptr_of_def nth_append)
qed

lemma strchr_from_none:
  assumes "10 \<notin> set p" "n \<le> length p"
  shows "strchr_from (cptr_of p) 10 n = Some None"
  using assms
proof (induction "length p - n" arbitrary: n)
  case 0
  then show ?case by (subst strchr_from.simps) (simp add: cptr_of_def)
next
  case (Suc k)
  then have n: "n < length p" by simp
  then have "p ! n \<noteq> 10" using Suc by (auto simp: in_set_conv_nth)
  moreover have "strchr_from (cptr_of p) 10 (Suc n) = Some None" using Suc n by (intro Suc(1)) auto
  ultimately show ?case using n by (subst strchr_from.simps) (simp add: cptr_of_def)
qed

definition matching_lines :: "byte list \<Rightarrow> byte list list \<Rightarrow> byte list" where
  "matching_lines pattern ls = concat (map (\<lambda>l. l @ [10]) (filter (match pattern) ls))"

lemma grep_lines_eq:
  "0 \<notin> set p \<Longrightarrow> grep_lines pattern p = (matching_lines pattern (lines_of p), residue p)"
proof (induction p rule: length_induct)
  case (1 p)
  show ?case
  proof (cases "10 \<in> set p")
    case True
    then obtain l q where p: "p = l @ 10 # q" "10 \<notin> set l" by (rule line_split)
    then have "strchr (cptr_of p) 10 = Some (Some (length l))"
      using 1 strchr_from_newline [of 0 l q] by (simp add: strchr_def)
    moreover have "grep_lines pattern q = (matching_lines pattern (lines_of q), residue q)"
      using 1 p by auto
    ultimately have "grep_lines pattern p =
        ((if match pattern l then l @ [10] else []) @ matching_lines pattern (lines_of q), residue q)"
      by (subst grep_lines.simps) (simp add: p)
    then show ?thesis by (simp add: p lines_of_line residue_line matching_lines_def)
  next
    case False
    then have "strchr (cptr_of p) 10 = Some None" by (simp add: strchr_def strchr_from_none)
    then show ?thesis
      using False by (simp add: grep_lines.simps lines_of_none matching_lines_def)
  qed
qed

text \<open>The lines that fit into the buffer, up to the first that does not.\<close>

abbreviation fitting :: "byte list list \<Rightarrow> byte list list" where
  "fitting \<equiv> takeWhile (\<lambda>l. length l < GREP_BUF - 1)"

lemma lines_of_length: "l \<in> set (lines_of p) \<Longrightarrow> length l < length p"
proof (induction p rule: length_induct)
  case (1 p)
  show ?case
  proof (cases "10 \<in> set p")
    case True
    then obtain h q where "p = h @ 10 # q" "10 \<notin> set h" by (rule line_split)
    then show ?thesis using "1.IH" [rule_format, of q] "1.prems" by (fastforce simp: lines_of_line)
  qed (use "1.prems" in \<open>simp add: lines_of_none\<close>)
qed

lemma fitting_full:
  assumes "10 \<notin> set m" "length m = GREP_BUF - 1"
  shows "fitting (lines_of (m @ b)) = []"
proof (cases "10 \<in> set b")
  case True
  then obtain l p where "b = l @ 10 # p" "10 \<notin> set l" by (rule line_split)
  then have "lines_of (m @ b) = (m @ l) # lines_of p" using assms(1) lines_of_line [of "m @ l" p] by simp
  then show ?thesis using assms(2) by simp
qed (use assms(1) in \<open>simp add: lines_of_none\<close>)

lemma grep_step:
  assumes "n = min (min (rd i (GREP_BUF - length m - 1)) (GREP_BUF - length m - 1)) (length inp)"
    "n > 0" "grep_lines pattern (m @ take n inp) = (out, rest)"
  shows "grep rd i pattern m inp = out @ grep rd (Suc i) pattern rest (drop n inp)"
  unfolding grep.simps [of rd i pattern m inp] Let_def assms(1) [symmetric] using assms by simp

lemma grep_eq:
  assumes "\<forall>j n. 0 < n \<longrightarrow> 0 < rd j n" "0 \<notin> set (m @ inp)" "10 \<notin> set m" "length m < GREP_BUF"
  shows "grep rd i pattern m inp = matching_lines pattern (fitting (lines_of (m @ inp)))"
  using assms
proof (induction rd i pattern m inp rule: grep.induct)
  case (1 rd i pattern m inp)
  let ?k = "GREP_BUF - length m - 1"
  let ?n = "min (min (rd i ?k) ?k) (length inp)"
  let ?p = "m @ take ?n inp"
  show ?case
  proof (cases "?n > 0")
    case True
    have nul: "0 \<notin> set ?p" using 1(3) by (auto dest: in_set_takeD)
    have gl: "grep_lines pattern ?p = (matching_lines pattern (lines_of ?p), residue ?p)"
      by (rule grep_lines_eq [OF nul])
    have lp: "length ?p \<le> GREP_BUF - 1" using 1(5) by simp
    have "\<forall>l \<in> set (lines_of ?p). length l < GREP_BUF - 1"
      using lines_of_length lp by (metis less_le_trans)
    then have split: "fitting (lines_of (m @ inp)) = lines_of ?p @ fitting (lines_of (residue ?p @ drop ?n inp))"
      using lines_of_append [of ?p "drop ?n inp"] by (simp add: takeWhile_append2)
    have len: "length (residue ?p) < GREP_BUF" using residue_length [of ?p] lp 1(5) by linarith
    have "grep rd (Suc i) pattern (residue ?p) (drop ?n inp) =
        matching_lines pattern (fitting (lines_of (residue ?p @ drop ?n inp)))"
    proof (rule 1(1) [OF refl True gl [symmetric] refl 1(2) _ residue_no_newline len])
      show "0 \<notin> set (residue ?p @ drop ?n inp)"
        using nul 1(3) set_residue [of ?p] by (auto dest: in_set_dropD)
    qed
    then have "grep rd i pattern m inp = matching_lines pattern (lines_of ?p) @
        matching_lines pattern (fitting (lines_of (residue ?p @ drop ?n inp)))"
      using grep_step [of ?n rd i m inp, OF refl True gl] by (rule subst)
    then show ?thesis by (simp only: split) (simp add: matching_lines_def)
  next
    case False
    then have z: "grep rd i pattern m inp = []" by (subst grep.simps) (simp only: Let_def False if_False)
    have "inp = [] \<or> ?k = 0" using False 1(2) [rule_format, of ?k i] by (auto simp: min_def split: if_splits)
    then have "fitting (lines_of (m @ inp)) = []"
    proof
      assume "?k = 0"
      then have "length m = GREP_BUF - 1" using 1(5) by simp
      then show ?thesis using fitting_full [OF 1(4)] by blast
    qed (use 1(4) in \<open>simp add: lines_of_none\<close>)
    then show ?thesis using z by (simp add: matching_lines_def)
  qed
qed

lemma grep_start:
  assumes "\<forall>j n. 0 < n \<longrightarrow> 0 < rd j n" "0 \<notin> set inp"
  shows "grep rd 0 pattern [] inp = matching_lines pattern (fitting (lines_of inp))"
  using grep_eq [of rd "[]" inp 0 pattern] assms by (simp add: GREP_BUF_def)

section \<open>Properties\<close>

text \<open>
  C27. The matcher of grep is correct: \<open>match\<close> answers true exactly when some part of the line is
  described by the pattern, where \<open>c*\<close> is any number of bytes that \<open>c\<close> accepts, a dot accepts every
  byte, a dollar sign at the end asks for the end of the line, and a caret at the start for its
  beginning.
\<close>

theorem match_correct:
  "match re line \<longleftrightarrow>
     (if re \<noteq> [] \<and> hd re = 94
      then \<exists>mid post. line = mid @ post \<and> matches (parse_re (tl re)) mid post
      else \<exists>pre mid post. line = pre @ mid @ post \<and> matches (parse_re re) mid post)"
  by (auto simp: match_def match_from_iff matchhere_matchstar matches_prefix_def)

text \<open>
  C28. grep prints exactly the matching lines: for an input without NUL whose complete lines fit
  into the buffer, and whatever portions \<open>read\<close> delivers it in, the output is the sequence of the
  complete lines that match, each with its newline.
\<close>

theorem grep_prints_matching_lines:
  assumes "\<forall>j n. 0 < n \<longrightarrow> 0 < rd j n" "0 \<notin> set inp"
    "\<forall>l \<in> set (lines_of inp). length l < GREP_BUF - 1"
  shows "grep rd 0 pattern [] inp =
    concat (map (\<lambda>l. l @ [10]) (filter (match pattern) (lines_of inp)))"
proof -
  have "fitting (lines_of inp) = lines_of inp" using assms(3) by (simp add: takeWhile_eq_all_conv)
  then show ?thesis using grep_start [OF assms(1,2)] by (simp only: matching_lines_def)
qed

text \<open>
  C29. A line that does not fit into the buffer ends the search: when a line has 1023 bytes or more, grep
  prints the matching lines before it and nothing else. Neither that line nor any line after it is
  printed, whether or not it matches, and grep ends as it does at the end of the input.
\<close>

theorem grep_stops_at_long_line:
  assumes "\<forall>j n. 0 < n \<longrightarrow> 0 < rd j n" "0 \<notin> set inp" "lines_of inp = before @ long # after"
    "\<forall>l \<in> set before. length l < GREP_BUF - 1" "GREP_BUF - 1 \<le> length long"
  shows "grep rd 0 pattern [] inp = concat (map (\<lambda>l. l @ [10]) (filter (match pattern) before))"
proof -
  have "fitting (lines_of inp) = before" using assms(3-5) by (simp add: takeWhile_append)
  then show ?thesis using grep_start [OF assms(1,2)] by (simp only: matching_lines_def)
qed

text \<open>The lines \<open>a\<close>, 1023 times \<open>b\<close>, and \<open>a\<close> again, with the pattern \<open>a\<close>.\<close>

theorem grep_stops_at_long_line_witness:
  "grep (\<lambda>j n. n) 0 [97] [] ([97, 10] @ replicate 1023 98 @ [10, 97, 10]) = [97, 10]"
proof -
  let ?inp = "[97, 10] @ replicate 1023 98 @ [10, 97, 10]"
  have "lines_of ?inp = [[97]] @ replicate 1023 98 # [[97]]"
    using lines_of_line [of "[97]" "replicate 1023 98 @ [10, 97, 10]"] lines_of_line [of "replicate 1023 98" "[97, 10]"]
      lines_of_line [of "[97]" "[]"] by (simp add: lines_of_none)
  moreover have "match [97] [97]" by (simp add: match_def matchhere.simps)
  ultimately show ?thesis
    using grep_stops_at_long_line [of "\<lambda>j n. n" ?inp "[[97]]" "replicate 1023 98" "[[97]]" "[97]"]
    by (simp add: GREP_BUF_def)
qed

text \<open>Two lines, read three bytes at a time; the pattern \<open>^a.*c\<close> matches the first.\<close>

lemma lines_of_example: "lines_of [97, 98, 99, 10, 98, 99, 10, 97] = [[97, 98, 99], [98, 99]]"
  using lines_of_line [of "[97, 98, 99]" "[98, 99, 10, 97]"] lines_of_line [of "[98, 99]" "[97]"]
  by (simp add: lines_of_none)

theorem grep_prints_matching_lines_witness:
  "grep (\<lambda>j n. min 3 n) 0 [94, 97, 46, 42, 99] [] [97, 98, 99, 10, 98, 99, 10, 97] = [97, 98, 99, 10]"
proof -
  have "match [94, 97, 46, 42, 99] [97, 98, 99]" "\<not> match [94, 97, 46, 42, 99] [98, 99]"
    by (simp_all add: match_def matchhere.simps matchstar.simps)
  then show ?thesis
    using grep_prints_matching_lines [of "\<lambda>j n. min 3 n" "[97, 98, 99, 10, 98, 99, 10, 97]"
      "[94, 97, 46, 42, 99]"]
    by (simp add: lines_of_example GREP_BUF_def)
qed

end
