(* ===== verification/Grepfile.thy ===== *)
theory Grepfile
  imports Programs Grep
begin

text \<open>
  user/grep.c as the program it is: the reads of \<open>grep\<close>, one \<open>write\<close> for each matching line, and \<open>main\<close>. The lines
  it writes are those of \<open>grep_lines\<close>, the inner loop as a function on bytes.
\<close>

section \<open>user/grep.c\<close>

function grep_buf :: "byte list \<Rightarrow> byte list \<Rightarrow> (byte list \<Rightarrow> prog) \<Rightarrow> prog" where
  "grep_buf pattern p k as =
     (case strchr (cptr_of p) 10 of
        Some (Some q) \<Rightarrow>
          if q < length p then
            if match pattern (take q p) then
              sys (Write 1 (take q p @ [10])) (\<lambda>_ as. grep_buf pattern (drop (Suc q) p) k as) as
            else grep_buf pattern (drop (Suc q) p) k as
          else k p as
      | _ \<Rightarrow> k p as)"
  by pat_completeness auto
termination by (relation "measure (\<lambda>(_, p, _, _). length p)") auto

declare grep_buf.simps [simp del]

lemma grep_buf_cong [fundef_cong]:
  assumes "pattern = pattern'" "p = p'" "as = as'" "\<And>r bs. length bs \<le> length as' \<Longrightarrow> k r bs = k' r bs"
  shows "grep_buf pattern p k as = grep_buf pattern' p' k' as'"
  using assms(4) unfolding assms(1-3)
proof (induction pattern' p' k as' rule: grep_buf.induct)
  case (1 pattern p k as)
  show ?case
    by (subst (1 2) grep_buf.simps) (auto simp: 1 intro!: sys_cong split: option.split)
qed

function grep_fd :: "byte list \<Rightarrow> byte list \<Rightarrow> int \<Rightarrow> prog \<Rightarrow> prog" where
  "grep_fd pattern m fd k as =
     sys (Read fd (GREP_BUF - length m - 1)) (\<lambda>a as.
     if a_val a > 0 then grep_buf pattern (m @ data a) (\<lambda>rest as. grep_fd pattern rest fd k as) as
     else k as) as"
  by pat_completeness auto
termination by (relation "measure (\<lambda>(_, _, _, _, as). length as)") auto

declare grep_fd.simps [simp del]

fun grep_files :: "byte list \<Rightarrow> byte list list \<Rightarrow> prog" where
  "grep_files pattern [] = uexit 0"
| "grep_files pattern (f # fs) =
     sys (Open f O_RDONLY) (\<lambda>a.
     if a_val a < 0 then fprintf 1 (str ''grep: cannot open %s'' @ newline) [vstr f] (uexit 1)
     else grep_fd pattern [] (a_val a) (sys (Close (a_val a)) (\<lambda>_. grep_files pattern fs)))"

definition grep_main :: "byte list list \<Rightarrow> prog" where
  "grep_main argv =
     (if length argv \<le> 1 then fprintf 2 (str ''usage: grep pattern [file ...]'' @ newline) [] (uexit 1)
      else if length argv \<le> 2 then grep_fd (argv ! 1) [] 0 (uexit 0)
      else grep_files (argv ! 1) (drop 2 argv))"

text \<open>The calls of the inner loop: one write for each line that \<open>grep_lines\<close> outputs, then what follows.\<close>

lemma grep_buf_calls:
  "\<exists>ls. concat ls = fst (grep_lines pattern p) \<and>
     (\<forall>as. length ls \<le> length as \<longrightarrow>
       grep_buf pattern p k as = map (Write 1) ls @ k (snd (grep_lines pattern p)) (drop (length ls) as))"
proof (induction p rule: length_induct)
  case (1 p)
  show ?case
  proof (cases "\<exists>q. strchr (cptr_of p) 10 = Some (Some q) \<and> q < length p")
    case False
    then have "grep_lines pattern p = ([], p)" "grep_buf pattern p k as = k p as" for as
      by (subst grep_lines.simps grep_buf.simps, auto split: option.split)+
    then show ?thesis by (intro exI [of _ "[]"]) simp
  next
    case True
    then obtain q where q: "strchr (cptr_of p) 10 = Some (Some q)" "q < length p" by blast
    let ?r = "grep_lines pattern (drop (Suc q) p)"
    have "length (drop (Suc q) p) < length p" using q by simp
    then obtain ls where ls: "concat ls = fst ?r"
      "\<And>as. length ls \<le> length as \<Longrightarrow>
         grep_buf pattern (drop (Suc q) p) k as = map (Write 1) ls @ k (snd ?r) (drop (length ls) as)"
      using 1 by blast
    let ?ls = "(if match pattern (take q p) then [take q p @ [10]] else []) @ ls"
    have g: "fst (grep_lines pattern p) = concat ?ls" "snd (grep_lines pattern p) = snd ?r"
      by (subst grep_lines.simps, simp add: q ls(1) Let_def split: prod.split)+
    have b: "grep_buf pattern p k as =
        (if match pattern (take q p)
         then sys (Write 1 (take q p @ [10])) (\<lambda>_ as. grep_buf pattern (drop (Suc q) p) k as) as
         else grep_buf pattern (drop (Suc q) p) k as)" for as
      by (subst grep_buf.simps) (simp add: q)
    have "grep_buf pattern p k as = map (Write 1) ?ls @ k (snd ?r) (drop (length ?ls) as)"
      if "length ?ls \<le> length as" for as
      using that by (cases as) (auto simp: b ls(2))
    then show ?thesis using g by (intro exI [of _ ?ls]) simp
  qed
qed

end
