(* ===== verification/Umalloc.thy ===== *)
theory Umalloc
  imports Memory
begin

text \<open>
  The user memory allocator of user/umalloc.c: free blocks form a circular list in ascending order
  of addresses, threaded through the headers of the blocks themselves. Memory is that of the
  process, byte by byte; \<open>sbrk\<close> is what the process sees of \<open>sys_sbrk\<close>. A result \<open>None\<close> is a call that does
  not return: the loops of \<open>free\<close> and \<open>malloc\<close> end only when the list is in order, and a store to a page that is
  not mapped faults, on which the kernel kills the process. The lemmas show that they return.
\<close>

section \<open>Headers\<close>

text \<open>
  \<open>union header\<close>: a pointer at offset 0 and a 32-bit size at offset 8, 16 bytes in all. Sizes are in
  units of headers.
\<close>

definition hptr :: "mem \<Rightarrow> u64 \<Rightarrow> u64" where
  "hptr m p = load64 m p"

definition hsize :: "mem \<Rightarrow> u64 \<Rightarrow> u32" where
  "hsize m p = of_le (load_bytes m (p + 8) 4)"

definition set_hptr :: "u64 \<Rightarrow> u64 \<Rightarrow> mem \<Rightarrow> mem" where
  "set_hptr p v m = store64 m p v"

definition set_hsize :: "u64 \<Rightarrow> u32 \<Rightarrow> mem \<Rightarrow> mem" where
  "set_hsize p n m = store_bytes m (p + 8) (to_le n)"

text \<open>\<open>p + n\<close> on pointers to headers.\<close>

definition hadd :: "u64 \<Rightarrow> u32 \<Rightarrow> u64" where
  "hadd p n = p + 16 * ucast n"

section \<open>The process\<close>

text \<open>
  \<open>um_base\<close> is the address of \<open>base\<close>, \<open>um_brk\<close> the size of the process. Whether the kernel has
  memory left when the process asks is not known to the process: \<open>um_answers\<close> holds the answers to
  come. A process never gets more than the physical memory of the machine. The pages up to the end of
  the one that holds the last byte are mapped; new pages are zero.
\<close>

record uproc =
  um_mem :: mem
  um_base :: u64
  um_freep :: u64
  um_brk :: u64
  um_answers :: "bool list"

definition PHYSMEM :: nat where
  "PHYSMEM = 128 * 1024 * 1024"

definition page_end :: "u64 \<Rightarrow> nat" where
  "page_end sz = (unat sz + 4095) div 4096 * 4096"

definition zero_fill :: "nat \<Rightarrow> nat \<Rightarrow> mem \<Rightarrow> mem" where
  "zero_fill lo hi m = (\<lambda>x. if lo \<le> unat x \<and> unat x < hi then 0 else m x)"

text \<open>
  Whether the field \<open>size\<close> of a header at \<open>p\<close> can be stored. The headers in the list were stored before,
  so only a new header can be outside.
\<close>

definition backed :: "u64 \<Rightarrow> uproc \<Rightarrow> bool" where
  "backed p s = (unat p + 12 \<le> page_end (um_brk s))"

definition sbrk :: "u32 \<Rightarrow> uproc \<Rightarrow> u64 \<times> uproc" where
  "sbrk n s =
     (let sz = um_brk s in
      if sint n > 0 then
        (case um_answers s of
           [] \<Rightarrow> (-1, s)
         | ok # rest \<Rightarrow>
             if ok \<and> unat sz + unat n \<le> PHYSMEM
             then (sz, s\<lparr>um_mem := zero_fill (page_end sz) (page_end (sz + scast n)) (um_mem s),
                          um_brk := sz + scast n, um_answers := rest\<rparr>)
             else (-1, s\<lparr>um_answers := rest\<rparr>))
      else if sint n < 0 then
        (sz, s\<lparr>um_brk := (if sz + scast n \<ge> sz then sz else sz + scast n)\<rparr>)
      else (sz, s))"

section \<open>\<open>free\<close>\<close>

partial_function (option) free_find :: "mem \<Rightarrow> u64 \<Rightarrow> u64 \<Rightarrow> u64 option" where
  "free_find m bp p =
     (if bp > p \<and> bp < hptr m p then Some p
      else if p \<ge> hptr m p \<and> (bp > p \<or> bp < hptr m p) then Some p
      else free_find m bp (hptr m p))"

definition free_upper :: "u64 \<Rightarrow> u64 \<Rightarrow> mem \<Rightarrow> mem" where
  "free_upper bp p m =
     (if hadd bp (hsize m bp) = hptr m p then
        let m = set_hsize bp (hsize m bp + hsize m (hptr m p)) m in
        set_hptr bp (hptr m (hptr m p)) m
      else set_hptr bp (hptr m p) m)"

definition free_lower :: "u64 \<Rightarrow> u64 \<Rightarrow> mem \<Rightarrow> mem" where
  "free_lower bp p m =
     (if hadd p (hsize m p) = bp then
        let m = set_hsize p (hsize m p + hsize m bp) m in
        set_hptr p (hptr m bp) m
      else set_hptr p bp m)"

definition free :: "u64 \<Rightarrow> uproc \<Rightarrow> uproc option" where
  "free ap s =
     (let bp = ap - 16 in
      case free_find (um_mem s) bp (um_freep s) of
        None \<Rightarrow> None
      | Some p \<Rightarrow> Some (s\<lparr>um_mem := free_lower bp p (free_upper bp p (um_mem s)), um_freep := p\<rparr>))"

section \<open>\<open>malloc\<close>\<close>

definition morecore :: "u32 \<Rightarrow> uproc \<Rightarrow> (u64 \<times> uproc) option" where
  "morecore nu s =
     (let nu = (if nu < 4096 then 4096 else nu); (p, s) = sbrk (ucast (ucast nu * 16 :: u64)) s in
      if p = -1 then Some (0, s)
      else if \<not> backed p s then None
      else
        (case free (p + 16) (s\<lparr>um_mem := set_hsize p nu (um_mem s)\<rparr>) of
           None \<Rightarrow> None
         | Some s \<Rightarrow> Some (um_freep s, s)))"

definition malloc_take :: "u32 \<Rightarrow> u64 \<Rightarrow> u64 \<Rightarrow> uproc \<Rightarrow> (u64 \<times> uproc) option" where
  "malloc_take nunits prevp p s =
     (let m = um_mem s in
      if hsize m p = nunits then Some (p + 16, s\<lparr>um_mem := set_hptr prevp (hptr m p) m, um_freep := prevp\<rparr>)
      else
        let m = set_hsize p (hsize m p - nunits) m; p = hadd p (hsize m p) in
        if \<not> backed p s then None
        else Some (p + 16, s\<lparr>um_mem := set_hsize p nunits m, um_freep := prevp\<rparr>))"

partial_function (option) malloc_loop :: "u32 \<Rightarrow> u64 \<Rightarrow> u64 \<Rightarrow> uproc \<Rightarrow> (u64 \<times> uproc) option" where
  "malloc_loop nunits prevp p s =
     (if hsize (um_mem s) p \<ge> nunits then malloc_take nunits prevp p s
      else if p = um_freep s then
        Option.bind (morecore nunits s) (\<lambda>(p, s).
        if p = 0 then Some (0, s) else malloc_loop nunits p (hptr (um_mem s) p) s)
      else malloc_loop nunits p (hptr (um_mem s) p) s)"

definition units :: "u32 \<Rightarrow> u32" where
  "units nbytes = ucast ((ucast nbytes + 16 - 1) div 16 + 1 :: u64)"

definition malloc :: "u32 \<Rightarrow> uproc \<Rightarrow> (u64 \<times> uproc) option" where
  "malloc nbytes s =
     (let nunits = units nbytes;
          s = (if um_freep s = 0 then
                 s\<lparr>um_mem := set_hsize (um_base s) 0 (set_hptr (um_base s) (um_base s) (um_mem s)), um_freep := um_base s\<rparr>
               else s)
      in malloc_loop nunits (um_freep s) (hptr (um_mem s) (um_freep s)) s)"

section \<open>Headers in memory\<close>

lemma page_end_ge: "unat sz \<le> page_end sz"
  using div_mult_mod_eq [of "unat sz + 4095" 4096] mod_less_divisor [of 4096 "unat sz + 4095"]
  unfolding page_end_def by linarith

lemma store_bytes_outside: "\<not> in_range x a (length bs) \<Longrightarrow> store_bytes m a bs x = m x"
  by (simp add: store_bytes_def)

lemma hdr_outside:
  assumes "unat a + 16 \<le> 2 ^ 64" "unat x < unat a \<or> unat a + 16 \<le> unat x"
  shows "set_hptr a v m x = m x" "set_hsize a n m x = m x"
proof -
  have a8: "unat (a + 8) = unat a + 8" using assms(1) of_nat_u64_less [of a 8] by simp
  show "set_hptr a v m x = m x" unfolding set_hptr_def
    by (rule store64_outside) (use in_range_unat [of x a 8] assms in auto)
  show "set_hsize a n m x = m x" unfolding set_hsize_def
    by (rule store_bytes_outside) (use in_range_unat [of x "a + 8" 4] assms a8 in auto)
qed

lemma hptr_cong: "(\<And>x. unat a \<le> unat x \<Longrightarrow> unat x < unat a + 16 \<Longrightarrow> m x = m' x) \<Longrightarrow> unat a + 16 \<le> 2 ^ 64 \<Longrightarrow>
    hptr m a = hptr m' a"
  unfolding hptr_def by (rule load64_cong) (use in_range_unat [of _ a 8] in fastforce)

lemma hsize_cong:
  assumes "\<And>x. unat a \<le> unat x \<Longrightarrow> unat x < unat a + 16 \<Longrightarrow> m x = m' x" "unat a + 16 \<le> 2 ^ 64"
  shows "hsize m a = hsize m' a"
proof -
  have "unat (a + 8 + of_nat i) = unat a + 8 + i" if "i < 4" for i
    using assms(2) of_nat_u64_less [of a "8 + i"] that by (simp add: add.assoc)
  then show ?thesis unfolding hsize_def using assms
    by (intro arg_cong [of _ _ of_le] load_bytes_cong) simp
qed

lemma hdr_same [simp]:
  "hptr (set_hptr a v m) a = v" "hsize (set_hsize a n m) a = n"
  using load_store_bytes [of "to_le n" m "a + 8"] by (simp_all add: hptr_def set_hptr_def hsize_def set_hsize_def)

lemma hdr_fields:
  assumes "unat a + 16 \<le> 2 ^ 64"
  shows "hptr (set_hsize a n m) a = hptr m a" "hsize (set_hptr a v m) a = hsize m a"
proof -
  have a8: "unat (a + 8) = unat a + 8" using assms(1) of_nat_u64_less [of a 8] by simp
  show "hptr (set_hsize a n m) a = hptr m a" unfolding hptr_def set_hsize_def
    by (rule load64_cong, rule store_bytes_outside)
      (use in_range_unat [of _ a 8] in_range_unat [of _ "a + 8" 4] assms a8 in fastforce)
  have "unat (a + 8 + of_nat i) = unat a + 8 + i" if "i < 4" for i
    using assms of_nat_u64_less [of a "8 + i"] that by (simp add: add.assoc)
  then show "hsize (set_hptr a v m) a = hsize m a" unfolding hsize_def set_hptr_def
    by (intro arg_cong [of _ _ of_le] load_bytes_cong store64_outside)
      (use in_range_unat [of _ a 8] assms in fastforce)
qed

lemma hdr_other:
  assumes "unat a + 16 \<le> unat b \<or> unat b + 16 \<le> unat a" "unat a + 16 \<le> 2 ^ 64" "unat b + 16 \<le> 2 ^ 64"
  shows "hptr (set_hptr a v m) b = hptr m b" "hsize (set_hptr a v m) b = hsize m b"
    "hptr (set_hsize a n m) b = hptr m b" "hsize (set_hsize a n m) b = hsize m b"
  using assms by (auto intro!: hptr_cong hsize_cong hdr_outside)

section \<open>Blocks and the free list\<close>

type_synonym block = "u64 \<times> u32"

definition bstart :: "block \<Rightarrow> nat" where
  "bstart b = unat (fst b)"

definition bend :: "block \<Rightarrow> nat" where
  "bend b = unat (fst b) + 16 * unat (snd b)"

text \<open>Blocks in the order of the list, with a gap between them.\<close>

definition before :: "block \<Rightarrow> block \<Rightarrow> bool" where
  "before x y \<longleftrightarrow> bend x < bstart y \<and> bstart x + 16 \<le> bstart y"

definition cells :: "block \<Rightarrow> nat set" where
  "cells b = {bstart b..<bend b}"

definition space :: "block set \<Rightarrow> nat set" where
  "space B = (\<Union>b \<in> B. cells b)"

definition start :: "block list \<Rightarrow> u64 \<Rightarrow> u64" where
  "start F e = (case F of [] \<Rightarrow> e | b # _ \<Rightarrow> fst b)"

text \<open>The headers of the blocks in \<open>F\<close> are chained in this order, and the last points to \<open>e\<close>.\<close>

fun lseg :: "mem \<Rightarrow> block list \<Rightarrow> u64 \<Rightarrow> bool" where
  "lseg m [] e = True"
| "lseg m (b # F) e = (hsize m (fst b) = snd b \<and> hptr m (fst b) = start F e \<and> lseg m F e)"

text \<open>
  The heap: the free list starts at \<open>base\<close>, which has size 0, and comes back to it; it is in ascending
  order with no two blocks adjacent; the free blocks and the blocks in use, \<open>A\<close>, do not overlap and
  lie in the memory of the process.
\<close>

definition heap_ok :: "uproc \<Rightarrow> block list \<Rightarrow> block set \<Rightarrow> bool" where
  "heap_ok s G A \<longleftrightarrow>
     lseg (um_mem s) ((um_base s, 0) # G) (um_base s) \<and> sorted_wrt before ((um_base s, 0) # G) \<and>
     um_freep s \<in> fst ` set ((um_base s, 0) # G) \<and> 0 < um_base s \<and>
     (\<forall>b \<in> set G \<union> A. 0 < snd b) \<and> space (set G \<union> A) \<subseteq> {unat (um_base s) + 16..<unat (um_brk s)} \<and>
     (\<forall>a \<in> A. hsize (um_mem s) (fst a) = snd a \<and> cells a \<inter> space (set G) = {}) \<and>
     (\<forall>a \<in> A. \<forall>b \<in> A. a \<noteq> b \<longrightarrow> cells a \<inter> cells b = {}) \<and>
     unat (um_base s) + 16 \<le> unat (um_brk s) \<and> unat (um_brk s) \<le> PHYSMEM"

lemma start_simps [simp]: "start [] e = e" "start (b # F) e = fst b" "start (F @ G) e = start F (start G e)"
  by (simp_all add: start_def split: list.split)

lemma lseg_append: "lseg m (F @ G) e \<longleftrightarrow> lseg m F (start G e) \<and> lseg m G e"
  by (induction F) auto

lemma lseg_cong:
  "(\<And>b. b \<in> set F \<Longrightarrow> hptr m' (fst b) = hptr m (fst b) \<and> hsize m' (fst b) = hsize m (fst b)) \<Longrightarrow> lseg m' F e = lseg m F e"
  by (induction F) auto


section \<open>\<open>free\<close> finds the place\<close>

lemma find_low:
  assumes "lseg m (X @ (p, k) # Q) e" "sorted_wrt before (X @ (p, k) # Q)" "p < bp"
    "Q = [] \<and> e \<le> p \<or> Q \<noteq> [] \<and> bp < start Q e"
  shows "free_find m bp (start (X @ (p, k) # Q) e) = Some p"
  using assms
proof (induction X)
  case Nil
  then show ?case by (subst free_find.simps) auto
next
  case (Cons x X)
  let ?y = "start (X @ (p, k) # Q) e"
  have "before x b" if "b \<in> set (X @ [(p, k)])" for b using Cons.prems(2) that by auto
  then have lt: "fst x < fst b" if "b \<in> set (X @ [(p, k)])" for b
    using that by (fastforce simp: before_def bstart_def word_less_nat_alt)
  have "?y \<le> p"
  proof (cases X)
    case (Cons c Z)
    then have "before c (p, k)" using Cons.prems(2) by simp
    then show ?thesis using Cons by (simp add: before_def bstart_def word_le_nat_alt)
  qed simp
  moreover have "fst x < ?y" using lt by (cases X) auto
  ultimately have "free_find m bp (fst x) = free_find m bp ?y"
    using Cons.prems(1,3) by (subst free_find.simps) auto
  then show ?case using Cons by simp
qed

lemma find_high:
  assumes "lseg m X e" "sorted_wrt before X" "\<forall>x \<in> set X. bp < fst x" "e < bp"
  shows "free_find m bp (start X e) = free_find m bp e"
  using assms
proof (induction X)
  case (Cons x X)
  have "fst x < start X e \<or> X = []"
    using Cons.prems(2) by (cases X) (auto simp: before_def bstart_def word_less_nat_alt)
  then have "free_find m bp (fst x) = free_find m bp (start X e)"
    using Cons.prems by (subst free_find.simps) auto
  then show ?case using Cons by simp
qed simp

lemma free_find_place:
  assumes l: "lseg m (P @ (p, k) # Q) e" and o: "sorted_wrt before (P @ (p, k) # Q)"
    and p: "p < bp" "\<forall>x \<in> set Q. bp < fst x" and f: "f \<in> fst ` set (P @ (p, k) # Q)"
    and e: "e = start (P @ (p, k) # Q) e"
  shows "free_find m bp f = Some p"
proof -
  have ep: "e \<le> p"
    using o by (subst e, cases P) (auto simp: before_def bstart_def word_le_nat_alt)
  have stop: "Q = [] \<and> e \<le> p \<or> Q \<noteq> [] \<and> bp < start Q e" using p(2) ep by (cases Q) auto
  have low: "free_find m bp (start (X @ (p, k) # Q) e) = Some p" if "P = Y @ X" for X Y
    using find_low [of m X p k Q e bp] l o p(1) stop that by (simp add: lseg_append sorted_wrt_append)
  show ?thesis
  proof (cases "f \<in> fst ` set (P @ [(p, k)])")
    case True
    then obtain Y X where "P = Y @ X" "f = start (X @ (p, k) # Q) e"
    proof (cases "f = p")
      case False
      with True obtain x where "x \<in> set P" "f = fst x" by auto
      then obtain Y X where "P = Y @ x # X" by (meson split_list)
      then show ?thesis using that [of Y "x # X"] \<open>f = fst x\<close> by simp
    qed (use that [of P "[]"] in simp)
    then show ?thesis using low by simp
  next
    case False
    with f obtain x where x: "x \<in> set Q" "f = fst x" by auto
    then obtain Y X where Q: "Q = Y @ x # X" by (meson split_list)
    have "free_find m bp (start (x # X) e) = free_find m bp e"
      by (rule find_high) (use l o p ep Q in \<open>auto simp: lseg_append sorted_wrt_append\<close>)
    also have "\<dots> = Some p" using low [of "[]" P] e by simp
    finally show ?thesis using x(2) by simp
  qed
qed


section \<open>Joining blocks\<close>

lemma space_simps [simp]:
  "space {} = {}" "space (insert b B) = cells b \<union> space B" "space (B \<union> C) = space B \<union> space C"
  by (auto simp: space_def)

lemma cells_space: "b \<in> B \<Longrightarrow> cells b \<subseteq> space B"
  by (auto simp: space_def)

lemma cells_apart:
  assumes "0 < snd x" "0 < snd y" "cells x \<inter> cells y = {}"
  shows "bend x \<le> bstart y \<or> bend y \<le> bstart x"
proof (rule ccontr)
  assume "\<not> ?thesis"
  then have "max (bstart x) (bstart y) \<in> cells x \<inter> cells y"
    using assms(1,2) by (auto simp: cells_def bend_def bstart_def word_less_nat_alt)
  then show False using assms(3) by blast
qed

lemma bend_start: "0 < snd b \<Longrightarrow> bstart b + 16 \<le> bend b"
  by (simp add: bend_def bstart_def word_less_nat_alt)

lemma cells_bounds: "0 < snd b \<Longrightarrow> cells b \<subseteq> {l..<h} \<Longrightarrow> l \<le> bstart b \<and> bend b \<le> h"
  using bend_start [of b] by (auto simp: cells_def)

text \<open>Two neighbours become one block.\<close>

definition join :: "block \<Rightarrow> block \<Rightarrow> block" where
  "join x y = (fst x, snd x + snd y)"

lemma join_simps:
  assumes "bend x = bstart y" "bend y \<le> PHYSMEM"
  shows "bstart (join x y) = bstart x" "bend (join x y) = bend y" "0 < snd y \<Longrightarrow> 0 < snd (join x y)"
    "fst (join x y) = fst x" "unat (snd x + snd y) = unat (snd x) + unat (snd y)"
    "cells (join x y) = cells x \<union> cells y"
proof -
  have e: "bend y = bstart x + 16 * (unat (snd x) + unat (snd y))"
    using assms(1) by (simp add: bend_def bstart_def)
  then have "unat (snd x) + unat (snd y) < 2 ^ 32" using assms(2) by (simp add: PHYSMEM_def)
  then show u: "unat (snd x + snd y) = unat (snd x) + unat (snd y)" by (intro unat_add_small) simp
  show be: "bend (join x y) = bend y" "bstart (join x y) = bstart x" unfolding e by (simp_all add: bend_def join_def bstart_def u)
  show "0 < snd (join x y)" if "0 < snd y" using that by (simp add: join_def word_less_nat_alt u)
  show "fst (join x y) = fst x" by (simp add: join_def)
  have "bstart x \<le> bend x" "bstart y \<le> bend y" by (simp_all add: bend_def bstart_def)
  then show "cells (join x y) = cells x \<union> cells y" unfolding cells_def be using assms(1) by auto
qed

text \<open>What \<open>free\<close> does with the block above and with the block below.\<close>

definition absorb :: "block \<Rightarrow> block list \<Rightarrow> block \<times> block list" where
  "absorb b Q = (case Q of [] \<Rightarrow> (b, []) | x # Q' \<Rightarrow> if bend b = bstart x then (join b x, Q') else (b, Q))"

definition attach :: "block \<Rightarrow> block \<Rightarrow> block list" where
  "attach x b = (if bend x = bstart b then [join x b] else [x, b])"

lemma absorb_ok:
  assumes "absorb b Q = (b', Q')" "sorted_wrt before Q" "\<forall>x \<in> set Q. bend b \<le> bstart x" "0 < snd b"
    "\<forall>x \<in> set Q. 0 < snd x \<and> bend x \<le> PHYSMEM" "bend b \<le> PHYSMEM"
  shows "fst b' = fst b" "0 < snd b'" "sorted_wrt before (b' # Q')" "set Q' \<subseteq> set Q"
    "space (set (b' # Q')) = space (set (b # Q))" "bend b' \<le> PHYSMEM" "cells b \<subseteq> cells b'"
proof -
  have *: "cells b \<subseteq> cells b' \<and> fst b' = fst b \<and> 0 < snd b' \<and> sorted_wrt before (b' # Q') \<and> set Q' \<subseteq> set Q \<and>
      space (set (b' # Q')) = space (set (b # Q)) \<and> bend b' \<le> PHYSMEM"
  proof (cases "\<exists>x R. Q = x # R \<and> bend b = bstart x")
    case True
    then obtain x R where x: "Q = x # R" "bend b = bstart x" by blast
    then have r: "b' = join b x" "Q' = R" using assms(1) by (simp_all add: absorb_def)
    have j: "bstart (join b x) = bstart b" "bend (join b x) = bend x" "0 < snd (join b x)" "fst (join b x) = fst b"
      "cells (join b x) = cells b \<union> cells x"
      using join_simps [OF x(2)] assms(5) x(1) by auto
    have "before (join b x) y" if "y \<in> set R" for y
    proof -
      have "before x y" using assms(2) x(1) that by simp
      then show ?thesis using j(1,2) x(2) bend_start [OF assms(4)] by (auto simp: before_def)
    qed
    then show ?thesis using assms(2,5) x(1) r j by auto
  next
    case False
    then have r: "b' = b" "Q' = Q" using assms(1) by (auto simp: absorb_def split: list.splits if_splits)
    have "before b y" if "y \<in> set Q" for y
    proof -
      have le: "bend b \<le> bstart y" using assms(3) that by blast
      have ne: "bend b \<noteq> bstart y"
      proof
        assume eq: "bend b = bstart y"
        obtain x R where Q: "Q = x # R" using \<open>y \<in> set Q\<close> by (cases Q) auto
        then have "y \<in> set R" using False eq that by auto
        then have "before x y" using assms(2) Q by auto
        moreover have "bend b \<le> bstart x" "bstart x < bend x"
          using assms(3,5) Q bend_start [of x] by auto
        ultimately show False using eq by (simp add: before_def)
      qed
      then show ?thesis using le bend_start [OF assms(4)] by (simp add: before_def)
    qed
    then show ?thesis using assms r by auto
  qed
  then show "fst b' = fst b" "0 < snd b'" "sorted_wrt before (b' # Q')" "set Q' \<subseteq> set Q"
    "space (set (b' # Q')) = space (set (b # Q))" "bend b' \<le> PHYSMEM" "cells b \<subseteq> cells b'" by blast+
qed

lemma attach_ok:
  assumes "sorted_wrt before (P @ x # Q')" "sorted_wrt before (b # Q')" "bend x \<le> bstart b" "bstart x + 16 \<le> bstart b"
    "0 < snd b" "bend b \<le> PHYSMEM"
  shows "sorted_wrt before (P @ attach x b @ Q')" "space (set (attach x b)) = cells x \<union> cells b"
    "fst (hd (attach x b)) = fst x" "attach x b \<noteq> []" "\<forall>y \<in> set (attach x b). y = x \<or> 0 < snd y"
    "\<exists>y \<in> set (attach x b). cells b \<subseteq> cells y"
proof -
  have pb: "before y b" if "y \<in> set P" for y
  proof -
    have "before y x" using assms(1) that by (simp add: sorted_wrt_append)
    then show ?thesis using assms(3,4) by (simp add: before_def)
  qed
  have *: "sorted_wrt before (P @ attach x b @ Q') \<and> space (set (attach x b)) = cells x \<union> cells b \<and> fst (hd (attach x b)) = fst x"
  proof (cases "bend x = bstart b")
    case True
    note j = join_simps [OF True assms(6)]
    have "before (join x b) y" if "y \<in> set Q'" for y
      using assms(2,4) that j(1,2) by (auto simp: before_def)
    moreover have "before y (join x b)" if "y \<in> set P" for y
      using assms(1) that j(1) by (auto simp: sorted_wrt_append before_def)
    ultimately show ?thesis using True assms(1) j by (auto simp: attach_def sorted_wrt_append)
  next
    case False
    then have "before x b" using assms(3,4) by (simp add: before_def)
    then show ?thesis using False assms(1,2) pb by (auto simp: attach_def sorted_wrt_append)
  qed
  then show "sorted_wrt before (P @ attach x b @ Q')" "space (set (attach x b)) = cells x \<union> cells b"
    "fst (hd (attach x b)) = fst x" by blast+
  show "attach x b \<noteq> []" "\<forall>y \<in> set (attach x b). y = x \<or> 0 < snd y"
    "\<exists>y \<in> set (attach x b). cells b \<subseteq> cells y"
    using join_simps(3,6) [of x b] assms(5,6) by (auto simp: attach_def)
qed


section \<open>The headers after \<open>free\<close>\<close>

lemma hadd_eq: "bend (p, n) < 2 ^ 64 \<Longrightarrow> hadd p n = q \<longleftrightarrow> bend (p, n) = unat q"
proof -
  assume b: "bend (p, n) < 2 ^ 64"
  have "unat n < 2 ^ 32" using unat_bound [of n] by simp
  then have "unat (16 * ucast n :: u64) = 16 * unat n" by (simp add: unat_word_ariths unsigned_ucast_eq take_bit_nat_eq_self)
  then have "unat (hadd p n) = bend (p, n)" using b unat_add_small [of p "16 * ucast n"] by (simp add: hadd_def bend_def)
  then show ?thesis by (metis word_unat_eq_iff)
qed

definition outside :: "u64 \<Rightarrow> mem \<Rightarrow> mem \<Rightarrow> bool" where
  "outside a m m' \<longleftrightarrow> (\<forall>x. unat x < unat a \<or> unat a + 16 \<le> unat x \<longrightarrow> m' x = m x)"

lemma outside_hdr:
  assumes "outside a m m'" "unat a + 16 \<le> unat b \<or> unat b + 16 \<le> unat a" "unat b + 16 \<le> 2 ^ 64"
  shows "hptr m' b = hptr m b" "hsize m' b = hsize m b"
  using assms(1,2) unfolding outside_def
  by (auto intro!: hptr_cong [OF _ assms(3)] hsize_cong [OF _ assms(3)])

lemma outside_set:
  assumes "unat a + 16 \<le> 2 ^ 64" "outside a m m'"
  shows "outside a m (set_hptr a v m')" "outside a m (set_hsize a n m')"
  using assms hdr_outside [OF assms(1)] by (simp_all add: outside_def)

lemma outside_refl: "outside a m m"
  by (simp add: outside_def)

lemma free_upper_run:
  assumes "hsize m (fst b) = snd b" "hptr m p = start Q e" "lseg m Q e" "Q = [] \<longrightarrow> unat e \<noteq> bend b"
    "bend b \<le> PHYSMEM" "0 < snd b" "\<forall>x \<in> set Q. bend b \<le> bstart x \<and> 0 < snd x \<and> bend x \<le> PHYSMEM"
    "unat p + 16 \<le> bstart b" "absorb b Q = (b', Q')"
  defines "m' \<equiv> free_upper (fst b) p m"
  shows "hsize m' (fst b) = snd b'" "hptr m' (fst b) = start Q' e" "outside (fst b) m m'"
proof -
  have bb: "unat (fst b) + 16 \<le> 2 ^ 64" using bend_start [OF assms(6)] assms(5) by (simp add: bstart_def PHYSMEM_def)
  have ha: "hadd (fst b) (snd b) = q \<longleftrightarrow> bend b = unat q" for q
    using hadd_eq [of "fst b" "snd b" q] assms(5) by (simp add: PHYSMEM_def)
  have "hsize m' (fst b) = snd b' \<and> hptr m' (fst b) = start Q' e \<and> outside (fst b) m m'"
  proof (cases "\<exists>x R. Q = x # R \<and> bend b = bstart x")
    case True
    then obtain x R where x: "Q = x # R" "bend b = bstart x" by blast
    then have r: "b' = join b x" "Q' = R" using assms(9) by (simp_all add: absorb_def)
    have xb: "unat (fst b) + 16 \<le> unat (fst x)" "unat (fst x) + 16 \<le> 2 ^ 64"
      using assms(6,7) x bend_start [of b] bend_start [of x] by (auto simp: bstart_def PHYSMEM_def)
    have h: "hptr m p = fst x" "hsize m (fst x) = snd x" "hptr m (fst x) = start R e" using assms(2,3) x by simp_all
    have far: "hptr (set_hsize (fst b) n m) p = hptr m p" "hptr (set_hsize (fst b) n m) (fst x) = hptr m (fst x)" for n
      using hdr_other(3) [of "fst b" p n m] hdr_other(3) [of "fst b" "fst x" n m] assms(8) bb xb by (auto simp: bstart_def)
    have "m' = set_hptr (fst b) (start R e) (set_hsize (fst b) (snd b + snd x) m)"
      unfolding m'_def free_upper_def using assms(1) ha x(2) h far by (simp add: bstart_def)
    then show ?thesis using r hdr_fields [OF bb] outside_set [OF bb] outside_refl by (simp add: join_def)
  next
    case False
    then have r: "b' = b" "Q' = Q" using assms(9) by (auto simp: absorb_def split: list.splits if_splits)
    have "hadd (fst b) (snd b) \<noteq> hptr m p" using False assms(2,4) ha by (cases Q) (auto simp: bstart_def)
    then have "m' = set_hptr (fst b) (start Q e) m" unfolding m'_def free_upper_def using assms(1,2) by simp
    then show ?thesis using r assms(1) hdr_fields [OF bb] outside_set [OF bb] outside_refl by simp
  qed
  then show "hsize m' (fst b) = snd b'" "hptr m' (fst b) = start Q' e" "outside (fst b) m m'" by blast+
qed

lemma free_lower_run:
  assumes "hsize m p = k" "hsize m (fst b) = snd b" "hptr m (fst b) = e" "unat p + 16 \<le> bstart b"
    "bend (p, k) \<le> bstart b" "bend b \<le> PHYSMEM" "0 < snd b"
  defines "m' \<equiv> free_lower (fst b) p m"
  shows "lseg m' (attach (p, k) b) e" "outside p m m'"
proof -
  have bb: "unat (fst b) + 16 \<le> 2 ^ 64" using bend_start [OF assms(7)] assms(6) by (simp add: bstart_def PHYSMEM_def)
  then have pb: "unat p + 16 \<le> 2 ^ 64" "unat p + 16 \<le> unat (fst b)" using assms(4) by (simp_all add: bstart_def)
  have ha: "hadd p k = q \<longleftrightarrow> bend (p, k) = unat q" for q
    using hadd_eq [of p k q] assms(5) unat_bound [of "fst b"] by (simp add: bstart_def)
  have "lseg m' (attach (p, k) b) e \<and> outside p m m'"
  proof (cases "bend (p, k) = bstart b")
    case True
    then have "m' = set_hptr p (hptr (set_hsize p (k + snd b) m) (fst b)) (set_hsize p (k + snd b) m)"
      unfolding m'_def free_lower_def using assms(1,2) ha by (simp add: bstart_def Let_def)
    moreover have "hptr (set_hsize p (k + snd b) m) (fst b) = e" using hdr_other(3) pb bb assms(3) by simp
    ultimately show ?thesis using True hdr_fields [OF pb(1)] outside_set [OF pb(1)] outside_refl
      by (simp add: attach_def join_def)
  next
    case False
    then have "m' = set_hptr p (fst b) m" unfolding m'_def free_lower_def using assms(1) ha by (simp add: bstart_def)
    then show ?thesis using False assms(1-3) hdr_fields [OF pb(1)] hdr_other(1,2) [of p "fst b"] pb bb outside_set [OF pb(1)] outside_refl
      by (simp add: attach_def)
  qed
  then show "lseg m' (attach (p, k) b) e" "outside p m m'" by blast+
qed


section \<open>\<open>free\<close> keeps the heap in order\<close>

definition kept :: "block set \<Rightarrow> mem \<Rightarrow> mem \<Rightarrow> bool" where
  "kept A m m' \<longleftrightarrow> (\<forall>a \<in> A. \<forall>x. unat x \<in> cells a \<longrightarrow> m' x = m x)"

lemma heap_okD:
  assumes "heap_ok s G A"
  shows "lseg (um_mem s) ((um_base s, 0) # G) (um_base s)" "sorted_wrt before ((um_base s, 0) # G)"
    "um_freep s \<in> fst ` set ((um_base s, 0) # G)" "0 < um_base s"
    "unat (um_base s) + 16 \<le> unat (um_brk s)" "unat (um_brk s) \<le> PHYSMEM"
    "\<And>b. b \<in> set G \<union> A \<Longrightarrow> 0 < snd b \<and> unat (um_base s) + 16 \<le> bstart b \<and> bend b \<le> unat (um_brk s)"
    "\<And>a. a \<in> A \<Longrightarrow> hsize (um_mem s) (fst a) = snd a" "\<And>a. a \<in> A \<Longrightarrow> cells a \<inter> space (set G) = {}"
    "\<And>a b. a \<in> A \<Longrightarrow> b \<in> A \<Longrightarrow> a \<noteq> b \<Longrightarrow> cells a \<inter> cells b = {}"
proof -
  fix b assume b: "b \<in> set G \<union> A"
  have "space (set G \<union> A) \<subseteq> {unat (um_base s) + 16..<unat (um_brk s)}" "0 < snd b"
    using assms b unfolding heap_ok_def by blast+
  then show "0 < snd b \<and> unat (um_base s) + 16 \<le> bstart b \<and> bend b \<le> unat (um_brk s)"
    using cells_bounds [of b "unat (um_base s) + 16" "unat (um_brk s)"] cells_space [OF b] by blast
qed (use assms in \<open>simp_all add: heap_ok_def\<close>)

lemma free_place:
  assumes ok: "heap_ok s G A" and b: "b \<in> A"
  obtains P p k Q where "(um_base s, 0) # G = P @ (p, k) # Q" "unat p + 16 \<le> bstart b" "bend (p, k) \<le> bstart b"
    "\<forall>x \<in> set Q. bend b \<le> bstart x" "set Q \<subseteq> set G" "P \<noteq> [] \<or> (p, k) = (um_base s, 0)"
proof -
  note h = heap_okD [OF ok]
  let ?F = "(um_base s, 0) # G" and ?low = "\<lambda>x. bstart x < bstart b"
  have b0: "0 < snd b" "unat (um_base s) + 16 \<le> bstart b" using h(7) [of b] b by auto
  have "takeWhile ?low ?F = (um_base s, 0) # takeWhile ?low G" using b0(2) by (simp add: bstart_def)
  then obtain P x where P: "takeWhile ?low ?F = P @ [x]" by (metis list.distinct(1) rev_exhaust)
  define Q where "Q = dropWhile ?low ?F"
  have F: "?F = P @ x # Q" using takeWhile_dropWhile_id [of ?low ?F] P by (simp add: Q_def)
  have "x \<in> set (takeWhile ?low ?F)" by (simp only: P) simp
  then have x: "bstart x < bstart b" by (blast dest: set_takeWhileD)
  have sp: "bend y \<le> bstart b \<or> bend b \<le> bstart y" if "y \<in> set G" for y
  proof -
    have "cells b \<inter> cells y = {}" using h(9) [OF b] cells_space [OF that] by blast
    then show ?thesis using cells_apart [of b y] b0(1) h(7) [of y] that by auto
  qed
  have ends: "bend x \<le> bstart b \<and> bstart x + 16 \<le> bstart b"
  proof (cases "x = (um_base s, 0)")
    case True
    then show ?thesis using b0 by (simp add: bend_def bstart_def)
  next
    case False
    then have "x \<in> set G" using F by (metis in_set_conv_decomp set_ConsD)
    then show ?thesis using sp [of x] x h(7) [of x] bend_start [of x] bend_start [OF b0(1)] by auto
  qed
  have high: "bend b \<le> bstart y \<and> y \<in> set G" if y: "y \<in> set Q" for y
  proof -
    have "\<not> bstart y < bstart b"
    proof -
      obtain z Z where Z: "Q = z # Z" using y by (cases Q) auto
      then have "\<not> ?low z" unfolding Q_def by (metis dropWhile_eq_Cons_conv)
      moreover have "y = z \<or> before z y" using h(2) [unfolded F Z] Z y by (auto simp: sorted_wrt_append)
      ultimately show ?thesis by (auto simp: before_def)
    qed
    moreover have "y \<in> set ?F" using y unfolding Q_def by (blast dest: set_dropWhileD)
    ultimately have "y \<in> set G" using b0(2) by (auto simp: bstart_def)
    then show ?thesis using sp [of y] \<open>\<not> bstart y < bstart b\<close> bend_start [of y] h(7) [of y] by auto
  qed
  show ?thesis
  proof (rule that [of P "fst x" "snd x" Q])
    show "P \<noteq> [] \<or> (fst x, snd x) = (um_base s, 0)" using F by (cases P) auto
  qed (use F ends high in \<open>auto simp: bstart_def\<close>)
qed


lemma kept_outside:
  assumes "outside a m m'" "\<And>b. b \<in> A \<Longrightarrow> cells b \<inter> {unat a..<unat a + 16} = {}"
  shows "kept A m m'"
  unfolding kept_def
proof (intro ballI allI impI)
  fix b and x :: u64 assume "b \<in> A" "unat x \<in> cells b"
  then have "unat x \<notin> {unat a..<unat a + 16}" using assms(2) by blast
  then show "m' x = m x" using assms(1) by (auto simp: outside_def)
qed

lemma kept_trans: "kept A m m' \<Longrightarrow> kept A m' m'' \<Longrightarrow> kept A m m''"
  by (simp add: kept_def)

lemma kept_hdr:
  assumes "kept A m m'" "a \<in> A" "0 < snd a" "bend a \<le> PHYSMEM"
  shows "hsize m' (fst a) = hsize m (fst a)" "hptr m' (fst a) = hptr m (fst a)"
  using assms bend_start [OF assms(3)]
  by (auto intro!: hsize_cong hptr_cong simp: kept_def cells_def bstart_def PHYSMEM_def)

lemma hdr_cells: "0 < snd b \<Longrightarrow> {unat (fst b)..<unat (fst b) + 16} \<subseteq> cells b"
  using bend_start [of b] by (auto simp: cells_def bstart_def)

text \<open>Headers of the other elements of the list are not touched when two of them are written.\<close>

lemma lseg_outside:
  assumes "outside a m m'" "\<And>x. x \<in> set F \<Longrightarrow> unat a + 16 \<le> bstart x \<or> bstart x + 16 \<le> unat a"
    "\<And>x. x \<in> set F \<Longrightarrow> bstart x + 16 \<le> 2 ^ 64"
  shows "lseg m' F e = lseg m F e"
  using assms outside_hdr [OF assms(1)] by (intro lseg_cong) (auto simp: bstart_def)

lemma heap_ok_give:
  assumes ok: "heap_ok s G A" and b: "b \<in> A" and l: "lseg m' ((um_base s, 0) # G') (um_base s)"
    and o: "sorted_wrt before ((um_base s, 0) # G')" and f: "p \<in> fst ` set ((um_base s, 0) # G')"
    and pos: "\<forall>b \<in> set G'. 0 < snd b" and sp: "space (set G') = space (set G) \<union> cells b"
    and k: "kept (A - {b}) (um_mem s) m'"
  shows "heap_ok (s\<lparr>um_mem := m', um_freep := p\<rparr>) G' (A - {b})"
  unfolding heap_ok_def
proof (intro conjI)
  note h = heap_okD [OF ok]
  let ?s = "s\<lparr>um_mem := m', um_freep := p\<rparr>"
  have "space (set G' \<union> (A - {b})) \<subseteq> space (set G \<union> A)" using cells_space [OF b] by (auto simp: sp) (auto simp: space_def)
  then show "space (set G' \<union> (A - {b})) \<subseteq> {unat (um_base ?s) + 16..<unat (um_brk ?s)}" using ok by (auto simp: heap_ok_def)
  show "\<forall>a \<in> A - {b}. hsize (um_mem ?s) (fst a) = snd a \<and> cells a \<inter> space (set G') = {}"
  proof (intro ballI conjI)
    fix a assume a: "a \<in> A - {b}"
    show "hsize (um_mem ?s) (fst a) = snd a" using kept_hdr(1) [OF k a] h(6) h(7) [of a] h(8) [of a] a by simp
    show "cells a \<inter> space (set G') = {}" unfolding sp using h(9) [of a] h(10) [of a b] a b by blast
  qed
  show "\<forall>a \<in> A - {b}. \<forall>c \<in> A - {b}. a \<noteq> c \<longrightarrow> cells a \<inter> cells c = {}" using h(10) by blast
  show "\<forall>b \<in> set G' \<union> (A - {b}). 0 < snd b" using pos h(7) by blast
qed (use l o f heap_okD(4-6) [OF ok] in auto)

lemma free_spec:
  assumes ok: "heap_ok s G A" and b: "b \<in> A"
  shows "\<exists>s' G'. free (fst b + 16) s = Some s' \<and> heap_ok s' G' (A - {b}) \<and> space (set G') = space (set G) \<union> cells b \<and>
    (\<exists>y \<in> set G'. cells b \<subseteq> cells y) \<and> s' = s\<lparr>um_mem := um_mem s', um_freep := um_freep s'\<rparr> \<and> kept (A - {b}) (um_mem s) (um_mem s')"
proof -
  note h = heap_okD [OF ok]
  let ?e = "um_base s" and ?m = "um_mem s"
  obtain P p k Q where F: "(?e, 0) # G = P @ (p, k) # Q" and p16: "unat p + 16 \<le> bstart b"
    and pe: "bend (p, k) \<le> bstart b" and hi: "\<forall>x \<in> set Q. bend b \<le> bstart x" and QG: "set Q \<subseteq> set G"
    and P0: "P \<noteq> [] \<or> (p, k) = (?e, 0)"
    by (rule free_place [OF ok b])
  obtain b' Q' where ab: "absorb b Q = (b', Q')" by fastforce
  have b0: "0 < snd b" "?e < fst b" "bend b \<le> PHYSMEM" "unat ?e + 16 \<le> bstart b"
    using h(7) [of b] h(6) b by (auto simp: bstart_def word_less_nat_alt)
  have Qok: "\<forall>x \<in> set Q. 0 < snd x \<and> bend x \<le> PHYSMEM" using h(6,7) QG by fastforce
  have l: "lseg ?m (P @ (p, k) # Q) ?e" and o: "sorted_wrt before (P @ (p, k) # Q)" using h(1,2) F by simp_all
  have st: "?e = start (P @ (p, k) # Q) ?e" unfolding F [symmetric] by simp
  have find: "free_find ?m (fst b) (um_freep s) = Some p"
  proof (rule free_find_place [OF l o _ _ _ st])
    show "p < fst b" using p16 by (simp add: bstart_def word_less_nat_alt)
    show "\<forall>x \<in> set Q. fst b < fst x" using hi bend_start [OF b0(1)] by (fastforce simp: bstart_def word_less_nat_alt)
  qed (use h(3) F in simp)
  let ?m1 = "free_upper (fst b) p ?m" and ?m2 = "free_lower (fst b) p (free_upper (fst b) p ?m)"
  have lp: "hsize ?m p = k" "hptr ?m p = start Q ?e" "lseg ?m Q ?e" "lseg ?m P p" using l by (simp_all add: lseg_append)
  have nb: "Q = [] \<longrightarrow> unat ?e \<noteq> bend b" using b0(4) bend_start [OF b0(1)] by auto
  note up = free_upper_run [OF h(8) [OF b] lp(2,3) nb b0(3,1) _ p16 ab]
  have up1: "hsize ?m1 (fst b) = snd b'" "hptr ?m1 (fst b) = start Q' ?e" "outside (fst b) ?m ?m1"
    using up hi Qok by blast+
  note abs = absorb_ok [OF ab _ hi b0(1) Qok b0(3)]
  have oQ: "sorted_wrt before Q" using o by (simp add: sorted_wrt_append)
  note abs = abs [OF oQ]
  have bs: "bstart b' = bstart b" using abs(1) by (simp add: bstart_def)
  have "hsize ?m1 p = k" using outside_hdr(2) [OF up1(3), of p] p16 b0(3) bend_start [OF b0(1)] lp(1)
    by (simp add: bstart_def PHYSMEM_def)
  from free_lower_run [OF this, of b'] have lo: "lseg ?m2 (attach (p, k) b') (start Q' ?e)" "outside p ?m1 ?m2"
    using up1 abs(1,2,6) p16 pe bs by simp_all
  have srt: "sorted_wrt before (P @ (p, k) # Q')" using o abs(4) abs(3) oQ ab
    by (auto simp: sorted_wrt_append absorb_def split: list.splits if_splits)
  note att = attach_ok [OF srt abs(3) _ _ abs(2,6)]
  have att1: "sorted_wrt before (P @ attach (p, k) b' @ Q')" "space (set (attach (p, k) b')) = cells (p, k) \<union> cells b'"
    "fst (hd (attach (p, k) b')) = p" "attach (p, k) b' \<noteq> []" "\<forall>y \<in> set (attach (p, k) b'). y = (p, k) \<or> 0 < snd y"
    "\<exists>y \<in> set (attach (p, k) b'). cells b' \<subseteq> cells y"
    using att p16 pe bs by (simp_all add: bstart_def)
  obtain G' where F': "(?e, 0) # G' = P @ attach (p, k) b' @ Q'"
  proof (cases P)
    case Nil
    then have "attach (p, k) b' = [(?e, 0), b']" using P0 b0(4) bs by (auto simp: attach_def bend_def)
    then show ?thesis using that [of "b' # Q'"] Nil by simp
  qed (use F that in auto)
  let ?s = "s\<lparr>um_mem := ?m2, um_freep := p\<rparr>"
  have pk: "(p, k) = (?e, 0) \<or> (p, k) \<in> set G" using F by (metis in_set_conv_decomp set_ConsD)
  have e0: "cells (?e, 0) = {}" by (simp add: cells_def bstart_def bend_def)
  have "space (set ((?e, 0) # G')) = space (set (P @ (p, k) # Q)) \<union> cells b"
    unfolding F' using att1(2) abs(5) by auto
  then have sp: "space (set G') = space (set G) \<union> cells b" unfolding F [symmetric] by (simp add: e0)
  have kp: "kept (A - {b}) ?m ?m2"
  proof (rule kept_trans)
    show "kept (A - {b}) ?m ?m1"
      by (rule kept_outside [OF up1(3)]) (use h(10) [OF _ b] hdr_cells [OF b0(1)] in blast)
    show "kept (A - {b}) ?m1 ?m2"
    proof (rule kept_outside [OF lo(2)])
      fix a assume a: "a \<in> A - {b}"
      show "cells a \<inter> {unat p..<unat p + 16} = {}"
        using pk
      proof
        assume "(p, k) \<in> set G"
        then show ?thesis using h(9) [of a] a hdr_cells [of "(p, k)"] cells_space [of "(p, k)" "set G"] h(7) [of "(p, k)"] by fastforce
      qed (use h(7) [of a] a in \<open>auto simp: cells_def\<close>)
    qed
  qed
  have low: "bstart x + 16 \<le> unat p" if "x \<in> set P" for x
    using o that by (auto simp: sorted_wrt_append before_def bstart_def)
  have lP: "lseg ?m2 P p" using lp(4) lseg_outside [OF up1(3), of P p] lseg_outside [OF lo(2), of P p] low p16 unat_bound [of p]
    by (fastforce simp: bstart_def)
  have q16: "bstart b + 16 \<le> bstart x \<and> bstart x + 16 \<le> 2 ^ 64" if "x \<in> set Q'" for x
    using that abs(4) hi Qok bend_start [OF b0(1)] bend_start [of x] by (fastforce simp: PHYSMEM_def)
  have "lseg ?m Q' ?e" using lp(3) ab by (auto simp: absorb_def split: list.splits if_splits)
  then have lQ: "lseg ?m2 Q' ?e"
    using lseg_outside [OF up1(3), of Q' ?e] lseg_outside [OF lo(2), of Q' ?e] q16 p16 by (fastforce simp: bstart_def)
  have "start (attach (p, k) b') (start Q' ?e) = p" using att1(3,4) by (cases "attach (p, k) b'") auto
  then have L: "lseg ?m2 ((?e, 0) # G') ?e" unfolding F' using lP lo(1) lQ by (simp add: lseg_append)
  have pos: "0 < snd x" if "x \<in> set G'" for x
  proof -
    have "x \<in> set P \<union> set (attach (p, k) b') \<union> set Q'" using that F' by (metis Un_assoc list.set_intros(2) set_append)
    moreover have "x \<noteq> (?e, 0)" using att1(1) [folded F'] that by (auto simp: before_def bstart_def)
    moreover have "set P \<subseteq> insert (?e, 0) (set G)" using F by (metis Un_upper1 list.set(2) set_append)
    ultimately have "x \<in> set G \<or> 0 < snd x" using att1(5) pk abs(4) QG by auto
    then show ?thesis using h(7) by blast
  qed
  have "p \<in> fst ` set ((?e, 0) # G')" unfolding F' using imageI [OF hd_in_set [OF att1(4)], of fst] att1(3) by (simp add: image_Un)
  then have "heap_ok ?s G' (A - {b})" using heap_ok_give [OF ok b L att1(1) [folded F'] _ _ sp kp] pos by blast
  moreover have "\<exists>y \<in> set G'. cells b \<subseteq> cells y"
  proof -
    obtain y where y: "y \<in> set (attach (p, k) b')" "cells b \<subseteq> cells y" using att1(6) abs(7) by blast
    then have "y \<in> set ((?e, 0) # G')" "y \<noteq> (?e, 0)" unfolding F' using e0 hdr_cells [OF b0(1)] by auto
    then show ?thesis using y(2) by auto
  qed
  ultimately show ?thesis using find sp kp by (intro exI [of _ ?s] exI [of _ G']) (simp add: free_def Let_def)
qed


section \<open>\<open>malloc\<close> takes a block\<close>

lemma heap_ok_take:
  assumes ok: "heap_ok s G A" and l: "lseg m' ((um_base s, 0) # G') (um_base s)" and o: "sorted_wrt before ((um_base s, 0) # G')"
    and f: "pv \<in> fst ` set ((um_base s, 0) # G')" and pos: "\<forall>b \<in> set G'. 0 < snd b" "0 < snd c"
    and sp: "space (set G) = space (set G') \<union> cells c" "cells c \<inter> space (set G') = {}"
    and c: "hsize m' (fst c) = snd c" and k: "kept A (um_mem s) m'"
  shows "heap_ok (s\<lparr>um_mem := m', um_freep := pv\<rparr>) G' (insert c A) \<and> c \<notin> A"
proof -
  note h = heap_okD [OF ok]
  have ac: "cells a \<inter> cells c = {}" "cells a \<inter> space (set G') = {}" if "a \<in> A" for a using h(9) [OF that] sp(1) by blast+
  moreover have "cells c \<noteq> {}" using bend_start [OF pos(2)] by (simp add: cells_def)
  ultimately have "c \<notin> A" by blast
  moreover have "heap_ok (s\<lparr>um_mem := m', um_freep := pv\<rparr>) G' (insert c A)"
    unfolding heap_ok_def
  proof (intro conjI)
    let ?s = "s\<lparr>um_mem := m', um_freep := pv\<rparr>"
    have "space (set G' \<union> insert c A) = space (set G \<union> A)" using sp by auto
    then show "space (set G' \<union> insert c A) \<subseteq> {unat (um_base ?s) + 16..<unat (um_brk ?s)}" using ok by (simp add: heap_ok_def)
    show "\<forall>a \<in> insert c A. hsize (um_mem ?s) (fst a) = snd a \<and> cells a \<inter> space (set G') = {}"
    proof (intro ballI)
      fix a assume a: "a \<in> insert c A"
      show "hsize (um_mem ?s) (fst a) = snd a \<and> cells a \<inter> space (set G') = {}"
      proof (cases "a = c")
        case False
        then have aA: "a \<in> A" using a by simp
        then show ?thesis using kept_hdr(1) [OF k aA] h(6) h(7) [of a] h(8) [of a] ac(2) by simp
      qed (use c sp(2) in simp)
    qed
    show "\<forall>a \<in> insert c A. \<forall>b \<in> insert c A. a \<noteq> b \<longrightarrow> cells a \<inter> cells b = {}" using h(10) ac(1) by blast
    show "\<forall>b \<in> set G' \<union> insert c A. 0 < snd b" using pos h(7) by blast
  qed (use l o f h(4-6) in auto)
  ultimately show ?thesis by blast
qed

text \<open>No other block reaches into the block \<open>x\<close> of the free list.\<close>

lemma sorted_cells:
  assumes "sorted_wrt before (X @ x # Y)" "\<forall>y \<in> set (X @ x # Y). bstart y \<le> bend y"
  shows "cells x \<inter> space (set (X @ Y)) = {}"
proof -
  have "cells x \<inter> cells y = {}" if "y \<in> set X \<union> set Y" for y
    using assms that by (fastforce simp: sorted_wrt_append before_def cells_def)
  then show ?thesis by (auto simp: space_def)
qed

lemma bstart_le: "bstart b \<le> bend b"
  by (simp add: bstart_def bend_def)

lemma free_list_frame:
  assumes ok: "heap_ok s G A" and o: "outside (fst x) (um_mem s) m'" and x: "x \<in> set ((um_base s, 0) # G)"
  shows "kept A (um_mem s) m'"
proof (rule kept_outside [OF o])
  note h = heap_okD [OF ok]
  fix a assume a: "a \<in> A"
  show "cells a \<inter> {unat (fst x)..<unat (fst x) + 16} = {}"
  proof (cases "x \<in> set G")
    case True
    then show ?thesis using h(9) [OF a] hdr_cells [of x] cells_space [OF True] h(7) [of x] by fastforce
  qed (use x h(7) [of a] a in \<open>auto simp: cells_def\<close>)
qed

lemma take_whole:
  assumes ok: "heap_ok s G A" and F: "(um_base s, 0) # G = X @ (pv, kp) # x # Y" and n: "n = snd x" "0 < n"
  shows "\<exists>c s' G'. malloc_take n pv (fst x) s = Some (fst c + 16, s') \<and> snd c = n \<and> c \<notin> A \<and> heap_ok s' G' (insert c A) \<and>
    space (set G) = space (set G') \<union> cells c \<and> s' = s\<lparr>um_mem := um_mem s', um_freep := pv\<rparr> \<and> kept A (um_mem s) (um_mem s')"
proof -
  note h = heap_okD [OF ok]
  let ?e = "um_base s" and ?m = "um_mem s" and ?m' = "set_hptr pv (start Y (um_base s)) (um_mem s)"
  obtain G' where F': "(?e, 0) # G' = X @ (pv, kp) # Y" using F by (cases X) auto
  have xG: "x \<in> set G" using F by (cases X) auto
  have l: "lseg ?m (X @ (pv, kp) # x # Y) ?e" and o: "sorted_wrt before (X @ (pv, kp) # x # Y)" using h(1,2) F by simp_all
  have x0: "0 < snd x" "bend x \<le> PHYSMEM" "bstart x + 16 \<le> 2 ^ 64" using h(6) h(7) [of x] xG bend_start [of x] by (auto simp: PHYSMEM_def)
  have pv: "unat pv + 16 \<le> bstart x" "unat pv + 16 \<le> 2 ^ 64" using o x0(3) by (auto simp: sorted_wrt_append before_def bstart_def)
  have out: "outside pv ?m ?m'" by (rule outside_set(1) [OF pv(2) outside_refl])
  have hb: "bstart z + 16 \<le> 2 ^ 64" if "z \<in> set (X @ Y)" for z
    using that h(5,6) h(7) [of z] bend_start [of z] F by (cases X) (auto simp: bstart_def PHYSMEM_def)
  have far: "unat pv + 16 \<le> bstart z \<or> bstart z + 16 \<le> unat pv" if "z \<in> set (X @ Y)" for z
    using o that by (auto simp: sorted_wrt_append before_def bstart_def)
  have L: "lseg ?m' (X @ (pv, kp) # Y) ?e"
    using l lseg_outside [OF out far hb, of X] lseg_outside [OF out far hb, of Y] hdr_fields(2) [OF pv(2)] by (simp add: lseg_append)
  have e0: "cells (?e, 0) = {}" by (simp add: cells_def bstart_def bend_def)
  have "space (set ((?e, 0) # G)) = space (set ((?e, 0) # G')) \<union> cells x" unfolding F F' by auto
  then have sp: "space (set G) = space (set G') \<union> cells x" by (simp add: e0)
  have kA: "kept A ?m ?m'" by (rule free_list_frame [OF ok, of "(pv, kp)"]) (use out F in auto)
  have "heap_ok (s\<lparr>um_mem := ?m', um_freep := pv\<rparr>) G' (insert x A) \<and> x \<notin> A"
  proof (rule heap_ok_take [OF ok _ _ _ _ _ sp _ _ kA])
    show "lseg ?m' ((?e, 0) # G') ?e" using L by (simp only: F')
    show o': "sorted_wrt before ((?e, 0) # G')" unfolding F' using o by (simp add: sorted_wrt_append)
    show "pv \<in> fst ` set ((?e, 0) # G')" unfolding F' by simp
    have "set G' \<subseteq> set G" using F F' by (cases X) auto
    then show "\<forall>b \<in> set G'. 0 < snd b" using h(7) by blast
    show "0 < snd x" by (rule x0)
    have "cells x \<inter> space (set ((X @ [(pv, kp)]) @ Y)) = {}" by (rule sorted_cells) (use o bstart_le in auto)
    then have "cells x \<inter> space (set ((?e, 0) # G')) = {}" unfolding F' by simp
    then show "cells x \<inter> space (set G') = {}" by (simp add: e0)
    show "hsize ?m' (fst x) = snd x" using hdr_other(2) [of pv "fst x"] pv x0 l by (simp add: lseg_append bstart_def)
  qed
  moreover have "malloc_take n pv (fst x) s = Some (fst x + 16, s\<lparr>um_mem := ?m', um_freep := pv\<rparr>)"
    using l n(1) by (simp add: malloc_take_def lseg_append)
  ultimately show ?thesis using sp kA n(1) by (intro exI [of _ x] exI [of _ "s\<lparr>um_mem := ?m', um_freep := pv\<rparr>"] exI [of _ G']) simp
qed

lemma take_part:
  assumes ok: "heap_ok s G A" and F: "(um_base s, 0) # G = X @ (pv, kp) # x # Y" and n: "n < snd x" "0 < n"
  shows "\<exists>c s' G'. malloc_take n pv (fst x) s = Some (fst c + 16, s') \<and> snd c = n \<and> c \<notin> A \<and> heap_ok s' G' (insert c A) \<and>
    space (set G) = space (set G') \<union> cells c \<and> s' = s\<lparr>um_mem := um_mem s', um_freep := pv\<rparr> \<and> kept A (um_mem s) (um_mem s')"
proof -
  note h = heap_okD [OF ok]
  define x' where "x' = (fst x, snd x - n)"
  define c where "c = (hadd (fst x) (snd x - n), n)"
  let ?e = "um_base s" and ?m = "um_mem s"
  let ?m1 = "set_hsize (fst x) (snd x - n) ?m"
  let ?m' = "set_hsize (fst c) n ?m1"
  obtain G' where F': "(?e, 0) # G' = X @ (pv, kp) # x' # Y" and xG: "x \<in> set G" and GG: "set G' \<subseteq> insert x' (set G)"
    using F by (cases X) auto
  have l: "lseg ?m (X @ (pv, kp) # x # Y) ?e" and o: "sorted_wrt before (X @ (pv, kp) # x # Y)" using h(1,2) F by simp_all
  have x0: "0 < snd x" "bend x \<le> PHYSMEM" "unat (fst x) + 16 \<le> 2 ^ 64"
    using h(6) h(7) [of x] xG bend_start [of x] by (auto simp: PHYSMEM_def bstart_def)
  have u: "unat (snd x - n) = unat (snd x) - unat n" "unat n < unat (snd x)" "0 < unat n"
    using n unat_sub_le [OF less_imp_le [OF n(1)]] by (simp_all add: word_less_nat_alt)
  have b: "bend x' = bstart c" "bend c = bend x" "bstart x' = bstart x" "bstart x + 16 \<le> bstart c" "bstart c + 16 \<le> bend x" "0 < snd x'"
  proof -
    show e: "bend x' = bstart c"
      using hadd_eq [of "fst x" "snd x - n" "fst c"] x0(2) u by (simp add: c_def x'_def bstart_def bend_def PHYSMEM_def)
    show "bend c = bend x" using e u by (simp add: c_def bend_def bstart_def x'_def)
    show "bstart x' = bstart x" "0 < snd x'" using u by (simp_all add: x'_def bstart_def word_less_nat_alt)
    show "bstart x + 16 \<le> bstart c" unfolding e [symmetric] using u by (simp add: x'_def bend_def bstart_def)
    show "bstart c + 16 \<le> bend x" unfolding e [symmetric] using u by (simp add: x'_def bend_def)
  qed
  have cx: "cells x = cells x' \<union> cells c" "cells x' \<inter> cells c = {}" using b by (auto simp: cells_def)
  have c16: "unat (fst c) + 16 \<le> 2 ^ 64" using b x0(2) by (simp add: bstart_def PHYSMEM_def)
  have out: "outside (fst x) ?m ?m1" "outside (fst c) ?m1 ?m'"
    by (rule outside_set(2) [OF _ outside_refl], use x0 c16 in simp)+
  have hb: "bstart z + 16 \<le> 2 ^ 64" if "z \<in> set (X @ (pv, kp) # Y)" for z
    using that h(5,6) h(7) [of z] bend_start [of z] F by (cases X) (auto simp: bstart_def PHYSMEM_def)
  have far: "unat (fst d) + 16 \<le> bstart z \<or> bstart z + 16 \<le> unat (fst d)" if "z \<in> set (X @ (pv, kp) # Y)" "d = x \<or> d = c" for z d
    using o that b(4,5) by (auto simp: sorted_wrt_append before_def bstart_def)
  have keep: "lseg ?m' Z e' = lseg ?m Z e'" if "set Z \<subseteq> set (X @ (pv, kp) # Y)" for Z e'
  proof -
    have "lseg ?m1 Z e' = lseg ?m Z e'" by (rule lseg_outside [OF out(1)]) (use far hb that in blast)+
    moreover have "lseg ?m' Z e' = lseg ?m1 Z e'" by (rule lseg_outside [OF out(2)]) (use far hb that in blast)+
    ultimately show ?thesis by simp
  qed
  have hx: "hsize ?m' (fst x) = snd x - n" "hptr ?m' (fst x) = start Y ?e"
    using hdr_other(3,4) [of "fst c" "fst x"] b(4) c16 x0 hdr_fields(1) [OF x0(3)] l by (simp_all add: bstart_def lseg_append)
  have L: "lseg ?m' (X @ (pv, kp) # x' # Y) ?e"
    using l keep [of "X @ [(pv, kp)]" "fst x"] keep [of Y ?e] hx by (auto simp: lseg_append x'_def)
  have e0: "cells (?e, 0) = {}" by (simp add: cells_def bstart_def bend_def)
  have "space (set ((?e, 0) # G)) = space (set ((?e, 0) # G')) \<union> cells c" unfolding F F' using cx by auto
  then have sp: "space (set G) = space (set G') \<union> cells c" by (simp add: e0)
  have kA: "kept A ?m ?m'"
  proof (rule kept_trans)
    show "kept A ?m ?m1" by (rule free_list_frame [OF ok, of x]) (use out xG in auto)
    show "kept A ?m1 ?m'"
      by (rule kept_outside [OF out(2)]) (use h(9) cells_space [OF xG] cx hdr_cells [of c] n(2) in \<open>fastforce simp: c_def\<close>)
  qed
  have "heap_ok (s\<lparr>um_mem := ?m', um_freep := pv\<rparr>) G' (insert c A) \<and> c \<notin> A"
  proof (rule heap_ok_take [OF ok _ _ _ _ _ sp _ _ kA])
    show "lseg ?m' ((?e, 0) # G') ?e" using L by (simp only: F')
    show "sorted_wrt before ((?e, 0) # G')" unfolding F' using o b by (auto simp: sorted_wrt_append before_def)
    show "pv \<in> fst ` set ((?e, 0) # G')" unfolding F' by simp
    show "\<forall>b \<in> set G'. 0 < snd b" using h(7) GG b(6) by blast
    show "0 < snd c" using n by (simp add: c_def)
    have "cells x \<inter> space (set ((X @ [(pv, kp)]) @ Y)) = {}" by (rule sorted_cells) (use o bstart_le in auto)
    then have "cells c \<inter> space (set ((?e, 0) # G')) = {}" unfolding F' using cx by auto
    then show "cells c \<inter> space (set G') = {}" by (simp add: e0)
    show "hsize ?m' (fst c) = snd c" by (simp add: c_def)
  qed
  moreover have "backed (fst c) s"
    using b(5) h(7) [of x] xG page_end_ge [of "um_brk s"] by (simp add: backed_def bstart_def)
  then have "malloc_take n pv (fst x) s = Some (fst c + 16, s\<lparr>um_mem := ?m', um_freep := pv\<rparr>)"
    using l less_imp_neq [OF n(1)] by (auto simp: malloc_take_def lseg_append c_def Let_def)
  ultimately show ?thesis using sp kA
    by (intro exI [of _ c] exI [of _ "s\<lparr>um_mem := ?m', um_freep := pv\<rparr>"] exI [of _ G']) (simp add: c_def)
qed

lemma malloc_take_spec:
  assumes ok: "heap_ok s G A" and F: "(um_base s, 0) # G = X @ (pv, kp) # x # Y" and n: "n \<le> snd x" "0 < n"
  shows "\<exists>c s' G'. malloc_take n pv (fst x) s = Some (fst c + 16, s') \<and> snd c = n \<and> c \<notin> A \<and> heap_ok s' G' (insert c A) \<and>
    space (set G) = space (set G') \<union> cells c \<and> s' = s\<lparr>um_mem := um_mem s', um_freep := pv\<rparr> \<and> kept A (um_mem s) (um_mem s')"
  using take_whole [OF ok F _ n(2)] take_part [OF ok F _ n(2)] n(1) by (cases "n = snd x") auto

text \<open>The search ends at a block that is large enough, \<open>x\<close>, with its predecessor \<open>u\<close> at hand.\<close>

definition hit :: "uproc \<Rightarrow> block list \<Rightarrow> u32 \<Rightarrow> (u64 \<times> uproc) option \<Rightarrow> bool" where
  "hit s F n r \<longleftrightarrow> (\<exists>X u ku x Y. F = X @ (u, ku) # x # Y \<and> n \<le> snd x \<and> r = malloc_take n u (fst x) s)"

definition malloc_more :: "u32 \<Rightarrow> uproc \<Rightarrow> (u64 \<times> uproc) option" where
  "malloc_more n s = Option.bind (morecore n s) (\<lambda>(p, s). if p = 0 then Some (0, s) else malloc_loop n p (hptr (um_mem s) p) s)"

lemma hitI: "F = X @ (u, ku) # x # Y \<Longrightarrow> n \<le> snd x \<Longrightarrow> hit s F n (malloc_take n u (fst x) s)"
  unfolding hit_def by blast

lemma malloc_loop_step:
  "n \<le> hsize (um_mem s) p \<Longrightarrow> malloc_loop n pv p s = malloc_take n pv p s"
  "hsize (um_mem s) p < n \<Longrightarrow> p = um_freep s \<Longrightarrow> malloc_loop n pv p s = malloc_more n s"
  "hsize (um_mem s) p < n \<Longrightarrow> p \<noteq> um_freep s \<Longrightarrow> malloc_loop n pv p s = malloc_loop n p (hptr (um_mem s) p) s"
  by (subst malloc_loop.simps, simp add: malloc_more_def not_le [symmetric])+

lemma malloc_scan:
  assumes "lseg (um_mem s) F e" "F = X @ (pv, kp) # Z @ T" "um_freep s \<notin> fst ` set Z"
  shows "hit s F n (malloc_loop n pv (start (Z @ T) e) s) \<or>
    (\<forall>z \<in> set Z. snd z < n) \<and> (\<exists>k. \<exists>X. F = X @ (fst (last ((pv, kp) # Z)), k) # T) \<and>
    malloc_loop n pv (start (Z @ T) e) s = malloc_loop n (fst (last ((pv, kp) # Z))) (start T e) s"
  using assms
proof (induction Z arbitrary: X pv kp)
  case (Cons z Z)
  have z: "hsize (um_mem s) (fst z) = snd z" "hptr (um_mem s) (fst z) = start (Z @ T) e"
    using Cons.prems(1,2) by (simp_all add: lseg_append)
  show ?case
  proof (cases "n \<le> snd z")
    case True
    then have "hit s F n (malloc_loop n pv (fst z) s)"
      using malloc_loop_step(1) [of n s "fst z"] z hitI [of F X pv kp z "Z @ T" n s] Cons.prems(2) by simp
    then show ?thesis by simp
  next
    case False
    then have "malloc_loop n pv (fst z) s = malloc_loop n (fst z) (start (Z @ T) e) s"
      using z Cons.prems(3) malloc_loop_step(3) [of s "fst z" n] by auto
    moreover have "F = (X @ [(pv, kp)]) @ (fst z, snd z) # Z @ T" "um_freep s \<notin> fst ` set Z" using Cons.prems by auto
    ultimately show ?thesis using Cons.IH [OF Cons.prems(1), of "X @ [(pv, kp)]" "fst z" "snd z"] False
      by (auto simp: not_le)
  qed
qed auto

lemma fst_sorted:
  assumes "sorted_wrt before (X @ b # Y)"
  shows "fst b \<notin> fst ` set X" "fst b \<notin> fst ` set Y"
  using assms by (auto simp: sorted_wrt_append before_def bstart_def)

lemma malloc_search:
  assumes ok: "heap_ok s G A" and n: "0 < n"
  defines "L \<equiv> malloc_loop n (um_freep s) (hptr (um_mem s) (um_freep s)) s"
  shows "hit s ((um_base s, 0) # G) n L \<or> (\<forall>x \<in> set G. snd x < n) \<and> L = malloc_more n s"
    (is "?hit \<or> _")
proof -
  note h = heap_okD [OF ok]
  let ?e = "um_base s" and ?m = "um_mem s" and ?F = "(um_base s, 0) # G"
  obtain X kf Y where F: "?F = X @ (um_freep s, kf) # Y" using h(3) by (metis (no_types, lifting) imageE in_set_conv_decomp surj_pair fst_conv)
  have e0: "hsize ?m ?e = 0" "hptr ?m ?e = start G ?e" using h(1) by simp_all
  have nf: "um_freep s \<notin> fst ` set X" "um_freep s \<notin> fst ` set Y" using fst_sorted [OF h(2) [unfolded F]] by simp_all
  have hp: "hptr ?m (um_freep s) = start Y ?e" and hs: "hsize ?m (um_freep s) = kf" using h(1) unfolding F by (simp_all add: lseg_append)
  from malloc_scan [OF h(1), of X "um_freep s" kf Y "[]" n] F nf(2)
  have 1: "?hit \<or> (\<forall>z \<in> set Y. snd z < n) \<and> (\<exists>pv. L = malloc_loop n pv ?e s)"
    unfolding L_def hp by auto
  show ?thesis
  proof (cases X)
    case Nil
    then have "malloc_loop n pv ?e s = malloc_more n s" for pv
      using F e0 n by (intro malloc_loop_step(2)) simp_all
    then show ?thesis using 1 F Nil by auto
  next
    case (Cons x Z)
    then have x: "x = (?e, 0)" and G: "G = Z @ (um_freep s, kf) # Y" using F by simp_all
    have 2: "malloc_loop n pv ?e s = malloc_loop n ?e (start (Z @ (um_freep s, kf) # Y) ?e) s" for pv
      using nf(1) Cons x e0 n G malloc_loop_step(3) [of s ?e n pv] by auto
    from malloc_scan [OF h(1), of "[]" ?e 0 Z "(um_freep s, kf) # Y" n] G nf(1) Cons
    have 3: "hit s ?F n (malloc_loop n ?e (start (Z @ (um_freep s, kf) # Y) ?e) s) \<or> (\<forall>z \<in> set Z. snd z < n) \<and>
      (\<exists>X u ku. ?F = X @ (u, ku) # (um_freep s, kf) # Y \<and>
        malloc_loop n ?e (start (Z @ (um_freep s, kf) # Y) ?e) s = malloc_loop n u (um_freep s) s)"
      by (simp only: append_Nil start_simps fst_conv) fastforce
    have "hit s ?F n (malloc_loop n u (um_freep s) s)" if "n \<le> kf" "?F = V @ (u, ku) # (um_freep s, kf) # Y" for V u ku
      using malloc_loop_step(1) [of n s "um_freep s" u] that hs hitI [of ?F V u ku "(um_freep s, kf)" Y n s] by simp
    moreover have "malloc_loop n u (um_freep s) s = malloc_more n s" if "kf < n" for u
      using malloc_loop_step(2) [of s "um_freep s" n u] that hs by simp
    ultimately show ?thesis using 1 2 3 G by (cases "n \<le> kf") (auto simp: not_le)
  qed
qed


section \<open>More memory\<close>

lemma sbrk_grow:
  assumes "0 < k" "k < 2 ^ 31" "unat (um_brk s) \<le> PHYSMEM"
  shows "(\<exists>s'. sbrk (of_nat k) s = (-1, s') \<and> s' = s\<lparr>um_answers := um_answers s'\<rparr>) \<or>
    (\<exists>r. sbrk (of_nat k) s = (um_brk s, s\<lparr>um_mem := zero_fill (page_end (um_brk s)) (page_end (um_brk s + of_nat k)) (um_mem s),
        um_brk := um_brk s + of_nat k, um_answers := r\<rparr>) \<and>
      unat (um_brk s + of_nat k) = unat (um_brk s) + k \<and> unat (um_brk s) + k \<le> PHYSMEM \<and> um_brk s \<noteq> -1)"
proof -
  have u: "unat (of_nat k :: u32) = k" using assms(2) by (simp add: unat_of_nat)
  have p: "0 < sint (of_nat k :: u32)" using sint_u32_pos [of "of_nat k"] assms(1,2) u int_unat [of "of_nat k :: u32"] by simp
  have "unat (scast (of_nat k :: u32) :: u64) = k" using unat_scast_pos [of "of_nat k"] assms(2) u by simp
  then have c: "scast (of_nat k :: u32) = (of_nat k :: u64)" by (metis word_of_unat)
  have "um_brk s \<noteq> -1" using assms(3) by (auto simp: PHYSMEM_def unsigned_minus_1_eq_mask mask_eq_exp_minus_1)
  moreover have eq: "sbrk (of_nat k) s = (case um_answers s of [] \<Rightarrow> (-1, s) | ok # rest \<Rightarrow>
      if ok \<and> unat (um_brk s) + k \<le> PHYSMEM then (um_brk s, s\<lparr>um_mem := zero_fill (page_end (um_brk s)) (page_end (um_brk s + of_nat k)) (um_mem s),
          um_brk := um_brk s + of_nat k, um_answers := rest\<rparr>)
      else (-1, s\<lparr>um_answers := rest\<rparr>))"
    unfolding sbrk_def Let_def c u using p by simp
  ultimately show ?thesis
  proof (cases "um_answers s")
    case (Cons ok rest)
    then show ?thesis using eq \<open>um_brk s \<noteq> -1\<close> of_nat_u64_less [of "um_brk s" k]
      by (cases "ok \<and> unat (um_brk s) + k \<le> PHYSMEM") (auto simp: PHYSMEM_def)
  qed simp
qed

lemma heap_ok_frame:
  assumes ok: "heap_ok s G A" and m: "\<And>x. unat x < unat (um_brk s) \<Longrightarrow> m' x = um_mem s x"
  shows "heap_ok (s\<lparr>um_mem := m'\<rparr>) G A" "kept A (um_mem s) m'"
proof -
  note h = heap_okD [OF ok]
  show k: "kept A (um_mem s) m'" using h(7) m by (fastforce simp: kept_def cells_def)
  have in_brk: "unat (fst b) + 16 \<le> unat (um_brk s)" if "b \<in> set ((um_base s, 0) # G)" for b
    using that h(5) h(7) [of b] bend_start [of b] by (auto simp: bstart_def)
  have "lseg m' ((um_base s, 0) # G) (um_base s) = lseg (um_mem s) ((um_base s, 0) # G) (um_base s)"
  proof (rule lseg_cong)
    fix b assume "b \<in> set ((um_base s, 0) # G)"
    then have "unat (fst b) + 16 \<le> unat (um_brk s)" "unat (fst b) + 16 \<le> 2 ^ 64"
      using in_brk [of b] h(6) by (auto simp: PHYSMEM_def)
    then show "hptr m' (fst b) = hptr (um_mem s) (fst b) \<and> hsize m' (fst b) = hsize (um_mem s) (fst b)"
      using m by (auto intro!: hptr_cong hsize_cong)
  qed
  moreover have "hsize m' (fst a) = snd a" if "a \<in> A" for a
    using kept_hdr(1) [OF k that] h(7) [of a] h(8) [OF that] h(6) that by simp
  ultimately show "heap_ok (s\<lparr>um_mem := m'\<rparr>) G A" using ok by (simp add: heap_ok_def)
qed

lemma heap_ok_grow:
  fixes r :: "bool list"
  assumes ok: "heap_ok s G A" and n: "0 < n" "unat (um_brk s) + 16 * unat n \<le> PHYSMEM"
    and b: "unat b = unat (um_brk s) + 16 * unat n"
  defines "s' \<equiv> s\<lparr>um_brk := b, um_answers := r, um_mem := set_hsize (um_brk s) n (um_mem s)\<rparr>"
  shows "heap_ok s' G (insert (um_brk s, n) A)" "kept A (um_mem s) (um_mem s')" "(um_brk s, n) \<notin> A"
proof -
  note h = heap_okD [OF ok]
  let ?c = "(um_brk s, n)" and ?m' = "um_mem s'"
  have c: "bstart ?c = unat (um_brk s)" "bend ?c = unat b" using b by (simp_all add: bstart_def bend_def)
  have c16: "unat (um_brk s) + 16 \<le> 2 ^ 64" using h(6) by (simp add: PHYSMEM_def)
  have out: "outside (um_brk s) (um_mem s) ?m'" unfolding s'_def using outside_set(2) [OF c16 outside_refl] by simp
  show k: "kept A (um_mem s) ?m'"
    by (rule kept_outside [OF out]) (use h(7) in \<open>fastforce simp: cells_def\<close>)
  have ca: "cells ?c \<inter> cells a = {}" "cells ?c \<inter> space (set G) = {}" if "a \<in> A" for a
    using h(7) c(1) that by (fastforce simp: cells_def space_def)+
  show "?c \<notin> A" using ca(1) [of ?c] bend_start [of ?c] n(1) by (auto simp: cells_def)
  have l: "lseg ?m' ((um_base s, 0) # G) (um_base s)"
  proof -
    have "bstart z + 16 \<le> unat (um_brk s) \<and> bstart z + 16 \<le> 2 ^ 64" if "z \<in> set ((um_base s, 0) # G)" for z
      using that h(5,6) h(7) [of z] bend_start [of z] by (auto simp: bstart_def PHYSMEM_def)
    then show ?thesis using lseg_outside [OF out, of "(um_base s, 0) # G" "um_base s"] h(1) by blast
  qed
  show "heap_ok s' G (insert ?c A)"
    unfolding heap_ok_def
  proof (intro conjI)
    have "cells ?c \<subseteq> {unat (um_base s) + 16..<unat b}" using h(5) c by (auto simp: cells_def)
    moreover have "space (set G \<union> A) \<subseteq> {unat (um_base s) + 16..<unat (um_brk s)}" using ok by (simp add: heap_ok_def)
    ultimately show "space (set G \<union> insert ?c A) \<subseteq> {unat (um_base s') + 16..<unat (um_brk s')}"
      using b by (auto simp: s'_def)
    show "\<forall>a \<in> insert ?c A. hsize ?m' (fst a) = snd a \<and> cells a \<inter> space (set G) = {}"
    proof (intro ballI)
      fix a assume a: "a \<in> insert ?c A"
      show "hsize ?m' (fst a) = snd a \<and> cells a \<inter> space (set G) = {}"
      proof (cases "a = ?c")
        case True
        have "cells ?c \<inter> space (set G) = {}" using h(7) c(1) by (fastforce simp: cells_def space_def)
        then show ?thesis using True by (simp add: s'_def)
      next
        case False
        then have aA: "a \<in> A" using a by simp
        then show ?thesis using kept_hdr(1) [OF k aA] h(6) h(7) [of a] h(8) [of a] h(9) by simp
      qed
    qed
    show "\<forall>a \<in> insert ?c A. \<forall>b \<in> insert ?c A. a \<noteq> b \<longrightarrow> cells a \<inter> cells b = {}" using h(10) ca(1) by blast
    show "\<forall>b \<in> set G \<union> insert ?c A. 0 < snd b" using h(7) n(1) by auto
    show "lseg (um_mem s') ((um_base s', 0) # G) (um_base s')" using l by (simp add: s'_def)
  qed (use h(2-6) n(2) b in \<open>auto simp: s'_def\<close>)
qed

lemma freep_pos: "heap_ok s G A \<Longrightarrow> um_freep s \<noteq> 0"
proof
  assume ok: "heap_ok s G A" and z: "um_freep s = 0"
  note h = heap_okD [OF ok]
  from h(3) obtain x where x: "um_freep s = fst x" "x \<in> set ((um_base s, 0) # G)" by (rule imageE)
  then show False using z h(4) h(7) [of x] by (cases "x = (um_base s, 0)") (auto simp: bstart_def)
qed

lemma morecore_spec:
  assumes ok: "heap_ok s G A" and n: "16 * unat n < 2 ^ 31"
  shows "(\<exists>s'. morecore n s = Some (0, s') \<and> s' = s\<lparr>um_answers := um_answers s'\<rparr>) \<or>
    (\<exists>s' G'. morecore n s = Some (um_freep s', s') \<and> heap_ok s' G' A \<and> (\<exists>x \<in> set G'. n \<le> snd x) \<and>
      space (set G') = space (set G) \<union> {unat (um_brk s)..<unat (um_brk s')} \<and> um_base s' = um_base s \<and>
      kept A (um_mem s) (um_mem s'))"
proof -
  define nu where "nu = (if n < 4096 then 4096 else n)"
  let ?k = "16 * unat nu"
  have nu: "n \<le> nu" "0 < nu" "?k < 2 ^ 31" using n by (auto simp: nu_def word_less_nat_alt word_le_nat_alt)
  have "unat nu < 2 ^ 32" using unat_bound [of nu] by simp
  then have "unat (ucast nu * 16 :: u64) = ?k" by (simp add: unat_word_ariths unsigned_ucast_eq take_bit_nat_eq_self)
  then have arg: "ucast (ucast nu * 16 :: u64) = (of_nat ?k :: u32)" by (metis of_nat_unat)
  note h = heap_okD [OF ok]
  from sbrk_grow [of ?k s] nu h(6) consider
      (refused) s' where "sbrk (of_nat ?k) s = (-1, s')" "s' = s\<lparr>um_answers := um_answers s'\<rparr>"
    | (granted) r where "sbrk (of_nat ?k) s = (um_brk s, s\<lparr>um_mem := zero_fill (page_end (um_brk s)) (page_end (um_brk s + of_nat ?k)) (um_mem s),
          um_brk := um_brk s + of_nat ?k, um_answers := r\<rparr>)"
        "unat (um_brk s + of_nat ?k) = unat (um_brk s) + ?k" "unat (um_brk s) + ?k \<le> PHYSMEM" "um_brk s \<noteq> -1"
    by (auto simp: word_less_nat_alt)
  then show ?thesis
  proof cases
    case refused
    then show ?thesis by (auto simp: morecore_def arg nu_def [symmetric])
  next
    case granted
    let ?b = "(um_brk s, nu)"
    define m0 where "m0 = zero_fill (page_end (um_brk s)) (page_end (um_brk s + of_nat ?k)) (um_mem s)"
    let ?t = "s\<lparr>um_mem := m0\<rparr>"
    let ?s = "?t\<lparr>um_brk := um_brk s + of_nat ?k, um_answers := r, um_mem := set_hsize (um_brk s) nu m0\<rparr>"
    have "m0 x = um_mem s x" if "unat x < unat (um_brk s)" for x
      using that page_end_ge [of "um_brk s"] by (simp add: m0_def zero_fill_def)
    note fr = heap_ok_frame [OF ok this]
    have t: "unat (um_brk ?t) + ?k \<le> PHYSMEM" "unat (um_brk s + of_nat ?k) = unat (um_brk ?t) + ?k"
      using granted(2,3) by simp_all
    have g: "heap_ok ?s G (insert ?b A)" "kept A (um_mem s) (um_mem ?s)" "?b \<notin> A"
      using heap_ok_grow(1) [OF fr(1) nu(2) t, of r] heap_ok_grow(2) [OF fr(1) nu(2) t, of r]
        heap_ok_grow(3) [OF fr(1) nu(2) t] kept_trans [OF fr(2)] by simp_all
    from free_spec [OF g(1), of ?b] obtain s' G' where f: "free (um_brk s + 16) ?s = Some s'"
      "heap_ok s' G' (insert ?b A - {?b})" "space (set G') = space (set G) \<union> cells ?b" "\<exists>y \<in> set G'. cells ?b \<subseteq> cells y"
      "s' = ?s\<lparr>um_mem := um_mem s', um_freep := um_freep s'\<rparr>" "kept (insert ?b A - {?b}) (um_mem ?s) (um_mem s')" by auto
    have A: "insert ?b A - {?b} = A" using g(3) by simp
    have ub: "unat (um_brk s') = unat (um_brk s) + ?k" "um_base s' = um_base s" using granted(2) by (subst f(5), simp)+
    have "backed (um_brk s) (s\<lparr>um_mem := m0, um_brk := um_brk s + of_nat ?k, um_answers := r\<rparr>)"
      using page_end_ge [of "um_brk s + of_nat ?k"] granted(2) nu(2) by (simp add: backed_def word_less_nat_alt)
    then have "morecore n s = Some (um_freep s', s')"
      using granted(1) [folded m0_def] granted(4) f(1) by (simp add: morecore_def arg nu_def [symmetric] Let_def)
    moreover have "\<exists>x \<in> set G'. n \<le> snd x"
    proof -
      obtain y where y: "y \<in> set G'" "cells ?b \<subseteq> cells y" using f(4) by blast
      then have "bstart y \<le> bstart ?b \<and> bend ?b \<le> bend y" using bend_start [of ?b] nu(2) by (auto simp: cells_def)
      then have "unat nu \<le> unat (snd y)" by (simp add: bstart_def bend_def)
      then show ?thesis using y(1) nu(1) by (intro bexI [of _ y]) (simp_all add: word_le_nat_alt)
    qed
    moreover have "cells ?b = {unat (um_brk s)..<unat (um_brk s')}" using ub by (simp add: cells_def bstart_def bend_def)
    moreover have "kept A (um_mem s) (um_mem s')" using kept_trans [OF g(2)] f(6) A by simp
    ultimately show ?thesis using f(2,3) A ub by auto
  qed
qed


section \<open>\<open>malloc\<close> keeps the heap in order\<close>

text \<open>Before the first call \<open>freep\<close> is a null pointer and there are no blocks.\<close>

definition heap_inv :: "uproc \<Rightarrow> block list \<Rightarrow> block set \<Rightarrow> bool" where
  "heap_inv s G A \<longleftrightarrow>
     (if um_freep s = 0
      then G = [] \<and> A = {} \<and> 0 < um_base s \<and> unat (um_base s) + 16 \<le> unat (um_brk s) \<and> unat (um_brk s) \<le> PHYSMEM
      else heap_ok s G A)"

lemma heap_ok_inv: "heap_ok s G A \<Longrightarrow> heap_inv s G A"
  using freep_pos [of s G A] by (simp add: heap_inv_def)

lemma unat_units: "unat (units nbytes) = (unat nbytes + 15) div 16 + 1"
proof -
  have b: "unat nbytes < 2 ^ 32" using unat_bound [of nbytes] by simp
  then have "unat (ucast nbytes + of_nat 15 :: u64) = unat (ucast nbytes :: u64) + 15"
    by (intro of_nat_u64_less) (simp add: unsigned_ucast_eq take_bit_nat_eq_self)
  moreover have "ucast nbytes + 16 - 1 = (ucast nbytes + of_nat 15 :: u64)" by simp
  moreover have "unat (ucast nbytes :: u64) = unat nbytes" using b by (simp add: unsigned_ucast_eq take_bit_nat_eq_self)
  ultimately have "unat (ucast nbytes + 16 - 1 :: u64) = unat nbytes + 15" by metis
  then have "unat ((ucast nbytes + 16 - 1) div 16 + 1 :: u64) = (unat nbytes + 15) div 16 + 1"
    using b of_nat_u64_less [of "(ucast nbytes + 16 - 1) div 16" 1] by (simp add: unat_div)
  moreover have "(unat nbytes + 15) div 16 + 1 < 2 ^ 32" using b by simp
  ultimately show ?thesis unfolding units_def by (simp add: unsigned_ucast_eq take_bit_nat_eq_self)
qed

lemma malloc_loop_spec:
  assumes ok: "heap_ok s G A" and n: "0 < n" "16 * unat n < 2 ^ 31"
  shows "\<exists>r s' G'. malloc_loop n (um_freep s) (hptr (um_mem s) (um_freep s)) s = Some (r, s') \<and> kept A (um_mem s) (um_mem s') \<and>
    (r = 0 \<and> heap_ok s' G A \<and> (\<forall>x \<in> set G. snd x < n) \<or>
     (\<exists>c. r = fst c + 16 \<and> snd c = n \<and> c \<notin> A \<and> heap_ok s' G' (insert c A)))"
proof -
  have take: "\<exists>r s' G' c. R = Some (r, s') \<and> kept A (um_mem t) (um_mem s') \<and> r = fst c + 16 \<and> snd c = n \<and> c \<notin> A \<and> heap_ok s' G' (insert c A)"
    if hk: "heap_ok t H A" and ht: "hit t ((um_base t, 0) # H) n R" for t H R
  proof -
    obtain X u ku x Y where F: "(um_base t, 0) # H = X @ (u, ku) # x # Y" "n \<le> snd x" and R: "R = malloc_take n u (fst x) t"
      using ht unfolding hit_def by blast
    from malloc_take_spec [OF hk F n(1)] R show ?thesis by auto
  qed
  from malloc_search [OF ok n(1)] show ?thesis
  proof
    assume "hit s ((um_base s, 0) # G) n (malloc_loop n (um_freep s) (hptr (um_mem s) (um_freep s)) s)"
    from take [OF ok this] show ?thesis by blast
  next
    assume more: "(\<forall>x \<in> set G. snd x < n) \<and> malloc_loop n (um_freep s) (hptr (um_mem s) (um_freep s)) s = malloc_more n s"
    from morecore_spec [OF ok n(2)] show ?thesis
    proof (elim disjE exE conjE)
      fix s' assume m: "morecore n s = Some (0, s')" "s' = s\<lparr>um_answers := um_answers s'\<rparr>"
      have "heap_ok s' G A" by (subst m(2)) (use ok in \<open>simp add: heap_ok_def\<close>)
      moreover have "um_mem s' = um_mem s" by (subst m(2)) simp
      ultimately show ?thesis using more m(1) by (simp add: malloc_more_def kept_def)
    next
      fix s' G' assume m: "morecore n s = Some (um_freep s', s')" "heap_ok s' G' A" "\<exists>x \<in> set G'. n \<le> snd x"
        "kept A (um_mem s) (um_mem s')"
      have e: "malloc_more n s = malloc_loop n (um_freep s') (hptr (um_mem s') (um_freep s')) s'"
        using m(1) freep_pos [OF m(2)] by (simp add: malloc_more_def)
      have "hit s' ((um_base s', 0) # G') n (malloc_more n s)"
        unfolding e using malloc_search [OF m(2) n(1)] m(3) by (auto simp: not_le [symmetric])
      from take [OF m(2) this] obtain r t H c where t: "malloc_more n s = Some (r, t)" "kept A (um_mem s') (um_mem t)"
        "r = fst c + 16" "snd c = n" "c \<notin> A" "heap_ok t H (insert c A)" by blast
      then show ?thesis using more kept_trans [OF m(4) t(2)] by auto
    qed
  qed
qed

lemma malloc_spec:
  assumes inv: "heap_inv s G A" and n: "unat nbytes + 31 < 2 ^ 31"
  shows "\<exists>r s' G'. malloc nbytes s = Some (r, s') \<and> kept A (um_mem s) (um_mem s') \<and>
    (r = 0 \<and> heap_inv s' G A \<and> (\<forall>x \<in> set G. snd x < units nbytes) \<or>
     (\<exists>c. r = fst c + 16 \<and> snd c = units nbytes \<and> c \<notin> A \<and> heap_inv s' G' (insert c A)))"
proof -
  let ?t = "if um_freep s = 0 then
      s\<lparr>um_mem := set_hsize (um_base s) 0 (set_hptr (um_base s) (um_base s) (um_mem s)), um_freep := um_base s\<rparr> else s"
  have u: "0 < units nbytes" "16 * unat (units nbytes) < 2 ^ 31" using n by (simp_all add: unat_units word_less_nat_alt)
  have t: "heap_ok ?t G A"
  proof (cases "um_freep s = 0")
    case True
    then have i: "G = []" "A = {}" "0 < um_base s" "unat (um_base s) + 16 \<le> unat (um_brk s)" "unat (um_brk s) \<le> PHYSMEM"
      using inv by (simp_all add: heap_inv_def)
    then have "unat (um_base s) + 16 \<le> 2 ^ 64" by (simp add: PHYSMEM_def)
    then show ?thesis using True i hdr_fields(1) [of "um_base s"] by (simp add: heap_ok_def)
  qed (use inv in \<open>simp add: heap_inv_def\<close>)
  have k: "kept A (um_mem s) (um_mem ?t)" using inv by (simp add: kept_def heap_inv_def)
  from malloc_loop_spec [OF t u] kept_trans [OF k] heap_ok_inv show ?thesis
    unfolding malloc_def Let_def by blast
qed

section \<open>Separate arrays\<close>

text \<open>
  What a program relies on: the live pointers stand for separate arrays. \<open>L\<close> maps each pointer that
  was returned by \<open>malloc\<close> and not freed to the bytes of its array.
\<close>

definition block_of :: "u64 \<Rightarrow> byte list \<Rightarrow> block" where
  "block_of r bs = (r - 16, units (of_nat (length bs)))"

definition blocks_of :: "(u64 \<Rightarrow> byte list option) \<Rightarrow> block set" where
  "blocks_of L = {b. \<exists>r bs. L r = Some bs \<and> b = block_of r bs}"

definition heap_rep :: "uproc \<Rightarrow> (u64 \<Rightarrow> byte list option) \<Rightarrow> bool" where
  "heap_rep s L \<longleftrightarrow> (\<exists>G. heap_inv s G (blocks_of L)) \<and>
     (\<forall>r bs. L r = Some bs \<longrightarrow> length bs + 31 < 2 ^ 31 \<and> load_bytes (um_mem s) r (length bs) = bs)"

lemma heap_inv_block:
  assumes "heap_inv s G A" "b \<in> A"
  shows "0 < snd b" "bend b \<le> unat (um_brk s)" "bend b \<le> PHYSMEM" "heap_ok s G A"
proof -
  show ok: "heap_ok s G A" using assms by (auto simp: heap_inv_def split: if_splits)
  show "0 < snd b" "bend b \<le> unat (um_brk s)" using heap_okD(7) [OF ok, of b] assms(2) by auto
  then show "bend b \<le> PHYSMEM" using heap_okD(6) [OF ok] by simp
qed

lemma payload:
  assumes "bend (block_of r bs) \<le> PHYSMEM" "length bs + 31 < 2 ^ 31" "i < length bs"
  shows "unat (r + of_nat i) = bstart (block_of r bs) + 16 + i" "unat (r + of_nat i) \<in> cells (block_of r bs)"
proof -
  have "unat (of_nat (length bs) :: u32) = length bs" using assms(2) by (simp add: unat_of_nat)
  then have u: "length bs + 16 \<le> 16 * unat (units (of_nat (length bs)))" by (simp add: unat_units)
  let ?b = "block_of r bs"
  have e: "bstart ?b + 16 + length bs \<le> bend ?b" using u by (simp add: block_of_def bstart_def bend_def)
  have "unat (r - 16 + of_nat (16 + i)) = unat (r - 16) + (16 + i)"
    using e assms(1,3) by (intro of_nat_u64_less) (simp add: block_of_def bstart_def PHYSMEM_def)
  then show a: "unat (r + of_nat i) = bstart ?b + 16 + i" by (simp add: block_of_def bstart_def)
  show "unat (r + of_nat i) \<in> cells ?b" unfolding a cells_def using e assms(3) by simp
qed

lemma load_kept:
  assumes "kept A m m'" "block_of r bs \<in> A" "bend (block_of r bs) \<le> PHYSMEM" "length bs + 31 < 2 ^ 31"
  shows "load_bytes m' r (length bs) = load_bytes m r (length bs)"
  using assms payload(2) [OF assms(3,4)] by (intro load_bytes_cong) (auto simp: kept_def)


lemma hdr_write:
  assumes "unat x < unat a \<or> unat a + 16 \<le> unat x" "unat a + 16 \<le> 2 ^ 64"
  shows "hptr (m(x := v)) a = hptr m a" "hsize (m(x := v)) a = hsize m a"
  using assms by (auto intro!: hptr_cong hsize_cong)

lemma heap_ok_write:
  assumes ok: "heap_ok s G A" and b: "b \<in> A" and x: "bstart b + 16 \<le> unat x" "unat x < bend b"
  shows "heap_ok (s\<lparr>um_mem := (um_mem s)(x := v)\<rparr>) G A"
proof -
  note h = heap_okD [OF ok]
  have xb: "unat x \<in> cells b" using x by (simp add: cells_def)
  have far: "unat x < bstart a \<or> bstart a + 16 \<le> unat x" "bstart a + 16 \<le> 2 ^ 64" if a: "a \<in> set ((um_base s, 0) # G) \<union> A" for a
  proof -
    have "unat x \<notin> {unat (fst a)..<unat (fst a) + 16} \<and> bstart a + 16 \<le> 2 ^ 64"
    proof (cases "a \<in> set G \<union> A")
      case True
      then have a0: "0 < snd a" "bend a \<le> unat (um_brk s)" using h(7) by auto
      have "a = b \<or> unat x \<notin> cells a" using True h(9) [OF b] h(10) [OF b] xb cells_space [of a "set G"] by blast
      then show ?thesis using hdr_cells [OF a0(1)] bend_start [OF a0(1)] a0(2) h(6) x(1) by (auto simp: bstart_def PHYSMEM_def)
    next
      case False
      then have "a = (um_base s, 0)" using a by auto
      then show ?thesis using h(5,6) h(7) [of b] b x(1) by (auto simp: bstart_def PHYSMEM_def)
    qed
    then show "unat x < bstart a \<or> bstart a + 16 \<le> unat x" "bstart a + 16 \<le> 2 ^ 64" by (auto simp: bstart_def)
  qed
  have "lseg ((um_mem s)(x := v)) ((um_base s, 0) # G) (um_base s) = lseg (um_mem s) ((um_base s, 0) # G) (um_base s)"
    by (intro lseg_cong conjI hdr_write) (use far in \<open>auto simp: bstart_def\<close>)
  moreover have "hsize ((um_mem s)(x := v)) (fst a) = hsize (um_mem s) (fst a)" if "a \<in> A" for a
    using far [of a] that hdr_write(2) [of x "fst a"] by (simp add: bstart_def)
  ultimately show ?thesis using ok by (simp add: heap_ok_def)
qed

lemma blocks_of_image: "blocks_of L = (\<lambda>r. block_of r (the (L r))) ` dom L"
  by (auto simp: blocks_of_def dom_def image_iff) (metis option.sel)+

lemma blocks_of_add: "L r = None \<Longrightarrow> blocks_of (L(r \<mapsto> bs)) = insert (block_of r bs) (blocks_of L)"
proof -
  assume r: "L r = None"
  have "(\<lambda>p. block_of p (the ((L(r \<mapsto> bs)) p))) ` dom L = blocks_of L"
    unfolding blocks_of_image by (rule image_cong) (use r in auto)
  then show ?thesis unfolding blocks_of_image by simp
qed

lemma blocks_of_del: "L r = Some bs \<Longrightarrow> blocks_of (L(r := None)) = blocks_of L - {block_of r bs}"
  unfolding blocks_of_image by (auto simp: image_iff dom_def block_of_def)

lemma blocks_of_upd: "L r = Some bs \<Longrightarrow> length bs' = length bs \<Longrightarrow> blocks_of (L(r \<mapsto> bs')) = blocks_of L"
  unfolding blocks_of_image by (rule image_cong) (auto simp: block_of_def)

lemma blocks_ofI: "L r = Some bs \<Longrightarrow> block_of r bs \<in> blocks_of L"
  by (auto simp: blocks_of_def)

lemma rep_malloc:
  assumes rep: "heap_rep s L" and n: "unat nbytes + 31 < 2 ^ 31"
  shows "\<exists>r s'. malloc nbytes s = Some (r, s') \<and>
    (r = 0 \<and> heap_rep s' L \<or> r \<noteq> 0 \<and> L r = None \<and> heap_rep s' (L(r \<mapsto> load_bytes (um_mem s') r (unat nbytes))))"
proof -
  let ?A = "blocks_of L"
  obtain G where inv: "heap_inv s G ?A" using rep by (auto simp: heap_rep_def)
  from malloc_spec [OF inv n] obtain r s' G' where m: "malloc nbytes s = Some (r, s')" and k: "kept ?A (um_mem s) (um_mem s')"
    and c: "r = 0 \<and> heap_inv s' G ?A \<or> (\<exists>c. r = fst c + 16 \<and> snd c = units nbytes \<and> c \<notin> ?A \<and> heap_inv s' G' (insert c ?A))"
    by blast
  have old: "length bs + 31 < 2 ^ 31 \<and> load_bytes (um_mem s') p (length bs) = bs" if "L p = Some bs" for p bs
    using load_kept [OF k blocks_ofI [of L p bs, OF that]] heap_inv_block(3) [OF inv blocks_ofI [of L p bs, OF that]] rep that
    by (simp add: heap_rep_def)
  from c show ?thesis
  proof (elim disjE exE conjE)
    assume "r = 0" "heap_inv s' G ?A"
    then have "heap_rep s' L" using old by (auto simp: heap_rep_def)
    then show ?thesis using m \<open>r = 0\<close> by blast
  next
    fix c assume c: "r = fst c + 16" "snd c = units nbytes" "c \<notin> ?A" and inv': "heap_inv s' G' (insert c ?A)"
    note ok = heap_inv_block [OF inv', of c, simplified]
    have u: "unat (fst c + of_nat 16) = unat (fst c) + 16"
      using bend_start [OF ok(1)] ok(3) by (intro of_nat_u64_less) (simp add: bstart_def PHYSMEM_def)
    then have r0: "r \<noteq> 0" unfolding c(1) by (metis add_is_0 numeral_eq_iff of_nat_numeral unat_0 zero_neq_numeral)
    have "L r \<noteq> Some bs" for bs
    proof
      assume L: "L r = Some bs"
      let ?b = "block_of r bs"
      have "?b \<in> ?A" by (rule blocks_ofI [of L r bs, OF L])
      then have "cells c \<inter> cells ?b = {}" "0 < snd ?b" using heap_okD(7,10) [OF ok(4)] c(3) by blast+
      moreover have "fst ?b = fst c" by (simp add: block_of_def c(1))
      ultimately show False using hdr_cells [OF ok(1)] hdr_cells [of ?b] by fastforce
    qed
    then have new: "L r = None" by auto
    let ?bs = "load_bytes (um_mem s') r (unat nbytes)"
    have "block_of r ?bs = c" using c by (cases c) (simp add: block_of_def)
    then have "heap_rep s' (L(r \<mapsto> ?bs))"
      using inv' blocks_of_add [of L r ?bs, OF new] old n by (auto simp: heap_rep_def)
    then show ?thesis using m r0 new by blast
  qed
qed

lemma rep_free:
  assumes rep: "heap_rep s L" and r: "L r = Some bs"
  shows "\<exists>s'. free r s = Some s' \<and> heap_rep s' (L(r := None))"
proof -
  let ?b = "block_of r bs"
  obtain G where inv: "heap_inv s G (blocks_of L)" using rep by (auto simp: heap_rep_def)
  have b: "?b \<in> blocks_of L" by (rule blocks_ofI [of L r bs, OF r])
  from free_spec [OF heap_inv_block(4) [OF inv b] b] obtain s' G' where f: "free (fst ?b + 16) s = Some s'"
    "heap_ok s' G' (blocks_of L - {?b})" "kept (blocks_of L - {?b}) (um_mem s) (um_mem s')" by blast
  have "length ds + 31 < 2 ^ 31 \<and> load_bytes (um_mem s') p (length ds) = ds" if "(L(r := None)) p = Some ds" for p ds
  proof -
    have p: "L p = Some ds" "p \<noteq> r" using that by (auto split: if_splits)
    then have d: "block_of p ds \<in> blocks_of L - {?b}" using blocks_ofI [of L p ds] by (auto simp: block_of_def)
    then show ?thesis using load_kept [OF f(3) d] heap_inv_block(3) [OF inv, of "block_of p ds"] rep p(1) by (simp add: heap_rep_def)
  qed
  then have "heap_rep s' (L(r := None))"
    unfolding heap_rep_def blocks_of_del [of L r bs, OF r] using heap_ok_inv [OF f(2)] by blast
  then show ?thesis using f(1) by (simp add: block_of_def)
qed

lemma rep_store:
  assumes rep: "heap_rep s L" and r: "L r = Some bs" and i: "i < length bs"
  shows "heap_rep (s\<lparr>um_mem := (um_mem s)(r + of_nat i := v)\<rparr>) (L(r \<mapsto> bs[i := v]))"
proof -
  let ?b = "block_of r bs" and ?x = "r + of_nat i :: u64"
  obtain G where inv: "heap_inv s G (blocks_of L)" using rep by (auto simp: heap_rep_def)
  have b: "?b \<in> blocks_of L" by (rule blocks_ofI [of L r bs, OF r])
  note ok = heap_inv_block [OF inv b]
  have len: "length bs + 31 < 2 ^ 31" using rep r by (simp add: heap_rep_def)
  note x = payload [OF ok(3) len i]
  have "heap_ok (s\<lparr>um_mem := (um_mem s)(?x := v)\<rparr>) G (blocks_of L)"
    by (rule heap_ok_write [OF ok(4) b]) (use x in \<open>auto simp: cells_def\<close>)
  moreover have "load_bytes ((um_mem s)(?x := v)) p (length ds) = (if p = r then bs[i := v] else ds)" if p: "L p = Some ds" for p ds
  proof (cases "p = r")
    case True
    then have ds: "ds = bs" using p r by simp
    have "r + of_nat j = ?x \<longleftrightarrow> j = i" if "j < length bs" for j
      using payload(1) [OF ok(3) len that] x(1) by (metis add_left_cancel)
    moreover have "load_bytes (um_mem s) r (length bs) = bs" using rep r by (simp add: heap_rep_def)
    then have "um_mem s (r + of_nat j) = bs ! j" if "j < length bs" for j using that by (metis nth_load_bytes)
    ultimately show ?thesis using True ds by (intro nth_equalityI) (simp_all add: nth_list_update)
  next
    case False
    have d: "block_of p ds \<in> blocks_of L" by (rule blocks_ofI [of L p ds, OF p])
    have "block_of p ds \<noteq> ?b" using False by (simp add: block_of_def)
    then have "cells (block_of p ds) \<inter> cells ?b = {}" using heap_okD(10) [OF ok(4) d b] by blast
    moreover have pl: "length ds + 31 < 2 ^ 31" "load_bytes (um_mem s) p (length ds) = ds" using rep p by (simp_all add: heap_rep_def)
    ultimately have "p + of_nat j \<noteq> ?x" if "j < length ds" for j
      using payload(2) [OF heap_inv_block(3) [OF inv d] pl(1) that] x(2) by (metis disjoint_iff)
    then have "load_bytes ((um_mem s)(?x := v)) p (length ds) = load_bytes (um_mem s) p (length ds)"
      by (intro load_bytes_cong) simp
    then show ?thesis using False pl by simp
  qed
  ultimately show ?thesis unfolding heap_rep_def blocks_of_upd [of L r bs "bs[i := v]", OF r length_list_update]
    using rep r heap_ok_inv by (fastforce simp: heap_rep_def split: if_splits)
qed


lemma rep_separate:
  assumes rep: "heap_rep s L" and r: "L r = Some bs"
  shows "16 \<le> unat r \<and> unat r + length bs \<le> unat (um_brk s)"
    "L r' = Some bs' \<Longrightarrow> r \<noteq> r' \<Longrightarrow> unat r + length bs \<le> unat r' \<or> unat r' + length bs' \<le> unat r"
proof -
  obtain G where inv: "heap_inv s G (blocks_of L)" using rep by (auto simp: heap_rep_def)
  have arr: "unat p = bstart (block_of p ds) + 16 \<and> unat p + length ds \<le> bend (block_of p ds)" if p: "L p = Some ds" for p ds
  proof -
    note ok = heap_inv_block [OF inv blocks_ofI [of L p ds, OF p]]
    have "unat (p - 16 + of_nat 16) = unat (p - 16) + 16"
      using bend_start [OF ok(1)] ok(3) by (intro of_nat_u64_less) (simp add: block_of_def bstart_def PHYSMEM_def)
    moreover have "length ds + 31 < 2 ^ 31" using rep p by (simp add: heap_rep_def)
    then have "unat (of_nat (length ds) :: u32) = length ds" by (simp add: unat_of_nat)
    ultimately show ?thesis by (simp add: block_of_def bstart_def bend_def unat_units)
  qed
  show "16 \<le> unat r \<and> unat r + length bs \<le> unat (um_brk s)"
    using arr [OF r] heap_inv_block(2) [OF inv blocks_ofI [of L r bs, OF r]] by linarith
  assume r': "L r' = Some bs'" "r \<noteq> r'"
  note b = blocks_ofI [of L r bs, OF r] and b' = blocks_ofI [of L r' bs', OF r'(1)]
  have "block_of r bs \<noteq> block_of r' bs'" using r'(2) by (simp add: block_of_def)
  then have "cells (block_of r bs) \<inter> cells (block_of r' bs') = {}"
    using heap_okD(10) [OF heap_inv_block(4) [OF inv b] b b'] by blast
  then show "unat r + length bs \<le> unat r' \<or> unat r' + length bs' \<le> unat r"
    using cells_apart [OF heap_inv_block(1) [OF inv b] heap_inv_block(1) [OF inv b']] arr [OF r] arr [OF r'(1)] by linarith
qed

section \<open>Properties\<close>

text \<open>
  C8. \<open>malloc\<close> and \<open>free\<close> give a program separate arrays. Whatever sequence of calls and stores led to
  the state: a \<open>malloc\<close> of less than 2 GiB returns, with a null pointer and all arrays as they were, or
  with a new array of at least that many bytes; a \<open>free\<close> of a live pointer returns and leaves all
  other arrays as they were; a store into an array changes this byte only. All arrays lie in the
  memory of the process and do not overlap, and each load gives what was last stored.
\<close>

theorem malloc_separate_arrays:
  assumes "heap_rep s L"
  shows "(unat nbytes + 31 < 2 ^ 31 \<longrightarrow> (\<exists>r s'. malloc nbytes s = Some (r, s') \<and>
      (r = 0 \<and> heap_rep s' L \<or> r \<noteq> 0 \<and> L r = None \<and> heap_rep s' (L(r \<mapsto> load_bytes (um_mem s') r (unat nbytes)))))) \<and>
    (\<forall>r bs. L r = Some bs \<longrightarrow>
      (\<exists>s'. free r s = Some s' \<and> heap_rep s' (L(r := None))) \<and>
      (\<forall>i < length bs. \<forall>v. heap_rep (s\<lparr>um_mem := (um_mem s)(r + of_nat i := v)\<rparr>) (L(r \<mapsto> bs[i := v]))) \<and>
      load_bytes (um_mem s) r (length bs) = bs \<and> 16 \<le> unat r \<and> unat r + length bs \<le> unat (um_brk s) \<and>
      (\<forall>r' bs'. L r' = Some bs' \<and> r' \<noteq> r \<longrightarrow> unat r + length bs \<le> unat r' \<or> unat r' + length bs' \<le> unat r))"
proof (intro conjI allI impI)
  show "\<exists>r s'. malloc nbytes s = Some (r, s') \<and>
      (r = 0 \<and> heap_rep s' L \<or> r \<noteq> 0 \<and> L r = None \<and> heap_rep s' (L(r \<mapsto> load_bytes (um_mem s') r (unat nbytes))))"
    if "unat nbytes + 31 < 2 ^ 31" by (rule rep_malloc [OF assms that])
  fix r bs assume r: "L r = Some bs"
  show "\<exists>s'. free r s = Some s' \<and> heap_rep s' (L(r := None))" by (rule rep_free [of s L r bs, OF assms r])
  show "heap_rep (s\<lparr>um_mem := (um_mem s)(r + of_nat i := v)\<rparr>) (L(r \<mapsto> bs[i := v]))" if "i < length bs" for i v
    by (rule rep_store [of s L r bs, OF assms r that])
  show "load_bytes (um_mem s) r (length bs) = bs" using assms r by (simp add: heap_rep_def)
  show "16 \<le> unat r" "unat r + length bs \<le> unat (um_brk s)" using rep_separate(1) [of s L r bs, OF assms r] by blast+
  show "unat r + length bs \<le> unat r' \<or> unat r' + length bs' \<le> unat r" if "L r' = Some bs' \<and> r' \<noteq> r" for r' bs'
    using rep_separate(2) [of s L r bs r' bs', OF assms r] that by blast
qed

text \<open>A process before its first call, with a heap the kernel lets grow once.\<close>

definition proc_example :: uproc where
  "proc_example = \<lparr>um_mem = (\<lambda>_. 0), um_base = 4096, um_freep = 0, um_brk = 8192, um_answers = [True]\<rparr>"

theorem malloc_separate_arrays_witness:
  "heap_rep proc_example (\<lambda>_. None) \<and> (\<exists>r s'. malloc 100 proc_example = Some (r, s'))"
proof -
  have "blocks_of (\<lambda>_. None) = {}" by (simp add: blocks_of_def)
  then have "heap_rep proc_example (\<lambda>_. None)" by (simp add: heap_rep_def heap_inv_def proc_example_def PHYSMEM_def)
  then show ?thesis using malloc_separate_arrays [of proc_example "\<lambda>_. None" 100] by auto
qed

text \<open>
  C38. A \<open>malloc\<close> of nearly 4 GiB succeeds without memory. Rounded up to units it asks for \<open>2^32 + 16\<close> bytes, and
  \<open>sbrk\<close>, which takes an \<open>int\<close>, adds 16 bytes to the process; \<open>malloc\<close> then returns an array that starts where
  the memory of the process ends.
\<close>

theorem malloc_huge_unbacked:
  assumes "2 ^ 32 - 16 < unat nbytes" "um_freep s = 0" "0 < um_base s" "unat (um_base s) + 16 \<le> unat (um_brk s)"
    "unat (um_brk s) + 16 \<le> PHYSMEM" "um_answers s = True # rest"
  shows "\<exists>s'. malloc nbytes s = Some (um_brk s + 16, s') \<and> um_brk s' = um_brk s + 16"
proof -
  define n :: u32 where "n = 0x10000001"
  let ?e = "um_base s" and ?b = "um_brk s"
  define m1 where "m1 = set_hsize ?e 0 (set_hptr ?e ?e (um_mem s))"
  let ?t = "s\<lparr>um_mem := m1, um_freep := ?e\<rparr>"
  have n: "units nbytes = n"
  proof -
    have "unat nbytes < 2 ^ 32" using unat_bound [of nbytes] by simp
    then have "unat (units nbytes) = unat n" unfolding unat_units using assms(1) by (simp add: n_def)
    then show ?thesis by (simp only: word_unat_eq_iff)
  qed
  have pe: "unat ?e + 16 \<le> 2 ^ 64" "unat ?b + 16 \<le> 2 ^ 64" "unat ?e + 16 \<le> unat ?b \<or> unat ?b + 16 \<le> unat ?e" "?e < ?b"
    using assms by (simp_all add: PHYSMEM_def word_less_nat_alt)
  have m1: "hsize m1 ?e = 0" "hptr m1 ?e = ?e" using hdr_fields(1) [OF pe(1)] by (simp_all add: m1_def)
  define m0 where "m0 = zero_fill (page_end ?b) (page_end (?b + 16)) m1"
  have "m0 x = m1 x" if "unat x < unat ?e + 16" for x
    using that page_end_ge [of ?b] assms(4) by (simp add: m0_def zero_fill_def)
  then have m0: "hsize m0 ?e = 0" "hptr m0 ?e = ?e"
    using m1 hsize_cong [of ?e m0 m1] hptr_cong [of ?e m0 m1] pe(1) by simp_all
  define m2 where "m2 = set_hsize ?b n m0"
  have m2: "hsize m2 ?e = 0" "hptr m2 ?e = ?e" "hsize m2 ?b = n"
    using hdr_other(3,4) [of ?b ?e] pe m0 by (auto simp: m2_def)
  let ?g = "?t\<lparr>um_mem := m0, um_brk := ?b + 16, um_answers := rest\<rparr>"
  have sb: "sbrk 16 ?t = (?b, ?g)" using assms(5,6) by (simp add: sbrk_def Let_def m0_def)
  have bm: "?b \<noteq> -1" using assms(5) by (auto simp: PHYSMEM_def unsigned_minus_1_eq_mask mask_eq_exp_minus_1)
  have b16: "unat (?b + 16) = unat ?b + 16" using of_nat_u64_less [of ?b 16] assms(5) by (simp add: PHYSMEM_def)
  have bk: "backed ?b ?g" using page_end_ge [of "?b + 16"] b16 by (simp add: backed_def)
  have find: "free_find m2 ?b ?e = Some ?e" using m2 pe(4) by (subst free_find.simps) simp
  have far: "hadd ?b n \<noteq> ?e" "hadd ?e 0 \<noteq> ?b"
  proof -
    show "hadd ?b n \<noteq> ?e" using hadd_eq [of ?b n ?e] assms(4,5) by (simp add: bend_def n_def PHYSMEM_def)
    show "hadd ?e 0 \<noteq> ?b" using pe(4) by (simp add: hadd_def)
  qed
  define m3 where "m3 = set_hptr ?b ?e m2"
  have up: "free_upper ?b ?e m2 = m3" using far m2 by (simp add: free_upper_def m3_def)
  have m3: "hsize m3 ?e = 0" "hsize m3 ?b = n" "hptr m3 ?b = ?e"
    using hdr_other(2) [of ?b ?e] hdr_fields(2) [OF pe(2)] pe m2 by (auto simp: m3_def)
  define m4 where "m4 = set_hptr ?e ?b m3"
  have lo: "free_lower ?b ?e m3 = m4" using far m3 by (simp add: free_lower_def m4_def)
  have m4: "hptr m4 ?e = ?b" "hsize m4 ?b = n" using hdr_other(2) [of ?e ?b] pe m3 by (auto simp: m4_def)
  let ?u = "?g\<lparr>um_mem := m4\<rparr>"
  have "free (?b + 16) (?g\<lparr>um_mem := m2\<rparr>) = Some ?u" using find up lo by (simp add: free_def Let_def)
  moreover have "ucast (ucast n * 16 :: u64) = (16 :: u32)" "\<not> n < 4096" by (simp_all add: n_def)
  ultimately have mc: "morecore n ?t = Some (?e, ?u)"
    using sb bm bk by (simp add: morecore_def m2_def)
  have "malloc nbytes s = malloc_loop n ?e ?e ?t"
    using assms(2) n m1 by (simp add: malloc_def Let_def m1_def)
  also have "\<dots> = malloc_more n ?t" by (rule malloc_loop_step(2)) (simp_all add: m1 n_def)
  also have "\<dots> = malloc_loop n ?e ?b ?u" using mc assms(3) m4 by (auto simp: malloc_more_def)
  also have "\<dots> = malloc_take n ?e ?b ?u" by (rule malloc_loop_step(1)) (simp add: m4)
  finally show ?thesis using m4 by (simp add: malloc_take_def Let_def)
qed

theorem malloc_huge_unbacked_witness:
  "\<exists>s'. malloc 0xFFFFFFFF proc_example = Some (8208, s') \<and> um_brk s' = 8208"
  using malloc_huge_unbacked [of "0xFFFFFFFF" proc_example "[]"] by (simp add: proc_example_def PHYSMEM_def)

text \<open>
  From 2 GiB to that size the number of bytes is negative or zero for \<open>sbrk\<close>, which succeeds; when the memory
  ends with a page the store to the new header faults, and \<open>malloc\<close> does not get to return a null pointer.
\<close>

lemma morecore_killed:
  assumes "2 ^ 31 \<le> 16 * unat nu" "16 * unat nu \<le> 2 ^ 32" "unat (um_brk s) = 4096 * k" "unat (um_brk s) \<le> PHYSMEM"
  shows "morecore nu s = None"
proof -
  have nu: "\<not> nu < 4096" using assms(1) by (simp add: word_less_nat_alt)
  define x :: u32 where "x = ucast (ucast nu * 16 :: u64)"
  have "unat (ucast nu * 16 :: u64) = 16 * unat nu"
    using assms(2) by (simp add: unat_word_ariths unsigned_ucast_eq take_bit_nat_eq_self)
  then have ux: "unat x = 16 * unat nu mod 2 ^ 32" by (simp add: x_def unsigned_ucast_eq take_bit_eq_mod)
  have sx: "\<not> 0 < sint x"
  proof (cases "16 * unat nu = 2 ^ 32")
    case True
    then have "x = 0" using ux by (simp add: unat_eq_0 [symmetric] del: unat_eq_0)
    then show ?thesis by simp
  next
    case False
    then have "2 ^ 31 \<le> unat x" using ux assms(1,2) by simp
    then show ?thesis using sint_u32_neg [of x] uint_lt2p [of x] by simp
  qed
  define s' where "s' = snd (sbrk x s)"
  have s': "sbrk x s = (um_brk s, s')" "unat (um_brk s') \<le> unat (um_brk s)"
    using sx by (auto simp: s'_def sbrk_def Let_def word_le_nat_alt)
  have "page_end (um_brk s') \<le> page_end (um_brk s)"
    unfolding page_end_def using s'(2) by (intro mult_le_mono1 div_le_mono) simp
  also have "page_end (um_brk s) = unat (um_brk s)" unfolding page_end_def assms(3) by simp
  finally have "\<not> backed (um_brk s) s'" by (simp add: backed_def)
  moreover have "um_brk s \<noteq> -1" using assms(4) by (auto simp: PHYSMEM_def unsigned_minus_1_eq_mask mask_eq_exp_minus_1)
  ultimately show ?thesis using s'(1) nu by (simp add: morecore_def x_def [symmetric])
qed

end
