(* ===== verification/Count.thy ===== *)
theory Count
  imports Programs
begin

text \<open>What \<open>wc\<close> counts, and that it does not depend on how \<open>read\<close> cuts the file into pieces.\<close>

section \<open>Words of a text\<close>

text \<open>The words of a text: the maximal runs of bytes that are not white space.\<close>

function words :: "byte list \<Rightarrow> byte list list" where
  "words s =
     (let r = dropWhile wc_space s in
      if r = [] then []
      else takeWhile (\<lambda>b. \<not> wc_space b) r # words (dropWhile (\<lambda>b. \<not> wc_space b) r))"
  by pat_completeness auto
termination
proof (relation "measure length")
  fix s and r :: "byte list"
  assume r: "r = dropWhile wc_space s" "r \<noteq> []"
  then have "\<not> wc_space (hd r)" using hd_dropWhile by blast
  then have "length (dropWhile (\<lambda>b. \<not> wc_space b) r) < length r"
    using r(2) by (cases r) (simp_all add: le_imp_less_Suc length_dropWhile_le)
  also have "\<dots> \<le> length s" by (simp add: r(1) length_dropWhile_le)
  finally show "(dropWhile (\<lambda>b. \<not> wc_space b) r, s) \<in> measure length" by simp
qed simp

declare words.simps [simp del]

lemma words_Nil [simp]: "words [] = []"
  by (simp add: words.simps)

lemma words_space: "wc_space b \<Longrightarrow> words (b # s) = words s"
  by (simp add: words.simps [of "b # s"] words.simps [of s])

lemma words_word:
  "\<not> wc_space b \<Longrightarrow> length (words (b # s)) = Suc (length (words (dropWhile (\<lambda>b. \<not> wc_space b) s)))"
  by (simp add: words.simps [of "b # s"])

text \<open>The counters after a text; a word that has begun before it is counted already.\<close>

lemma fold_wc_byte:
  "wc_c (fold wc_byte s n) = wc_c n + of_nat (length s)"
  "wc_l (fold wc_byte s n) = wc_l n + of_nat (count_list s 10)"
  "wc_w (fold wc_byte s n) =
     wc_w n + of_nat (length (words (if wc_inword n then dropWhile (\<lambda>b. \<not> wc_space b) s else s)))"
proof (induction s arbitrary: n)
  case (Cons b s)
  { case 1 show ?case by (simp add: Cons.IH) (simp add: wc_byte_def Let_def) }
  { case 2 show ?case by (simp add: Cons.IH) (simp add: wc_byte_def Let_def) }
  {
    case 3
    show ?case
      by (cases "wc_space b"; cases "wc_inword n")
        (simp_all add: Cons.IH, simp_all add: wc_byte_def Let_def words_space words_word algebra_simps)
  }
qed simp_all

section \<open>What is printed\<close>

definition decimal :: "nat \<Rightarrow> byte list" where
  "decimal n = rev (map (\<lambda>d. udigits ! d) (digits_of 10 n))"

lemma uprintint_decimal:
  assumes "n < 2 ^ 31"
  shows "uprintint (of_nat n) 10 True = Some (decimal n)"
proof -
  have u: "unat (of_nat n :: u32) = n" using assms by (intro unat_of_nat_small) simp
  have "sint (of_nat n :: u32) = uint (of_nat n :: u32)" using assms u by (intro sint_u32_pos) simp
  then have "uprintint (of_nat n) 10 True = print_digits udigits 10 False n" by (simp add: uprintint_def u)
  moreover have "print_digits udigits 10 False n \<noteq> None" using assms by (subst print_digits_iff) simp_all
  ultimately show ?thesis using print_digits_Some [of udigits 10 False n] by (auto simp: decimal_def)
qed

lemma wc_format:
  assumes "l < 2 ^ 31" "w < 2 ^ 31" "c < 2 ^ 31"
  shows "uprintf (str ''%d %d %d %s'' @ newline)
      [VInt (scast (of_nat l :: u32)), VInt (scast (of_nat w :: u32)), VInt (scast (of_nat c :: u32)), vstr name] =
    Some (decimal l @ [32] @ decimal w @ [32] @ decimal c @ [32] @ name @ [10])"
proof -
  have f: "str ''%d %d %d %s'' @ newline = [37, 100, 32, 37, 100, 32, 37, 100, 32, 37, 115, 10]"
    by code_simp
  show ?thesis unfolding f using assms
    by (simp add: uprintf_def conv_of_def conv_skip_def fmt_at_def Let_def uprintint_decimal)
qed

lemma words_length: "length (words s) \<le> length s"
proof (induction s rule: words.induct)
  case (1 s)
  show ?case
  proof (cases "dropWhile wc_space s")
    case (Cons b r)
    then have b: "\<not> wc_space b" using hd_dropWhile [of wc_space s] by simp
    have "length (words (dropWhile (\<lambda>b. \<not> wc_space b) r)) \<le> length (dropWhile (\<lambda>b. \<not> wc_space b) r)"
      using 1 [OF Cons [symmetric]] b by simp
    also have "\<dots> \<le> length r" by (rule length_dropWhile_le)
    also have "Suc (length r) \<le> length s" using length_dropWhile_le [of wc_space s] Cons by simp
    finally show ?thesis using Cons b by (simp add: words.simps [of s])
  qed (simp add: words.simps [of s])
qed

lemma wc_loop_reads:
  assumes "\<forall>r \<in> set rs. 0 < a_val r"
  shows "wc_loop fd name n k (rs @ as) =
    replicate (length rs) (Read fd 512) @ wc_loop fd name (fold wc_byte (concat (map data rs)) n) k as"
  using assms by (induction rs arbitrary: n) (simp_all add: wc_loop.simps [of _ _ _ _ "_ # _"])

text \<open>
  C39. Let \<open>read\<close> return a file of less than \<open>2^31\<close> bytes in any pieces, then 0. Then \<open>wc\<close> makes one
  \<open>read\<close> per piece and one for the end, prints one byte at a time the number of newlines, of words
  (maximal runs without white space, also those that lie across pieces) and of bytes of the whole
  file in decimal, followed by the name, and returns.
\<close>

theorem wc_counts_file:
  assumes "\<forall>r \<in> set rs. 0 < a_val r" "a_val z = 0" "concat (map data rs) = s" "length s < 2 ^ 31"
  shows "wc fd name k (rs @ z # as) =
    replicate (length rs + 1) (Read fd 512) @
    putcs 1 (decimal (count_list s 10) @ [32] @ decimal (length (words s)) @ [32] @
      decimal (length s) @ [32] @ name @ [10]) k as"
proof -
  let ?n = "fold wc_byte s \<lparr>wc_l = 0, wc_w = 0, wc_c = 0, wc_inword = False\<rparr>"
  have "count_list s 10 < 2 ^ 31" "length (words s) < 2 ^ 31"
    using count_le_length [of s 10] words_length [of s] assms(4) by simp_all
  note f = wc_format [OF this assms(4), of name]
  have "wc fd name k (rs @ z # as) = replicate (length rs) (Read fd 512) @ wc_loop fd name ?n k (z # as)"
    using wc_loop_reads [OF assms(1)] assms(3) by (simp add: wc_def)
  also have "wc_loop fd name ?n k (z # as) = Read fd 512 # fprintf 1 (str ''%d %d %d %s'' @ newline)
      [VInt (scast (of_nat (count_list s 10) :: u32)), VInt (scast (of_nat (length (words s)) :: u32)),
       VInt (scast (of_nat (length s) :: u32)), vstr name] k as"
    using assms(2) by (simp add: fold_wc_byte wc_loop.simps [of _ _ _ _ "_ # _"])
  also have "replicate (length rs) (Read fd 512) @ Read fd 512 # xs = replicate (length rs + 1) (Read fd 512) @ xs" for xs
    by (simp add: replicate_app_Cons_same)
  finally show ?thesis unfolding fprintf_def f by simp
qed

text \<open>The text \<open>ab c\<close> and a newline, cut inside of the word \<open>ab\<close>.\<close>

theorem wc_counts_file_witness:
  "let r = (\<lambda>bs. \<lparr>a_val = int (length bs), a_buf = bs, a_fds = (0, 0),
              a_stat = \<lparr>st_dev = 0, st_ino = 0, st_type = 0, st_nlink = 0, st_size = 0\<rparr>\<rparr>) in
   \<forall>as. wc 3 [120] (uexit 0) ([r [97], r [98, 32, 99, 10]] @ r [] # as) =
     [Read 3 512, Read 3 512, Read 3 512] @
     putcs 1 ([49] @ [32] @ [50] @ [32] @ [53] @ [32] @ [120] @ [10]) (uexit 0) as"
proof -
  define r where "r bs = \<lparr>a_val = int (length bs), a_buf = bs, a_fds = (0, 0),
    a_stat = \<lparr>st_dev = 0, st_ino = 0, st_type = 0, st_nlink = 0, st_size = 0\<rparr>\<rparr>" for bs :: "byte list"
  have v: "length (words [97, 98, 32, 99, 10]) = 2" "count_list [97, 98, 32, 99, 10 :: byte] 10 = 1"
      "length [97, 98, 32, 99, 10 :: byte] = 5" "decimal 1 = [49]" "decimal 2 = [50]" "decimal 5 = [53]"
      "replicate (length [r [97], r [98, 32, 99, 10]] + 1) (Read 3 512) = [Read 3 512, Read 3 512, Read 3 512]"
    by code_simp+
  have h: "\<forall>x \<in> set [r [97], r [98, 32, 99, 10]]. 0 < a_val x" "a_val (r []) = 0"
      "concat (map data [r [97], r [98, 32, 99, 10]]) = [97, 98, 32, 99, 10]" "length [97, 98, 32, 99, 10 :: byte] < 2 ^ 31"
    by (simp_all add: r_def data_def nat_numeral)
  note wc_counts_file [OF h, of 3 "[120]" "uexit 0", unfolded v]
  then show ?thesis unfolding Let_def r_def by blast
qed

end
