(* ===== verification/Sh.thy ===== *)
theory Sh
  imports Cstring
begin

text \<open>
  The command parser of the shell, user/sh.c. Pointers into the command line are positions in the
  string \<open>s\<close>, whose length is the \<open>es\<close> of the code. A command is a tree with the constructors of
  the code; its strings are the positions of their first byte and of the byte after the last.
\<close>

definition MAXARGS :: nat where "MAXARGS = 10"

datatype cmd =
    EXEC "(nat \<times> nat) list"
  | REDIR cmd nat nat u32 nat
  | PIPE cmd cmd
  | LIST cmd cmd
  | BACK cmd

text \<open>A result, \<open>panic\<close> with its message, or no more fuel (see \<open>parseline\<close>).\<close>

datatype 'a parse = Parsed 'a | Syntax string | NoFuel

fun bind_parse :: "'a parse \<Rightarrow> ('a \<Rightarrow> 'b parse) \<Rightarrow> 'b parse" where
  "bind_parse (Parsed a) f = f a"
| "bind_parse (Syntax m) f = Syntax m"
| "bind_parse NoFuel f = NoFuel"

section \<open>Tokens\<close>

definition whitespace :: "byte list" where "whitespace = [32, 9, 13, 10, 11]"
definition symbols :: "byte list" where "symbols = [60, 124, 62, 38, 59, 40, 41]"

text \<open>\<open>*s\<close> at a position; there is a NUL at the end of the string.\<close>

definition char_at :: "byte list \<Rightarrow> nat \<Rightarrow> byte" where
  "char_at s i = (if i < length s then s ! i else 0)"

text \<open>The loops \<open>while(s < es && ...) s++\<close>.\<close>

definition skip_while :: "(byte \<Rightarrow> bool) \<Rightarrow> byte list \<Rightarrow> nat \<Rightarrow> nat" where
  "skip_while P s i = i + length (takeWhile P (drop i s))"

definition skip_ws :: "byte list \<Rightarrow> nat \<Rightarrow> nat" where
  "skip_ws = skip_while (\<lambda>c. c \<in> set whitespace)"

text \<open>\<open>gettoken\<close>: the token, \<open>*q\<close>, \<open>*eq\<close> and the new \<open>*ps\<close>.\<close>

definition gettoken :: "byte list \<Rightarrow> nat \<Rightarrow> byte \<times> nat \<times> nat \<times> nat" where
  "gettoken s ps =
     (let q = skip_ws s ps; c = char_at s q;
          (tok, eq) =
            (if c = 0 then (c, q)
             else if c \<in> {124, 40, 41, 59, 38, 60} then (c, q + 1)
             else if c = 62 then (if char_at s (q + 1) = 62 then (43, q + 2) else (c, q + 1))
             else (97, skip_while (\<lambda>c. c \<notin> set whitespace \<and> c \<notin> set symbols) s q))
      in (tok, q, eq, skip_ws s eq))"

text \<open>\<open>peek\<close>: the answer and the new \<open>*ps\<close>.\<close>

definition peek :: "byte list \<Rightarrow> nat \<Rightarrow> byte list \<Rightarrow> bool \<times> nat" where
  "peek s ps toks =
     (let i = skip_ws s ps in (char_at s i \<noteq> 0 \<and> char_at s i \<in> set toks, i))"

lemma skip_while_ge: "i \<le> skip_while P s i"
  by (simp add: skip_while_def)

lemma skip_while_le: "i \<le> length s \<Longrightarrow> skip_while P s i \<le> length s"
  using length_takeWhile_le [of P "drop i s"] by (simp add: skip_while_def)

lemma skip_while_gr: "i < length s \<Longrightarrow> P (s ! i) \<Longrightarrow> i < skip_while P s i"
  by (simp add: skip_while_def Cons_nth_drop_Suc [symmetric])

text \<open>A token other than the end of the string is not empty, and the rest of the string is shorter.\<close>

lemma gettoken_bounds:
  assumes "gettoken s ps = (tok, q, eq, ps')" "tok \<noteq> 0"
  shows "ps \<le> q" "q < eq" "eq \<le> ps'" "q < length s"
proof -
  let ?q = "skip_ws s ps"
  have q: "q = ?q" and ps': "ps' = skip_ws s eq"
    using assms by (auto simp: gettoken_def Let_def split: if_splits)
  show 1: "ps \<le> q" and 2: "eq \<le> ps'"
    by (simp_all add: q ps' skip_ws_def skip_while_ge)
  show 3: "q < length s"
    using assms by (auto simp: gettoken_def Let_def char_at_def split: if_splits)
  have "s ! q \<notin> set whitespace"
    using nth_length_takeWhile [of "\<lambda>c. c \<in> set whitespace" "drop ps s"] 3
    by (simp add: q skip_ws_def skip_while_def)
  then show "q < eq"
    using assms 3
    by (auto simp: gettoken_def Let_def char_at_def symbols_def simp del: skip_ws_def
      intro!: skip_while_gr split: if_splits)
qed


lemma gettoken_ge: "gettoken s ps = (tok, q, eq, ps') \<Longrightarrow> ps \<le> ps'"
  using gettoken_bounds [of s ps tok q eq ps']
  by (cases "tok = 0") (auto simp: gettoken_def Let_def skip_ws_def split: if_splits
    intro: order_trans [OF skip_while_ge skip_while_ge])

lemma gettoken_step:
  "gettoken s ps = (tok, q, eq, ps') \<Longrightarrow> tok \<noteq> 0 \<Longrightarrow> ps < ps' \<and> ps < length s"
  using gettoken_bounds [of s ps tok q eq ps'] by auto

lemma peek_ge: "peek s ps toks = (b, ps') \<Longrightarrow> ps \<le> ps'"
  by (auto simp: peek_def Let_def skip_ws_def skip_while_ge)

lemma skip_ws_idem [simp]: "skip_ws s (skip_ws s ps) = skip_ws s ps"
proof -
  have "takeWhile P (drop (i + length (takeWhile P (drop i s))) s) = []" for P and i
  proof -
    have "drop (i + length (takeWhile P (drop i s))) s = dropWhile P (drop i s)"
      by (simp add: dropWhile_eq_drop add.commute)
    then show ?thesis using hd_dropWhile [of P "drop i s"] by (auto simp: takeWhile_eq_Nil_iff)
  qed
  then show ?thesis by (simp add: skip_ws_def skip_while_def)
qed

text \<open>After a successful \<open>peek\<close>, \<open>gettoken\<close> returns a token.\<close>

lemma peeked_token:
  assumes "(True, ps1) = peek s ps t" "(tok, q, eq, ps2) = gettoken s ps1"
  shows "tok \<noteq> 0"
  using assms by (auto simp: peek_def gettoken_def Let_def split: if_splits)

lemma token_step:
  assumes "(b, ps1) = peek s ps t" "(tok, q, eq, ps2) = gettoken s ps1" "tok \<noteq> 0"
  shows "length s - ps2 < length s - ps"
  using peek_ge [OF assms(1) [symmetric]] gettoken_step [OF assms(2) [symmetric] assms(3)]
  by (intro diff_less_mono2) linarith+

lemmas back_step = token_step [OF _ _ peeked_token]

lemma redir_step:
  assumes "(b, ps1) = peek s ps t" "(tok', q', eq', ps2) = gettoken s ps1"
    "(97, q, eq, ps3) = gettoken s ps2"
  shows "length s - ps3 < length s - ps"
  using peek_ge [OF assms(1) [symmetric]] gettoken_ge [OF assms(2) [symmetric]]
    gettoken_step [OF assms(3) [symmetric]]
  by (intro diff_less_mono2) simp_all

section \<open>Redirections and arguments\<close>

definition redir_mode :: "byte \<Rightarrow> u32 \<times> nat" where
  "redir_mode tok =
     (if tok = 60 then (0, 0) else if tok = 62 then (0x601, 1) else (0x201, 1))"

text \<open>
  \<open>parseredirs\<close>: the redirections found, the innermost first, and the new \<open>*ps\<close>. The code wraps
  each around the command it is given; \<open>redircmds\<close> does that.
\<close>

type_synonym redir = "nat \<times> nat \<times> u32 \<times> nat"

function parseredirs :: "byte list \<Rightarrow> nat \<Rightarrow> (redir list \<times> nat) parse" where
  "parseredirs s ps =
     (case peek s ps [60, 62] of (more, ps1) \<Rightarrow>
      if \<not> more then Parsed ([], ps1)
      else
        case gettoken s ps1 of (tok, _, _, ps2) \<Rightarrow>
        case gettoken s ps2 of (tok', q, eq, ps3) \<Rightarrow>
        if tok' \<noteq> 97 then Syntax ''missing file for redirection''
        else
          bind_parse (parseredirs s ps3) (\<lambda>(rs, ps').
          Parsed ((q, eq, fst (redir_mode tok), snd (redir_mode tok)) # rs, ps')))"
  by pat_completeness auto
termination
  by (relation "measure (\<lambda>(s, ps). length s - ps)")
    (auto intro: redir_step)

definition redircmds :: "cmd \<Rightarrow> redir list \<Rightarrow> cmd" where
  "redircmds cmd rs = foldl (\<lambda>c (q, eq, mode, fd). REDIR c q eq mode fd) cmd rs"

text \<open>
  The loop of \<open>parseexec\<close>: the arguments and redirections found so far are its last parameters.
\<close>

lemma parseredirs_ge: "parseredirs s ps = Parsed (rs, ps') \<Longrightarrow> ps \<le> ps'"
proof (induction s ps arbitrary: rs ps' rule: parseredirs.induct)
  case (1 s ps)
  obtain more ps1 where pk: "peek s ps [60, 62] = (more, ps1)" by force
  then have le: "ps \<le> ps1" by (rule peek_ge)
  show ?case
  proof (cases more)
    case False
    then show ?thesis using 1(2) pk le by (simp add: parseredirs.simps [of s ps])
  next
    case True
    obtain tok a b ps2 where g1: "gettoken s ps1 = (tok, a, b, ps2)" by (metis prod_cases4)
    obtain tok' q eq ps3 where g2: "gettoken s ps2 = (tok', q, eq, ps3)" by (metis prod_cases4)
    have t: "tok' = 97" and "\<exists>rs'. parseredirs s ps3 = Parsed (rs', ps')"
      using 1(2) pk True g1 g2
      by (cases "parseredirs s ps3"; auto simp: parseredirs.simps [of s ps] split: if_splits)+
    then obtain rs' where "parseredirs s ps3 = Parsed (rs', ps')" by blast
    then have "ps3 \<le> ps'" using 1(1) [OF pk [symmetric] _ g1 [symmetric] refl refl g2 [symmetric] refl refl] True t by simp
    then show ?thesis using le gettoken_ge [OF g1] gettoken_ge [OF g2] by simp
  qed
qed

declare parseredirs.simps [simp del]

lemma args_step:
  assumes "(b, ps1) = peek s ps t" "(tok, q, eq, ps2) = gettoken s ps1" "tok \<noteq> 0"
    "parseredirs s ps2 = Parsed (rs, ps3)"
  shows "length s - ps3 < length s - ps"
  using token_step [OF assms(1-3)] parseredirs_ge [OF assms(4)] by linarith

function parseargs ::
  "byte list \<Rightarrow> nat \<Rightarrow> (nat \<times> nat) list \<Rightarrow> redir list \<Rightarrow> (cmd \<times> nat) parse" where
  "parseargs s ps args rs =
     (case peek s ps [124, 41, 38, 59] of (stop, ps1) \<Rightarrow>
      if stop then Parsed (redircmds (EXEC args) rs, ps1)
      else
        case gettoken s ps1 of (tok, q, eq, ps2) \<Rightarrow>
        if tok = 0 then Parsed (redircmds (EXEC args) rs, ps2)
        else if tok \<noteq> 97 then Syntax ''syntax''
        else if length args + 1 \<ge> MAXARGS then Syntax ''too many args''
        else
          case parseredirs s ps2 of
            Parsed (rs', ps3) \<Rightarrow> parseargs s ps3 (args @ [(q, eq)]) (rs @ rs')
          | Syntax m \<Rightarrow> Syntax m
          | NoFuel \<Rightarrow> NoFuel)"
  by pat_completeness auto
termination
  by (relation "measure (\<lambda>(s, ps, _, _). length s - ps)") (auto intro: args_step)

declare parseargs.simps [simp del]

section \<open>Commands\<close>

text \<open>
  The recursive descent. The recursion goes as deep as the command line nests; the first argument
  is fuel, and \<open>parsecmd\<close> gives enough of it for every line.
\<close>

function parsebacks :: "byte list \<Rightarrow> nat \<Rightarrow> cmd \<Rightarrow> cmd \<times> nat" where
  "parsebacks s ps cmd =
     (case peek s ps [38] of (more, ps1) \<Rightarrow>
      if more then case gettoken s ps1 of (_, _, _, ps2) \<Rightarrow> parsebacks s ps2 (BACK cmd)
      else (cmd, ps1))"
  by pat_completeness auto
termination
  by (relation "measure (\<lambda>(s, ps, _). length s - ps)") (auto intro: back_step)

declare parsebacks.simps [simp del]

fun parseline :: "nat \<Rightarrow> byte list \<Rightarrow> nat \<Rightarrow> (cmd \<times> nat) parse"
  and parsepipe :: "nat \<Rightarrow> byte list \<Rightarrow> nat \<Rightarrow> (cmd \<times> nat) parse"
  and parseexec :: "nat \<Rightarrow> byte list \<Rightarrow> nat \<Rightarrow> (cmd \<times> nat) parse"
  and parseblock :: "nat \<Rightarrow> byte list \<Rightarrow> nat \<Rightarrow> (cmd \<times> nat) parse" where
  "parseline 0 s ps = NoFuel"
| "parseline (Suc n) s ps =
     bind_parse (parsepipe n s ps) (\<lambda>(cmd, ps1).
     case parsebacks s ps1 cmd of (cmd, ps2) \<Rightarrow>
     case peek s ps2 [59] of (more, ps3) \<Rightarrow>
     if more then
       case gettoken s ps3 of (_, _, _, ps4) \<Rightarrow>
       bind_parse (parseline n s ps4) (\<lambda>(right, ps5). Parsed (LIST cmd right, ps5))
     else Parsed (cmd, ps3))"
| "parsepipe 0 s ps = NoFuel"
| "parsepipe (Suc n) s ps =
     bind_parse (parseexec n s ps) (\<lambda>(cmd, ps1).
     case peek s ps1 [124] of (more, ps2) \<Rightarrow>
     if more then
       case gettoken s ps2 of (_, _, _, ps3) \<Rightarrow>
       bind_parse (parsepipe n s ps3) (\<lambda>(right, ps4). Parsed (PIPE cmd right, ps4))
     else Parsed (cmd, ps2))"
| "parseexec 0 s ps = NoFuel"
| "parseexec (Suc n) s ps =
     (case peek s ps [40] of (blk, ps1) \<Rightarrow>
      if blk then parseblock n s ps1
      else bind_parse (parseredirs s ps1) (\<lambda>(rs, ps2). parseargs s ps2 [] rs))"
| "parseblock 0 s ps = NoFuel"
| "parseblock (Suc n) s ps =
     (case peek s ps [40] of (blk, ps1) \<Rightarrow>
      if \<not> blk then Syntax ''parseblock''
      else
        case gettoken s ps1 of (_, _, _, ps2) \<Rightarrow>
        bind_parse (parseline n s ps2) (\<lambda>(cmd, ps3).
        case peek s ps3 [41] of (cls, ps4) \<Rightarrow>
        if \<not> cls then Syntax ''syntax - missing )''
        else
          case gettoken s ps4 of (_, _, _, ps5) \<Rightarrow>
          bind_parse (parseredirs s ps5) (\<lambda>(rs, ps6). Parsed (redircmds cmd rs, ps6))))"

text \<open>\<open>nulterminate\<close>, on the buffer with the command line and its NUL.\<close>

fun nulterminate :: "cmd \<Rightarrow> byte list \<Rightarrow> byte list" where
  "nulterminate (EXEC args) buf = foldl (\<lambda>b (q, eq). b[eq := 0]) buf args"
| "nulterminate (REDIR c q eq mode fd) buf = (nulterminate c buf)[eq := 0]"
| "nulterminate (PIPE l r) buf = nulterminate r (nulterminate l buf)"
| "nulterminate (LIST l r) buf = nulterminate r (nulterminate l buf)"
| "nulterminate (BACK c) buf = nulterminate c buf"

definition parse_fuel :: "byte list \<Rightarrow> nat" where
  "parse_fuel s = 4 * length s + 5"

text \<open>\<open>parsecmd\<close>: the command and the buffer it points into.\<close>

definition parsecmd :: "byte list \<Rightarrow> (cmd \<times> byte list) parse" where
  "parsecmd s =
     bind_parse (parseline (parse_fuel s) s 0) (\<lambda>(cmd, ps).
     case peek s ps [] of (_, ps1) \<Rightarrow>
     if ps1 \<noteq> length s then Syntax ''syntax''
     else Parsed (cmd, nulterminate cmd (s @ [0])))"

end
