(* ===== verification/Shell.thy ===== *)
theory Shell
  imports User Sh
begin

text \<open>
  The shell, user/sh.c: what \<open>runcmd\<close> does with a command the parser built, reading commands, and the
  main loop.
\<close>

definition sh_panic :: "byte list \<Rightarrow> prog" where
  "sh_panic s = fprintf 2 (str ''%s'' @ [10]) [vstr s] (uexit 1)"

definition fork1 :: "(int \<Rightarrow> prog) \<Rightarrow> prog" where
  "fork1 k = sys Fork (\<lambda>a. if a_val a = -1 then sh_panic (str ''fork'') else k (a_val a))"

text \<open>The string that a pointer into the buffer points to.\<close>

definition cstr_at :: "byte list \<Rightarrow> nat \<Rightarrow> byte list" where
  "cstr_at buf q = takeWhile (\<lambda>c. c \<noteq> 0) (drop q buf)"

fun runcmd :: "byte list \<Rightarrow> cmd \<Rightarrow> prog" where
  "runcmd buf (EXEC args) =
     (if args = [] then uexit 1
      else
        let argv = map (\<lambda>(q, _). cstr_at buf q) args in
        sys (Exec (hd argv) argv) (\<lambda>_.
        fprintf 2 (str ''exec %s failed'' @ [10]) [vstr (hd argv)] (uexit 0)))"
| "runcmd buf (REDIR c q eq mode fd) =
     sys (Close (int fd)) (\<lambda>_.
     sys (Open (cstr_at buf q) mode) (\<lambda>a.
     if a_val a < 0 then fprintf 2 (str ''open %s failed'' @ [10]) [vstr (cstr_at buf q)] (uexit 1)
     else runcmd buf c))"
| "runcmd buf (LIST l r) =
     fork1 (\<lambda>pid.
     if pid = 0 then runcmd buf l
     else sys Wait (\<lambda>_. runcmd buf r))"
| "runcmd buf (PIPE l r) =
     sys PipeC (\<lambda>a.
     if a_val a < 0 then sh_panic (str ''pipe'')
     else
       let p0 = fst (a_fds a); p1 = snd (a_fds a) in
       fork1 (\<lambda>pid.
       if pid = 0 then
         sys (Close 1) (\<lambda>_. sys (Dup p1) (\<lambda>_. sys (Close p0) (\<lambda>_. sys (Close p1) (\<lambda>_. runcmd buf l))))
       else
         fork1 (\<lambda>pid.
         if pid = 0 then
           sys (Close 0) (\<lambda>_. sys (Dup p0) (\<lambda>_. sys (Close p0) (\<lambda>_. sys (Close p1) (\<lambda>_. runcmd buf r))))
         else
           sys (Close p0) (\<lambda>_. sys (Close p1) (\<lambda>_. sys Wait (\<lambda>_. sys Wait (\<lambda>_. uexit 0)))))))"
| "runcmd buf (BACK c) = fork1 (\<lambda>pid. if pid = 0 then runcmd buf c else uexit 0)"

text \<open>
  \<open>getcmd\<close>: the prompt, one \<open>read\<close>, and the newline removed. The result is the return value and the
  buffer.
\<close>

definition getcmd :: "nat \<Rightarrow> (int \<Rightarrow> byte list \<Rightarrow> prog) \<Rightarrow> prog" where
  "getcmd nbuf k =
     sys (Write 2 (str ''[eXv6]$ '')) (\<lambda>_.
     sys (Read 0 (nbuf - 1)) (\<lambda>a.
     let n = nat (a_val a); buf = data a @ replicate (nbuf - n) 0 in
     if 0 > a_val a then k (-1) buf
     else if 0 = a_val a then k (-1) buf
     else if buf ! (n - 1) = 10 then k 0 (buf[n - 1 := 0])
     else k 0 (buf[n := 0])))"

text \<open>\<open>runcmd(parsecmd(buf))\<close>, in the child; the parser sees the bytes before the first NUL.\<close>

definition run_line :: "byte list \<Rightarrow> prog" where
  "run_line buf =
     (let s = cstr_at buf 0 in
      case parsecmd s of
        Parsed (c, b) \<Rightarrow> runcmd b c
      | Syntax m \<Rightarrow>
          (case parseline (parse_fuel s) s 0 of
             Parsed (c, ps) \<Rightarrow>
               fprintf 2 (str ''leftovers: %s'' @ [10]) [vstr (drop (snd (peek s ps [])) s)] (sh_panic (str m))
           | _ \<Rightarrow> sh_panic (str m))
      | NoFuel \<Rightarrow> (\<lambda>_. []))"

lemma getcmd_cong [fundef_cong]:
  assumes "nbuf = nbuf'" "as = as'" "\<And>r buf bs. length bs < length as' \<Longrightarrow> k r buf bs = k' r buf bs"
  shows "getcmd nbuf k as = getcmd nbuf' k' as'"
  using assms by (auto simp: getcmd_def Let_def intro!: sys_cong)

lemma fork1_cong [fundef_cong]:
  assumes "as = as'" "\<And>pid bs. length bs < length as' \<Longrightarrow> k pid bs = k' pid bs"
  shows "fork1 k as = fork1 k' as'"
  using assms by (auto simp: fork1_def intro!: sys_cong)

function sh_loop :: prog where
  "sh_loop as =
     getcmd 100 (\<lambda>r buf as.
     if r < 0 then uexit 0 as
     else if buf ! 0 = 99 \<and> buf ! 1 = 100 \<and> buf ! 2 = 32 then
       sys (Chdir (cstr_at buf 3)) (\<lambda>a as.
       if a_val a < 0 then fprintf 2 (str ''cannot cd %s'' @ [10]) [vstr (cstr_at buf 3)] (\<lambda>as. sh_loop as) as
       else sh_loop as) as
     else
       fork1 (\<lambda>pid as.
       if pid = 0 then run_line buf as
       else sys Wait (\<lambda>_ as. sh_loop as) as) as) as"
  by pat_completeness auto
termination by (relation "measure length") auto

function sh_open :: prog where
  "sh_open as =
     sys (Open (str ''console'') O_RDWR) (\<lambda>a as.
     if a_val a \<ge> 0 then
       if a_val a \<ge> 3 then sys (Close (a_val a)) (\<lambda>_. sh_loop) as else sh_open as
     else sh_loop as) as"
  by pat_completeness auto
termination by (relation "measure length") auto

definition sh_main :: prog where
  "sh_main = sh_open"

end
