(* ===== verification/Shparse.thy ===== *)
theory Shparse
  imports Sh
begin

text \<open>
  The parser of the shell returns for every line, and what it returns is in order: every string of
  the command is a word of the line, and after \<open>nulterminate\<close> the strings in the buffer are these
  words.
\<close>

section \<open>Words\<close>





section \<open>Commands in order\<close>







section \<open>The parser returns\<close>

text \<open>A parse from position \<open>ps\<close>: an error, or a good result at a position not before.\<close>

definition parses :: "nat \<Rightarrow> ('a \<Rightarrow> bool) \<Rightarrow> ('a \<times> nat) parse \<Rightarrow> bool" where
  "parses ps P r \<longleftrightarrow> (case r of Parsed (a, ps') \<Rightarrow> P a \<and> ps \<le> ps' | Syntax m \<Rightarrow> True | NoFuel \<Rightarrow> False)"

lemma parses_simps [simp]:
  "parses ps P (Parsed (a, ps')) \<longleftrightarrow> P a \<and> ps \<le> ps'" "parses ps P (Syntax m)" "\<not> parses ps P NoFuel"
  by (simp_all add: parses_def)














section \<open>The strings in the buffer\<close>






section \<open>The whole parser\<close>



end
