(* ===== verification/Mkfs.thy ===== *)
theory Mkfs
  imports Files
begin

text \<open>
  The program that makes the file system image, mkfs/mkfs.c. The image is the list of its blocks;
  \<open>die\<close> and a failed \<open>assert\<close> are \<open>Panic\<close>. The host is a parameter: which sectors it fails to
  write (\<open>bad\<close>), whether the image can be created, and for each file the pieces that \<open>read\<close>
  returns, or \<open>None\<close> when the file cannot be opened. Messages are left out. The host is
  little-endian, as every machine that builds the system is.
\<close>

section \<open>State and layout\<close>

definition NINODES :: nat where "NINODES = 200"
definition nbitmap :: nat where "nbitmap = FSSIZE div BPB + 1"
definition ninodeblocks :: nat where "ninodeblocks = NINODES div IPB + 1"
definition nlog :: nat where "nlog = LOGSIZE"
definition nmeta :: nat where "nmeta = 2 + nlog + ninodeblocks + nbitmap"

definition zeroes :: "byte list" where "zeroes = replicate BSIZE 0"

record mk_st =
  img :: "byte list list"
  msb :: superblock
  freeinode :: u32
  freeblock :: u32
  bad :: "nat \<Rightarrow> bool"

text \<open>The bytes of the result are those of the argument, the lowest first.\<close>

definition xshort :: "u16 \<Rightarrow> u16" where
  "xshort x = of_le [ucast x, ucast (drop_bit 8 x)]"

definition xint :: "u32 \<Rightarrow> u32" where
  "xint x = of_le [ucast x, ucast (drop_bit 8 x), ucast (drop_bit 16 x), ucast (drop_bit 24 x)]"

section \<open>Sectors\<close>

text \<open>The block at the offset \<open>sec * BSIZE\<close>, a product of 32 bits.\<close>

definition sect_no :: "u32 \<Rightarrow> nat" where
  "sect_no sec = unat (sec * of_nat BSIZE) div BSIZE"

definition wsect :: "u32 \<Rightarrow> byte list \<Rightarrow> (mk_st, unit) kmon" where
  "wsect sec buf =
     (let n = sect_no sec in
      bnd (gets bad) (\<lambda>b.
      bnd (panic_if (b n) ''write'') (\<lambda>_.
      modify (\<lambda>s. s\<lparr>img := (if n < length (img s) then (img s)[n := buf]
        else img s @ replicate (n - length (img s)) zeroes @ [buf])\<rparr>))))"

definition rsect :: "u32 \<Rightarrow> (mk_st, byte list) kmon" where
  "rsect sec =
     (let n = sect_no sec in
      bnd (gets img) (\<lambda>bs.
      bnd (panic_if (n \<ge> length bs) ''read'') (\<lambda>_.
      ret (bs ! n))))"

section \<open>Inodes\<close>

definition winode :: "u32 \<Rightarrow> dinode \<Rightarrow> (mk_st, unit) kmon" where
  "winode inum ip =
     bnd (gets msb) (\<lambda>sb.
     let bn = IBLOCK inum sb in
     bnd (rsect bn) (\<lambda>buf.
     wsect bn (put_bytes (64 * (unat inum mod IPB)) (dinode_bytes ip) buf)))"

definition rinode :: "u32 \<Rightarrow> (mk_st, dinode) kmon" where
  "rinode inum =
     bnd (gets msb) (\<lambda>sb.
     bnd (rsect (IBLOCK inum sb)) (\<lambda>buf.
     ret (dinode_at (unat inum mod IPB) buf)))"

definition mk_ialloc :: "u16 \<Rightarrow> (mk_st, u32) kmon" where
  "mk_ialloc type =
     bnd (gets freeinode) (\<lambda>inum.
     bnd (modify (\<lambda>s. s\<lparr>freeinode := inum + 1\<rparr>)) (\<lambda>_.
     bnd (winode inum \<lparr>d_type = xshort type, d_major = 0, d_minor = 0, d_nlink = xshort 1,
       d_size = xint 0, d_addrs = replicate (NDIRECT + 1) 0\<rparr>) (\<lambda>_.
     ret inum)))"

definition bitmap :: "nat \<Rightarrow> byte list" where
  "bitmap used = fold (\<lambda>i buf. buf[i div 8 := buf ! (i div 8) OR bit_mask i]) [0..<used] (replicate BSIZE 0)"

definition mk_balloc :: "nat \<Rightarrow> (mk_st, unit) kmon" where
  "mk_balloc used =
     bnd (panic_if (used \<ge> BPB) ''assert'') (\<lambda>_.
     bnd (gets msb) (\<lambda>sb.
     wsect (sb_bmapstart sb) (bitmap used)))"

section \<open>Appending to a file\<close>

text \<open>\<open>freeblock++\<close>\<close>

definition take_block :: "(mk_st, u32) kmon" where
  "take_block =
     bnd (gets freeblock) (\<lambda>b.
     bnd (modify (\<lambda>s. s\<lparr>freeblock := b + 1\<rparr>)) (\<lambda>_.
     ret b))"

text \<open>The block \<open>x\<close> of the file, allocated when it is missing.\<close>

definition iappend_block :: "dinode \<Rightarrow> nat \<Rightarrow> (mk_st, dinode \<times> u32) kmon" where
  "iappend_block din fbn =
     (if fbn < NDIRECT then
        bnd (if xint (d_addrs din ! fbn) = 0
             then bnd take_block (\<lambda>b. ret (din\<lparr>d_addrs := (d_addrs din)[fbn := xint b]\<rparr>))
             else ret din) (\<lambda>din.
        ret (din, xint (d_addrs din ! fbn)))
      else
        bnd (if xint (d_addrs din ! NDIRECT) = 0
             then bnd take_block (\<lambda>b. ret (din\<lparr>d_addrs := (d_addrs din)[NDIRECT := xint b]\<rparr>))
             else ret din) (\<lambda>din.
        bnd (rsect (xint (d_addrs din ! NDIRECT))) (\<lambda>indirect.
        if get_le (4 * (fbn - NDIRECT)) indirect = (0 :: u32) then
          bnd take_block (\<lambda>b.
          bnd (wsect (xint (d_addrs din ! NDIRECT)) (put_le (4 * (fbn - NDIRECT)) (xint b) indirect)) (\<lambda>_.
          ret (din, xint (xint b))))
        else ret (din, xint (get_le (4 * (fbn - NDIRECT)) indirect)))))"

function iappend_loop :: "dinode \<Rightarrow> nat \<Rightarrow> byte list \<Rightarrow> (mk_st, dinode \<times> nat) kmon" where
  "iappend_loop din off p =
     (if p = [] then ret (din, off)
      else
        let fbn = off div BSIZE in
        bnd (panic_if (fbn \<ge> MAXFILE) ''assert'') (\<lambda>_.
        bnd (iappend_block din fbn) (\<lambda>(din, x).
        let n1 = min (length p) ((fbn + 1) * BSIZE - off) in
        bnd (rsect x) (\<lambda>buf.
        bnd (wsect x (put_bytes (off - fbn * BSIZE) (take n1 p) buf)) (\<lambda>_.
        iappend_loop din (off + n1) (drop n1 p))))))"
  by pat_completeness auto
termination
proof (relation "measure (\<lambda>(_, _, p). length p)")
  fix off fbn n1 :: nat and p :: "byte list" and din din' :: dinode
  assume a: "p \<noteq> []" "fbn = off div BSIZE" "n1 = min (length p) ((fbn + 1) * BSIZE - off)"
  have "off < (off div BSIZE + 1) * BSIZE" by (simp add: dividend_less_div_times BSIZE_def)
  then have "0 < n1" using a by simp
  then show "((din', off + n1, drop n1 p), (din, off, p)) \<in> measure (\<lambda>(_, _, p). length p)" using a(1) by simp
qed simp

declare iappend_loop.simps [simp del]

text \<open>The offset stays below \<open>MAXFILE * BSIZE\<close>, so it never wraps.\<close>

definition iappend :: "u32 \<Rightarrow> byte list \<Rightarrow> (mk_st, unit) kmon" where
  "iappend inum p =
     bnd (rinode inum) (\<lambda>din.
     bnd (iappend_loop din (unat (xint (d_size din))) p) (\<lambda>(din, off).
     winode inum (din\<lparr>d_size := xint (of_nat off)\<rparr>)))"

section \<open>The main program\<close>

definition mk_super :: superblock where
  "mk_super =
     \<lparr>sb_magic = FSMAGIC, sb_size = xint (of_nat FSSIZE), sb_nblocks = xint (of_nat (FSSIZE - nmeta)),
      sb_ninodes = xint (of_nat NINODES), sb_nlog = xint (of_nat nlog), sb_logstart = xint 2,
      sb_inodestart = xint (of_nat (2 + nlog)), sb_bmapstart = xint (of_nat (2 + nlog + ninodeblocks))\<rparr>"

definition super_bytes :: "superblock \<Rightarrow> byte list" where
  "super_bytes b = concat (map to_le
     [sb_magic b, sb_size b, sb_nblocks b, sb_ninodes b, sb_nlog b, sb_logstart b, sb_inodestart b, sb_bmapstart b])"

text \<open>A directory entry: \<open>strcpy\<close> or \<open>strncpy\<close> into the zeroed \<open>de\<close>.\<close>

definition mk_dirent :: "u32 \<Rightarrow> byte list \<Rightarrow> byte list" where
  "mk_dirent inum name = to_le (xshort (ucast inum)) @ take DIRSIZ (name @ replicate DIRSIZ 0)"

definition user_dir :: "byte list" where "user_dir = [117, 115, 101, 114, 47]"

definition shortname :: "byte list \<Rightarrow> byte list" where
  "shortname arg = (if take 5 arg = user_dir then drop 5 arg else arg)"

definition unmarked :: "byte list \<Rightarrow> byte list" where
  "unmarked name = (if name \<noteq> [] \<and> hd name = 95 then tl name else name)"

text \<open>The body of the loop over the files; a \<open>read\<close> that returns nothing ends the inner loop.\<close>

definition mk_file :: "(byte list \<Rightarrow> byte list list option) \<Rightarrow> u32 \<Rightarrow> byte list \<Rightarrow> (mk_st, unit) kmon" where
  "mk_file host rootino arg =
     bnd (panic_if (slash \<in> set (shortname arg)) ''assert'') (\<lambda>_.
     case host arg of
       None \<Rightarrow> panic ''open''
     | Some pieces \<Rightarrow>
         let name = unmarked (shortname arg) in
         bnd (panic_if (length name > DIRSIZ) ''assert'') (\<lambda>_.
         bnd (mk_ialloc T_FILE) (\<lambda>inum.
         bnd (iappend rootino (mk_dirent inum name)) (\<lambda>_.
         forM (takeWhile (\<lambda>p. p \<noteq> []) pieces) (iappend inum)))))"

definition mk_format :: "(mk_st, u32) kmon" where
  "mk_format =
     bnd (modify (\<lambda>s. s\<lparr>img := [], msb := mk_super, freeblock := of_nat nmeta\<rparr>)) (\<lambda>_.
     bnd (forM [0..<FSSIZE] (\<lambda>i. wsect (of_nat i) zeroes)) (\<lambda>_.
     bnd (wsect 1 (put_bytes 0 (super_bytes mk_super) zeroes)) (\<lambda>_.
     bnd (mk_ialloc T_DIR) (\<lambda>rootino.
     bnd (panic_if (rootino \<noteq> ROOTINO) ''assert'') (\<lambda>_.
     bnd (iappend rootino (mk_dirent rootino [46])) (\<lambda>_.
     bnd (iappend rootino (mk_dirent rootino [46, 46])) (\<lambda>_.
     ret rootino)))))))"

definition mk_finish :: "u32 \<Rightarrow> (mk_st, unit) kmon" where
  "mk_finish rootino =
     bnd (rinode rootino) (\<lambda>din.
     let off = xint (d_size din); off = (off div of_nat BSIZE + 1) * of_nat BSIZE in
     bnd (winode rootino (din\<lparr>d_size := xint off\<rparr>)) (\<lambda>_.
     bnd (gets freeblock) (\<lambda>used.
     mk_balloc (unat used))))"

definition mkfs_main ::
  "(byte list \<Rightarrow> bool) \<Rightarrow> (byte list \<Rightarrow> byte list list option) \<Rightarrow> byte list list \<Rightarrow> (mk_st, unit) kmon" where
  "mkfs_main creat host argv =
     bnd (panic_if (length argv < 2) ''Usage: mkfs fs.img files...'') (\<lambda>_.
     bnd (panic_if (\<not> creat (argv ! 1)) ''open'') (\<lambda>_.
     bnd mk_format (\<lambda>rootino.
     bnd (forM (drop 2 argv) (mk_file host rootino)) (\<lambda>_.
     mk_finish rootino))))"

end
