(* ===== verification/Mkimage.thy ===== *)
theory Mkimage
  imports Mkfs
begin

text \<open>
  What \<open>iappend\<close> of mkfs/mkfs.c does to the blocks of the image: the file gets the new bytes at its
  end, in blocks of its own, and no block of another file changes.
\<close>

section \<open>Numbers and bytes\<close>

lemma byte_of_shift:
  "(of_nat (unat (x :: 'a::len word) div 2 ^ n) :: byte) = ucast (drop_bit n x)"
  by (simp add: word_unat_eq_iff unat_of_nat unsigned_ucast_eq take_bit_eq_mod unat_drop_bit_eq)
    (simp add: drop_bit_eq_div)

lemma le_bytes_shift:
  "le_bytes 4 n = [of_nat (n div 2 ^ 0), of_nat (n div 2 ^ 8), of_nat (n div 2 ^ 16), of_nat (n div 2 ^ 24)]"
  "le_bytes 2 n = [of_nat (n div 2 ^ 0), of_nat (n div 2 ^ 8)]"
proof -
  have "le_bytes (Suc (Suc (Suc (Suc 0)))) n =
      [of_nat n, of_nat (n div 256), of_nat (n div 256 div 256), of_nat (n div 256 div 256 div 256)]" by simp
  moreover have "4 = Suc (Suc (Suc (Suc 0)))" "n div 256 div 256 = n div 2 ^ 16" "n div 256 div 256 div 256 = n div 2 ^ 24"
    by (simp_all add: div_mult2_eq [symmetric])
  ultimately show "le_bytes 4 n = [of_nat (n div 2 ^ 0), of_nat (n div 2 ^ 8), of_nat (n div 2 ^ 16), of_nat (n div 2 ^ 24)]"
    by (simp only: power_0 div_by_1) simp
  have "le_bytes (Suc (Suc 0)) n = [of_nat n, of_nat (n div 256)]" by simp
  then show "le_bytes 2 n = [of_nat (n div 2 ^ 0), of_nat (n div 2 ^ 8)]" by (simp only: numeral_2_eq_2 [symmetric]) simp
qed

lemma xint_id [simp]: "xint x = x"
proof -
  have "to_le x = le_bytes 4 (unat x)" by (simp add: to_le_def)
  also have "\<dots> = [ucast x, ucast (drop_bit 8 x), ucast (drop_bit 16 x), ucast (drop_bit 24 x)]"
    unfolding le_bytes_shift byte_of_shift by simp
  finally show ?thesis by (metis xint_def of_le_to_le(2))
qed

lemma xshort_id [simp]: "xshort x = x"
proof -
  have "to_le x = le_bytes 2 (unat x)" by (simp add: to_le_def)
  also have "\<dots> = [ucast x, ucast (drop_bit 8 x)]" unfolding le_bytes_shift byte_of_shift by simp
  finally show ?thesis by (metis xshort_def of_le_to_le(1))
qed

lemmas layout = nmeta_def nlog_def ninodeblocks_def nbitmap_def NINODES_def FSSIZE_def LOGSIZE_def MAXOPBLOCKS_def
  IPB_def BPB_def BSIZE_def

lemma nmeta_val: "nmeta = 46" by (simp add: layout)

lemma length_put_bytes: "off + length bs \<le> length d \<Longrightarrow> length (put_bytes off bs d) = length d"
  by (simp add: put_bytes_def)

lemma put_bytes_nth:
  assumes "off + length bs \<le> length d" "i < length d"
  shows "put_bytes off bs d ! i = (if off \<le> i \<and> i < off + length bs then bs ! (i - off) else d ! i)"
  using assms by (auto simp: put_bytes_def nth_append)

lemma get_le_put_bytes:
  assumes "off + length bs \<le> length d" "o' + LENGTH('a) div 8 \<le> length bs"
  shows "get_le (off + o') (put_bytes off bs d) = (get_le o' bs :: 'a::len word)"
proof -
  have "take (LENGTH('a) div 8) (drop (off + o') (put_bytes off bs d)) = take (LENGTH('a) div 8) (drop o' bs)"
    using assms by (intro nth_equalityI) (auto simp: put_bytes_nth length_put_bytes)
  then show ?thesis by (simp add: get_le_def)
qed

lemma get_le_put_bytes_other:
  assumes "off + length bs \<le> length d" "o' + LENGTH('a) div 8 \<le> off \<or> off + length bs \<le> o'" "o' + LENGTH('a) div 8 \<le> length d"
  shows "get_le o' (put_bytes off bs d) = (get_le o' d :: 'a::len word)"
proof -
  have "take (LENGTH('a) div 8) (drop o' (put_bytes off bs d)) = take (LENGTH('a) div 8) (drop o' d)"
    using assms by (intro nth_equalityI) (auto simp: put_bytes_nth length_put_bytes)
  then show ?thesis by (simp add: get_le_def)
qed

lemma length_concat_to_le: "length (concat (map to_le (xs :: u32 list))) = 4 * length xs"
  by (induction xs) simp_all

lemma concat_to_le: "i < length xs \<Longrightarrow> take 4 (drop (4 * i) (concat (map to_le (xs :: u32 list)))) = to_le (xs ! i)"
proof (induction xs arbitrary: i)
  case (Cons x xs)
  then show ?case by (cases i) simp_all
qed simp

text \<open>A dinode is read back, and the other dinodes of the block are as before.\<close>

lemma length_dinode_bytes: "length (d_addrs d) = NDIRECT + 1 \<Longrightarrow> length (dinode_bytes d) = 64"
  by (simp add: dinode_bytes_def length_concat_to_le NDIRECT_def)

lemma dinode_at_bytes:
  assumes "length (d_addrs d) = NDIRECT + 1"
  shows "dinode_at 0 (dinode_bytes d) = d"
proof -
  have "get_le (12 + 4 * i) (dinode_bytes d) = d_addrs d ! i" if "i < length (d_addrs d)" for i
  proof -
    have "drop (12 + 4 * i) (dinode_bytes d) = drop (4 * i) (concat (map to_le (d_addrs d)))"
      by (simp add: dinode_bytes_def)
    then show ?thesis using concat_to_le [OF that] by (simp add: get_le_def)
  qed
  then have "map (\<lambda>i. get_le (12 + 4 * i) (dinode_bytes d)) [0..<NDIRECT + 1] = d_addrs d"
    unfolding assms [symmetric] by (intro nth_equalityI) simp_all
  moreover have "get_le 0 (dinode_bytes d) = d_type d" "get_le 2 (dinode_bytes d) = d_major d"
      "get_le 4 (dinode_bytes d) = d_minor d" "get_le 6 (dinode_bytes d) = d_nlink d" "get_le 8 (dinode_bytes d) = d_size d"
    by (simp_all add: get_le_def dinode_bytes_def)
  ultimately show ?thesis by (simp add: dinode_at_def del: add_2_eq_Suc add_2_eq_Suc')
qed

lemma dinode_at_put:
  assumes "length (d_addrs d) = NDIRECT + 1" "length blk = BSIZE" "k < IPB" "j < IPB"
  shows "dinode_at j (put_bytes (64 * k) (dinode_bytes d) blk) = (if j = k then d else dinode_at j blk)"
proof -
  have b: "64 * k + length (dinode_bytes d) \<le> length blk" "64 * j + 64 \<le> length blk" "length (dinode_bytes d) = 64"
    using assms length_dinode_bytes by (simp_all add: IPB_def BSIZE_def)
  show ?thesis
  proof (cases "j = k")
    case True
    have "dinode_at k (put_bytes (64 * k) (dinode_bytes d) blk) = dinode_at 0 (dinode_bytes d)"
      using b get_le_put_bytes [OF b(1), of 0, where ?'a = 16]
      by (auto simp: dinode_at_def NDIRECT_def get_le_put_bytes [OF b(1)] add.assoc simp del: add_2_eq_Suc add_2_eq_Suc')
    then show ?thesis using True dinode_at_bytes [OF assms(1)] by simp
  next
    case False
    then have "64 * j + 64 \<le> 64 * k \<or> 64 * k + 64 \<le> 64 * j" by linarith
    then show ?thesis using False b
      by (auto simp: dinode_at_def NDIRECT_def get_le_put_bytes_other)
  qed
qed


section \<open>The image\<close>

definition blk :: "mk_st \<Rightarrow> u32 \<Rightarrow> byte list" where
  "blk s b = img s ! unat b"

text \<open>All blocks are there and have the right length; those not yet handed out are zero.\<close>

definition img_ok :: "mk_st \<Rightarrow> bool" where
  "img_ok s \<longleftrightarrow> length (img s) = FSSIZE \<and> (\<forall>b \<in> set (img s). length b = BSIZE) \<and> (\<forall>n. \<not> bad s n) \<and>
     msb s = mk_super \<and> nmeta \<le> unat (freeblock s) \<and> unat (freeblock s) \<le> FSSIZE \<and>
     (\<forall>n. unat (freeblock s) \<le> n \<and> n < FSSIZE \<longrightarrow> img s ! n = zeroes)"

abbreviation set_blk :: "u32 \<Rightarrow> byte list \<Rightarrow> mk_st \<Rightarrow> mk_st" where
  "set_blk b v s \<equiv> s\<lparr>img := (img s)[unat b := v]\<rparr>"

lemma img_ok_D:
  assumes "img_ok s"
  shows "length (img s) = FSSIZE" "msb s = mk_super" "nmeta \<le> unat (freeblock s)" "unat (freeblock s) \<le> FSSIZE" "\<not> bad s n"
    "unat b < FSSIZE \<Longrightarrow> length (blk s b) = BSIZE"
    "unat (freeblock s) \<le> unat b \<Longrightarrow> unat b < FSSIZE \<Longrightarrow> blk s b = zeroes"
  using assms by (auto simp: img_ok_def blk_def)

lemma sect_no_small: "unat b < FSSIZE \<Longrightarrow> sect_no b = unat b"
proof -
  assume "unat b < FSSIZE"
  then have "unat (b * of_nat BSIZE) = unat b * BSIZE"
    by (simp add: unat_word_ariths BSIZE_def FSSIZE_def)
  then show ?thesis by (simp add: sect_no_def BSIZE_def)
qed

lemma rsect_ok: "img_ok s \<Longrightarrow> unat b < FSSIZE \<Longrightarrow> rsect b s = Ok (blk s b) s"
  by (simp add: rsect_def sect_no_small img_ok_D(1) blk_def Let_def)

lemma wsect_ok: "img_ok s \<Longrightarrow> unat b < FSSIZE \<Longrightarrow> wsect b v s = Ok () (set_blk b v s)"
  by (simp add: wsect_def sect_no_small img_ok_D(1,5) Let_def)

lemma blk_set_blk: "img_ok s \<Longrightarrow> unat b < FSSIZE \<Longrightarrow> blk (set_blk b v s) = (blk s)(b := v)"
  by (rule ext) (auto simp: blk_def nth_list_update img_ok_D(1) nth_list_update_neq dest: word_unat_eq_iff [THEN iffD2])

lemma img_ok_set_blk: "img_ok s \<Longrightarrow> unat b < unat (freeblock s) \<Longrightarrow> length v = BSIZE \<Longrightarrow> img_ok (set_blk b v s)"
  by (auto simp: img_ok_def nth_list_update_if dest: subsetD [OF set_update_subset_insert])

lemma take_block_ok:
  assumes "img_ok s" "unat (freeblock s) < FSSIZE"
  shows "\<exists>t. take_block s = Ok (freeblock s) t \<and> t = s\<lparr>freeblock := freeblock s + 1\<rparr> \<and> img_ok t \<and> blk t = blk s \<and>
    unat (freeblock t) = unat (freeblock s) + 1"
proof -
  have "unat (freeblock s + 1) = unat (freeblock s) + 1"
    using unat_add_small [of "freeblock s" 1] assms(2) by (simp add: FSSIZE_def)
  then show ?thesis using assms by (simp add: take_block_def img_ok_def blk_def [abs_def])
qed

section \<open>The blocks of a file\<close>

text \<open>
  The first \<open>nb\<close> blocks of the file are there, different from each other and from the indirect block,
  and lie between the metadata and the blocks not yet handed out. The other addresses are zero.
\<close>

definition mapped :: "(u32 \<Rightarrow> byte list) \<Rightarrow> u32 list \<Rightarrow> nat \<Rightarrow> nat \<Rightarrow> bool" where
  "mapped C addrs nb fb \<longleftrightarrow>
     length addrs = NDIRECT + 1 \<and> nb \<le> MAXFILE \<and>
     (\<forall>bn < nb. nmeta \<le> unat (fblock C addrs bn) \<and> unat (fblock C addrs bn) < fb \<and> fblock C addrs bn \<noteq> addrs ! NDIRECT) \<and>
     inj_on (fblock C addrs) {..<nb} \<and>
     (if NDIRECT < nb then nmeta \<le> unat (addrs ! NDIRECT) \<and> unat (addrs ! NDIRECT) < fb else addrs ! NDIRECT = 0) \<and>
     (\<forall>bn. nb \<le> bn \<and> bn < (if NDIRECT < nb then MAXFILE else NDIRECT) \<longrightarrow> fblock C addrs bn = 0)"

definition filled :: "(u32 \<Rightarrow> byte list) \<Rightarrow> u32 list \<Rightarrow> nat \<Rightarrow> u32 set" where
  "filled C addrs nb = fblock C addrs ` {..<nb} \<union> (if NDIRECT < nb then {addrs ! NDIRECT} else {})"

definition used :: "nat \<Rightarrow> nat" where
  "used nb = nb + (if NDIRECT < nb then 1 else 0)"

lemma used_mono: "m \<le> n \<Longrightarrow> used m \<le> used n"
  by (simp add: used_def)

lemma fblock_cong: "C' (addrs ! NDIRECT) = C (addrs ! NDIRECT) \<Longrightarrow> fblock C' addrs = fblock C addrs"
  by (rule ext) (simp add: fblock_def)

lemma mapped_cong:
  assumes "C' (addrs ! NDIRECT) = C (addrs ! NDIRECT)"
  shows "mapped C' addrs nb fb = mapped C addrs nb fb" "filled C' addrs nb = filled C addrs nb"
  by (simp_all add: mapped_def filled_def fblock_cong [of C' addrs C] assms)

lemma mapped_mono: "mapped C addrs nb fb \<Longrightarrow> fb \<le> fb' \<Longrightarrow> mapped C addrs nb fb'"
  by (auto simp: mapped_def)

lemma mapped_filled: "mapped C addrs nb fb \<Longrightarrow> b \<in> filled C addrs nb \<Longrightarrow> nmeta \<le> unat b \<and> unat b < fb"
  by (auto simp: mapped_def filled_def split: if_splits)

text \<open>The file grows from \<open>nb\<close> to \<open>nb'\<close> blocks; no block of another file is touched.\<close>

definition extends :: "mk_st \<Rightarrow> u32 list \<Rightarrow> nat \<Rightarrow> mk_st \<Rightarrow> u32 list \<Rightarrow> nat \<Rightarrow> bool" where
  "extends s addrs nb t addrs' nb' \<longleftrightarrow>
     nb \<le> nb' \<and> img_ok t \<and> mapped (blk t) addrs' nb' (unat (freeblock t)) \<and>
     unat (freeblock t) = unat (freeblock s) + (used nb' - used nb) \<and>
     (\<forall>bn < nb. fblock (blk t) addrs' bn = fblock (blk s) addrs bn) \<and>
     (\<forall>b. unat b < unat (freeblock s) \<and> b \<notin> filled (blk s) addrs nb \<longrightarrow> blk t b = blk s b) \<and>
     (\<forall>b \<in> filled (blk t) addrs' nb'. b \<in> filled (blk s) addrs nb \<or> unat (freeblock s) \<le> unat b) \<and>
     (\<exists>i f. t = s\<lparr>img := i, freeblock := f\<rparr>)"

lemma extends_refl:
  assumes "img_ok s" "mapped (blk s) addrs nb (unat (freeblock s))"
  shows "extends s addrs nb s addrs nb"
  using assms unfolding extends_def by (intro conjI exI [of _ "img s"] exI [of _ "freeblock s"]) simp_all

lemma extends_trans:
  assumes "extends s addrs nb t addrs' nb'" "extends t addrs' nb' u addrs'' nb''"
  shows "extends s addrs nb u addrs'' nb''"
proof -
  have le: "nb \<le> nb'" "nb' \<le> nb''" "used nb \<le> used nb'" "used nb' \<le> used nb''"
    using assms by (simp_all add: extends_def used_mono)
  have fb: "unat (freeblock s) \<le> unat (freeblock t)" using assms(1) by (simp add: extends_def)
  have "blk u b = blk s b" if b: "unat b < unat (freeblock s)" "b \<notin> filled (blk s) addrs nb" for b
  proof -
    have "b \<notin> filled (blk t) addrs' nb'" using assms(1) b by (auto simp: extends_def)
    then show ?thesis using assms b fb by (simp add: extends_def)
  qed
  moreover have "b \<in> filled (blk s) addrs nb \<or> unat (freeblock s) \<le> unat b" if "b \<in> filled (blk u) addrs'' nb''" for b
    using assms that fb unfolding extends_def by (meson le_trans)
  moreover obtain i f i' f' where "t = s\<lparr>img := i, freeblock := f\<rparr>" "u = t\<lparr>img := i', freeblock := f'\<rparr>"
    using assms unfolding extends_def by blast
  then have "u = s\<lparr>img := i', freeblock := f'\<rparr>" by simp
  then have "\<exists>i f. u = s\<lparr>img := i, freeblock := f\<rparr>" by blast
  moreover have "unat (freeblock u) = unat (freeblock s) + (used nb'' - used nb)" using assms le by (simp add: extends_def)
  moreover have "img_ok u" "mapped (blk u) addrs'' nb'' (unat (freeblock u))" using assms(2) unfolding extends_def by blast+
  moreover have "\<forall>bn < nb. fblock (blk u) addrs'' bn = fblock (blk s) addrs bn" using assms le by (simp add: extends_def)
  ultimately show ?thesis using le unfolding extends_def by (intro conjI) auto
qed

text \<open>Writing a data block of the file.\<close>

lemma extends_write:
  assumes "img_ok s" "mapped (blk s) addrs nb (unat (freeblock s))" "bn < nb" "length v = BSIZE"
  shows "extends s addrs nb (set_blk (fblock (blk s) addrs bn) v s) addrs nb"
    "blk (set_blk (fblock (blk s) addrs bn) v s) = (blk s)(fblock (blk s) addrs bn := v)"
proof -
  let ?x = "fblock (blk s) addrs bn"
  have x: "unat ?x < unat (freeblock s)" "?x \<noteq> addrs ! NDIRECT" "?x \<in> filled (blk s) addrs nb"
    using assms(2,3) by (auto simp: mapped_def filled_def)
  have "unat ?x < FSSIZE" using x(1) img_ok_D(4) [OF assms(1)] by linarith
  then show b: "blk (set_blk ?x v s) = (blk s)(?x := v)" by (rule blk_set_blk [OF assms(1)])
  have "((blk s)(?x := v)) (addrs ! NDIRECT) = blk s (addrs ! NDIRECT)" using x(2) by simp
  note c = mapped_cong [of "(blk s)(?x := v)" addrs "blk s", OF this] fblock_cong [of "(blk s)(?x := v)" addrs "blk s", OF this]
  have "\<exists>i f. set_blk ?x v s = s\<lparr>img := i, freeblock := f\<rparr>"
    by (intro exI [of _ "(img s)[unat ?x := v]"] exI [of _ "freeblock s"]) simp
  then show "extends s addrs nb (set_blk ?x v s) addrs nb"
    using assms(2) x img_ok_set_blk [OF assms(1) x(1) assms(4)] unfolding extends_def b by (auto simp: c)
qed


text \<open>One more block, \<open>y\<close>; the indirect block comes with the first block behind the direct ones.\<close>

lemma extends_add:
  assumes m: "mapped (blk s) addrs nb (unat (freeblock s))" and nb: "nb < MAXFILE" and ok: "img_ok t"
    and sel: "\<exists>i f. t = s\<lparr>img := i, freeblock := f\<rparr>" and nm: "nmeta \<le> unat (freeblock s)"
    and fb: "unat (freeblock t) = unat (freeblock s) + (used (nb + 1) - used nb)" and len: "length addrs' = NDIRECT + 1"
    and same: "\<forall>bn < nb. fblock (blk t) addrs' bn = fblock (blk s) addrs bn"
    and new: "unat (freeblock s) \<le> unat (fblock (blk t) addrs' nb)" "unat (fblock (blk t) addrs' nb) < unat (freeblock t)"
      "fblock (blk t) addrs' nb \<noteq> addrs' ! NDIRECT"
    and ind: "if nb < NDIRECT then addrs' ! NDIRECT = 0 else if nb = NDIRECT
        then unat (freeblock s) \<le> unat (addrs' ! NDIRECT) \<and> unat (addrs' ! NDIRECT) < unat (freeblock t)
        else addrs' ! NDIRECT = addrs ! NDIRECT"
    and rest: "\<forall>bn. nb < bn \<and> bn < (if nb < NDIRECT then NDIRECT else MAXFILE) \<longrightarrow> fblock (blk t) addrs' bn = 0"
    and frame: "\<forall>b. unat b < unat (freeblock s) \<and> b \<notin> filled (blk s) addrs nb \<longrightarrow> blk t b = blk s b"
  shows "extends s addrs nb t addrs' (nb + 1)"
proof -
  let ?f = "fblock (blk t) addrs'" and ?s = "unat (freeblock s)" and ?t = "unat (freeblock t)"
  have st: "?s \<le> ?t" using fb by simp
  have old: "nmeta \<le> unat (?f bn)" "unat (?f bn) < ?s" if "bn < nb" for bn using m same that by (auto simp: mapped_def)
  have range: "nmeta \<le> unat (?f bn) \<and> unat (?f bn) < ?t" if "bn < nb + 1" for bn
    using old [of bn] new nm st that by (cases "bn = nb") auto
  have z: "unat b = 0 \<Longrightarrow> b \<noteq> ?f bn" if "bn < nb + 1" for b bn using range [OF that] by (auto simp: nmeta_val)
  have apart: "?f bn \<noteq> addrs' ! NDIRECT" if "bn < nb + 1" for bn
  proof (cases "bn = nb")
    case False
    then have bn: "bn < nb" using that by simp
    consider "nb < NDIRECT" | "nb = NDIRECT" | "NDIRECT < nb" by linarith
    then show ?thesis
    proof cases
      case 1 then show ?thesis using ind z [OF that, of 0] by auto
    next
      case 2 then show ?thesis using ind old(2) [OF bn] by auto
    next
      case 3 then show ?thesis using ind same m bn by (simp add: mapped_def)
    qed
  qed (use new in simp)
  have inj: "inj_on ?f {..<nb + 1}"
  proof -
    have "inj_on ?f {..<nb}" using m same unfolding mapped_def inj_on_def by simp
    moreover have "?f nb \<notin> ?f ` {..<nb}"
    proof
      assume "?f nb \<in> ?f ` {..<nb}"
      then obtain bn where "bn < nb" "?f nb = ?f bn" by auto
      then show False using old(2) [of bn] new(1) by simp
    qed
    ultimately show ?thesis by (simp add: lessThan_Suc)
  qed
  have i: "if NDIRECT < nb + 1 then nmeta \<le> unat (addrs' ! NDIRECT) \<and> unat (addrs' ! NDIRECT) < ?t else addrs' ! NDIRECT = 0"
    using ind nm st m by (auto simp: mapped_def split: if_splits)
  have "mapped (blk t) addrs' (nb + 1) ?t"
    using len nb range apart inj i rest unfolding mapped_def by (auto split: if_splits)
  moreover have "b \<in> filled (blk s) addrs nb \<or> ?s \<le> unat b" if "b \<in> filled (blk t) addrs' (nb + 1)" for b
    using that same new(1) ind unfolding filled_def by (auto simp: less_Suc_eq split: if_splits)
  ultimately show ?thesis using assms unfolding extends_def by simp
qed

lemma get_le_zeroes: "get_le off zeroes = (0 :: u32)"
proof -
  have "le_val (replicate n 0) = 0" for n by (induction n) simp_all
  then show ?thesis by (simp add: get_le_def zeroes_def of_le_def)
qed

text \<open>Entering a new block into the indirect block.\<close>

lemma indirect_entry:
  assumes ok: "img_ok s" and ind: "nmeta \<le> unat ind" "unat ind < unat (freeblock s)" and lt: "unat (freeblock s) < FSSIZE"
    and k: "k < NINDIRECT" and z: "get_le (4 * k) (blk s ind) = (0 :: u32)"
  shows "\<exists>t. bnd (rsect ind) (\<lambda>indirect.
      if get_le (4 * k) indirect = (0 :: u32) then
        bnd take_block (\<lambda>b. bnd (wsect ind (put_le (4 * k) b indirect)) (\<lambda>_. ret (d, b)))
      else ret (d, get_le (4 * k) indirect)) s = Ok (d, freeblock s) t \<and> img_ok t \<and>
    blk t = (blk s)(ind := put_le (4 * k) (freeblock s) (blk s ind)) \<and> unat (freeblock t) = unat (freeblock s) + 1 \<and>
    (\<exists>i f. t = s\<lparr>img := i, freeblock := f\<rparr>)"
proof -
  let ?v = "put_le (4 * k) (freeblock s) (blk s ind)"
  have inF: "unat ind < FSSIZE" using ind lt by simp
  obtain u where u: "take_block s = Ok (freeblock s) u" "u = s\<lparr>freeblock := freeblock s + 1\<rparr>" "img_ok u" "blk u = blk s"
    "unat (freeblock u) = unat (freeblock s) + 1" using take_block_ok [OF ok lt] by blast
  have v: "length ?v = BSIZE" using k img_ok_D(6) [OF ok inF] by (simp add: NINDIRECT_def BSIZE_def)
  have "unat ind < unat (freeblock u)" using ind(2) u(5) by simp
  then have "img_ok (set_blk ind ?v u)" by (rule img_ok_set_blk [OF u(3) _ v])
  moreover have "\<exists>i f. set_blk ind ?v u = s\<lparr>img := i, freeblock := f\<rparr>"
    unfolding u(2) by (intro exI [of _ "(img s)[unat ind := ?v]"] exI [of _ "freeblock s + 1"]) simp
  ultimately show ?thesis using z u(1,4,5) blk_set_blk [OF u(3) inF] rsect_ok [OF ok inF] wsect_ok [OF u(3) inF]
    by (simp add: bnd_Ok)
qed

lemma fblock_entry:
  assumes "length (C ind) = BSIZE" "k < NINDIRECT" "addrs ! NDIRECT = ind"
  shows "bn < MAXFILE \<Longrightarrow> fblock (C(ind := put_le (4 * k) y (C ind))) addrs bn =
    (if bn = NDIRECT + k then y else fblock C addrs bn)"
proof -
  assume bn: "bn < MAXFILE"
  have k4: "4 * k + 4 \<le> length (C ind)" using assms by (simp add: NINDIRECT_def BSIZE_def)
  show ?thesis
  proof (cases "bn < NDIRECT \<or> bn = NDIRECT + k")
    case True
    then show ?thesis using assms get_put_le32 [OF k4, of y] by (auto simp: fblock_def)
  next
    case False
    let ?j = "bn - NDIRECT"
    have "4 * ?j + 4 \<le> length (C ind)" using assms(1) bn by (simp add: MAXFILE_def NINDIRECT_def BSIZE_def)
    moreover have "4 * k + 4 \<le> 4 * ?j \<or> 4 * ?j + 4 \<le> 4 * k" using False by linarith
    ultimately show ?thesis using False assms(3) get_put_le32_other [of "4 * k" "4 * ?j" "C ind" y] k4
      by (simp add: fblock_def)
  qed
qed

text \<open>
  \<open>iappend_block\<close> returns block \<open>fbn\<close> of a file that has \<open>nb\<close> blocks, as one of the first blocks of
  a file that has at least \<open>fbn + 1\<close>; only the indirect block is written.
\<close>

definition gives_block :: "dinode \<Rightarrow> nat \<Rightarrow> nat \<Rightarrow> mk_st \<Rightarrow> bool" where
  "gives_block din nb fbn s \<longleftrightarrow> (\<exists>t addrs'.
     iappend_block din fbn s = Ok (din\<lparr>d_addrs := addrs'\<rparr>, fblock (blk t) addrs' fbn) t \<and>
     extends s (d_addrs din) nb t addrs' (max nb (fbn + 1)) \<and> (\<forall>b. b \<noteq> addrs' ! NDIRECT \<longrightarrow> blk t b = blk s b))"

lemma gives_blockI:
  "iappend_block din fbn s = Ok (din\<lparr>d_addrs := addrs'\<rparr>, fblock (blk t) addrs' fbn) t \<Longrightarrow>
   extends s (d_addrs din) nb t addrs' (max nb (fbn + 1)) \<Longrightarrow> (\<And>b. b \<noteq> addrs' ! NDIRECT \<Longrightarrow> blk t b = blk s b) \<Longrightarrow>
   gives_block din nb fbn s"
  by (auto simp: gives_block_def)

text \<open>The block is there.\<close>

lemma iappend_block_present:
  assumes ok: "img_ok s" and m: "mapped (blk s) (d_addrs din) nb (unat (freeblock s))"
    and fbn: "fbn < MAXFILE" and sp: "unat (freeblock s) + (used (max nb (fbn + 1)) - used nb) \<le> FSSIZE" and c: "fbn < nb"
  shows "gives_block din nb fbn s"
proof -
  let ?a = "d_addrs din"
  have len: "length ?a = NDIRECT + 1" using m by (simp add: mapped_def)
  have nz: "fblock (blk s) ?a fbn \<noteq> 0" "NDIRECT < nb \<Longrightarrow> ?a ! NDIRECT \<noteq> 0 \<and> unat (?a ! NDIRECT) < FSSIZE"
    using c m img_ok_D(4) [OF ok] by (auto simp: mapped_def nmeta_val split: if_splits)
  then have "iappend_block din fbn s = Ok (din\<lparr>d_addrs := ?a\<rparr>, fblock (blk s) ?a fbn) s"
    using c rsect_ok [OF ok, of "?a ! NDIRECT"] by (auto simp: iappend_block_def fblock_def bnd_Ok)
  then show ?thesis by (rule gives_blockI) (use extends_refl [OF ok m] c in \<open>simp_all add: max.absorb1\<close>)
qed

text \<open>A new direct block.\<close>

lemma iappend_block_direct:
  assumes ok: "img_ok s" and m: "mapped (blk s) (d_addrs din) nb (unat (freeblock s))"
    and fbn: "fbn < MAXFILE" and sp: "unat (freeblock s) + (used (max nb (fbn + 1)) - used nb) \<le> FSSIZE" and c: "fbn = nb" "nb < NDIRECT"
  shows "gives_block din nb fbn s"
proof -
  let ?a = "d_addrs din"
  have len: "length ?a = NDIRECT + 1" using m by (simp add: mapped_def)
  note nm = img_ok_D(3) [OF ok]
  have u: "used (nb + 1) - used nb = 1" using c by (simp add: used_def)
  have lt: "unat (freeblock s) < FSSIZE" using sp c u by simp
  obtain t where tb: "take_block s = Ok (freeblock s) t" "t = s\<lparr>freeblock := freeblock s + 1\<rparr>" "img_ok t" "blk t = blk s"
    "unat (freeblock t) = unat (freeblock s) + 1" using take_block_ok [OF ok lt] by blast
  let ?a' = "?a[nb := freeblock s]"
  have f: "fblock (blk t) ?a' bn = (if bn = nb then freeblock s else fblock (blk s) ?a bn)" for bn
    using c len tb(4) by (simp add: fblock_def)
  have i: "?a' ! NDIRECT = 0" using c m by (simp add: mapped_def)
  have z: "?a ! nb = 0" using m c by (auto simp: mapped_def fblock_def)
  have run: "iappend_block din fbn s = Ok (din\<lparr>d_addrs := ?a'\<rparr>, fblock (blk t) ?a' fbn) t"
    using c z tb(1) len f [of nb] by (simp add: iappend_block_def bnd_Ok)
  have "extends s ?a nb t ?a' (nb + 1)"
  proof (rule extends_add [OF m _ tb(3) _ nm])
    show "\<exists>i f. t = s\<lparr>img := i, freeblock := f\<rparr>" unfolding tb(2) by (intro exI [of _ "img s"] exI) simp
    show "\<forall>bn. nb < bn \<and> bn < (if nb < NDIRECT then NDIRECT else MAXFILE) \<longrightarrow> fblock (blk t) ?a' bn = 0"
      using m c f by (auto simp: mapped_def)
    show "fblock (blk t) ?a' nb \<noteq> ?a' ! NDIRECT" using i f nm by (auto simp: nmeta_val)
  qed (use c fbn len f tb u i in auto)
  then show ?thesis using c tb(4) by (intro gives_blockI [OF run]) simp_all
qed

text \<open>The first block behind the direct ones: the indirect block is new, too.\<close>

lemma iappend_block_first_indirect:
  assumes ok: "img_ok s" and m: "mapped (blk s) (d_addrs din) nb (unat (freeblock s))"
    and fbn: "fbn < MAXFILE" and sp: "unat (freeblock s) + (used (max nb (fbn + 1)) - used nb) \<le> FSSIZE" and c: "fbn = nb" "nb = NDIRECT"
  shows "gives_block din nb fbn s"
proof -
  let ?a = "d_addrs din"
  have len: "length ?a = NDIRECT + 1" using m by (simp add: mapped_def)
  note nm = img_ok_D(3) [OF ok]
  have lt: "unat (freeblock s) + 2 \<le> FSSIZE" using sp c by (simp add: used_def)
  obtain u where tb: "take_block s = Ok (freeblock s) u" "u = s\<lparr>freeblock := freeblock s + 1\<rparr>" "img_ok u" "blk u = blk s"
    "unat (freeblock u) = unat (freeblock s) + 1" using take_block_ok [OF ok] lt by auto
  let ?i = "freeblock s" and ?a' = "?a[NDIRECT := freeblock s]"
  have z: "?a ! NDIRECT = 0" using m c by (simp add: mapped_def)
  have zi: "blk s ?i = zeroes" using img_ok_D(7) [OF ok, of ?i] lt by simp
  have i: "?a' ! NDIRECT = ?i" using len by simp
  have k: "0 < NINDIRECT" by (simp add: NINDIRECT_def BSIZE_def)
  obtain t where t: "bnd (rsect ?i) (\<lambda>indirect.
    if get_le (4 * 0) indirect = (0 :: u32) then
      bnd take_block (\<lambda>b. bnd (wsect ?i (put_le (4 * 0) b indirect)) (\<lambda>_. ret (din\<lparr>d_addrs := ?a'\<rparr>, b)))
    else ret (din\<lparr>d_addrs := ?a'\<rparr>, get_le (4 * 0) indirect)) u = Ok (din\<lparr>d_addrs := ?a'\<rparr>, freeblock u) t" "img_ok t"
    "blk t = (blk u)(?i := put_le (4 * 0) (freeblock u) (blk u ?i))" "unat (freeblock t) = unat (freeblock u) + 1"
    "\<exists>i f. t = u\<lparr>img := i, freeblock := f\<rparr>"
    using indirect_entry [OF tb(3), of ?i 0 "din\<lparr>d_addrs := ?a'\<rparr>"] tb nm lt k zi get_le_zeroes by fastforce
  have "length (blk u ?i) = BSIZE" using zi tb(4) by (simp add: zeroes_def)
  note f = fblock_entry [where C = "blk u" and ind = ?i and k = 0 and addrs = ?a' and y = "freeblock u", OF this k i, folded t(3)]
  have fz: "fblock (blk u) ?a' bn = (if bn < NDIRECT then fblock (blk s) ?a bn else 0)" for bn
    using zi tb(4) i by (simp add: fblock_def get_le_zeroes)
  have fn: "fblock (blk t) ?a' nb = freeblock u" using f [of nb] c fbn by simp
  have run: "iappend_block din fbn s = Ok (din\<lparr>d_addrs := ?a'\<rparr>, fblock (blk t) ?a' fbn) t"
    using c z tb(1) i t(1) fn by (simp add: iappend_block_def bnd_Ok cong del: if_weak_cong)
  have "extends s ?a nb t ?a' (nb + 1)"
  proof (rule extends_add [OF m _ t(2) _ nm])
    show "\<exists>i f. t = s\<lparr>img := i, freeblock := f\<rparr>" using t(5) unfolding tb(2) by auto
    show "\<forall>bn. nb < bn \<and> bn < (if nb < NDIRECT then NDIRECT else MAXFILE) \<longrightarrow> fblock (blk t) ?a' bn = 0"
      using c f fz by auto
    show "\<forall>bn < nb. fblock (blk t) ?a' bn = fblock (blk s) ?a bn" using c fbn f fz by simp
    show "fblock (blk t) ?a' nb \<noteq> ?a' ! NDIRECT" using fn i tb(5) by auto
    show "\<forall>b. unat b < unat (freeblock s) \<and> b \<notin> filled (blk s) ?a nb \<longrightarrow> blk t b = blk s b" using t(3) tb(4) by auto
  qed (use c fbn len fn tb(5) t(4) i in \<open>auto simp: used_def\<close>)
  then show ?thesis using c tb(4) i t(3) by (intro gives_blockI [OF run]) simp_all
qed

text \<open>A new block behind the direct ones.\<close>

lemma iappend_block_indirect:
  assumes ok: "img_ok s" and m: "mapped (blk s) (d_addrs din) nb (unat (freeblock s))"
    and fbn: "fbn < MAXFILE" and sp: "unat (freeblock s) + (used (max nb (fbn + 1)) - used nb) \<le> FSSIZE" and c: "fbn = nb" "NDIRECT < nb"
  shows "gives_block din nb fbn s"
proof -
  let ?a = "d_addrs din"
  have len: "length ?a = NDIRECT + 1" using m by (simp add: mapped_def)
  note nm = img_ok_D(3) [OF ok]
  let ?i = "?a ! NDIRECT" and ?k = "nb - NDIRECT"
  have lt: "unat (freeblock s) < FSSIZE" using sp c by (simp add: used_def)
  have ib: "nmeta \<le> unat ?i" "unat ?i < unat (freeblock s)" using m c by (simp_all add: mapped_def)
  have "fblock (blk s) ?a nb = 0" using m c fbn by (simp add: mapped_def)
  then have z: "get_le (4 * ?k) (blk s ?i) = (0 :: u32)" using c by (simp add: fblock_def)
  have k: "?k < NINDIRECT" using c fbn by (simp add: MAXFILE_def)
  obtain t where t: "bnd (rsect ?i) (\<lambda>indirect.
    if get_le (4 * ?k) indirect = (0 :: u32) then
      bnd take_block (\<lambda>b. bnd (wsect ?i (put_le (4 * ?k) b indirect)) (\<lambda>_. ret (din, b)))
    else ret (din, get_le (4 * ?k) indirect)) s = Ok (din, freeblock s) t" "img_ok t"
    "blk t = (blk s)(?i := put_le (4 * ?k) (freeblock s) (blk s ?i))" "unat (freeblock t) = unat (freeblock s) + 1"
    "\<exists>i f. t = s\<lparr>img := i, freeblock := f\<rparr>"
    using indirect_entry [OF ok ib lt k z, of din] by blast
  have "length (blk s ?i) = BSIZE" using img_ok_D(6) [OF ok, of ?i] ib lt by simp
  note f = fblock_entry [where C = "blk s" and ind = ?i and k = ?k and addrs = ?a and y = "freeblock s", OF this k refl, folded t(3)]
  have fn: "fblock (blk t) ?a nb = freeblock s" using f [of nb] c fbn by simp
  have nz: "?i \<noteq> 0" using ib by (auto simp: nmeta_val)
  have run: "iappend_block din fbn s = Ok (din\<lparr>d_addrs := ?a\<rparr>, fblock (blk t) ?a fbn) t"
    using c nz t(1) fn by (simp add: iappend_block_def bnd_Ok cong del: if_weak_cong)
  have "extends s ?a nb t ?a (nb + 1)"
  proof (rule extends_add [OF m _ t(2,5) nm])
    show "\<forall>bn. nb < bn \<and> bn < (if nb < NDIRECT then NDIRECT else MAXFILE) \<longrightarrow> fblock (blk t) ?a bn = 0"
      using c f m by (auto simp: mapped_def)
    show "\<forall>bn < nb. fblock (blk t) ?a bn = fblock (blk s) ?a bn" using c fbn f by simp
    show "fblock (blk t) ?a nb \<noteq> ?a ! NDIRECT" using fn ib by auto
    show "\<forall>b. unat b < unat (freeblock s) \<and> b \<notin> filled (blk s) ?a nb \<longrightarrow> blk t b = blk s b"
      using t(3) c by (auto simp: filled_def)
  qed (use c fbn len fn t(4) in \<open>auto simp: used_def\<close>)
  then show ?thesis using c t(3) by (intro gives_blockI [OF run]) simp_all
qed

lemma iappend_block_spec:
  assumes "img_ok s" "mapped (blk s) (d_addrs din) nb (unat (freeblock s))" "fbn \<le> nb" "fbn < MAXFILE"
    "unat (freeblock s) + (used (max nb (fbn + 1)) - used nb) \<le> FSSIZE"
  shows "gives_block din nb fbn s"
proof -
  consider "fbn < nb" | "fbn = nb" "nb < NDIRECT" | "fbn = nb" "nb = NDIRECT" | "fbn = nb" "NDIRECT < nb"
    using assms(3) by linarith
  then show ?thesis
    using iappend_block_present iappend_block_direct iappend_block_first_indirect iappend_block_indirect assms by cases blast+
qed


section \<open>Appending\<close>

definition blocks :: "nat \<Rightarrow> nat" where
  "blocks n = (n + (BSIZE - 1)) div BSIZE"

lemma div_BSIZE: "r < BSIZE \<Longrightarrow> (r + q * BSIZE) div BSIZE = q" "r < BSIZE \<Longrightarrow> (r + q * BSIZE) mod BSIZE = r"
  by simp_all

lemma blocks_bounds:
  "off div BSIZE \<le> blocks off" "blocks off \<le> off div BSIZE + 1" "k < off \<Longrightarrow> k div BSIZE < blocks off"
  "0 < n \<Longrightarrow> off mod BSIZE + n \<le> BSIZE \<Longrightarrow> blocks (off + n) = off div BSIZE + 1" "blocks 0 = 0"
proof -
  have B: "0 < BSIZE" by (simp add: BSIZE_def)
  have S: "(x + BSIZE) div BSIZE = x div BSIZE + 1" for x by (simp add: BSIZE_def)
  show "off div BSIZE \<le> blocks off" unfolding blocks_def by (intro div_le_mono) simp
  show "blocks off \<le> off div BSIZE + 1" unfolding blocks_def S [symmetric] by (intro div_le_mono) simp
  show "blocks 0 = 0" by (simp add: blocks_def BSIZE_def)
  show "k div BSIZE < blocks off" if "k < off"
  proof -
    have "(k + BSIZE) div BSIZE \<le> blocks off" unfolding blocks_def using that B by (intro div_le_mono) linarith
    then show ?thesis unfolding S by simp
  qed
  show "blocks (off + n) = off div BSIZE + 1" if n: "0 < n" "off mod BSIZE + n \<le> BSIZE"
  proof -
    have "off + n + (BSIZE - 1) = (off mod BSIZE + n - 1) + (off div BSIZE + 1) * BSIZE"
      using n B div_mult_mod_eq [of off BSIZE] unfolding add_mult_distrib by linarith
    then show ?thesis unfolding blocks_def using n by (simp only: div_BSIZE)
  qed
qed

lemma blocks_mono: "m \<le> n \<Longrightarrow> blocks m \<le> blocks n"
  unfolding blocks_def by (intro div_le_mono) simp

lemma within_block:
  assumes "off \<le> k" "k < off + n" "off mod BSIZE + n \<le> BSIZE"
  shows "k div BSIZE = off div BSIZE" "k mod BSIZE = off mod BSIZE + (k - off)"
proof -
  have "k = (off mod BSIZE + (k - off)) + off div BSIZE * BSIZE" "off mod BSIZE + (k - off) < BSIZE"
    using assms div_mult_mod_eq [of off BSIZE] by linarith+
  then show "k div BSIZE = off div BSIZE" "k mod BSIZE = off mod BSIZE + (k - off)" using div_BSIZE by metis+
qed

lemma earlier_in_block: "k < off \<Longrightarrow> k div BSIZE = off div BSIZE \<Longrightarrow> k mod BSIZE < off mod BSIZE"
  using div_mult_mod_eq [of off BSIZE] div_mult_mod_eq [of k BSIZE] by (metis add_less_cancel_left)

text \<open>The bytes of the file after one block of it has been written.\<close>

lemma file_bytes_written:
  assumes m: "mapped C1 addrs' nb' fb" and nb': "off div BSIZE < nb'" "blocks off \<le> nb'"
    and f: "\<forall>bn < blocks off. fblock C1 addrs' bn = fblock C addrs bn" and C: "\<forall>b. b \<noteq> addrs' ! NDIRECT \<longrightarrow> C1 b = C b"
    and x: "x = fblock C1 addrs' (off div BSIZE)" and C2: "C2 = C1(x := put_bytes (off mod BSIZE) q (C1 x))"
    and q: "off mod BSIZE + length q \<le> BSIZE" "length (C1 x) = BSIZE"
  shows "file_bytes C2 addrs' 0 (off + length q) = file_bytes C addrs 0 off @ q"
proof (rule nth_equalityI)
  have x': "x \<noteq> addrs' ! NDIRECT" using m nb' x by (simp add: mapped_def)
  then have f2: "fblock C2 addrs' = fblock C1 addrs'" using C2 by (intro fblock_cong) simp
  have put: "put_bytes (off mod BSIZE) q (C1 x) ! i =
      (if off mod BSIZE \<le> i \<and> i < off mod BSIZE + length q then q ! (i - off mod BSIZE) else C1 x ! i)" if "i < BSIZE" for i
    using put_bytes_nth [of "off mod BSIZE" q "C1 x" i] q that by simp
  fix k assume "k < length (file_bytes C2 addrs' 0 (off + length q))"
  then have k: "k < off + length q" by simp
  let ?bn = "k div BSIZE" and ?o = "k mod BSIZE"
  have o: "?o < BSIZE" by (simp add: BSIZE_def)
  have lhs: "file_bytes C2 addrs' 0 (off + length q) ! k = C2 (fblock C1 addrs' ?bn) ! ?o"
    using k by (simp add: file_bytes_def f2)
  show "file_bytes C2 addrs' 0 (off + length q) ! k = (file_bytes C addrs 0 off @ q) ! k"
  proof (cases "k < off")
    case False
    then have le: "off \<le> k" by simp
    note wb = within_block [OF le k q(1)]
    have "C2 (fblock C1 addrs' ?bn) ! ?o = put_bytes (off mod BSIZE) q (C1 x) ! ?o" using wb(1) x C2 by simp
    also have "\<dots> = q ! (?o - off mod BSIZE)"
    proof -
      have "off mod BSIZE \<le> ?o \<and> ?o < off mod BSIZE + length q" using wb(2) le k by linarith
      then show ?thesis unfolding put [OF o] by (rule if_P)
    qed
    also have "?o - off mod BSIZE = k - off" using wb(2) by simp
    finally show ?thesis using lhs False by (simp add: nth_append)
  next
    case True
    then have bn: "?bn < blocks off" by (rule blocks_bounds(3))
    have ne: "fblock C1 addrs' ?bn \<noteq> addrs' ! NDIRECT" using m bn nb' by (simp add: mapped_def)
    have "C2 (fblock C1 addrs' ?bn) ! ?o = C1 (fblock C1 addrs' ?bn) ! ?o"
    proof (cases "?bn = off div BSIZE")
      case e: True
      then show ?thesis using earlier_in_block [OF True e] x C2 put [OF o] by simp
    next
      case False
      moreover have "inj_on (fblock C1 addrs') {..<nb'}" using m by (simp add: mapped_def)
      ultimately have "fblock C1 addrs' ?bn \<noteq> x" using bn nb' x by (auto dest: inj_onD)
      then show ?thesis using C2 by simp
    qed
    also have "\<dots> = C (fblock C addrs ?bn) ! ?o" using C ne f bn by simp
    finally show ?thesis using lhs True by (simp add: nth_append file_bytes_def)
  qed
qed simp

lemma iappend_round:
  assumes ok: "img_ok s" and m: "mapped (blk s) (d_addrs din) (blocks off) (unat (freeblock s))"
    and p: "p \<noteq> []" "off + length p \<le> MAXFILE * BSIZE"
    and sp: "unat (freeblock s) + (used (blocks (off + length p)) - used (blocks off)) \<le> FSSIZE"
    and n1: "n1 = min (length p) ((off div BSIZE + 1) * BSIZE - off)"
  shows "\<exists>t addrs'. iappend_loop din off p s = iappend_loop (din\<lparr>d_addrs := addrs'\<rparr>) (off + n1) (drop n1 p) t \<and>
    extends s (d_addrs din) (blocks off) t addrs' (blocks (off + n1)) \<and>
    file_bytes (blk t) addrs' 0 (off + n1) = file_bytes (blk s) (d_addrs din) 0 off @ take n1 p"
proof -
  let ?a = "d_addrs din" and ?fbn = "off div BSIZE" and ?nb = "blocks off"
  have lt: "off < (?fbn + 1) * BSIZE" by (simp add: dividend_less_div_times BSIZE_def)
  have om: "off - ?fbn * BSIZE = off mod BSIZE" by (simp add: minus_div_mult_eq_mod)
  have n: "0 < n1" "n1 \<le> length p" "off mod BSIZE + n1 \<le> BSIZE"
  proof -
    show "0 < n1" "n1 \<le> length p" using n1 lt p(1) by auto
    have "off mod BSIZE + ((?fbn + 1) * BSIZE - off) = BSIZE" using lt om by (simp add: algebra_simps)
    then show "off mod BSIZE + n1 \<le> BSIZE" using n1 by linarith
  qed
  have nb': "blocks (off + n1) = ?fbn + 1" using blocks_bounds(4) n by blast
  have mx: "max ?nb (?fbn + 1) = ?fbn + 1" using blocks_bounds(2) [of off] by simp
  have "off < MAXFILE * BSIZE" using n p(2) by linarith
  then have fm: "?fbn < MAXFILE" by (simp add: less_mult_imp_div_less)
  have "used (blocks (off + n1)) \<le> used (blocks (off + length p))" using n by (intro used_mono blocks_mono) simp
  then have "unat (freeblock s) + (used (max ?nb (?fbn + 1)) - used ?nb) \<le> FSSIZE" using sp nb' mx by simp
  then have "gives_block din ?nb ?fbn s" by (rule iappend_block_spec [OF ok m blocks_bounds(1) fm])
  then obtain t addrs' where ib: "iappend_block din ?fbn s = Ok (din\<lparr>d_addrs := addrs'\<rparr>, fblock (blk t) addrs' ?fbn) t"
    and ex: "extends s ?a ?nb t addrs' (?fbn + 1)" and eq: "\<forall>b. b \<noteq> addrs' ! NDIRECT \<longrightarrow> blk t b = blk s b"
    unfolding gives_block_def mx by blast
  let ?x = "fblock (blk t) addrs' ?fbn"
  have okt: "img_ok t" and mt: "mapped (blk t) addrs' (?fbn + 1) (unat (freeblock t))"
    using ex unfolding extends_def by blast+
  have xF: "unat ?x < FSSIZE" using mt img_ok_D(4) [OF okt] by (auto simp: mapped_def)
  then have lx: "length (blk t ?x) = BSIZE" by (rule img_ok_D(6) [OF okt])
  let ?v = "put_bytes (off mod BSIZE) (take n1 p) (blk t ?x)"
  have lv: "length ?v = BSIZE" using n lx by (simp add: length_put_bytes)
  have fb: "?fbn < ?fbn + 1" by simp
  note w = extends_write [OF okt mt fb lv]
  have "iappend_loop din off p s = iappend_loop (din\<lparr>d_addrs := addrs'\<rparr>) (off + n1) (drop n1 p) (set_blk ?x ?v t)"
    using p(1) fm ib rsect_ok [OF okt xF] wsect_ok [OF okt xF] n1 om
    by (simp add: iappend_loop.simps [of din off p] bnd_Ok Let_def)
  moreover have "file_bytes (blk (set_blk ?x ?v t)) addrs' 0 (off + length (take n1 p)) =
      file_bytes (blk s) ?a 0 off @ take n1 p"
  proof (rule file_bytes_written [OF mt fb blocks_bounds(2) _ eq refl w(2) _ lx])
    show "\<forall>bn < blocks off. fblock (blk t) addrs' bn = fblock (blk s) ?a bn" using ex unfolding extends_def by blast
    show "off mod BSIZE + length (take n1 p) \<le> BSIZE" using n by simp
  qed
  moreover have "length (take n1 p) = n1" using n by simp
  ultimately show ?thesis using extends_trans [OF ex w(1)] nb' by (intro exI conjI) simp_all
qed

lemma iappend_loop_spec:
  assumes "img_ok s" "mapped (blk s) (d_addrs din) (blocks off) (unat (freeblock s))"
    "off + length p \<le> MAXFILE * BSIZE"
    "unat (freeblock s) + (used (blocks (off + length p)) - used (blocks off)) \<le> FSSIZE"
  shows "\<exists>t addrs'. iappend_loop din off p s = Ok (din\<lparr>d_addrs := addrs'\<rparr>, off + length p) t \<and>
    extends s (d_addrs din) (blocks off) t addrs' (blocks (off + length p)) \<and>
    file_bytes (blk t) addrs' 0 (off + length p) = file_bytes (blk s) (d_addrs din) 0 off @ p"
  using assms
proof (induction "length p" arbitrary: s din off p rule: less_induct)
  case less
  show ?case
  proof (cases "p = []")
    case True
    then show ?thesis using extends_refl [OF less(2,3)]
      by (intro exI [of _ s] exI [of _ "d_addrs din"]) (simp add: iappend_loop.simps)
  next
    case False
    define n1 where "n1 = min (length p) ((off div BSIZE + 1) * BSIZE - off)"
    obtain t a' where t: "iappend_loop din off p s = iappend_loop (din\<lparr>d_addrs := a'\<rparr>) (off + n1) (drop n1 p) t"
      "extends s (d_addrs din) (blocks off) t a' (blocks (off + n1))"
      "file_bytes (blk t) a' 0 (off + n1) = file_bytes (blk s) (d_addrs din) 0 off @ take n1 p"
      using iappend_round [OF less(2,3) False less(4,5) n1_def] by blast
    have "off < (off div BSIZE + 1) * BSIZE" by (simp add: dividend_less_div_times BSIZE_def)
    then have n: "0 < n1" "n1 \<le> length p" using False by (simp_all add: n1_def)
    have len: "off + n1 + length (drop n1 p) = off + length p" using n by simp
    have u: "used (blocks off) \<le> used (blocks (off + n1))" "used (blocks (off + n1)) \<le> used (blocks (off + length p))"
      using n by (auto intro!: used_mono blocks_mono)
    have ok: "img_ok t" "mapped (blk t) a' (blocks (off + n1)) (unat (freeblock t))"
      "unat (freeblock t) = unat (freeblock s) + (used (blocks (off + n1)) - used (blocks off))"
      using t(2) unfolding extends_def by blast+
    have "length (drop n1 p) < length p" using n False by simp
    from less(1) [OF this ok(1), of "din\<lparr>d_addrs := a'\<rparr>" "off + n1"] ok(2,3) less(4,5) u
    obtain v a'' where v: "iappend_loop (din\<lparr>d_addrs := a'\<rparr>) (off + n1) (drop n1 p) t = Ok (din\<lparr>d_addrs := a''\<rparr>, off + length p) v"
      "extends t a' (blocks (off + n1)) v a'' (blocks (off + length p))"
      "file_bytes (blk v) a'' 0 (off + length p) = file_bytes (blk t) a' 0 (off + n1) @ drop n1 p"
      unfolding len by auto
    show ?thesis using t v extends_trans [OF t(2) v(2)] by (intro exI [of _ v] exI [of _ a'']) simp
  qed
qed


end
