(* ===== verification/Mkfiles.thy ===== *)
theory Mkfiles
  imports Mkimage
begin

text \<open>
  The image that mkfs/mkfs.c makes holds the files it was given, in the format that the kernel reads:
  inodes, directory entries, contents and bitmap.
\<close>

section \<open>Inodes\<close>

text \<open>The dinode with a number, and the number of dinodes there is room for.\<close>

definition dino :: "mk_st \<Rightarrow> u32 \<Rightarrow> dinode" where
  "dino s inum = dinode_at (unat inum mod IPB) (blk s (IBLOCK inum mk_super))"

definition MAXINO :: nat where "MAXINO = ninodeblocks * IPB"

lemma MAXINO_val: "MAXINO = 208"
  by (simp add: MAXINO_def layout)

lemma unat_IBLOCK:
  assumes "unat inum < MAXINO"
  shows "unat (IBLOCK inum mk_super) = unat inum div IPB + 32" "unat (IBLOCK inum mk_super) < nmeta" "2 + nlog \<le> unat (IBLOCK inum mk_super)"
proof -
  have "unat (inum div 16) = unat inum div 16" by (simp add: unat_div)
  moreover have "unat inum div 16 < 13" using assms by (simp add: MAXINO_val less_mult_imp_div_less)
  ultimately have "unat (inum div 16 + 32) = unat inum div 16 + 32" by (subst unat_add_small) simp_all
  then show 1: "unat (IBLOCK inum mk_super) = unat inum div IPB + 32" by (simp add: IBLOCK_def mk_super_def layout)
  show "unat (IBLOCK inum mk_super) < nmeta" "2 + nlog \<le> unat (IBLOCK inum mk_super)"
    unfolding 1 using \<open>unat inum div 16 < 13\<close> by (simp_all add: layout)
qed

lemma rinode_ok:
  assumes "img_ok s" "unat inum < MAXINO"
  shows "rinode inum s = Ok (dino s inum) s"
proof -
  have "unat (IBLOCK inum mk_super) < FSSIZE" using unat_IBLOCK(2) [OF assms(2)] img_ok_D(3,4) [OF assms(1)] by simp
  from rsect_ok [OF assms(1) this] show ?thesis
    using img_ok_D(2) [OF assms(1)] by (simp add: rinode_def dino_def bnd_Ok)
qed

lemma winode_ok:
  assumes ok: "img_ok s" and i: "unat inum < MAXINO" and d: "length (d_addrs d) = NDIRECT + 1"
  shows "\<exists>t. winode inum d s = Ok () t \<and> img_ok t \<and> freeblock t = freeblock s \<and> freeinode t = freeinode s \<and>
    (\<forall>b. unat b < 2 + nlog \<or> 2 + nlog + ninodeblocks \<le> unat b \<longrightarrow> blk t b = blk s b) \<and>
    (\<forall>j. unat j < MAXINO \<longrightarrow> dino t j = (if j = inum then d else dino s j))"
proof -
  let ?b = "IBLOCK inum mk_super" and ?k = "unat inum mod IPB"
  let ?v = "put_bytes (64 * ?k) (dinode_bytes d) (blk s ?b)" and ?t = "set_blk ?b"
  note bn = unat_IBLOCK [OF i]
  have bF: "unat ?b < FSSIZE" using bn(2) img_ok_D(3,4) [OF ok] by simp
  have k: "?k < IPB" by (simp add: IPB_def BSIZE_def)
  have l: "length (blk s ?b) = BSIZE" by (rule img_ok_D(6) [OF ok bF])
  have v: "length ?v = BSIZE" using k l length_dinode_bytes [OF d] by (simp add: length_put_bytes IPB_def BSIZE_def)
  note C = blk_set_blk [OF ok bF, of ?v]
  have "winode inum d s = Ok () (set_blk ?b ?v s)"
    using img_ok_D(2) [OF ok] rsect_ok [OF ok bF] wsect_ok [OF ok bF] by (simp add: winode_def bnd_Ok Let_def)
  moreover have "img_ok (set_blk ?b ?v s)" using bn(2) img_ok_D(3) [OF ok] by (intro img_ok_set_blk [OF ok _ v]) simp
  moreover have "blk (set_blk ?b ?v s) b = blk s b" if "unat b < 2 + nlog \<or> 2 + nlog + ninodeblocks \<le> unat b" for b
  proof -
    have "unat ?b < 2 + nlog + ninodeblocks" using bn(1) i by (simp add: layout MAXINO_val less_mult_imp_div_less)
    then have "b \<noteq> ?b" using that bn(3) by auto
    then show ?thesis unfolding C by simp
  qed
  moreover have "dino (set_blk ?b ?v s) j = (if j = inum then d else dino s j)" if j: "unat j < MAXINO" for j
  proof (cases "IBLOCK j mk_super = ?b")
    case True
    have "unat j div IPB = unat inum div IPB" using unat_IBLOCK(1) [OF j] bn(1) True by simp
    then have "unat j mod IPB = ?k \<longleftrightarrow> j = inum" by (metis div_mult_mod_eq word_unat_eq_iff)
    moreover have "unat j mod IPB < IPB" by (simp add: IPB_def BSIZE_def)
    ultimately show ?thesis using dinode_at_put [OF d l k, of "unat j mod IPB"] True by (simp add: dino_def C)
  next
    case False
    then show ?thesis by (auto simp: dino_def C)
  qed
  ultimately show ?thesis by (intro exI [of _ "set_blk ?b ?v s"]) simp
qed

section \<open>The files of an image\<close>

text \<open>
  The image holds the files \<open>cs\<close>, given by type and contents: inode \<open>i + 1\<close> is file \<open>i\<close>. No two files
  share a block, and the number of blocks handed out is exactly the number needed.
\<close>

definition holds_file :: "mk_st \<Rightarrow> u32 \<Rightarrow> u16 \<times> byte list \<Rightarrow> bool" where
  "holds_file s inum x \<longleftrightarrow>
     (let d = dino s inum; c = snd x in
      d_type d = fst x \<and> d_nlink d = 1 \<and> unat (d_size d) = length c \<and> length c \<le> MAXFILE * BSIZE \<and>
      mapped (blk s) (d_addrs d) (blocks (length c)) (unat (freeblock s)) \<and>
      file_bytes (blk s) (d_addrs d) 0 (length c) = c)"

definition extent :: "mk_st \<Rightarrow> u32 \<Rightarrow> u32 set" where
  "extent s inum = filled (blk s) (d_addrs (dino s inum)) (blocks (unat (d_size (dino s inum))))"

definition needs :: "(u16 \<times> byte list) list \<Rightarrow> nat" where
  "needs cs = (\<Sum>x \<leftarrow> cs. used (blocks (length (snd x))))"

definition holds_files :: "mk_st \<Rightarrow> (u16 \<times> byte list) list \<Rightarrow> bool" where
  "holds_files s cs \<longleftrightarrow>
     img_ok s \<and> superblock_of (blk s 1) = mk_super \<and> length cs < MAXINO \<and> freeinode s = of_nat (length cs + 1) \<and>
     unat (freeblock s) = nmeta + needs cs \<and>
     (\<forall>i < length cs. holds_file s (of_nat (i + 1)) (cs ! i)) \<and>
     (\<forall>i < length cs. \<forall>j < length cs. i \<noteq> j \<longrightarrow> extent s (of_nat (i + 1)) \<inter> extent s (of_nat (j + 1)) = {})"

lemma holds_file_extent: "holds_file s inum x \<Longrightarrow> b \<in> extent s inum \<Longrightarrow> nmeta \<le> unat b \<and> unat b < unat (freeblock s)"
  using mapped_filled [of "blk s" "d_addrs (dino s inum)" "blocks (length (snd x))" "unat (freeblock s)" b]
  by (simp add: holds_file_def extent_def Let_def)

lemma file_bytes_cong:
  assumes "C' (addrs ! NDIRECT) = C (addrs ! NDIRECT)" "\<forall>b \<in> filled C addrs (blocks n). C' b = C b"
  shows "file_bytes C' addrs 0 n = file_bytes C addrs 0 n"
proof -
  have "C' (fblock C addrs (k div BSIZE)) = C (fblock C addrs (k div BSIZE))" if "k < n" for k
    using assms(2) blocks_bounds(3) [OF that] by (auto simp: filled_def)
  then show ?thesis by (simp add: file_bytes_def fblock_cong [of C' addrs C, OF assms(1)])
qed

text \<open>A file whose inode and blocks are untouched stays as it is.\<close>

lemma holds_file_same:
  assumes h: "holds_file s inum x" and d: "dino t inum = dino s inum" and fb: "unat (freeblock s) \<le> unat (freeblock t)"
    and C: "blk t 0 = blk s 0" "\<forall>b \<in> extent s inum. blk t b = blk s b"
  shows "holds_file t inum x" "extent t inum = extent s inum"
proof -
  let ?a = "d_addrs (dino s inum)" and ?n = "length (snd x)"
  have f: "mapped (blk s) ?a (blocks ?n) (unat (freeblock s))" "unat (d_size (dino s inum)) = ?n"
    using h by (simp_all add: holds_file_def Let_def)
  have e: "extent s inum = filled (blk s) ?a (blocks ?n)" by (simp add: extent_def f(2))
  have i: "blk t (?a ! NDIRECT) = blk s (?a ! NDIRECT)"
    using C f(1) unfolding e by (cases "NDIRECT < blocks ?n") (auto simp: mapped_def filled_def)
  note c = mapped_cong [of "blk t" ?a "blk s", OF i]
  have "file_bytes (blk t) ?a 0 ?n = file_bytes (blk s) ?a 0 ?n" using C(2) i unfolding e by (intro file_bytes_cong) simp_all
  then show "holds_file t inum x" using h mapped_mono [OF f(1) fb] by (simp add: holds_file_def d c Let_def)
  show "extent t inum = extent s inum" by (simp add: extent_def d c)
qed


lemma inum_of:
  assumes "i < n" "n < MAXINO"
  shows "unat (of_nat (i + 1) :: u32) = i + 1" "unat (of_nat (i + 1) :: u32) < MAXINO"
    "j < n \<Longrightarrow> (of_nat (i + 1) :: u32) = of_nat (j + 1) \<longleftrightarrow> i = j"
proof -
  have u: "unat (of_nat (k + 1) :: u32) = k + 1" if "k < n" for k
    using that assms(2) by (intro unat_of_nat_small) (simp add: MAXINO_val)
  show "unat (of_nat (i + 1) :: u32) = i + 1" "unat (of_nat (i + 1) :: u32) < MAXINO" using u [OF assms(1)] assms by simp_all
  show "(of_nat (i + 1) :: u32) = of_nat (j + 1) \<longleftrightarrow> i = j" if "j < n"
    using u [OF assms(1)] u [OF that] by (metis add_right_cancel)
qed

lemma needs_update: "i < length cs \<Longrightarrow> needs (cs[i := x]) + used (blocks (length (snd (cs ! i)))) =
    needs cs + used (blocks (length (snd x)))"
proof (induction cs arbitrary: i)
  case (Cons c cs)
  then show ?case by (cases i) (auto simp: needs_def)
qed simp

lemma holds_files_D:
  assumes "holds_files s cs"
  shows "img_ok s" "superblock_of (blk s 1) = mk_super" "length cs < MAXINO" "unat (freeblock s) = nmeta + needs cs"
    "freeinode s = of_nat (length cs + 1)" "i < length cs \<Longrightarrow> holds_file s (of_nat (i + 1)) (cs ! i)"
    "i < length cs \<Longrightarrow> j < length cs \<Longrightarrow> i \<noteq> j \<Longrightarrow> extent s (of_nat (i + 1)) \<inter> extent s (of_nat (j + 1)) = {}"
  using assms unfolding holds_files_def by simp_all

text \<open>\<open>iappend\<close> on one file, before the other files are looked at.\<close>

lemma iappend_file:
  assumes ok: "img_ok s" and i: "unat inum < MAXINO" and h: "holds_file s inum (ty, c)"
    and mx: "length c + length p \<le> MAXFILE * BSIZE"
    and sp: "unat (freeblock s) + (used (blocks (length c + length p)) - used (blocks (length c))) \<le> FSSIZE"
  shows "\<exists>t. iappend inum p s = Ok () t \<and> img_ok t \<and> holds_file t inum (ty, c @ p) \<and> freeinode t = freeinode s \<and>
    unat (freeblock t) = unat (freeblock s) + (used (blocks (length c + length p)) - used (blocks (length c))) \<and>
    (\<forall>b. unat b < 2 + nlog \<longrightarrow> blk t b = blk s b) \<and>
    (\<forall>b. nmeta \<le> unat b \<and> unat b < unat (freeblock s) \<and> b \<notin> extent s inum \<longrightarrow> blk t b = blk s b) \<and>
    (\<forall>b \<in> extent t inum. b \<in> extent s inum \<or> unat (freeblock s) \<le> unat b) \<and>
    (\<forall>j. unat j < MAXINO \<and> j \<noteq> inum \<longrightarrow> dino t j = dino s j)"
proof -
  let ?d = "dino s inum" and ?m = "length c + length p"
  have d: "d_type ?d = ty" "d_nlink ?d = 1" "unat (d_size ?d) = length c"
      "mapped (blk s) (d_addrs ?d) (blocks (length c)) (unat (freeblock s))" "file_bytes (blk s) (d_addrs ?d) 0 (length c) = c"
    using h by (simp_all add: holds_file_def Let_def)
  have ex: "extent s inum = filled (blk s) (d_addrs ?d) (blocks (length c))" by (simp add: extent_def d(3))
  obtain u a where u: "iappend_loop ?d (length c) p s = Ok (?d\<lparr>d_addrs := a\<rparr>, ?m) u"
    "extends s (d_addrs ?d) (blocks (length c)) u a (blocks ?m)" "file_bytes (blk u) a 0 ?m = c @ p"
    using iappend_loop_spec [OF ok d(4) mx sp] d(5) by auto
  have e: "img_ok u" "mapped (blk u) a (blocks ?m) (unat (freeblock u))"
    "unat (freeblock u) = unat (freeblock s) + (used (blocks ?m) - used (blocks (length c)))" "freeinode u = freeinode s"
    using u(2) unfolding extends_def by auto
  have fr: "blk u b = blk s b" if "unat b < unat (freeblock s)" "b \<notin> extent s inum" for b
    using u(2) that unfolding extends_def ex by blast
  have own: "b \<in> extent s inum \<or> unat (freeblock s) \<le> unat b" if "b \<in> filled (blk u) a (blocks ?m)" for b
    using u(2) that unfolding extends_def ex by blast
  have low: "blk u b = blk s b" if "unat b < nmeta" for b
    using fr [of b] that holds_file_extent [OF h, of b] img_ok_D(3) [OF ok] by linarith
  have sz: "unat (of_nat ?m :: u32) = ?m"
    using mx by (intro unat_of_nat_small) (simp add: MAXFILE_def NDIRECT_def NINDIRECT_def BSIZE_def)
  let ?d' = "?d\<lparr>d_addrs := a, d_size := of_nat ?m\<rparr>"
  have la: "length (d_addrs ?d') = NDIRECT + 1" using e(2) by (simp add: mapped_def)
  obtain t where t: "winode inum ?d' u = Ok () t" "img_ok t" "freeblock t = freeblock u" "freeinode t = freeinode u"
    "\<forall>b. unat b < 2 + nlog \<or> 2 + nlog + ninodeblocks \<le> unat b \<longrightarrow> blk t b = blk u b"
    "\<forall>j. unat j < MAXINO \<longrightarrow> dino t j = (if j = inum then ?d' else dino u j)"
    using winode_ok [OF e(1) i la] by blast
  have hi: "blk t b = blk u b" if "nmeta \<le> unat b" for b using t(5) that by (simp add: nmeta_def)
  have dt: "dino t inum = ?d'" using t(6) i by simp
  have b0: "blk t 0 = blk u 0" using t(5) by simp
  have ind: "blk t (a ! NDIRECT) = blk u (a ! NDIRECT)"
    using e(2) hi b0 by (cases "NDIRECT < blocks ?m") (simp_all add: mapped_def)
  note c = mapped_cong [of "blk t" a "blk u", OF ind]
  have et: "extent t inum = filled (blk u) a (blocks ?m)" by (simp add: extent_def dt sz c del: of_nat_add)
  have "file_bytes (blk t) a 0 ?m = file_bytes (blk u) a 0 ?m"
    using ind hi mapped_filled [OF e(2)] by (intro file_bytes_cong) auto
  then have "holds_file t inum (ty, c @ p)" using u(3) e(2) d(1,2) t(3) sz mx by (simp add: holds_file_def Let_def dt c del: of_nat_add)
  moreover have "iappend inum p s = Ok () t"
    using rinode_ok [OF ok i] u(1) d(3) t(1) by (simp add: iappend_def bnd_Ok)
  moreover have "dino t j = dino s j" if j: "unat j < MAXINO" "j \<noteq> inum" for j
    using t(6) j low [OF unat_IBLOCK(2) [OF j(1)]] by (simp add: dino_def)
  moreover have "blk t b = blk s b" if "unat b < 2 + nlog" for b
    using t(5) low [of b] that by (simp add: nmeta_def)
  ultimately show ?thesis using t(2-4) e(3,4) hi fr own et by (intro exI [of _ t]) simp
qed

lemma iappend_spec:
  assumes H: "holds_files s cs" and i: "i < length cs" and mx: "length (snd (cs ! i)) + length p \<le> MAXFILE * BSIZE"
    and sp: "nmeta + needs (cs[i := (fst (cs ! i), snd (cs ! i) @ p)]) \<le> FSSIZE"
  shows "\<exists>t. iappend (of_nat (i + 1)) p s = Ok () t \<and> holds_files t (cs[i := (fst (cs ! i), snd (cs ! i) @ p)])"
proof -
  let ?i = "of_nat (i + 1) :: u32" and ?c = "snd (cs ! i)" and ?cs = "cs[i := (fst (cs ! i), snd (cs ! i) @ p)]"
  note D = holds_files_D [OF H]
  have u: "used (blocks (length ?c)) \<le> used (blocks (length ?c + length p))" by (intro used_mono blocks_mono) simp
  have nd: "nmeta + needs ?cs = unat (freeblock s) + (used (blocks (length ?c + length p)) - used (blocks (length ?c)))"
    using needs_update [OF i, of "(fst (cs ! i), ?c @ p)"] D(4) u by simp
  have h: "holds_file s ?i (fst (cs ! i), ?c)" using D(6) [OF i] by simp
  obtain t where t: "iappend ?i p s = Ok () t" "img_ok t" "holds_file t ?i (fst (cs ! i), ?c @ p)" "freeinode t = freeinode s"
    "unat (freeblock t) = nmeta + needs ?cs" "\<forall>b. unat b < 2 + nlog \<longrightarrow> blk t b = blk s b"
    "\<forall>b. nmeta \<le> unat b \<and> unat b < unat (freeblock s) \<and> b \<notin> extent s ?i \<longrightarrow> blk t b = blk s b"
    "\<forall>b \<in> extent t ?i. b \<in> extent s ?i \<or> unat (freeblock s) \<le> unat b"
    "\<forall>j. unat j < MAXINO \<and> j \<noteq> ?i \<longrightarrow> dino t j = dino s j"
    using iappend_file [OF D(1) inum_of(2) [OF i D(3)] h mx] sp nd by auto
  have low: "blk t 0 = blk s 0" "blk t 1 = blk s 1" using t(6) by (simp_all add: nlog_def LOGSIZE_def MAXOPBLOCKS_def)
  have other: "holds_file t (of_nat (j + 1)) (cs ! j)" "extent t (of_nat (j + 1)) = extent s (of_nat (j + 1))"
    if j: "j < length cs" "j \<noteq> i" for j
  proof -
    have "blk t b = blk s b" if b: "b \<in> extent s (of_nat (j + 1))" for b
      using t(7) holds_file_extent [OF D(6) [OF j(1)] b] D(7) [OF i j(1)] j(2) b by blast
    moreover have "dino t (of_nat (j + 1)) = dino s (of_nat (j + 1))"
      using t(9) inum_of [OF j(1) D(3)] i j(2) by simp
    ultimately show "holds_file t (of_nat (j + 1)) (cs ! j)" "extent t (of_nat (j + 1)) = extent s (of_nat (j + 1))"
      using holds_file_same [OF D(6) [OF j(1)], of t] low(1) t(5) nd by simp_all
  qed
  have files: "holds_file t (of_nat (j + 1)) (?cs ! j)" if "j < length ?cs" for j
    using other(1) [of j] t(3) that by (cases "j = i") simp_all
  have apart: "extent t ?i \<inter> extent t (of_nat (j + 1)) = {}" if j: "j < length cs" "j \<noteq> i" for j
    using t(8) other(2) [OF j] D(7) [OF i j(1)] j(2) holds_file_extent [OF D(6) [OF j(1)]] by (fastforce dest: not_le_imp_less)
  have "extent t (of_nat (j + 1)) \<inter> extent t (of_nat (k + 1)) = {}" if "j < length ?cs" "k < length ?cs" "j \<noteq> k" for j k
    using that apart [of j] apart [of k] other(2) [of j] other(2) [of k] D(7) [of j k] by (cases "j = i"; cases "k = i") auto
  then show ?thesis using t(1-5) D(2,3,5) low(2) files unfolding holds_files_def by (intro exI [of _ t]) simp
qed


section \<open>A new inode\<close>

lemma freeinode_frame [simp]:
  "img_ok (s\<lparr>freeinode := n\<rparr>) = img_ok s" "blk (s\<lparr>freeinode := n\<rparr>) = blk s" "dino (s\<lparr>freeinode := n\<rparr>) = dino s"
  by (simp_all add: img_ok_def blk_def [abs_def] dino_def [abs_def])

lemma empty_mapped: "mapped C (replicate (NDIRECT + 1) 0) 0 fb" "filled C addrs 0 = {}"
  by (auto simp: mapped_def filled_def fblock_def simp del: replicate.simps)

lemma mk_ialloc_spec:
  assumes H: "holds_files s cs" and n: "length cs + 1 < MAXINO"
  shows "\<exists>t. mk_ialloc ty s = Ok (of_nat (length cs + 1)) t \<and> holds_files t (cs @ [(ty, [])])"
proof -
  note D = holds_files_D [OF H]
  let ?i = "of_nat (length cs + 1) :: u32" and ?cs = "cs @ [(ty, [])]"
  let ?d = "\<lparr>d_type = ty, d_major = 0, d_minor = 0, d_nlink = 1, d_size = 0, d_addrs = replicate (NDIRECT + 1) 0\<rparr>"
  have iM: "unat ?i < MAXINO" using inum_of(2) [of "length cs" "length cs + 1"] n by simp
  have "length (d_addrs ?d) = NDIRECT + 1" by simp
  moreover have "img_ok (s\<lparr>freeinode := ?i + 1\<rparr>)" using D(1) by simp
  ultimately obtain t where t: "winode ?i ?d (s\<lparr>freeinode := ?i + 1\<rparr>) = Ok () t" "img_ok t" "freeblock t = freeblock s"
    "freeinode t = ?i + 1" "\<forall>b. unat b < 2 + nlog \<or> 2 + nlog + ninodeblocks \<le> unat b \<longrightarrow> blk t b = blk s b"
    "\<forall>j. unat j < MAXINO \<longrightarrow> dino t j = (if j = ?i then ?d else dino s j)"
    using winode_ok [of "s\<lparr>freeinode := ?i + 1\<rparr>" ?i ?d] iM by auto
  have low: "blk t 0 = blk s 0" "blk t 1 = blk s 1" using t(5) by (simp_all add: nlog_def LOGSIZE_def MAXOPBLOCKS_def)
  have dt: "dino t ?i = ?d" using t(6) iM by simp
  have new: "holds_file t ?i (ty, [])" "extent t ?i = {}"
    unfolding holds_file_def extent_def dt Let_def
    using empty_mapped(1) [of "blk t" "unat (freeblock t)"]
    by (simp_all add: blocks_bounds(5) empty_mapped(2) file_bytes_def)
  have old: "holds_file t (of_nat (j + 1)) (cs ! j)" "extent t (of_nat (j + 1)) = extent s (of_nat (j + 1))"
    if j: "j < length cs" for j
  proof -
    have "j < length cs + 1" "length cs < length cs + 1" "j \<noteq> length cs" using j by simp_all
    then have "dino t (of_nat (j + 1)) = dino s (of_nat (j + 1))" using t(6) inum_of [of j "length cs + 1"] n by simp
    moreover have "blk t b = blk s b" if "b \<in> extent s (of_nat (j + 1))" for b
      using t(5) holds_file_extent [OF D(6) [OF j] that] by (simp add: nmeta_def)
    ultimately show "holds_file t (of_nat (j + 1)) (cs ! j)" "extent t (of_nat (j + 1)) = extent s (of_nat (j + 1))"
      using holds_file_same [OF D(6) [OF j], of t] low(1) t(3) by simp_all
  qed
  have "holds_file t (of_nat (j + 1)) (?cs ! j)" if "j < length ?cs" for j
    using old(1) [of j] new(1) that by (cases "j = length cs") (simp_all add: nth_append)
  moreover have "extent t (of_nat (j + 1)) \<inter> extent t (of_nat (k + 1)) = {}" if "j < length ?cs" "k < length ?cs" "j \<noteq> k" for j k
    using that old(2) [of j] old(2) [of k] new(2) D(7) [of j k] by (cases "j = length cs"; cases "k = length cs") auto
  moreover have "mk_ialloc ty s = Ok ?i t" using t(1) D(5) by (simp add: mk_ialloc_def bnd_Ok)
  moreover have "needs ?cs = needs cs" by (simp add: needs_def used_def blocks_bounds(5))
  ultimately show ?thesis using t(2-4) D(2,4) n low(2) unfolding holds_files_def by (intro exI [of _ t]) (simp add: add.commute)
qed

section \<open>The first blocks\<close>

lemma format_zero:
  assumes "\<forall>n. \<not> bad s n" "img s = []" "n \<le> FSSIZE"
  shows "forM [0..<n] (\<lambda>i. wsect (of_nat i) zeroes) s = Ok () (s\<lparr>img := replicate n zeroes\<rparr>)"
  using assms(3)
proof (induction n)
  case 0
  then show ?case using assms(2) by (simp add: mk_st.surjective)
next
  case (Suc n)
  have "unat (of_nat n :: u32) = n" using Suc.prems by (intro unat_of_nat_small) (simp add: FSSIZE_def)
  then have "sect_no (of_nat n) = n" using sect_no_small [of "of_nat n"] Suc.prems by simp
  then have "wsect (of_nat n) zeroes (s\<lparr>img := replicate n zeroes\<rparr>) = Ok () (s\<lparr>img := replicate (Suc n) zeroes\<rparr>)"
    using assms(1) by (simp add: wsect_def Let_def replicate_append_same)
  then show ?case using Suc by (simp add: forM_snoc bnd_Ok)
qed

lemma superblock_bytes:
  "superblock_of (put_bytes 0 (super_bytes mk_super) zeroes) = mk_super" "length (put_bytes 0 (super_bytes mk_super) zeroes) = BSIZE"
proof -
  show "superblock_of (put_bytes 0 (super_bytes mk_super) zeroes) = mk_super"
    by (simp add: superblock_of_def put_bytes_def super_bytes_def get_le_def)
  have "length (super_bytes mk_super) = 32" by (simp add: super_bytes_def)
  then show "length (put_bytes 0 (super_bytes mk_super) zeroes) = BSIZE"
    by (subst length_put_bytes) (simp_all add: zeroes_def BSIZE_def)
qed

lemma length_mk_dirent [simp]: "length (mk_dirent inum name) = 16"
  by (simp add: mk_dirent_def DIRSIZ_def)

definition root_start :: "byte list" where
  "root_start = mk_dirent 1 [46] @ mk_dirent 1 [46, 46]"

lemma mk_format_spec:
  assumes s: "\<forall>n. \<not> bad s n" "freeinode s = 1"
  shows "\<exists>t. mk_format s = Ok 1 t \<and> holds_files t [(T_DIR, root_start)]"
proof -
  let ?s0 = "s\<lparr>img := [], msb := mk_super, freeblock := of_nat nmeta\<rparr>"
  let ?s1 = "?s0\<lparr>img := replicate FSSIZE zeroes\<rparr>"
  let ?s2 = "set_blk 1 (put_bytes 0 (super_bytes mk_super) zeroes) ?s1"
  have z: "forM [0..<FSSIZE] (\<lambda>i. wsect (of_nat i) zeroes) ?s0 = Ok () ?s1" using s(1) by (intro format_zero) simp_all
  have ok1: "img_ok ?s1" using s(1) by (simp add: img_ok_def zeroes_def nmeta_val FSSIZE_def)
  have w: "wsect 1 (put_bytes 0 (super_bytes mk_super) zeroes) ?s1 = Ok () ?s2" using wsect_ok [OF ok1, of 1] by (simp add: FSSIZE_def)
  have "img_ok ?s2" by (rule img_ok_set_blk [OF ok1 _ superblock_bytes(2)]) (simp add: nmeta_val)
  moreover have "blk ?s2 = (blk ?s1)(1 := put_bytes 0 (super_bytes mk_super) zeroes)"
    by (rule blk_set_blk [OF ok1]) (simp add: FSSIZE_def)
  ultimately have H2: "holds_files ?s2 []"
    using s(2) superblock_bytes(1) by (simp add: holds_files_def needs_def MAXINO_val nmeta_val)
  have "length [] + 1 < MAXINO" by (simp add: MAXINO_val)
  then obtain u where u: "mk_ialloc T_DIR ?s2 = Ok 1 u" "holds_files u [(T_DIR, [])]" using mk_ialloc_spec [OF H2] by auto
  have nd: "nmeta + needs [(T_DIR, mk_dirent 1 [46])] \<le> FSSIZE" "nmeta + needs [(T_DIR, root_start)] \<le> FSSIZE" "32 \<le> MAXFILE * BSIZE"
    by (simp_all add: needs_def root_start_def blocks_def used_def layout NDIRECT_def MAXFILE_def NINDIRECT_def)
  obtain v where v: "iappend 1 (mk_dirent 1 [46]) u = Ok () v" "holds_files v [(T_DIR, mk_dirent 1 [46])]"
    using iappend_spec [OF u(2), of 0 "mk_dirent 1 [46]"] nd by auto
  obtain t where t: "iappend 1 (mk_dirent 1 [46, 46]) v = Ok () t" "holds_files t [(T_DIR, root_start)]"
    using iappend_spec [OF v(2), of 0 "mk_dirent 1 [46, 46]"] nd by (auto simp: root_start_def)
  have "mk_format s = Ok 1 t" unfolding mk_format_def
    using z w u(1) v(1) t(1) by (simp add: bnd_Ok ROOTINO_def)
  then show ?thesis using t(2) by blast
qed


section \<open>Copying the files\<close>

definition host_bytes :: "(byte list \<Rightarrow> byte list list option) \<Rightarrow> byte list \<Rightarrow> byte list" where
  "host_bytes host f = (case host f of None \<Rightarrow> [] | Some ps \<Rightarrow> concat (takeWhile (\<lambda>p. p \<noteq> []) ps))"

lemma needs_simps [simp]:
  "needs [] = 0" "needs (x # cs) = used (blocks (length (snd x))) + needs cs" "needs (cs @ ds) = needs cs + needs ds"
  by (simp_all add: needs_def)

lemma iappend_pieces:
  assumes "holds_files s cs" "i < length cs" "length (snd (cs ! i)) + length (concat ps) \<le> MAXFILE * BSIZE"
    "nmeta + needs (cs[i := (fst (cs ! i), snd (cs ! i) @ concat ps)]) \<le> FSSIZE"
  shows "\<exists>t. forM ps (iappend (of_nat (i + 1))) s = Ok () t \<and> holds_files t (cs[i := (fst (cs ! i), snd (cs ! i) @ concat ps)])"
  using assms
proof (induction ps arbitrary: s cs)
  case (Cons p ps)
  let ?x = "cs ! i"
  let ?cs = "cs[i := (fst ?x, snd ?x @ p)]"
  have i: "i < length cs" by fact
  have "used (blocks (length (snd ?x @ p))) \<le> used (blocks (length (snd ?x @ concat (p # ps))))"
    by (intro used_mono blocks_mono) simp
  then have "needs ?cs \<le> needs (cs[i := (fst ?x, snd ?x @ concat (p # ps))])"
    using needs_update [OF i, of "(fst ?x, snd ?x @ p)"] needs_update [OF i, of "(fst ?x, snd ?x @ concat (p # ps))"] by simp
  then have "nmeta + needs ?cs \<le> FSSIZE" using Cons.prems(4) by linarith
  then obtain u where u: "iappend (of_nat (i + 1)) p s = Ok () u" "holds_files u ?cs"
    using iappend_spec [OF Cons.prems(1) i, of p] Cons.prems(3) by auto
  have "\<exists>t. forM ps (iappend (of_nat (i + 1))) u = Ok () t \<and> holds_files t (?cs[i := (fst (?cs ! i), snd (?cs ! i) @ concat ps)])"
    by (rule Cons.IH [OF u(2)]) (use i Cons.prems(3,4) in simp_all)
  then show ?case using u(1) i by (auto simp: bnd_Ok simp del: of_nat_add)
qed simp

definition good_file :: "(byte list \<Rightarrow> byte list list option) \<Rightarrow> byte list \<Rightarrow> bool" where
  "good_file host f \<longleftrightarrow> host f \<noteq> None \<and> slash \<notin> set (shortname f) \<and> length (unmarked (shortname f)) \<le> DIRSIZ \<and>
     length (host_bytes host f) \<le> MAXFILE * BSIZE"

lemma mk_file_spec:
  assumes H: "holds_files s ((ty, r) # cs)" and g: "good_file host f" and n: "length cs + 2 < MAXINO"
    and mx: "length r + 16 \<le> MAXFILE * BSIZE"
    and sp: "nmeta + used (blocks (length r + 16)) + needs cs + used (blocks (length (host_bytes host f))) \<le> FSSIZE"
  shows "\<exists>t. mk_file host 1 f s = Ok () t \<and>
    holds_files t ((ty, r @ mk_dirent (of_nat (length cs + 2)) (unmarked (shortname f))) # cs @ [(T_FILE, host_bytes host f)])"
proof -
  let ?i = "of_nat (length cs + 2) :: u32" and ?e = "mk_dirent (of_nat (length cs + 2)) (unmarked (shortname f))"
  obtain ps where ps: "host f = Some ps" using g by (auto simp: good_file_def)
  have hb: "host_bytes host f = concat (takeWhile (\<lambda>p. p \<noteq> []) ps)" by (simp add: host_bytes_def ps)
  have z: "used (blocks 0) = 0" by (simp add: used_def blocks_bounds(5))
  obtain u where u: "mk_ialloc T_FILE s = Ok ?i u" "holds_files u ((ty, r) # cs @ [(T_FILE, [])])"
    using mk_ialloc_spec [OF H, of T_FILE] n by (auto simp: add.commute)
  obtain v where v: "iappend 1 ?e u = Ok () v" "holds_files v ((ty, r @ ?e) # cs @ [(T_FILE, [])])"
    using iappend_spec [OF u(2), of 0 ?e] mx sp z by auto
  obtain t where t: "forM (takeWhile (\<lambda>p. p \<noteq> []) ps) (iappend ?i) v = Ok () t"
    "holds_files t ((ty, r @ ?e) # cs @ [(T_FILE, host_bytes host f)])"
    using iappend_pieces [OF v(2), of "length cs + 1" "takeWhile (\<lambda>p. p \<noteq> []) ps"] g sp
    by (auto simp: hb good_file_def nth_append simp del: of_nat_add)
  have "mk_file host 1 f s = Ok () t"
    using g u(1) v(1) t(1) by (simp add: mk_file_def good_file_def ps bnd_Ok Let_def del: of_nat_add)
  then show ?thesis using t(2) by blast
qed

text \<open>The entries of the root directory for the files, numbered from \<open>k\<close> on.\<close>

fun dir_entries :: "nat \<Rightarrow> byte list list \<Rightarrow> byte list" where
  "dir_entries k [] = []"
| "dir_entries k (f # fs) = mk_dirent (of_nat k) (unmarked (shortname f)) @ dir_entries (k + 1) fs"

lemma length_dir_entries [simp]: "length (dir_entries k fs) = 16 * length fs"
  by (induction k fs rule: dir_entries.induct) simp_all

abbreviation copies :: "(byte list \<Rightarrow> byte list list option) \<Rightarrow> byte list list \<Rightarrow> (u16 \<times> byte list) list" where
  "copies host fs \<equiv> map (\<lambda>f. (T_FILE, host_bytes host f)) fs"

lemma mk_files_spec:
  assumes "holds_files s ((ty, r) # cs)" "\<forall>f \<in> set fs. good_file host f" "length cs + length fs + 1 < MAXINO"
    "length r + 16 * length fs \<le> MAXFILE * BSIZE"
    "nmeta + used (blocks (length r + 16 * length fs)) + needs cs + needs (copies host fs) \<le> FSSIZE"
  shows "\<exists>t. forM fs (mk_file host 1) s = Ok () t \<and>
    holds_files t ((ty, r @ dir_entries (length cs + 2) fs) # cs @ copies host fs)"
  using assms
proof (induction fs arbitrary: s r cs)
  case (Cons f fs)
  let ?e = "mk_dirent (of_nat (length cs + 2)) (unmarked (shortname f))"
  have "used (blocks (length r + 16)) \<le> used (blocks (length r + 16 * length (f # fs)))" by (intro used_mono blocks_mono) simp
  then have "nmeta + used (blocks (length r + 16)) + needs cs + used (blocks (length (host_bytes host f))) \<le> FSSIZE"
    using Cons.prems(5) by simp
  then obtain u where u: "mk_file host 1 f s = Ok () u" "holds_files u ((ty, r @ ?e) # cs @ [(T_FILE, host_bytes host f)])"
    using mk_file_spec [OF Cons.prems(1), of host f] Cons.prems(2-4) by auto
  have "\<exists>t. forM fs (mk_file host 1) u = Ok () t \<and> holds_files t ((ty, (r @ ?e) @
      dir_entries (length (cs @ [(T_FILE, host_bytes host f)]) + 2) fs) # (cs @ [(T_FILE, host_bytes host f)]) @ copies host fs)"
    by (rule Cons.IH [OF u(2)]) (use Cons.prems(2-5) in \<open>simp_all add: algebra_simps\<close>)
  then show ?case using u(1) by (auto simp: bnd_Ok simp del: of_nat_add)
qed simp

section \<open>The bitmap\<close>

lemma bit_mask_and: "bit_mask i AND bit_mask j = 0 \<longleftrightarrow> i mod 8 \<noteq> j mod 8"
proof -
  have b: "bit (bit_mask k) n \<longleftrightarrow> n = k mod 8" for k n
    unfolding bit_mask_def by (auto simp: bit_simps)
  show ?thesis using bit_eq_iff [of "bit_mask i AND bit_mask j" 0] by (auto simp: bit_and_iff b)
qed

lemma bitmap_spec:
  assumes "n \<le> BPB" "b < BPB"
  shows "length (bitmap n) = BSIZE \<and> (bit_free (bitmap n) b \<longleftrightarrow> n \<le> b)"
  using assms
proof (induction n)
  case 0
  have "b div 8 < BSIZE" using 0(2) by (simp add: BPB_def less_mult_imp_div_less)
  then show ?case by (simp add: bitmap_def bit_free_def)
next
  case (Suc n)
  have l: "length (bitmap n) = BSIZE" and ih: "bit_free (bitmap n) b \<longleftrightarrow> n \<le> b" using Suc by simp_all
  have s: "bitmap (Suc n) = (bitmap n)[n div 8 := bitmap n ! (n div 8) OR bit_mask n]" by (simp add: bitmap_def)
  have lt: "n div 8 < BSIZE" using Suc.prems by (simp add: BPB_def less_mult_imp_div_less)
  show ?case
  proof (cases "b div 8 = n div 8")
    case True
    have "bit_free (bitmap (Suc n)) b \<longleftrightarrow> (bitmap n ! (b div 8) AND bit_mask b) OR (bit_mask n AND bit_mask b) = 0"
      using True l lt by (simp add: bit_free_def s bit.conj_disj_distrib2)
    also have "\<dots> \<longleftrightarrow> bit_free (bitmap n) b \<and> bit_mask n AND bit_mask b = 0"
      by (simp add: bit_free_def bit.disj_zero_right or_eq_0_iff)
    also have "\<dots> \<longleftrightarrow> n \<le> b \<and> n \<noteq> b"
      unfolding ih bit_mask_and using True by (metis div_mult_mod_eq)
    finally show ?thesis using l by (auto simp: s)
  next
    case False
    then have "bit_free (bitmap (Suc n)) b \<longleftrightarrow> bit_free (bitmap n) b" by (simp add: bit_free_def s)
    moreover have "n \<noteq> b" using False by auto
    ultimately show ?thesis using l ih by (auto simp: s)
  qed
qed


section \<open>The whole image\<close>

lemma bmapstart_val: "sb_bmapstart mk_super = 45"
  by (simp add: mk_super_def layout)

text \<open>The size of the root directory is rounded up, and the bitmap is written.\<close>

lemma mk_finish_spec:
  assumes H: "holds_files s ((T_DIR, r) # cs)"
  shows "\<exists>t. mk_finish 1 s = Ok () t \<and> length (img t) = FSSIZE \<and> superblock_of (blk t 1) = mk_super \<and> freeblock t = freeblock s \<and>
    blk t 45 = bitmap (unat (freeblock s)) \<and> d_type (dino t 1) = T_DIR \<and>
    unat (d_size (dino t 1)) = (length r div BSIZE + 1) * BSIZE \<and> file_bytes (blk t) (d_addrs (dino t 1)) 0 (length r) = r \<and>
    (\<forall>i < length cs. holds_file t (of_nat (i + 2)) (cs ! i) \<and> extent t (of_nat (i + 2)) = extent s (of_nat (i + 2)))"
proof -
  note D = holds_files_D [OF H]
  let ?d = "dino s 1" and ?sz = "(d_size (dino s 1) div 1024 + 1) * 1024"
  have one: "unat (1 :: u32) < MAXINO" by (simp add: MAXINO_val)
  have h: "holds_file s 1 (T_DIR, r)" using D(6) [of 0] by simp
  then have d: "d_type ?d = T_DIR" "unat (d_size ?d) = length r" "length r \<le> MAXFILE * BSIZE"
      "mapped (blk s) (d_addrs ?d) (blocks (length r)) (unat (freeblock s))" "file_bytes (blk s) (d_addrs ?d) 0 (length r) = r"
    by (simp_all add: holds_file_def Let_def)
  have sz: "unat ?sz = (length r div BSIZE + 1) * BSIZE"
  proof -
    have "length r div 1024 \<le> 268" using d(3) by (simp add: MAXFILE_def NDIRECT_def NINDIRECT_def BSIZE_def)
    then have "unat (d_size ?d div 1024 + 1) = length r div 1024 + 1" "length r div 1024 + 1 < 1000"
      by (simp_all add: unat_add_small unat_div d(2))
    moreover have "unat (x * 1024) = unat x * 1024" if "unat x < 1000" for x :: u32 using that by (simp add: unat_word_ariths)
    ultimately show ?thesis by (simp only: BSIZE_def)
  qed
  have "length (d_addrs (?d\<lparr>d_size := ?sz\<rparr>)) = NDIRECT + 1" using d(4) by (simp add: mapped_def)
  then obtain u where u: "winode 1 (?d\<lparr>d_size := ?sz\<rparr>) s = Ok () u" "img_ok u" "freeblock u = freeblock s"
    "\<forall>b. unat b < 2 + nlog \<or> 2 + nlog + ninodeblocks \<le> unat b \<longrightarrow> blk u b = blk s b"
    "\<forall>j. unat j < MAXINO \<longrightarrow> dino u j = (if j = 1 then ?d\<lparr>d_size := ?sz\<rparr> else dino s j)"
    using winode_ok [OF D(1) one] by blast
  define t where "t = set_blk 45 (bitmap (unat (freeblock s))) u"
  have F: "unat (45 :: u32) < FSSIZE" by (simp add: FSSIZE_def)
  have C: "blk t = (blk u)(45 := bitmap (unat (freeblock s)))" unfolding t_def by (rule blk_set_blk [OF u(2) F])
  have ft: "freeblock t = freeblock u" "length (img t) = FSSIZE" using img_ok_D(1) [OF u(2)] by (simp_all add: t_def)
  have fbB: "unat (freeblock s) < BPB" using img_ok_D(4) [OF D(1)] by (simp add: layout)
  have run: "mk_finish 1 s = Ok () t"
    using rinode_ok [OF D(1) one] u(1,3) wsect_ok [OF u(2) F] img_ok_D(2) [OF u(2)] fbB bmapstart_val
    by (simp add: mk_finish_def mk_balloc_def bnd_Ok Let_def BSIZE_def t_def)
  have same: "blk t b = blk s b" if "unat b < 2 + nlog \<or> nmeta \<le> unat b" for b
    using u(4) that unfolding C by (auto simp: layout)
  have dt: "dino t j = dino u j" if j: "unat j < MAXINO" for j
  proof -
    have "unat (IBLOCK j mk_super) < 45" using unat_IBLOCK(1) [OF j] j by (simp add: MAXINO_val layout less_mult_imp_div_less)
    then have "IBLOCK j mk_super \<noteq> 45" by auto
    then show ?thesis unfolding dino_def C by simp
  qed
  have b45: "blk t 45 = bitmap (unat (freeblock s))" unfolding C by simp
  have d1: "dino t 1 = ?d\<lparr>d_size := ?sz\<rparr>" using dt [OF one] u(5) one by simp
  have s0: "blk t 0 = blk s 0" "blk t 1 = blk s 1" using same by (simp_all add: layout)
  have "blk t (d_addrs ?d ! NDIRECT) = blk s (d_addrs ?d ! NDIRECT)"
    using d(4) same s0(1) by (cases "NDIRECT < blocks (length r)") (simp_all add: mapped_def)
  moreover have "\<forall>b \<in> filled (blk s) (d_addrs ?d) (blocks (length r)). blk t b = blk s b"
    using mapped_filled [OF d(4)] same by blast
  ultimately have "file_bytes (blk t) (d_addrs ?d) 0 (length r) = r" using d(5) by (subst file_bytes_cong [where C = "blk s"]) simp_all
  then have root: "file_bytes (blk t) (d_addrs (dino t 1)) 0 (length r) = r" by (simp add: d1)
  have "holds_file t (of_nat (i + 2)) (cs ! i) \<and> extent t (of_nat (i + 2)) = extent s (of_nat (i + 2))" if i: "i < length cs" for i
  proof -
    have i': "i + 1 < length ((T_DIR, r) # cs)" using i by simp
    have n: "of_nat (i + 1 + 1) = (of_nat (i + 2) :: u32)" by (simp only: numeral_2_eq_2) simp
    have hi: "holds_file s (of_nat (i + 2)) (cs ! i)" using D(6) [OF i'] unfolding n by simp
    have j: "unat (of_nat (i + 2) :: u32) < MAXINO" by (rule inum_of(2) [OF i' D(3), unfolded n])
    have "unat (of_nat (i + 2) :: u32) \<noteq> unat (1 :: u32)" unfolding inum_of(1) [OF i' D(3), unfolded n] by simp
    then have j1: "(of_nat (i + 2) :: u32) \<noteq> 1" by (metis (no_types))
    have "dino t (of_nat (i + 2)) = dino s (of_nat (i + 2))" using dt [OF j] u(5) j j1 by (simp del: of_nat_add)
    then show ?thesis using holds_file_same [OF hi, of t] s0(1) same holds_file_extent [OF hi] u(3) ft by simp
  qed
  then show ?thesis using run root d(1) sz d1 D(2) s0(2) ft u(3) b45
    by (intro exI [of _ t]) (simp del: of_nat_add)
qed

text \<open>
  C12. Given files with names that fit, that can be opened and together fit on the disk, \<open>mkfs\<close> runs to
  its end and makes an image of \<open>FSSIZE\<close> blocks in the format the kernel reads: the super block has the
  layout; inode 1 is a directory that starts with \<open>.\<close> and \<open>..\<close> and has one entry for each file, in the order
  of the arguments and without the prefix \<open>user/\<close> and the underscore, and its size is rounded up to
  whole blocks; inode \<open>i + 2\<close> is a file with exactly the bytes that \<open>read\<close> returned for the \<open>i\<close>th
  argument, also through the indirect block; no two files share a block; and the bitmap marks as used
  exactly the blocks handed out, among them every block of a file.
\<close>

theorem mkfs_image:
  assumes "2 \<le> length argv" "creat (argv ! 1)" "fs = drop 2 argv" "\<forall>f \<in> set fs. good_file host f"
    "length fs + 2 \<le> NINODES"
    "nmeta + used (blocks (16 * (length fs + 2))) + (\<Sum>f \<leftarrow> fs. used (blocks (length (host_bytes host f)))) \<le> FSSIZE"
    "\<forall>n. \<not> bad s n" "freeinode s = 1"
  shows "\<exists>t. mkfs_main creat host argv s = Ok () t \<and> length (img t) = FSSIZE \<and> superblock_of (blk t 1) = mk_super \<and>
    d_type (dino t 1) = T_DIR \<and> unat (d_size (dino t 1)) = (16 * (length fs + 2) div BSIZE + 1) * BSIZE \<and>
    file_bytes (blk t) (d_addrs (dino t 1)) 0 (16 * (length fs + 2)) = mk_dirent 1 [46] @ mk_dirent 1 [46, 46] @ dir_entries 2 fs \<and>
    (\<forall>i < length fs. holds_file t (of_nat (i + 2)) (T_FILE, host_bytes host (fs ! i))) \<and>
    (\<forall>i < length fs. \<forall>j < length fs. i \<noteq> j \<longrightarrow> extent t (of_nat (i + 2)) \<inter> extent t (of_nat (j + 2)) = {}) \<and>
    (\<forall>b < FSSIZE. bit_free (blk t (sb_bmapstart mk_super)) b \<longleftrightarrow> unat (freeblock t) \<le> b) \<and>
    (\<forall>i < length fs. \<forall>b \<in> extent t (of_nat (i + 2)). nmeta \<le> unat b \<and> unat b < unat (freeblock t))"
proof -
  let ?n = "length fs" and ?r = "root_start @ dir_entries 2 fs" and ?cs = "copies host fs"
  have lr: "length ?r = 16 * (?n + 2)" by (simp add: root_start_def)
  have nd: "needs ?cs = (\<Sum>f \<leftarrow> fs. used (blocks (length (host_bytes host f))))" by (simp add: needs_def o_def)
  obtain s1 where s1: "mk_format s = Ok 1 s1" "holds_files s1 [(T_DIR, root_start)]" using mk_format_spec [OF assms(7,8)] by blast
  have sm: "length root_start + 16 * ?n \<le> MAXFILE * BSIZE" "length ([] :: (u16 \<times> byte list) list) + ?n + 1 < MAXINO"
    using assms(5) by (simp_all add: root_start_def MAXFILE_def NDIRECT_def NINDIRECT_def BSIZE_def NINODES_def MAXINO_val)
  have "16 * (?n + 2) = length root_start + 16 * ?n" by (simp add: root_start_def)
  then have "nmeta + used (blocks (length root_start + 16 * ?n)) + needs [] + needs ?cs \<le> FSSIZE" using assms(6) nd by simp
  then obtain s2 where s2: "forM fs (mk_file host 1) s1 = Ok () s2" "holds_files s2 ((T_DIR, ?r) # ?cs)"
    using mk_files_spec [OF s1(2) assms(4) sm(2,1)] by (auto simp del: add_2_eq_Suc')
  obtain t where t: "mk_finish 1 s2 = Ok () t" "length (img t) = FSSIZE" "superblock_of (blk t 1) = mk_super" "freeblock t = freeblock s2"
    "blk t 45 = bitmap (unat (freeblock s2))" "d_type (dino t 1) = T_DIR" "unat (d_size (dino t 1)) = (length ?r div BSIZE + 1) * BSIZE"
    "file_bytes (blk t) (d_addrs (dino t 1)) 0 (length ?r) = ?r"
    and f: "\<forall>i < length ?cs. holds_file t (of_nat (i + 2)) (?cs ! i) \<and> extent t (of_nat (i + 2)) = extent s2 (of_nat (i + 2))"
    using mk_finish_spec [OF s2(2)] by blast
  have run: "mkfs_main creat host argv s = Ok () t"
    using assms(1-3) s1(1) s2(1) t(1) by (simp add: mkfs_main_def bnd_Ok)
  have files: "holds_file t (of_nat (i + 2)) (T_FILE, host_bytes host (fs ! i))" if "i < ?n" for i using f that by simp
  have apart: "extent t (of_nat (i + 2)) \<inter> extent t (of_nat (j + 2)) = {}" if "i < ?n" "j < ?n" "i \<noteq> j" for i j
    using f that holds_files_D(7) [OF s2(2), of "i + 1" "j + 1"] by simp
  have "unat (freeblock s2) \<le> BPB" "FSSIZE \<le> BPB" using img_ok_D(4) [OF holds_files_D(1) [OF s2(2)]] by (simp_all add: layout)
  then have bits: "bit_free (blk t (sb_bmapstart mk_super)) b \<longleftrightarrow> unat (freeblock t) \<le> b" if "b < FSSIZE" for b
    using bitmap_spec [of "unat (freeblock s2)" b] that t(4,5) by (simp add: bmapstart_val)
  have range: "nmeta \<le> unat b \<and> unat b < unat (freeblock t)" if "i < ?n" "b \<in> extent t (of_nat (i + 2))" for i b
    using holds_file_extent [OF files] that by blast
  have root: "file_bytes (blk t) (d_addrs (dino t 1)) 0 (16 * (?n + 2)) = mk_dirent 1 [46] @ mk_dirent 1 [46, 46] @ dir_entries 2 fs"
    "unat (d_size (dino t 1)) = (16 * (?n + 2) div BSIZE + 1) * BSIZE"
    using t(7,8) unfolding lr by (simp_all add: root_start_def)
  show ?thesis using run t(2,3,6) root files apart bits range by (intro exI [of _ t]) blast
qed

text \<open>One file, \<open>user/_a\<close>, with three bytes.\<close>

theorem mkfs_image_witness:
  "let host = (\<lambda>f. Some [[1, 2], [3]]); s = \<lparr>img = [], msb = mk_super, freeinode = 1, freeblock = 0, bad = (\<lambda>_. False)\<rparr> in
   \<exists>t. mkfs_main (\<lambda>_. True) host [[109], [105], [117, 115, 101, 114, 47, 95, 97]] s = Ok () t \<and>
     holds_file t 2 (T_FILE, [1, 2, 3])"
proof -
  let ?host = "\<lambda>f :: byte list. Some [[1, 2], [3 :: byte]]" and ?f = "[117, 115, 101, 114, 47, 95, 97] :: byte list"
  let ?s = "\<lparr>img = [], msb = mk_super, freeinode = 1, freeblock = 0, bad = (\<lambda>_. False)\<rparr>"
  have hb: "host_bytes ?host f = [1, 2, 3]" for f by (simp add: host_bytes_def)
  have g: "good_file ?host ?f"
    by (simp add: good_file_def hb shortname_def user_dir_def unmarked_def slash_def DIRSIZ_def MAXFILE_def NDIRECT_def
      NINDIRECT_def BSIZE_def)
  have "nmeta + used (blocks (16 * (length [?f] + 2))) + (\<Sum>f \<leftarrow> [?f]. used (blocks (length (host_bytes ?host f)))) \<le> FSSIZE"
    by (simp add: hb blocks_def used_def layout NDIRECT_def)
  then show ?thesis using mkfs_image [of "[[109], [105], ?f]" "\<lambda>_. True" "[?f]" ?host ?s] g
    by (auto simp: hb NINODES_def)
qed


section \<open>The log on the image\<close>

text \<open>
  C40. The log that \<open>mkfs\<close> lays out is one block too short for what \<open>begin_op\<close> promises. \<open>nlog\<close> counts the
  header, so there is room for \<open>LOGSIZE - 1\<close> blocks; but \<open>begin_op\<close> admits operations as long as
  \<open>MAXOPBLOCKS\<close> for each of them add up to \<open>LOGSIZE\<close>. With the super block of the image, a third operation
  is let in beside two others, and once the three have logged all blocks promised to them but one,
  the next \<open>log_write\<close> of any of them stops the kernel with \<open>too big a transaction\<close>.
\<close>

theorem mkfs_log_one_short:
  fixes s :: "'z log_st_scheme"
  assumes "held s = []" "cur s = Some p" "p < length (procs s)" "\<not> l_committing s"
    "l_size s = sint (sb_nlog mk_super)" "lh_n (l_lh s) = 0" "l_outstanding s = 2"
  shows "begin_op s = Ok () (s\<lparr>l_outstanding := 3\<rparr>) \<and>
    (\<forall>(t :: 'z log_st_scheme) b. held t = [] \<and> l_size t = l_size s \<and> lh_n (l_lh t) = 3 * int MAXOPBLOCKS - 1 \<longrightarrow>
      log_write b t = Panic ''too big a transaction'')"
proof -
  have sz: "l_size s = int LOGSIZE" using assms(5) by (simp add: mk_super_def nlog_def LOGSIZE_def MAXOPBLOCKS_def)
  have "begin_op s = Ok () (s\<lparr>l_outstanding := 3\<rparr>)"
    using assms by (simp add: begin_op_def begin_op_loop_def bnd_case acquire_def release_def LOGSIZE_def MAXOPBLOCKS_def)
  moreover have "log_write b t = Panic ''too big a transaction''"
    if "held t = []" "l_size t = l_size s" "lh_n (l_lh t) = 3 * int MAXOPBLOCKS - 1" for t :: "'z log_st_scheme" and b
    using that sz by (simp add: log_write_def bnd_case acquire_def panic_if_def panic_def LOGSIZE_def MAXOPBLOCKS_def)
  ultimately show ?thesis by blast
qed

theorem mkfs_log_one_short_witness:
  "let s = log_example\<lparr>l_outstanding := 2, l_size := 30, l_lh := (l_lh log_example)\<lparr>lh_n := 0\<rparr>\<rparr> in
   begin_op s = Ok () (s\<lparr>l_outstanding := 3\<rparr>) \<and>
   log_write 0 (s\<lparr>l_outstanding := 3, l_lh := (l_lh s)\<lparr>lh_n := 29\<rparr>\<rparr>) = Panic ''too big a transaction''"
proof -
  let ?s = "log_example\<lparr>l_outstanding := 2, l_size := 30, l_lh := (l_lh log_example)\<lparr>lh_n := 0\<rparr>\<rparr>"
  let ?t = "?s\<lparr>l_outstanding := 3, l_lh := (l_lh ?s)\<lparr>lh_n := 29\<rparr>\<rparr>"
  have h: "held log_example = []" using log_example_ok(1) by (auto simp: ready_def bc_def thr_ok_def)
  have z: "sint (sb_nlog mk_super) = 30" by (simp add: mk_super_def nlog_def LOGSIZE_def MAXOPBLOCKS_def)
  have "held ?s = []" "cur ?s = Some 0" "0 < length (procs ?s)" "\<not> l_committing ?s"
      "l_size ?s = sint (sb_nlog mk_super)" "lh_n (l_lh ?s) = 0" "l_outstanding ?s = 2"
    using h z by (simp_all add: log_example_def NPROC_def)
  note p = mkfs_log_one_short [OF this]
  have "held ?t = [] \<and> l_size ?t = l_size ?s \<and> lh_n (l_lh ?t) = 3 * int MAXOPBLOCKS - 1" using h by (simp add: MAXOPBLOCKS_def)
  then have "log_write 0 ?t = Panic ''too big a transaction''" using p by blast
  then show ?thesis using p by (simp add: Let_def)
qed

end
